(* ===== verification/Kernel_Prelude.thy ===== *)
theory Kernel_Prelude
  imports Main "HOL-Library.Word"
begin

unbundle bit_operations_syntax

text \<open>
  The vocabulary every component of the development shares: the machine integer types of
  \<^verbatim>\<open>klibcpp/cstdint.hpp\<close>, the ways a run of the kernel can stop (a call of
  \<^verbatim>\<open>kstd::panic\<close>, a failed \<^verbatim>\<open>assert\<close>, undefined behaviour of C++, a page fault),
  results that may be such a stop, the counting loop \<^verbatim>\<open>for (uint32_t i = a; i < n; ++i)\<close>
  with its invariant rules, and generic facts on words and lists.
\<close>

section \<open>Machine integers\<close>

type_synonym u8 = "8 word"
type_synonym u16 = "16 word"
type_synonym u32 = "32 word"
type_synonym u64 = "64 word"

named_theorems u32_arith \<open>moving 32-bit arithmetic that does not wrap to natural numbers\<close>

lemma unat_u32_lt [simp]: "unat (x :: u32) < 4294967296"
  using unsigned_less [of x, where 'a = nat] by simp

lemma unat_u32_le [simp]: "unat (x :: u32) \<le> 4294967295"
  using unat_u32_lt [of x] by linarith

lemma unat_of_nat_u32 [u32_arith]: "n < 4294967296 \<Longrightarrow> unat (word_of_nat n :: u32) = n"
  by (simp add: unat_of_nat)

lemma unat_add_u32 [u32_arith]:
  "unat x + unat y < 4294967296 \<Longrightarrow> unat (x + y :: u32) = unat x + unat y"
  by (subst unat_add_lem [THEN iffD1]) simp_all

lemma unat_mult_u32 [u32_arith]:
  "unat x * unat y < 4294967296 \<Longrightarrow> unat (x * y :: u32) = unat x * unat y"
  by (subst unat_mult_lem [THEN iffD1]) simp_all

lemma unat_sub_u32 [u32_arith]: "y \<le> x \<Longrightarrow> unat (x - y :: u32) = unat x - unat y"
  by (rule unat_sub)

lemma unat_Suc_u32 [u32_arith]: "i < (n :: u32) \<Longrightarrow> unat (i + 1) = Suc (unat i)"
proof -
  assume "i < n"
  then have "unat i < unat n" by (simp add: word_less_nat_alt)
  moreover have "unat n < 4294967296" by simp
  ultimately have "unat i + 1 < 4294967296" by linarith
  then have "unat i + unat (1 :: u32) < 4294967296" by (simp only: unat_1)
  then show ?thesis by (subst unat_add_u32) simp_all
qed

lemma u32_less_iff: "(x :: u32) < y \<longleftrightarrow> unat x < unat y"
  by (rule word_less_nat_alt)

lemma u32_le_iff: "(x :: u32) \<le> y \<longleftrightarrow> unat x \<le> unat y"
  by (rule word_le_nat_alt)

lemma u32_eq_iff: "(x :: u32) = y \<longleftrightarrow> unat x = unat y"
  by (rule word_unat_eq_iff)

text \<open>Masks of low bits, which the code uses to align and to split addresses.\<close>

lemma and_not_mask_eq: "x AND NOT (mask n) = push_bit n (drop_bit n x)" for x :: "'a::len word"
  by (rule bit_word_eqI) (auto simp: bit_simps not_less dest: bit_imp_le_length)

lemma unat_take_bit: "unat (take_bit n x) = unat x mod 2 ^ n" for x :: "'a::len word"
  by (simp only: unsigned_take_bit_eq) (rule take_bit_eq_mod)

lemma unat_and_mask: "unat (x AND mask n) = unat x mod 2 ^ n" for x :: "'a::len word"
  using unat_take_bit [of n x] by (simp only: take_bit_eq_mask)

lemma unat_and_not_mask: "unat (x AND NOT (mask n)) = unat x div 2 ^ n * 2 ^ n"
  for x :: "'a::len word"
proof -
  have "x AND NOT (mask n) = x - take_bit n x"
    using bits_ident [of n x] by (simp add: and_not_mask_eq algebra_simps)
  moreover have "take_bit n x \<le> x"
    by (simp add: word_le_nat_alt unat_take_bit)
  ultimately have "unat (x AND NOT (mask n)) = unat x - unat x mod 2 ^ n"
    by (simp add: unat_sub unat_take_bit)
  then show ?thesis by (simp add: minus_mod_eq_div_mult)
qed

section \<open>Results that may stop the kernel\<close>

text \<open>
  \<open>Panic\<close> carries the message given to \<^verbatim>\<open>kstd::panic\<close>, which prints it and never returns;
  \<open>Assert\<close> is a failed \<^verbatim>\<open>assert\<close>, which also never returns (\<^verbatim>\<open>kstd::_assert\<close>);
  \<open>Undefined\<close> is an access the C++ standard gives no meaning to (an array index out of
  range, a null dereference); \<open>Page_Fault\<close> is an access to an address with no mapping.
\<close>

datatype kfault = Panic string | Assert string | Undefined | Page_Fault u32

type_synonym 'a kres = "kfault + 'a"

definition bindR :: "'a kres \<Rightarrow> ('a \<Rightarrow> 'b kres) \<Rightarrow> 'b kres" where
  "bindR m f = (case m of Inl e \<Rightarrow> Inl e | Inr x \<Rightarrow> f x)"

definition guardR :: "bool \<Rightarrow> kfault \<Rightarrow> unit kres" where
  "guardR b e = (if b then Inr () else Inl e)"

lemma bindR_simps [simp]:
  "bindR (Inl e) f = Inl e"
  "bindR (Inr x) f = f x"
  by (simp_all add: bindR_def)

lemma guardR_simps [simp]:
  "guardR True e = Inr ()"
  "guardR False e = Inl e"
  by (simp_all add: guardR_def)

lemma bindR_eq_Inr: "bindR m f = Inr y \<longleftrightarrow> (\<exists>x. m = Inr x \<and> f x = Inr y)"
  by (cases m) simp_all

lemma bindR_eq_Inl: "bindR m f = Inl e \<longleftrightarrow> m = Inl e \<or> (\<exists>x. m = Inr x \<and> f x = Inl e)"
  by (cases m) simp_all

lemma guardR_eq_Inr: "guardR b e = Inr u \<longleftrightarrow> b"
  by (simp add: guardR_def)

lemma guardR_eq_Inl: "guardR b e = Inl e' \<longleftrightarrow> \<not> b \<and> e' = e"
  by (auto simp: guardR_def)

lemma bindR_cong [fundef_cong]:
  "m = m' \<Longrightarrow> (\<And>x. m' = Inr x \<Longrightarrow> f x = f' x) \<Longrightarrow> bindR m f = bindR m' f'"
  by (cases m') simp_all

lemma bindR_assoc: "bindR (bindR m f) g = bindR m (\<lambda>x. bindR (f x) g)"
  by (cases m) simp_all

lemma not_isl_Inr: "\<not> isl m \<Longrightarrow> \<exists>x. m = Inr x"
  by (cases m) simp_all

lemmas kres_iffs = bindR_eq_Inr bindR_eq_Inl guardR_eq_Inr guardR_eq_Inl

section \<open>Counting loops\<close>

text \<open>
  \<open>for_u32 i n f s\<close> is \<^verbatim>\<open>for (uint32_t k = i; k < n; ++k) s = f(k, s)\<close>. The guard keeps
  \<^verbatim>\<open>k\<close> below \<^verbatim>\<open>n\<close>, so the increment never wraps and the loop ends.
\<close>

function for_u32 :: "u32 \<Rightarrow> u32 \<Rightarrow> (u32 \<Rightarrow> 's \<Rightarrow> 's kres) \<Rightarrow> 's \<Rightarrow> 's kres" where
  "for_u32 i n f s =
     (if i < n then bindR (f i s) (\<lambda>s'. for_u32 (i + 1) n f s') else Inr s)"
  by pat_completeness auto
termination
proof (relation "measure (\<lambda>(i, n, f, s). unat n - unat i)", goal_cases)
  case 1
  show ?case by simp
next
  case (2 i n f s s')
  then show ?case using unat_Suc_u32 [of i n] by (simp add: u32_less_iff)
qed

declare for_u32.simps [simp del]

lemma for_u32_done [simp]: "\<not> i < n \<Longrightarrow> for_u32 i n f s = Inr s"
  by (simp add: for_u32.simps)

lemma for_u32_step: "i < n \<Longrightarrow> for_u32 i n f s = bindR (f i s) (for_u32 (i + 1) n f)"
  by (subst for_u32.simps) simp

text \<open>Total correctness: an invariant indexed by the counter, with a body that does not stop.\<close>

lemma for_u32_total:
  assumes "I (unat i) s" and "i \<le> n"
    and "\<And>k s. i \<le> k \<Longrightarrow> k < n \<Longrightarrow> I (unat k) s \<Longrightarrow> \<exists>s'. f k s = Inr s' \<and> I (Suc (unat k)) s'"
  shows "\<exists>s'. for_u32 i n f s = Inr s' \<and> I (unat n) s'"
  using assms
proof (induction i n f s rule: for_u32.induct)
  case (1 i n f s)
  show ?case
  proof (cases "i < n")
    case True
    then obtain s1 where s1: "f i s = Inr s1" and I1: "I (Suc (unat i)) s1"
      using "1.prems"(1,3) by blast
    have suc: "unat (i + 1) = Suc (unat i)" using True by (rule unat_Suc_u32)
    have le: "i + 1 \<le> n" using True suc by (simp add: u32_le_iff u32_less_iff)
    have "\<exists>s'. for_u32 (i + 1) n f s1 = Inr s' \<and> I (unat n) s'"
    proof (rule "1.IH" [OF True s1 _ le])
      show "I (unat (i + 1)) s1" using I1 suc by simp
      show "\<exists>s'. f k s = Inr s' \<and> I (Suc (unat k)) s'"
        if "i + 1 \<le> k" "k < n" "I (unat k) s" for k s
      proof (rule "1.prems"(3) [OF _ that(2,3)])
        show "i \<le> k" using that(1) suc by (simp add: u32_le_iff)
      qed
    qed
    then show ?thesis using True s1 by (simp add: for_u32_step)
  next
    case False
    with "1.prems"(2) have "i = n" by simp
    with "1.prems"(1) False show ?thesis by simp
  qed
qed

text \<open>Partial correctness: what holds of the state when the loop is known to have ended.\<close>

lemma for_u32_partial:
  assumes "for_u32 i n f s = Inr s'" and "I (unat i) s" and "i \<le> n"
    and "\<And>k s s'. i \<le> k \<Longrightarrow> k < n \<Longrightarrow> I (unat k) s \<Longrightarrow> f k s = Inr s' \<Longrightarrow> I (Suc (unat k)) s'"
  shows "I (unat n) s'"
  using assms
proof (induction i n f s rule: for_u32.induct)
  case (1 i n f s)
  show ?case
  proof (cases "i < n")
    case True
    then obtain s1 where s1: "f i s = Inr s1" and rest: "for_u32 (i + 1) n f s1 = Inr s'"
      using "1.prems"(1) by (auto simp: for_u32_step bindR_eq_Inr)
    have suc: "unat (i + 1) = Suc (unat i)" using True by (rule unat_Suc_u32)
    have le: "i + 1 \<le> n" using True suc by (simp add: u32_le_iff u32_less_iff)
    show ?thesis
    proof (rule "1.IH" [OF True s1 rest _ le])
      show "I (unat (i + 1)) s1" using "1.prems"(2) "1.prems"(4) [OF _ True _ s1] suc by simp
      show "I (Suc (unat k)) s'"
        if "i + 1 \<le> k" "k < n" "I (unat k) s" "f k s = Inr s'" for k s s'
      proof (rule "1.prems"(4) [OF _ that(2-4)])
        show "i \<le> k" using that(1) suc by (simp add: u32_le_iff)
      qed
    qed
  next
    case False
    with "1.prems" show ?thesis by simp
  qed
qed

text \<open>A loop whose body stops the kernel at a known turn, and not before, stops with that fault.\<close>

lemma for_u32_stops:
  assumes "I (unat i) s" and "i \<le> m" and "m < n"
    and "\<And>k s. i \<le> k \<Longrightarrow> k < m \<Longrightarrow> I (unat k) s \<Longrightarrow> \<exists>s'. f k s = Inr s' \<and> I (Suc (unat k)) s'"
    and "\<And>s. I (unat m) s \<Longrightarrow> f m s = Inl e"
  shows "for_u32 i n f s = Inl e"
  using assms
proof (induction i n f s rule: for_u32.induct)
  case (1 i n f s)
  have lt: "i < n" using "1.prems"(2,3) by (rule order.strict_trans1)
  show ?case
  proof (cases "i = m")
    case True
    with "1.prems"(1,5) lt show ?thesis by (simp add: for_u32_step)
  next
    case False
    with "1.prems"(2) have im: "i < m" by simp
    then obtain s1 where s1: "f i s = Inr s1" and I1: "I (Suc (unat i)) s1"
      using "1.prems"(1,4) by blast
    have suc: "unat (i + 1) = Suc (unat i)" using lt by (rule unat_Suc_u32)
    have le: "i + 1 \<le> m" using im suc by (simp add: u32_le_iff u32_less_iff)
    have "for_u32 (i + 1) n f s1 = Inl e"
    proof (rule "1.IH" [OF lt s1 _ le "1.prems"(3) _ "1.prems"(5)])
      show "I (unat (i + 1)) s1" using I1 suc by simp
      show "\<exists>s'. f k s = Inr s' \<and> I (Suc (unat k)) s'"
        if "i + 1 \<le> k" "k < m" "I (unat k) s" for k s
      proof (rule "1.prems"(4) [OF _ that(2,3)])
        show "i \<le> k" using that(1) suc by (simp add: u32_le_iff)
      qed
    qed
    then show ?thesis using lt s1 by (simp add: for_u32_step)
  qed
qed

text \<open>A 32-bit number below 2^31 is the same signed and unsigned.\<close>

lemma sint_small:
  assumes "unat (t :: u32) < 2147483648"
  shows "sint t = int (unat t)"
proof -
  have "uint t = int (unat t)" by simp
  then have "uint t < 2147483648" "- 2147483648 \<le> uint t" using assms uint_ge_0 [of t] by linarith+
  then have "signed_take_bit 31 (uint t) = uint t" by (intro signed_take_bit_int_eq_self) auto
  then show ?thesis by (simp add: sint_uint)
qed

section \<open>Runs that may fault or not end\<close>

type_synonym 'a krun = "'a kres option"

definition bindK :: "'a krun \<Rightarrow> ('a \<Rightarrow> 'b krun) \<Rightarrow> 'b krun" where
  "bindK m f = (case m of None \<Rightarrow> None | Some (Inl e) \<Rightarrow> Some (Inl e) | Some (Inr x) \<Rightarrow> f x)"

lemma bindK_simps [simp]:
  "bindK None f = None" "bindK (Some (Inl e)) f = Some (Inl e)" "bindK (Some (Inr x)) f = f x"
  by (simp_all add: bindK_def)

definition retK :: "'a \<Rightarrow> 'a krun" where
  "retK x = Some (Inr x)"

lemma bindK_retK [simp]: "bindK (retK x) f = f x"
  by (simp add: retK_def)

lemma bindK_eq_Some: "bindK m f = Some (Inr y) \<longleftrightarrow> (\<exists>x. m = Some (Inr x) \<and> f x = Some (Inr y))"
  by (auto simp: bindK_def split: option.splits sum.splits)

end
