(* ===== verification/Machine.thy ===== *)
theory Machine
  imports Kernel_Prelude
begin

text \<open>
  Byte-addressed memory as the code sees it through pointers: little-endian loads and stores of
  8, 16, 32 and 64 bits, at any alignment, addresses wrapping at 4 GiB as they do on i386. The
  packed structures the firmware, the boot loader and the hardware define (the Multiboot
  information, the page directory and the page tables) are read and written through these.
\<close>

type_synonym mem = "u32 \<Rightarrow> u8"

definition load8 :: "mem \<Rightarrow> u32 \<Rightarrow> u8" where
  "load8 m a = m a"

definition load16 :: "mem \<Rightarrow> u32 \<Rightarrow> u16" where
  "load16 m a = ucast (m a) OR push_bit 8 (ucast (m (a + 1)))"

definition load32 :: "mem \<Rightarrow> u32 \<Rightarrow> u32" where
  "load32 m a = ucast (m a) OR push_bit 8 (ucast (m (a + 1))) OR
     push_bit 16 (ucast (m (a + 2))) OR push_bit 24 (ucast (m (a + 3)))"

definition load64 :: "mem \<Rightarrow> u32 \<Rightarrow> u64" where
  "load64 m a = ucast (load32 m a) OR push_bit 32 (ucast (load32 m (a + 4)))"

definition store8 :: "mem \<Rightarrow> u32 \<Rightarrow> u8 \<Rightarrow> mem" where
  "store8 m a v = m(a := v)"

definition store16 :: "mem \<Rightarrow> u32 \<Rightarrow> u16 \<Rightarrow> mem" where
  "store16 m a v = m(a := ucast v, a + 1 := ucast (drop_bit 8 v))"

definition store32 :: "mem \<Rightarrow> u32 \<Rightarrow> u32 \<Rightarrow> mem" where
  "store32 m a v = m(a := ucast v, a + 1 := ucast (drop_bit 8 v),
     a + 2 := ucast (drop_bit 16 v), a + 3 := ucast (drop_bit 24 v))"

lemma load32_bytes:
  "load32 m a = load32 m' a'"
  if "m a = m' a'" "m (a + 1) = m' (a' + 1)" "m (a + 2) = m' (a' + 2)" "m (a + 3) = m' (a' + 3)"
  using that by (simp add: load32_def)

lemma bytes_of_u32:
  fixes v :: u32
  shows "ucast (ucast v :: u8) OR push_bit 8 (ucast (ucast (drop_bit 8 v) :: u8)) OR
    push_bit 16 (ucast (ucast (drop_bit 16 v) :: u8)) OR
    push_bit 24 (ucast (ucast (drop_bit 24 v) :: u8)) = v" (is "?w = v")
proof (rule bit_word_eqI)
  fix n assume n: "n < LENGTH(32)"
  then consider "n < 8" | "8 \<le> n" "n < 16" | "16 \<le> n" "n < 24" | "24 \<le> n" "n < 32" by fastforce
  then show "bit ?w n = bit v n"
    by cases (auto simp: bit_simps)
qed

lemma load32_store32_same [simp]: "load32 (store32 m a v) a = v"
  unfolding load32_def store32_def by (simp add: bytes_of_u32)

text \<open>Two dwords at different multiples of four have no byte in common.\<close>

definition word_aligned :: "u32 \<Rightarrow> bool" where
  "word_aligned a \<longleftrightarrow> unat a mod 4 = 0"

lemma word_aligned_dvd: "word_aligned a \<longleftrightarrow> 4 dvd unat a"
  by (simp add: word_aligned_def dvd_eq_mod_eq_0)

lemma word_aligned_add: "word_aligned a \<Longrightarrow> word_aligned b \<Longrightarrow> word_aligned (a + b)"
  unfolding word_aligned_dvd unat_word_ariths by (rule dvd_mod) simp_all

lemma word_aligned_diff:
  assumes "word_aligned a" "word_aligned b"
  shows "word_aligned (a - b)"
proof (cases "b \<le> a")
  case True
  then show ?thesis using assms by (simp add: word_aligned_dvd unat_sub)
next
  case False
  then have "unat (a - b) = 4294967296 + unat a - unat b"
    by (simp add: unat_sub_if_size word_size u32_le_iff)
  then show ?thesis using assms by (simp add: word_aligned_dvd)
qed

lemma word_aligned_mult4: "word_aligned (4 * w)"
  unfolding word_aligned_dvd unat_word_ariths by (rule dvd_mod) simp_all

lemma unat_nat_mult4: "n < 1073741824 \<Longrightarrow> unat (4 * word_of_nat n :: u32) = 4 * n"
  by (subst unat_mult_u32) (simp_all add: unat_of_nat_u32 del: unsigned_of_nat)
lemma word_aligned_byte:
  assumes "word_aligned a" "unat k < 4"
  shows "unat (a + k) = unat a + unat k"
proof (rule unat_add_u32)
  have "unat a < 4294967296" "unat a mod 4 = 0" using assms(1) by (simp_all add: word_aligned_def)
  with assms(2) show "unat a + unat k < 4294967296" by presburger
qed

lemma word_aligned_bytes:
  assumes "word_aligned a" "word_aligned b" "a \<noteq> b" "unat k < 4" "unat l < 4"
  shows "a + k \<noteq> b + l"
proof
  assume "a + k = b + l"
  then have "unat a + unat k = unat b + unat l"
    using word_aligned_byte assms by metis
  then have "unat a = unat b" using assms(1,2,4,5) unfolding word_aligned_def by presburger
  with assms(3) show False by (simp add: u32_eq_iff)
qed

lemma load32_store32_other:
  assumes "word_aligned a" "word_aligned b" "a \<noteq> b"
  shows "load32 (store32 m a v) b = load32 m b"
proof -
  have ne: "b + l \<noteq> a + k" if "unat k < 4" "unat l < 4" for k l :: u32
    using word_aligned_bytes [OF assms(2,1) assms(3) [symmetric] that(2,1)] .
  have "store32 m a v (b + l) = m (b + l)" if "unat l < 4" for l :: u32
    using ne [OF _ that, of 0] ne [OF _ that, of 1] ne [OF _ that, of 2] ne [OF _ that, of 3]
    by (simp add: store32_def)
  from this [of 0] this [of 1] this [of 2] this [of 3] show ?thesis
    by (intro load32_bytes) simp_all
qed

text \<open>What the packed fields of a structure hold.\<close>

lemma load32_store32:
  "word_aligned a \<Longrightarrow> word_aligned b \<Longrightarrow>
   load32 (store32 m a v) b = (if a = b then v else load32 m b)"
  by (simp add: load32_store32_other)

end
