(* ===== verification/Layout.thy ===== *)
theory Layout
  imports Machine
begin

text \<open>
  \<^verbatim>\<open>mm/layout.hpp\<close>: the boot-time physical addresses, the table of the kernel's virtual regions
  and the compile-time check of that table, together with the page size and the alignment
  functions of \<^verbatim>\<open>mm/pmm.hpp\<close> they use.
\<close>

section \<open>Pages\<close>

definition PAGE_SIZE :: u32 where "PAGE_SIZE = 4096"

definition MAX_FRAMES :: u32 where "MAX_FRAMES = push_bit 20 1"

definition align_down :: "u32 \<Rightarrow> u32 \<Rightarrow> u32" where
  "align_down val align = val AND NOT (align - 1)"

definition align_up :: "u32 \<Rightarrow> u32 \<Rightarrow> u32" where
  "align_up val align = (val + align - 1) AND NOT (align - 1)"

section \<open>Addresses of the boot environment\<close>

definition TRAMPOLINE_BASE :: u32 where "TRAMPOLINE_BASE = 0x8000"
definition ACPI_SCAN_BASE :: u32 where "ACPI_SCAN_BASE = 0xE0000"
definition ACPI_SCAN_END :: u32 where "ACPI_SCAN_END = 0x100000"
definition LOW_USABLE_BASE :: u32 where "LOW_USABLE_BASE = 0x100000"

section \<open>Virtual regions\<close>

datatype region_id = BootstrapIdentity | KernelHeap | ModuleSpace | RecursivePageTables

datatype map_kind = Fixed | Identity | Reserved | Pool | Randomized

record region_desc =
  rid :: region_id
  rname :: string
  rbase :: u32
  rsize :: u32
  rkind :: map_kind

definition region_end :: "region_desc \<Rightarrow> u64" where
  "region_end r = ucast (rbase r) + ucast (rsize r)"

definition region_contains :: "region_desc \<Rightarrow> u32 \<Rightarrow> bool" where
  "region_contains r addr \<longleftrightarrow> addr \<ge> rbase r \<and> (ucast addr :: u64) < region_end r"

definition region_contains_span :: "region_desc \<Rightarrow> u32 \<Rightarrow> u32 \<Rightarrow> bool" where
  "region_contains_span r addr span \<longleftrightarrow> span \<le> rsize r \<and> addr \<ge> rbase r \<and>
     (ucast addr :: u64) + ucast span \<le> region_end r"

definition IDENTITY_WINDOW_BASE :: u32 where "IDENTITY_WINDOW_BASE = 0"
definition IDENTITY_WINDOW_SIZE :: u32 where "IDENTITY_WINDOW_SIZE = 0x400000"
definition KERNEL_HEAP_BASE :: u32 where "KERNEL_HEAP_BASE = 0x1000000"
definition KERNEL_HEAP_SIZE :: u32 where "KERNEL_HEAP_SIZE = 0x1000000"
definition KERNEL_HEAP_INITIAL_SIZE :: u32 where "KERNEL_HEAP_INITIAL_SIZE = 0x100000"
definition MODULE_SPACE_BASE :: u32 where "MODULE_SPACE_BASE = 0xA000000"
definition MODULE_SPACE_SIZE :: u32 where "MODULE_SPACE_SIZE = 0x80000"
definition MODULE_SPACE_PAGE_COUNT :: u32 where
  "MODULE_SPACE_PAGE_COUNT = MODULE_SPACE_SIZE div PAGE_SIZE"
definition RECURSIVE_PT_BASE :: u32 where "RECURSIVE_PT_BASE = 0xFFC00000"
definition RECURSIVE_PT_SIZE :: u32 where "RECURSIVE_PT_SIZE = 0x400000"
definition RECURSIVE_PD_BASE :: u32 where
  "RECURSIVE_PD_BASE = RECURSIVE_PT_BASE + RECURSIVE_PT_SIZE - PAGE_SIZE"

definition REGIONS :: "region_desc list" where
  "REGIONS =
    [\<lparr>rid = BootstrapIdentity, rname = ''bootstrap-identity'', rbase = IDENTITY_WINDOW_BASE,
      rsize = IDENTITY_WINDOW_SIZE, rkind = Identity\<rparr>,
     \<lparr>rid = KernelHeap, rname = ''kernel-heap'', rbase = KERNEL_HEAP_BASE,
      rsize = KERNEL_HEAP_SIZE, rkind = Pool\<rparr>,
     \<lparr>rid = ModuleSpace, rname = ''module-space'', rbase = MODULE_SPACE_BASE,
      rsize = MODULE_SPACE_SIZE, rkind = Pool\<rparr>,
     \<lparr>rid = RecursivePageTables, rname = ''recursive-page-tables'', rbase = RECURSIVE_PT_BASE,
      rsize = RECURSIVE_PT_SIZE, rkind = Reserved\<rparr>]"

definition REGION_COUNT :: u32 where
  "REGION_COUNT = word_of_nat (length REGIONS)"

fun region_index :: "region_id \<Rightarrow> nat" where
  "region_index BootstrapIdentity = 0"
| "region_index KernelHeap = 1"
| "region_index ModuleSpace = 2"
| "region_index RecursivePageTables = 3"

definition is_page_aligned :: "u32 \<Rightarrow> bool" where
  "is_page_aligned v \<longleftrightarrow> v AND (PAGE_SIZE - 1) = 0"

definition overlaps :: "region_desc \<Rightarrow> region_desc \<Rightarrow> bool" where
  "overlaps lhs rhs \<longleftrightarrow> ucast (rbase lhs) < region_end rhs \<and> ucast (rbase rhs) < region_end lhs"

definition valid_region :: "region_desc \<Rightarrow> bool" where
  "valid_region r \<longleftrightarrow> rsize r > 0 \<and> is_page_aligned (rbase r) \<and> is_page_aligned (rsize r) \<and>
     region_end r > ucast (rbase r)"

text \<open>The two loops of \<^verbatim>\<open>validate\<close>, over the rest of the table from some index on.\<close>

fun validate_from :: "region_desc list \<Rightarrow> bool" where
  "validate_from [] = True"
| "validate_from (r # rs) =
     (if \<not> valid_region r then False
      else if list_ex (overlaps r) rs then False
      else validate_from rs)"

definition validate :: bool where
  "validate = validate_from REGIONS"

definition find_region_id :: "region_id \<Rightarrow> region_desc option" where
  "find_region_id i = List.find (\<lambda>r. rid r = i) REGIONS"

definition find_region_addr :: "u32 \<Rightarrow> region_desc option" where
  "find_region_addr addr = List.find (\<lambda>r. region_contains r addr) REGIONS"

definition region :: "region_id \<Rightarrow> region_desc" where
  "region i = REGIONS ! region_index i"

definition occupied :: "u32 \<Rightarrow> bool" where
  "occupied addr \<longleftrightarrow> find_region_addr addr \<noteq> None"

section \<open>Lemmas\<close>

lemma unat_u32_to_u64 [simp]: "unat (ucast (x :: u32) :: u64) = unat x"
  by (simp add: unsigned_ucast_eq take_bit_nat_eq_self_iff order_less_trans [OF unat_u32_lt])

lemma unat_align_down_page: "unat (align_down v PAGE_SIZE) = unat v div 4096 * 4096"
  by (simp only: align_down_def PAGE_SIZE_def) (use unat_and_not_mask [of v 12] in \<open>simp add: mask_eq_exp_minus_1\<close>)

lemma unat_align_up_page:
  assumes "unat v + 4095 < 4294967296"
  shows "unat (align_up v PAGE_SIZE) = (unat v + 4095) div 4096 * 4096"
proof -
  have "align_up v PAGE_SIZE = (v + 4095) AND NOT (mask 12)"
    by (simp add: align_up_def PAGE_SIZE_def mask_eq_exp_minus_1 algebra_simps)
  moreover have "unat (v + 4095) = unat v + 4095" using assms by (subst unat_add_u32) simp_all
  ultimately show ?thesis by (simp add: unat_and_not_mask)
qed

lemma is_page_aligned_iff: "is_page_aligned v \<longleftrightarrow> unat v mod 4096 = 0"
  using unat_and_mask [of v 12]
  by (simp add: is_page_aligned_def PAGE_SIZE_def mask_eq_exp_minus_1 u32_eq_iff)

lemma unat_region_end: "unat (region_end r) = unat (rbase r) + unat (rsize r)"
proof -
  have "unat (rbase r) + unat (rsize r) < 2 ^ LENGTH(64)"
    using add_strict_mono [OF unat_u32_lt [of "rbase r"] unat_u32_lt [of "rsize r"]] by simp
  then show ?thesis unfolding region_end_def
    by (subst unat_add_lem [THEN iffD1]) simp_all
qed

lemma region_contains_nat:
  "region_contains r a \<longleftrightarrow> unat (rbase r) \<le> unat a \<and> unat a < unat (rbase r) + unat (rsize r)"
  by (simp add: region_contains_def u32_le_iff word_less_nat_alt unat_region_end)

lemma overlaps_nat:
  "overlaps r s \<longleftrightarrow> unat (rbase r) < unat (rbase s) + unat (rsize s) \<and>
     unat (rbase s) < unat (rbase r) + unat (rsize r)"
  by (simp add: overlaps_def word_less_nat_alt unat_region_end)

text \<open>A table that passes the check gives every address to at most one of its regions.\<close>

lemma validate_from_unique:
  assumes "validate_from rs" "r \<in> set rs" "s \<in> set rs" "region_contains r a" "region_contains s a"
  shows "r = s"
  using assms
proof (induction rs)
  case (Cons q rs)
  have no: "\<not> overlaps q x" if "x \<in> set rs" for x
    using Cons.prems(1) that by (auto simp: list_ex_iff split: if_splits)
  have ov: "overlaps x y" if "region_contains x a" "region_contains y a" for x y
    using that by (auto simp: overlaps_nat region_contains_nat)
  show ?case using Cons no ov by (auto split: if_splits)
qed simp

lemma validate_True: validate
  by code_simp

text \<open>
  The layout table passes its own compile-time check, and therefore the
  search by address is exact: it returns a region precisely when that region is in the
  table and contains the address, so that no address belongs to two regions; \<^verbatim>\<open>occupied\<close>
  says whether some region has the address, and the search by identifier returns the
  region the compile-time index \<^verbatim>\<open>RegionIndex\<close> names.
\<close>

theorem layout_regions_disjoint:
  "validate \<and>
   (\<forall>addr r. find_region_addr addr = Some r \<longleftrightarrow> r \<in> set REGIONS \<and> region_contains r addr) \<and>
   (\<forall>addr. occupied addr \<longleftrightarrow> (\<exists>r. r \<in> set REGIONS \<and> region_contains r addr)) \<and>
   (\<forall>i. find_region_id i = Some (region i))"
proof -
  have u: "r = s" if "r \<in> set REGIONS" "s \<in> set REGIONS" "region_contains r a" "region_contains s a"
    for r s a
    using validate_from_unique [OF _ that] validate_True by (simp add: validate_def)
  have f: "find_region_addr addr = Some r \<longleftrightarrow> r \<in> set REGIONS \<and> region_contains r addr" for addr r
  proof
    assume "find_region_addr addr = Some r"
    then show "r \<in> set REGIONS \<and> region_contains r addr"
      by (auto simp: find_region_addr_def find_Some_iff in_set_conv_nth)
  next
    assume r: "r \<in> set REGIONS \<and> region_contains r addr"
    then obtain s where s: "find_region_addr addr = Some s"
      by (cases "find_region_addr addr") (auto simp: find_region_addr_def find_None_iff)
    then have "s \<in> set REGIONS" "region_contains s addr"
      by (auto simp: find_region_addr_def find_Some_iff in_set_conv_nth)
    with r u s show "find_region_addr addr = Some r" by blast
  qed
  moreover have "occupied addr \<longleftrightarrow> (\<exists>r. r \<in> set REGIONS \<and> region_contains r addr)" for addr
    unfolding occupied_def using f [of addr] by (metis option.exhaust_sel option.simps(3))
  moreover have "find_region_id i = Some (region i)" for i
    by (cases i) (simp_all add: find_region_id_def region_def REGIONS_def)
  ultimately show ?thesis using validate_True by blast
qed

end
