(* ===== verification/Bitmap.thy ===== *)
theory Bitmap
  imports Kernel_Prelude
begin

text \<open>
  \<^verbatim>\<open>klibcpp/include/klibcpp/bitmap.hpp\<close>: the class template \<^verbatim>\<open>FixedBitmapAllocator\<close>, which the
  physical memory manager and the module linker both instantiate. The template parameters
  are the record \<open>bm_params\<close>, the object the record \<open>bitmap_alloc\<close>, one definition per
  member function. An array index out of range is \<open>Undefined\<close>.

  The abstraction of an allocator is the set \<open>bm_used\<close> of unit numbers in use. The theorems
  say that \<open>alloc_units\<close> is a first-fit search that fails only when no run of free units is
  long enough, that \<open>free_units\<close> undoes it, that the other operations change exactly the
  units they name, and that the cached counter always equals the number of units in use.
\<close>

section \<open>The class\<close>

record bm_params =
  BASE_ADDR :: u32
  MAX_UNITS :: u32
  UNIT_SIZE :: u32

definition BITMAP_SIZE :: "bm_params \<Rightarrow> u32" where
  "BITMAP_SIZE p = (MAX_UNITS p + 31) div 32"

record bitmap_alloc =
  bitmap :: "u32 list"
  allocated_units :: u32

definition bm_init :: "bm_params \<Rightarrow> bitmap_alloc" where
  "bm_init p = \<lparr>bitmap = replicate (unat (BITMAP_SIZE p)) 0, allocated_units = 0\<rparr>"

definition bm_clear :: "bitmap_alloc \<Rightarrow> bitmap_alloc" where
  "bm_clear b = b\<lparr>bitmap := map (\<lambda>_. 0) (bitmap b), allocated_units := 0\<rparr>"

definition bm_set :: "bm_params \<Rightarrow> bitmap_alloc \<Rightarrow> bitmap_alloc" where
  "bm_set p b = b\<lparr>bitmap := map (\<lambda>_. 0xFFFFFFFF) (bitmap b), allocated_units := MAX_UNITS p\<rparr>"

definition set_bit_bm :: "bitmap_alloc \<Rightarrow> u32 \<Rightarrow> bitmap_alloc kres" where
  "set_bit_bm b i =
     (let k = unat (i div 32) in
      if k < length (bitmap b)
      then Inr (b\<lparr>bitmap := (bitmap b)[k := bitmap b ! k OR push_bit (unat (i mod 32)) 1]\<rparr>)
      else Inl Undefined)"

definition clear_bit_bm :: "bitmap_alloc \<Rightarrow> u32 \<Rightarrow> bitmap_alloc kres" where
  "clear_bit_bm b i =
     (let k = unat (i div 32) in
      if k < length (bitmap b)
      then Inr (b\<lparr>bitmap := (bitmap b)[k := bitmap b ! k AND NOT (push_bit (unat (i mod 32)) 1)]\<rparr>)
      else Inl Undefined)"

definition test_bit_bm :: "bitmap_alloc \<Rightarrow> u32 \<Rightarrow> bool kres" where
  "test_bit_bm b i =
     (let k = unat (i div 32) in
      if k < length (bitmap b)
      then Inr (bitmap b ! k AND push_bit (unat (i mod 32)) 1 \<noteq> 0)
      else Inl Undefined)"

text \<open>
  The search of \<^verbatim>\<open>alloc_units\<close>. \<open>alloc_scan b i j count\<close> is the inner loop from \<^verbatim>\<open>j\<close> on: the
  offset of the first unit in use of the run at \<^verbatim>\<open>i\<close>, or none when the run is free.
  \<open>alloc_search\<close> is the outer loop, which skips past the unit in use (\<^verbatim>\<open>i += j\<close>, then
  \<^verbatim>\<open>++i\<close>). The counters are natural numbers: \<^verbatim>\<open>i <= last\<close> and \<^verbatim>\<open>j < count\<close> keep every sum at
  or below \<^verbatim>\<open>MAX_UNITS\<close>, so the 32-bit counters of the code never wrap.
\<close>

function alloc_scan :: "bitmap_alloc \<Rightarrow> nat \<Rightarrow> nat \<Rightarrow> nat \<Rightarrow> nat option kres" where
  "alloc_scan b i j count =
     (if j < count
      then bindR (test_bit_bm b (word_of_nat (i + j)))
        (\<lambda>t. if t then Inr (Some j) else alloc_scan b i (Suc j) count)
      else Inr None)"
  by pat_completeness auto
termination
  by (relation "measure (\<lambda>(b, i, j, count). count - j)") auto

function alloc_search :: "bitmap_alloc \<Rightarrow> nat \<Rightarrow> nat \<Rightarrow> nat \<Rightarrow> nat option kres" where
  "alloc_search b lst count i =
     (if i \<le> lst
      then bindR (alloc_scan b i 0 count)
        (\<lambda>r. case r of None \<Rightarrow> Inr (Some i) | Some j \<Rightarrow> alloc_search b lst count (Suc (i + j)))
      else Inr None)"
  by pat_completeness auto
termination
  by (relation "measure (\<lambda>(b, lst, count, i). Suc lst - i)") auto

declare alloc_scan.simps [simp del] alloc_search.simps [simp del]

definition alloc_units :: "bm_params \<Rightarrow> bitmap_alloc \<Rightarrow> u32 \<Rightarrow> (u32 \<times> bitmap_alloc) kres" where
  "alloc_units p b count =
     (if count = 0 then Inr (0, b)
      else if count > MAX_UNITS p then Inl (Panic ''alloc_units: request too large'')
      else
        bindR (alloc_search b (unat (MAX_UNITS p - count)) (unat count) 0)
          (\<lambda>r. case r of
             None \<Rightarrow> Inl (Panic ''alloc_units: out of memory'')
           | Some i \<Rightarrow>
               bindR (for_u32 0 count (\<lambda>j b. set_bit_bm b (word_of_nat i + j)) b)
                 (\<lambda>b. Inr (BASE_ADDR p + word_of_nat i * UNIT_SIZE p,
                           b\<lparr>allocated_units := allocated_units b + count\<rparr>))))"

text \<open>
  The checks that \<^verbatim>\<open>free_units\<close>, \<^verbatim>\<open>mark_units_free\<close> and \<^verbatim>\<open>mark_units_used\<close> repeat before their
  loops, with the operation's name in the message. The sum \<^verbatim>\<open>start + count\<close> is 32-bit.
\<close>

definition unit_range :: "string \<Rightarrow> bm_params \<Rightarrow> u32 \<Rightarrow> u32 \<Rightarrow> u32 kres" where
  "unit_range op p base count =
     (if base < BASE_ADDR p then Inl (Panic (op @ '': address below base''))
      else let offset = base - BASE_ADDR p in
        if offset mod UNIT_SIZE p \<noteq> 0 then Inl (Panic (op @ '': unaligned address''))
        else let start = offset div UNIT_SIZE p in
          if start + count > MAX_UNITS p then Inl (Panic (op @ '': invalid range''))
          else Inr start)"

definition free_units :: "bm_params \<Rightarrow> bitmap_alloc \<Rightarrow> u32 \<Rightarrow> u32 \<Rightarrow> bitmap_alloc kres" where
  "free_units p b base count =
     (if count = 0 then Inr b
      else bindR (unit_range ''free_units'' p base count) (\<lambda>start.
        bindR (for_u32 0 count (\<lambda>i b.
            bindR (test_bit_bm b (start + i)) (\<lambda>t.
              if \<not> t then Inl (Panic ''free_units: double free'')
              else clear_bit_bm b (start + i))) b)
          (\<lambda>b. Inr (b\<lparr>allocated_units := allocated_units b - count\<rparr>))))"

definition mark_units_free :: "bm_params \<Rightarrow> bitmap_alloc \<Rightarrow> u32 \<Rightarrow> u32 \<Rightarrow> bitmap_alloc kres" where
  "mark_units_free p b base count =
     (if count = 0 then Inr b
      else bindR (unit_range ''mark_units_free'' p base count) (\<lambda>start.
        for_u32 0 count (\<lambda>i b.
          bindR (test_bit_bm b (start + i)) (\<lambda>t.
            if t
            then bindR (clear_bit_bm b (start + i))
                   (\<lambda>b. Inr (b\<lparr>allocated_units := allocated_units b - 1\<rparr>))
            else Inr b)) b))"

definition mark_units_used :: "bm_params \<Rightarrow> bitmap_alloc \<Rightarrow> u32 \<Rightarrow> u32 \<Rightarrow> bitmap_alloc kres" where
  "mark_units_used p b base count =
     (if count = 0 then Inr b
      else bindR (unit_range ''mark_units_used'' p base count) (\<lambda>start.
        for_u32 0 count (\<lambda>i b.
          bindR (test_bit_bm b (start + i)) (\<lambda>t.
            if \<not> t
            then bindR (set_bit_bm b (start + i))
                   (\<lambda>b. Inr (b\<lparr>allocated_units := allocated_units b + 1\<rparr>))
            else Inr b)) b))"

definition alloc_unit :: "bm_params \<Rightarrow> bitmap_alloc \<Rightarrow> (u32 \<times> bitmap_alloc) kres" where
  "alloc_unit p b = alloc_units p b 1"

definition free_unit :: "bm_params \<Rightarrow> bitmap_alloc \<Rightarrow> u32 \<Rightarrow> bitmap_alloc kres" where
  "free_unit p b addr = free_units p b addr 1"

definition bm_contains :: "bm_params \<Rightarrow> u32 \<Rightarrow> bool" where
  "bm_contains p addr =
     (if addr < BASE_ADDR p then False
      else (addr - BASE_ADDR p) div UNIT_SIZE p < MAX_UNITS p)"

definition bm_allocated :: "bm_params \<Rightarrow> bitmap_alloc \<Rightarrow> u32 \<Rightarrow> bool kres" where
  "bm_allocated p b addr =
     (if \<not> bm_contains p addr then Inr False
      else let offset = addr - BASE_ADDR p in
        if offset mod UNIT_SIZE p \<noteq> 0 then Inr False
        else test_bit_bm b (offset div UNIT_SIZE p))"

definition allocated_unit_count :: "bitmap_alloc \<Rightarrow> u32" where
  "allocated_unit_count b = allocated_units b"

definition free_unit_count :: "bm_params \<Rightarrow> bitmap_alloc \<Rightarrow> u32" where
  "free_unit_count p b = MAX_UNITS p - allocated_units b"

section \<open>Abstraction and invariant\<close>

definition bm_bits :: "bitmap_alloc \<Rightarrow> nat \<Rightarrow> bool" where
  "bm_bits b n \<longleftrightarrow> n < 32 * length (bitmap b) \<and> bit (bitmap b ! (n div 32)) (n mod 32)"

definition bm_used :: "bm_params \<Rightarrow> bitmap_alloc \<Rightarrow> nat set" where
  "bm_used p b = {n. n < unat (MAX_UNITS p) \<and> bm_bits b n}"

text \<open>The template arguments for which no address computation wraps.\<close>

definition bm_geometry :: "bm_params \<Rightarrow> bool" where
  "bm_geometry p \<longleftrightarrow>
     0 < MAX_UNITS p \<and> 0 < UNIT_SIZE p \<and> unat (MAX_UNITS p) + 31 < 4294967296 \<and>
     unat (BASE_ADDR p) + unat (MAX_UNITS p) * unat (UNIT_SIZE p) \<le> 4294967296"

definition bm_wf :: "bm_params \<Rightarrow> bitmap_alloc \<Rightarrow> bool" where
  "bm_wf p b \<longleftrightarrow>
     bm_geometry p \<and> length (bitmap b) = unat (BITMAP_SIZE p) \<and>
     unat (allocated_units b) = card (bm_used p b)"

definition run_free :: "bitmap_alloc \<Rightarrow> nat \<Rightarrow> nat \<Rightarrow> bool" where
  "run_free b i c \<longleftrightarrow> (\<forall>k. i \<le> k \<and> k < i + c \<longrightarrow> \<not> bm_bits b k)"

definition unit_addr :: "bm_params \<Rightarrow> nat \<Rightarrow> u32" where
  "unit_addr p i = BASE_ADDR p + word_of_nat i * UNIT_SIZE p"

section \<open>Single bits\<close>

lemma unat_div_32 [simp]: "unat ((i :: u32) div 32) = unat i div 32"
  by (simp add: unat_div)

lemma unat_mod_32 [simp]: "unat ((i :: u32) mod 32) = unat i mod 32"
  by (simp add: unat_mod)

lemma test_bit_bm_eq:
  "unat i < 32 * length (bitmap b) \<Longrightarrow> test_bit_bm b i = Inr (bm_bits b (unat i))"
  by (simp add: test_bit_bm_def bm_bits_def Let_def less_mult_imp_div_less mult.commute
      bit_iff_and_push_bit_not_eq_0)

lemma test_bit_bm_out: "32 * length (bitmap b) \<le> unat i \<Longrightarrow> test_bit_bm b i = Inl Undefined"
  by (simp add: test_bit_bm_def Let_def div_less_iff_less_mult not_less mult.commute)

lemma bm_bits_update:
  assumes k: "n div 32 < length (bitmap b)"
    and w: "\<And>j. j < 32 \<Longrightarrow> bit w j = (if j = n mod 32 then v else bit (bitmap b ! (n div 32)) j)"
  shows "bm_bits (b\<lparr>bitmap := (bitmap b)[n div 32 := w]\<rparr>) = (bm_bits b)(n := v)"
proof
  fix m
  show "bm_bits (b\<lparr>bitmap := (bitmap b)[n div 32 := w]\<rparr>) m = ((bm_bits b)(n := v)) m"
  proof (cases "m div 32 = n div 32")
    case True
    have "m = n \<longleftrightarrow> m mod 32 = n mod 32" using True by (metis div_mult_mod_eq)
    moreover have "m < 32 * length (bitmap b)" using k True by linarith
    ultimately show ?thesis using True k w [of "m mod 32"] by (auto simp: bm_bits_def)
  next
    case False
    then show ?thesis by (auto simp: bm_bits_def)
  qed
qed

lemma set_bit_bm_eq:
  assumes "unat i < 32 * length (bitmap b)"
  obtains b' where "set_bit_bm b i = Inr b'" "bm_bits b' = (bm_bits b)(unat i := True)"
    "length (bitmap b') = length (bitmap b)" "allocated_units b' = allocated_units b"
proof -
  have k: "unat i div 32 < length (bitmap b)"
    using assms by (simp add: less_mult_imp_div_less mult.commute)
  let ?w = "bitmap b ! (unat i div 32) OR push_bit (unat i mod 32) 1"
  have "bm_bits (b\<lparr>bitmap := (bitmap b)[unat i div 32 := ?w]\<rparr>) = (bm_bits b)(unat i := True)"
    by (rule bm_bits_update [OF k]) (auto simp: bit_simps)
  then show thesis using that k by (auto simp: set_bit_bm_def Let_def)
qed

lemma clear_bit_bm_eq:
  assumes "unat i < 32 * length (bitmap b)"
  obtains b' where "clear_bit_bm b i = Inr b'" "bm_bits b' = (bm_bits b)(unat i := False)"
    "length (bitmap b') = length (bitmap b)" "allocated_units b' = allocated_units b"
proof -
  have k: "unat i div 32 < length (bitmap b)"
    using assms by (simp add: less_mult_imp_div_less mult.commute)
  let ?w = "bitmap b ! (unat i div 32) AND NOT (push_bit (unat i mod 32) 1)"
  have "bm_bits (b\<lparr>bitmap := (bitmap b)[unat i div 32 := ?w]\<rparr>) = (bm_bits b)(unat i := False)"
    by (rule bm_bits_update [OF k]) (auto simp: bit_simps)
  then show thesis using that k by (auto simp: clear_bit_bm_def Let_def)
qed

section \<open>The search\<close>

lemma run_free_iff: "run_free b i c \<longleftrightarrow> {i..<i + c} \<inter> {k. bm_bits b k} = {}"
  by (auto simp: run_free_def)

lemma alloc_scan_spec:
  assumes "i + count \<le> 32 * length (bitmap b)" and "i + count \<le> 4294967296"
  shows "\<exists>r. alloc_scan b i j count = Inr r \<and>
    (case r of
       None \<Rightarrow> \<forall>k. i + j \<le> k \<and> k < i + count \<longrightarrow> \<not> bm_bits b k
     | Some m \<Rightarrow> m < count \<and> bm_bits b (i + m))"
  using assms
proof (induction b i j count rule: alloc_scan.induct)
  case (1 b i j count)
  show ?case
  proof (cases "j < count")
    case False
    then show ?thesis by (auto simp: alloc_scan.simps)
  next
    case True
    have idx: "unat (word_of_nat (i + j) :: u32) = i + j"
      using True "1.prems"(2) by (intro unat_of_nat_u32) linarith
    have test: "test_bit_bm b (word_of_nat (i + j)) = Inr (bm_bits b (i + j))"
      using test_bit_bm_eq [of "word_of_nat (i + j)" b, unfolded idx] True "1.prems"(1) by linarith
    show ?thesis
    proof (cases "bm_bits b (i + j)")
      case used: True
      with True test show ?thesis by (subst alloc_scan.simps) simp
    next
      case free: False
      obtain r where r: "alloc_scan b i (Suc j) count = Inr r"
        and spec: "case r of
            None \<Rightarrow> \<forall>k. i + Suc j \<le> k \<and> k < i + count \<longrightarrow> \<not> bm_bits b k
          | Some m \<Rightarrow> m < count \<and> bm_bits b (i + m)"
        using "1.IH" [OF True test] free "1.prems" by auto
      have "i + j \<le> k \<longleftrightarrow> k = i + j \<or> i + Suc j \<le> k" for k by linarith
      with free spec have "case r of
            None \<Rightarrow> \<forall>k. i + j \<le> k \<and> k < i + count \<longrightarrow> \<not> bm_bits b k
          | Some m \<Rightarrow> m < count \<and> bm_bits b (i + m)"
        by (auto split: option.splits)
      with True free test r show ?thesis by (subst alloc_scan.simps) simp
    qed
  qed
qed

lemma alloc_search_spec:
  assumes "lst + count \<le> 32 * length (bitmap b)" and "lst + count \<le> 4294967296"
  shows "\<exists>r. alloc_search b lst count i = Inr r \<and>
    (case r of
       None \<Rightarrow> \<forall>m. i \<le> m \<and> m \<le> lst \<longrightarrow> \<not> run_free b m count
     | Some m \<Rightarrow> m \<le> lst \<and> run_free b m count \<and>
         (\<forall>m'. i \<le> m' \<and> m' < m \<longrightarrow> \<not> run_free b m' count))"
  using assms
proof (induction b lst count i rule: alloc_search.induct)
  case (1 b lst count i)
  show ?case
  proof (cases "i \<le> lst")
    case False
    then show ?thesis by (auto simp: alloc_search.simps)
  next
    case True
    then obtain r where r: "alloc_scan b i 0 count = Inr r"
      and spec: "case r of
          None \<Rightarrow> \<forall>k. i + 0 \<le> k \<and> k < i + count \<longrightarrow> \<not> bm_bits b k
        | Some m \<Rightarrow> m < count \<and> bm_bits b (i + m)"
      using alloc_scan_spec [of i count b 0] "1.prems" by auto
    show ?thesis
    proof (cases r)
      case None
      with True r spec show ?thesis by (subst alloc_search.simps) (auto simp: run_free_def)
    next
      case (Some j)
      with spec have j: "j < count" "bm_bits b (i + j)" by auto
      have skip: "\<not> run_free b m count" if "i \<le> m" "m \<le> i + j" for m
        using that j unfolding run_free_def by (intro notI) auto
      have skip': "\<not> run_free b m count" if "i \<le> m" "\<not> Suc (i + j) \<le> m" for m
        using skip [of m] that by linarith
      obtain r' where "alloc_search b lst count (Suc (i + j)) = Inr r'"
        and "case r' of
           None \<Rightarrow> \<forall>m. Suc (i + j) \<le> m \<and> m \<le> lst \<longrightarrow> \<not> run_free b m count
         | Some m \<Rightarrow> m \<le> lst \<and> run_free b m count \<and>
             (\<forall>m'. Suc (i + j) \<le> m' \<and> m' < m \<longrightarrow> \<not> run_free b m' count)"
        using "1.IH" [OF True r Some] "1.prems" by auto
      with True r Some skip' show ?thesis
        by (subst alloc_search.simps) (auto split: option.splits)
    qed
  qed
qed

section \<open>Geometry\<close>

lemma bm_geometry_facts:
  assumes "bm_geometry p"
  shows "0 < unat (MAX_UNITS p)" and "0 < unat (UNIT_SIZE p)"
    and "unat (MAX_UNITS p) < 4294967265"
    and "unat (BASE_ADDR p) + unat (MAX_UNITS p) * unat (UNIT_SIZE p) \<le> 4294967296"
  using assms by (auto simp: bm_geometry_def u32_less_iff)

lemma unat_BITMAP_SIZE: "bm_geometry p \<Longrightarrow> unat (BITMAP_SIZE p) = (unat (MAX_UNITS p) + 31) div 32"
  by (simp add: BITMAP_SIZE_def unat_add_u32 bm_geometry_def)

lemma bm_wf_capacity:
  assumes "bm_wf p b"
  shows "unat (MAX_UNITS p) \<le> 32 * length (bitmap b)"
proof -
  have "length (bitmap b) = (unat (MAX_UNITS p) + 31) div 32"
    using assms by (simp add: bm_wf_def unat_BITMAP_SIZE)
  then show ?thesis by linarith
qed

lemma unit_addr_unat:
  assumes "bm_geometry p" and "i < unat (MAX_UNITS p)"
  shows "unat (unit_addr p i) = unat (BASE_ADDR p) + i * unat (UNIT_SIZE p)"
proof -
  note g = bm_geometry_facts [OF assms(1)]
  have iu: "unat (word_of_nat i :: u32) = i" using assms(2) g(3) by (intro unat_of_nat_u32) linarith
  have lt: "i * unat (UNIT_SIZE p) < unat (MAX_UNITS p) * unat (UNIT_SIZE p)"
    using assms(2) g(2) by simp
  then have "unat (word_of_nat i :: u32) * unat (UNIT_SIZE p) < 4294967296"
    unfolding iu using g(4) by linarith
  from unat_mult_u32 [OF this] have m: "unat (word_of_nat i * UNIT_SIZE p) = i * unat (UNIT_SIZE p)"
    unfolding iu .
  have "unat (BASE_ADDR p) + unat (word_of_nat i * UNIT_SIZE p) < 4294967296"
    unfolding m using lt g(4) by linarith
  from unat_add_u32 [OF this] show ?thesis unfolding unit_addr_def m .
qed

lemma unit_range_unit_addr:
  assumes "bm_geometry p" and "i < unat (MAX_UNITS p)"
  shows "unit_range op p (unit_addr p i) c =
    (if word_of_nat i + c > MAX_UNITS p then Inl (Panic (op @ '': invalid range''))
     else Inr (word_of_nat i))"
proof -
  note g = bm_geometry_facts [OF assms(1)]
  have a: "unat (unit_addr p i) = unat (BASE_ADDR p) + i * unat (UNIT_SIZE p)"
    using assms by (rule unit_addr_unat)
  then have ge: "BASE_ADDR p \<le> unit_addr p i" by (simp add: u32_le_iff)
  then have off: "unat (unit_addr p i - BASE_ADDR p) = i * unat (UNIT_SIZE p)"
    using a by (simp add: unat_sub_u32)
  have dv: "(unit_addr p i - BASE_ADDR p) div UNIT_SIZE p = word_of_nat i"
    using g assms(2) by (simp add: u32_eq_iff unat_div off unat_of_nat_u32)
  have md: "(unit_addr p i - BASE_ADDR p) mod UNIT_SIZE p = 0"
    by (simp add: u32_eq_iff unat_mod off)
  show ?thesis using ge by (auto simp: unit_range_def dv md Let_def)
qed

lemma unit_range_ok:
  assumes "bm_geometry p" and "0 < c" and le: "i + unat c \<le> unat (MAX_UNITS p)"
  shows "unit_range op p (unit_addr p i) c = Inr (word_of_nat i)"
proof -
  have c0: "0 < unat c" using assms(2) by (simp add: u32_less_iff)
  have lt: "i + unat c < 4294967296" using le unat_u32_lt [of "MAX_UNITS p"] by linarith
  then have i: "unat (word_of_nat i :: u32) = i" by (intro unat_of_nat_u32) linarith
  have "unat (word_of_nat i :: u32) + unat c < 4294967296" unfolding i by (rule lt)
  then have "\<not> MAX_UNITS p < word_of_nat i + c"
    using le by (simp only: u32_less_iff unat_add_u32 i not_less)
  then show ?thesis using unit_range_unit_addr [OF assms(1), of i] le c0 by simp
qed

section \<open>The loops over a run of units\<close>

text \<open>
  The state of a loop that has treated the first \<open>n\<close> units of the run at \<open>i\<close>: those units
  have the value \<open>v\<close>, the others are as before.
\<close>

definition run_done :: "bitmap_alloc \<Rightarrow> nat \<Rightarrow> bool \<Rightarrow> nat \<Rightarrow> bitmap_alloc \<Rightarrow> bool" where
  "run_done b i v n b' \<longleftrightarrow>
     bm_bits b' = (\<lambda>k. if i \<le> k \<and> k < i + n then v else bm_bits b k) \<and>
     length (bitmap b') = length (bitmap b)"

lemma bm_bits_allocated_units [simp]: "bm_bits (b\<lparr>allocated_units := x\<rparr>) = bm_bits b"
  by (simp add: bm_bits_def fun_eq_iff)

lemma run_done_allocated_units [simp]:
  "run_done b i v n (b'\<lparr>allocated_units := x\<rparr>) = run_done b i v n b'"
  by (simp add: run_done_def)

lemma run_done_0 [simp]: "run_done b i v 0 b"
  by (auto simp: run_done_def)

lemma run_done_Suc:
  assumes "run_done b i v n b'" and "bm_bits b'' = (bm_bits b')(i + n := v)"
    and "length (bitmap b'') = length (bitmap b')"
  shows "run_done b i v (Suc n) b''"
  using assms by (auto simp: run_done_def fun_eq_iff)

lemma run_done_length: "run_done b i v n b' \<Longrightarrow> length (bitmap b') = length (bitmap b)"
  by (simp add: run_done_def)

lemma run_done_next: "run_done b i v n b' \<Longrightarrow> bm_bits b' (i + n) = bm_bits b (i + n)"
  by (simp add: run_done_def)

lemma run_index:
  assumes "unat j < c" and "i + c \<le> 4294967296"
  shows "unat (word_of_nat i + j :: u32) = i + unat j"
proof -
  have i: "unat (word_of_nat i :: u32) = i" using assms by (intro unat_of_nat_u32) linarith
  have "unat (word_of_nat i :: u32) + unat j < 4294967296" unfolding i using assms by linarith
  from unat_add_u32 [OF this] show ?thesis unfolding i .
qed

lemma run_test_bit:
  assumes "run_done b i v (unat j) b'" and "unat j < c"
    and "i + c \<le> 32 * length (bitmap b)" and "i + c \<le> 4294967296"
  shows "test_bit_bm b' (word_of_nat i + j) = Inr (bm_bits b (i + unat j))"
proof -
  have "unat (word_of_nat i + j) < 32 * length (bitmap b')"
    using run_index [OF assms(2,4)] run_done_length [OF assms(1)] assms(2,3) by linarith
  from test_bit_bm_eq [OF this] show ?thesis
    by (simp only: run_index [OF assms(2,4)] run_done_next [OF assms(1)])
qed

lemma run_set_bit:
  assumes "run_done b i True (unat j) b'" and "unat j < c"
    and "i + c \<le> 32 * length (bitmap b)" and "i + c \<le> 4294967296"
  obtains b'' where "set_bit_bm b' (word_of_nat i + j) = Inr b''"
    "run_done b i True (Suc (unat j)) b''" "allocated_units b'' = allocated_units b'"
proof -
  have "unat (word_of_nat i + j) < 32 * length (bitmap b')"
    using run_index [OF assms(2,4)] run_done_length [OF assms(1)] assms(2,3) by linarith
  from set_bit_bm_eq [OF this] show thesis
    using that run_done_Suc [OF assms(1)] by (metis run_index [OF assms(2,4)])
qed

lemma run_clear_bit:
  assumes "run_done b i False (unat j) b'" and "unat j < c"
    and "i + c \<le> 32 * length (bitmap b)" and "i + c \<le> 4294967296"
  obtains b'' where "clear_bit_bm b' (word_of_nat i + j) = Inr b''"
    "run_done b i False (Suc (unat j)) b''" "allocated_units b'' = allocated_units b'"
proof -
  have "unat (word_of_nat i + j) < 32 * length (bitmap b')"
    using run_index [OF assms(2,4)] run_done_length [OF assms(1)] assms(2,3) by linarith
  from clear_bit_bm_eq [OF this] show thesis
    using that run_done_Suc [OF assms(1)] by (metis run_index [OF assms(2,4)])
qed

lemma set_run:
  assumes "i + unat c \<le> 32 * length (bitmap b)" and "i + unat c \<le> 4294967296"
  obtains b' where "for_u32 0 c (\<lambda>j b. set_bit_bm b (word_of_nat i + j)) b = Inr b'"
    "run_done b i True (unat c) b'" "allocated_units b' = allocated_units b"
proof -
  let ?I = "\<lambda>n b'. run_done b i True n b' \<and> allocated_units b' = allocated_units b"
  have "\<exists>b'. for_u32 0 c (\<lambda>j b. set_bit_bm b (word_of_nat i + j)) b = Inr b' \<and> ?I (unat c) b'"
  proof (rule for_u32_total [where I = ?I])
    fix k b' assume "k < c" and I: "?I (unat k) b'"
    then have "unat k < unat c" by (simp add: u32_less_iff)
    with I show "\<exists>b''. set_bit_bm b' (word_of_nat i + k) = Inr b'' \<and> ?I (Suc (unat k)) b''"
      using assms by (metis run_set_bit)
  qed simp_all
  then show thesis using that by blast
qed

lemma free_run:
  assumes "i + unat c \<le> 32 * length (bitmap b)" and "i + unat c \<le> 4294967296"
    and "\<forall>k. i \<le> k \<and> k < i + unat c \<longrightarrow> bm_bits b k"
  obtains b' where "for_u32 0 c (\<lambda>j b.
      bindR (test_bit_bm b (word_of_nat i + j)) (\<lambda>t.
        if \<not> t then Inl (Panic ''free_units: double free'')
        else clear_bit_bm b (word_of_nat i + j))) b = Inr b'"
    "run_done b i False (unat c) b'" "allocated_units b' = allocated_units b"
proof -
  let ?I = "\<lambda>n b'. run_done b i False n b' \<and> allocated_units b' = allocated_units b"
  let ?f = "\<lambda>j b. bindR (test_bit_bm b (word_of_nat i + j)) (\<lambda>t.
        if \<not> t then Inl (Panic ''free_units: double free'')
        else clear_bit_bm b (word_of_nat i + j))"
  have "\<exists>b'. for_u32 0 c ?f b = Inr b' \<and> ?I (unat c) b'"
  proof (rule for_u32_total [where I = ?I])
    fix k b' assume "k < c" and I: "?I (unat k) b'"
    then have k: "unat k < unat c" by (simp add: u32_less_iff)
    have "test_bit_bm b' (word_of_nat i + k) = Inr True"
      using run_test_bit [OF conjunct1 [OF I] k assms(1,2)] assms(3) k by simp
    moreover obtain b'' where "clear_bit_bm b' (word_of_nat i + k) = Inr b''"
      "run_done b i False (Suc (unat k)) b''" "allocated_units b'' = allocated_units b'"
      using run_clear_bit [OF conjunct1 [OF I] k assms(1,2)] .
    ultimately show "\<exists>b''. ?f k b' = Inr b'' \<and> ?I (Suc (unat k)) b''" using I by auto
  qed simp_all
  then show thesis using that by blast
qed

lemma free_run_double:
  assumes "i + unat c \<le> 32 * length (bitmap b)" and "i + unat c \<le> 4294967296"
    and "i \<le> m" and "m < i + unat c" and "\<not> bm_bits b m"
  shows "for_u32 0 c (\<lambda>j b.
      bindR (test_bit_bm b (word_of_nat i + j)) (\<lambda>t.
        if \<not> t then Inl (Panic ''free_units: double free'')
        else clear_bit_bm b (word_of_nat i + j))) b = Inl (Panic ''free_units: double free'')"
    (is "for_u32 0 c ?f b = _")
proof -
  define d where "d = (LEAST d. \<not> bm_bits b (i + d))"
  let ?P = "\<lambda>d. \<not> bm_bits b (i + d)"
  have ex: "?P (m - i)" using assms(3,5) by simp
  have d: "?P d" "d \<le> m - i" and below: "\<And>n. n < d \<Longrightarrow> bm_bits b (i + n)"
    unfolding d_def using LeastI [where P = ?P, OF ex] Least_le [where P = ?P, OF ex]
    by (auto dest: not_less_Least)
  have dc: "d < unat c" using d(2) assms(3,4) by linarith
  have du: "unat (word_of_nat d :: u32) = d" using dc unat_u32_lt [of c] by (intro unat_of_nat_u32) linarith
  show ?thesis
  proof (rule for_u32_stops [where I = "run_done b i False" and m = "word_of_nat d"])
    show "word_of_nat d < c" unfolding u32_less_iff du by (rule dc)
    fix k :: u32 and b' assume "k < word_of_nat d" and I: "run_done b i False (unat k) b'"
    then have kd: "unat k < d" by (simp only: u32_less_iff du)
    with dc have k: "unat k < unat c" by simp
    have "test_bit_bm b' (word_of_nat i + k) = Inr True"
      using run_test_bit [OF I k assms(1,2)] below [OF kd] by simp
    moreover obtain b'' where "clear_bit_bm b' (word_of_nat i + k) = Inr b''"
      "run_done b i False (Suc (unat k)) b''"
      using run_clear_bit [OF I k assms(1,2)] .
    ultimately show "\<exists>b''. ?f k b' = Inr b'' \<and> run_done b i False (Suc (unat k)) b''" by simp
  next
    fix b' assume I: "run_done b i False (unat (word_of_nat d :: u32)) b'"
    have "test_bit_bm b' (word_of_nat i + word_of_nat d) = Inr False"
      using run_test_bit [OF I _ assms(1,2)] d(1) dc unfolding du by simp
    then show "?f (word_of_nat d) b' = Inl (Panic ''free_units: double free'')" by simp
  qed simp_all
qed

section \<open>What the operations do to the set of units in use\<close>

lemma bm_used_allocated_units [simp]: "bm_used p (b\<lparr>allocated_units := x\<rparr>) = bm_used p b"
  by (simp add: bm_used_def)

lemma bm_used_finite [simp]: "finite (bm_used p b)"
  by (simp add: bm_used_def)

lemma bm_used_bound: "bm_used p b \<subseteq> {..<unat (MAX_UNITS p)}"
  by (auto simp: bm_used_def)

lemma bm_used_run_True:
  "run_done b i True c b' \<Longrightarrow> i + c \<le> unat (MAX_UNITS p) \<Longrightarrow> bm_used p b' = bm_used p b \<union> {i..<i + c}"
  by (auto simp: bm_used_def run_done_def)

lemma bm_used_run_False:
  "run_done b i False c b' \<Longrightarrow> bm_used p b' = bm_used p b - {i..<i + c}"
  by (auto simp: bm_used_def run_done_def)

lemma bm_used_run_subset:
  "i + c \<le> unat (MAX_UNITS p) \<Longrightarrow>
   {i..<i + c} \<subseteq> bm_used p b \<longleftrightarrow> (\<forall>k. i \<le> k \<and> k < i + c \<longrightarrow> bm_bits b k)"
  by (auto simp: bm_used_def)

lemma run_free_used:
  "i + c \<le> unat (MAX_UNITS p) \<Longrightarrow> run_free b i c \<longleftrightarrow> {i..<i + c} \<inter> bm_used p b = {}"
  by (auto simp: run_free_def bm_used_def)

lemma bm_wf_card_le:
  assumes "bm_wf p b" shows "card (bm_used p b) \<le> unat (MAX_UNITS p)"
  using card_mono [OF _ bm_used_bound [of p b]] by simp

lemma bm_wf_alloc_run:
  assumes wf: "bm_wf p b" and run: "run_done b i True (unat c) b'"
    and le: "i + unat c \<le> unat (MAX_UNITS p)" and free: "run_free b i (unat c)"
    and cnt: "allocated_units b' = allocated_units b"
  shows "bm_wf p (b'\<lparr>allocated_units := allocated_units b' + c\<rparr>)"
proof -
  have used: "bm_used p b' = bm_used p b \<union> {i..<i + unat c}"
    using run le by (rule bm_used_run_True)
  have card: "card (bm_used p b') = card (bm_used p b) + unat c"
    unfolding used using free le
    by (subst card_Un_disjoint) (auto simp: run_free_used Int_commute)
  have "card (bm_used p b') \<le> unat (MAX_UNITS p)"
    using card_mono [OF _ bm_used_bound [of p b']] by simp
  then have "unat (allocated_units b + c) = card (bm_used p b')"
    using wf card by (simp add: bm_wf_def unat_add_u32 le_less_trans [OF _ unat_u32_lt])
  then show ?thesis
    using wf run cnt by (simp add: bm_wf_def run_done_def)
qed

lemma bm_wf_free_run:
  assumes wf: "bm_wf p b" and run: "run_done b i False (unat c) b'"
    and sub: "{i..<i + unat c} \<subseteq> bm_used p b"
    and cnt: "allocated_units b' = allocated_units b"
  shows "bm_wf p (b'\<lparr>allocated_units := allocated_units b' - c\<rparr>)"
proof -
  have card: "card (bm_used p b') = card (bm_used p b) - unat c"
    unfolding bm_used_run_False [OF run] using sub by (simp add: card_Diff_subset)
  have "unat c \<le> card (bm_used p b)" using card_mono [OF _ sub] by simp
  then have "c \<le> allocated_units b" using wf by (simp add: bm_wf_def u32_le_iff)
  then have "unat (allocated_units b - c) = card (bm_used p b')"
    using wf card by (simp add: bm_wf_def unat_sub_u32)
  then show ?thesis
    using wf run cnt by (simp add: bm_wf_def run_done_def)
qed

lemma alloc_units_result:
  assumes wf: "bm_wf p b" and c: "0 < c" "c \<le> MAX_UNITS p"
  shows "case alloc_units p b c of
      Inr (a, b') \<Rightarrow> \<exists>i. i + unat c \<le> unat (MAX_UNITS p) \<and> a = unit_addr p i \<and>
        run_free b i (unat c) \<and> (\<forall>m < i. \<not> run_free b m (unat c)) \<and>
        run_done b i True (unat c) b' \<and>
        bm_used p b' = bm_used p b \<union> {i..<i + unat c} \<and> bm_wf p b' \<and>
        allocated_units b' = allocated_units b + c
    | Inl e \<Rightarrow> e = Panic ''alloc_units: out of memory'' \<and>
        (\<forall>i. i + unat c \<le> unat (MAX_UNITS p) \<longrightarrow> \<not> run_free b i (unat c))"
proof -
  let ?lst = "unat (MAX_UNITS p - c)"
  have lst: "?lst + unat c = unat (MAX_UNITS p)"
    using c(2) by (simp add: unat_sub_u32 u32_le_iff)
  have cap: "?lst + unat c \<le> 32 * length (bitmap b)" "?lst + unat c \<le> 4294967296"
    using bm_wf_capacity [OF wf] unat_u32_lt [of "MAX_UNITS p"] unfolding lst by linarith+
  obtain r where r: "alloc_search b ?lst (unat c) 0 = Inr r"
    and spec: "case r of
       None \<Rightarrow> \<forall>m. 0 \<le> m \<and> m \<le> ?lst \<longrightarrow> \<not> run_free b m (unat c)
     | Some m \<Rightarrow> m \<le> ?lst \<and> run_free b m (unat c) \<and>
         (\<forall>m'. 0 \<le> m' \<and> m' < m \<longrightarrow> \<not> run_free b m' (unat c))"
    using alloc_search_spec [OF cap] by blast
  have nz: "c \<noteq> 0" "\<not> MAX_UNITS p < c" using c by auto
  show ?thesis
  proof (cases r)
    case None
    then have none: "\<not> run_free b i (unat c)" if "i \<le> ?lst" for i
      using spec that by simp
    have "\<not> run_free b i (unat c)" if "i + unat c \<le> unat (MAX_UNITS p)" for i
      using none [of i] that lst by linarith
    with None r nz show ?thesis by (simp add: alloc_units_def)
  next
    case (Some i)
    with spec have i: "i \<le> ?lst" "run_free b i (unat c)" "\<forall>m < i. \<not> run_free b m (unat c)" by auto
    then have le: "i + unat c \<le> unat (MAX_UNITS p)" using lst by linarith
    have cap': "i + unat c \<le> 32 * length (bitmap b)" "i + unat c \<le> 4294967296"
      using cap lst le by linarith+
    obtain b' where b': "for_u32 0 c (\<lambda>j b. set_bit_bm b (word_of_nat i + j)) b = Inr b'"
      and run: "run_done b i True (unat c) b'" and cnt: "allocated_units b' = allocated_units b"
      using set_run [OF cap'] .
    have "alloc_units p b c = Inr (unit_addr p i, b'\<lparr>allocated_units := allocated_units b' + c\<rparr>)"
      using r Some b' nz by (simp add: alloc_units_def unit_addr_def)
    then show ?thesis
      using i le cnt run bm_used_run_True [OF run le] bm_wf_alloc_run [OF wf run le i(2) cnt]
      by (simp only: sum.case prod.case) (rule exI [of _ i], simp)
  qed
qed

lemma free_units_result:
  assumes wf: "bm_wf p b" and c: "0 < c" and le: "i + unat c \<le> unat (MAX_UNITS p)"
  shows "if {i..<i + unat c} \<subseteq> bm_used p b
    then \<exists>b'. free_units p b (unit_addr p i) c = Inr b' \<and> run_done b i False (unat c) b' \<and>
      bm_used p b' = bm_used p b - {i..<i + unat c} \<and> bm_wf p b' \<and>
      allocated_units b' = allocated_units b - c
    else free_units p b (unit_addr p i) c = Inl (Panic ''free_units: double free'')"
proof -
  have geo: "bm_geometry p" using wf by (simp add: bm_wf_def)
  have cap: "i + unat c \<le> 32 * length (bitmap b)" "i + unat c \<le> 4294967296"
    using bm_wf_capacity [OF wf] unat_u32_lt [of "MAX_UNITS p"] le by linarith+
  have rng: "unit_range ''free_units'' p (unit_addr p i) c = Inr (word_of_nat i)"
    using geo c le by (rule unit_range_ok)
  show ?thesis
  proof (cases "{i..<i + unat c} \<subseteq> bm_used p b")
    case True
    obtain b' where b': "for_u32 0 c (\<lambda>j b.
        bindR (test_bit_bm b (word_of_nat i + j)) (\<lambda>t.
          if \<not> t then Inl (Panic ''free_units: double free'')
          else clear_bit_bm b (word_of_nat i + j))) b = Inr b'"
      and run: "run_done b i False (unat c) b'" and cnt: "allocated_units b' = allocated_units b"
      using free_run [OF cap] True [unfolded bm_used_run_subset [OF le]] by blast
    have "free_units p b (unit_addr p i) c = Inr (b'\<lparr>allocated_units := allocated_units b' - c\<rparr>)"
      using rng b' c by (simp add: free_units_def)
    then show ?thesis
      using True run cnt bm_used_run_False [OF run] bm_wf_free_run [OF wf run True cnt] by simp
  next
    case False
    then obtain m where "i \<le> m" "m < i + unat c" "\<not> bm_bits b m"
      unfolding bm_used_run_subset [OF le] by auto
    then have "free_units p b (unit_addr p i) c = Inl (Panic ''free_units: double free'')"
      using rng c free_run_double [OF cap] by (simp add: free_units_def)
    with False show ?thesis by simp
  qed
qed

lemma bm_wf_set_one:
  assumes "bm_wf p b" and "\<not> bm_bits b k" and "k < unat (MAX_UNITS p)"
    and "bm_bits b' = (bm_bits b)(k := True)" and "length (bitmap b') = length (bitmap b)"
    and "allocated_units b' = allocated_units b"
  shows "bm_wf p (b'\<lparr>allocated_units := allocated_units b' + 1\<rparr>)"
  by (rule bm_wf_alloc_run [of p b k 1]) (use assms in \<open>auto simp: run_done_def run_free_def less_Suc_eq_le dest: le_antisym\<close>)

lemma bm_wf_clear_one:
  assumes "bm_wf p b" and "bm_bits b k" and "k < unat (MAX_UNITS p)"
    and "bm_bits b' = (bm_bits b)(k := False)" and "length (bitmap b') = length (bitmap b)"
    and "allocated_units b' = allocated_units b"
  shows "bm_wf p (b'\<lparr>allocated_units := allocated_units b' - 1\<rparr>)"
  by (rule bm_wf_free_run [of p b k 1]) (use assms in \<open>auto simp: run_done_def bm_used_def\<close>)

text \<open>One turn of the two marking loops.\<close>

lemma mark_used_turn:
  assumes run: "run_done b i True (unat j) b'" and wf: "bm_wf p b'"
    and j: "unat j < unat c" and le: "i + unat c \<le> unat (MAX_UNITS p)"
  shows "\<exists>b''. bindR (test_bit_bm b' (word_of_nat i + j)) (\<lambda>t.
      if \<not> t
      then bindR (set_bit_bm b' (word_of_nat i + j))
             (\<lambda>b. Inr (b\<lparr>allocated_units := allocated_units b + 1\<rparr>))
      else Inr b') = Inr b'' \<and> run_done b i True (Suc (unat j)) b'' \<and> bm_wf p b''"
proof -
  have idx: "unat (word_of_nat i + j :: u32) = i + unat j"
    using le unat_u32_lt [of "MAX_UNITS p"] by (intro run_index [OF j]) linarith
  have bound: "unat (word_of_nat i + j :: u32) < 32 * length (bitmap b')"
    unfolding idx using j le bm_wf_capacity [OF wf] by linarith
  show ?thesis
  proof (cases "bm_bits b' (i + unat j)")
    case True
    then have "run_done b i True (Suc (unat j)) b'"
      using run_done_Suc [OF run, of b'] by (simp add: fun_upd_idem)
    with True wf show ?thesis using test_bit_bm_eq [OF bound] by (simp add: idx)
  next
    case False
    obtain b'' where b'': "set_bit_bm b' (word_of_nat i + j) = Inr b''"
      and bits: "bm_bits b'' = (bm_bits b')(i + unat j := True)"
      and rest: "length (bitmap b'') = length (bitmap b')" "allocated_units b'' = allocated_units b'"
      using set_bit_bm_eq [OF bound] unfolding idx .
    have "bm_wf p (b''\<lparr>allocated_units := allocated_units b'' + 1\<rparr>)"
      by (rule bm_wf_set_one [OF wf False _ bits rest]) (use j le in linarith)
    with False b'' run_done_Suc [OF run bits rest(1)] show ?thesis
      using test_bit_bm_eq [OF bound] by (simp add: idx)
  qed
qed

lemma mark_free_turn:
  assumes run: "run_done b i False (unat j) b'" and wf: "bm_wf p b'"
    and j: "unat j < unat c" and le: "i + unat c \<le> unat (MAX_UNITS p)"
  shows "\<exists>b''. bindR (test_bit_bm b' (word_of_nat i + j)) (\<lambda>t.
      if t
      then bindR (clear_bit_bm b' (word_of_nat i + j))
             (\<lambda>b. Inr (b\<lparr>allocated_units := allocated_units b - 1\<rparr>))
      else Inr b') = Inr b'' \<and> run_done b i False (Suc (unat j)) b'' \<and> bm_wf p b''"
proof -
  have idx: "unat (word_of_nat i + j :: u32) = i + unat j"
    using le unat_u32_lt [of "MAX_UNITS p"] by (intro run_index [OF j]) linarith
  have bound: "unat (word_of_nat i + j :: u32) < 32 * length (bitmap b')"
    unfolding idx using j le bm_wf_capacity [OF wf] by linarith
  show ?thesis
  proof (cases "bm_bits b' (i + unat j)")
    case False
    then have "run_done b i False (Suc (unat j)) b'"
      using run_done_Suc [OF run, of b'] by (simp add: fun_upd_idem)
    with False wf show ?thesis using test_bit_bm_eq [OF bound] by (simp add: idx)
  next
    case True
    obtain b'' where b'': "clear_bit_bm b' (word_of_nat i + j) = Inr b''"
      and bits: "bm_bits b'' = (bm_bits b')(i + unat j := False)"
      and rest: "length (bitmap b'') = length (bitmap b')" "allocated_units b'' = allocated_units b'"
      using clear_bit_bm_eq [OF bound] unfolding idx .
    have "bm_wf p (b''\<lparr>allocated_units := allocated_units b'' - 1\<rparr>)"
      by (rule bm_wf_clear_one [OF wf True _ bits rest]) (use j le in linarith)
    with True b'' run_done_Suc [OF run bits rest(1)] show ?thesis
      using test_bit_bm_eq [OF bound] by (simp add: idx)
  qed
qed

lemma mark_units_used_result:
  assumes wf: "bm_wf p b" and le: "i + unat c \<le> unat (MAX_UNITS p)"
  obtains b' where "mark_units_used p b (unit_addr p i) c = Inr b'" and "bm_wf p b'"
    and "bm_used p b' = bm_used p b \<union> {i..<i + unat c}"
proof (cases "c = 0")
  case True
  then show thesis using that wf by (simp add: mark_units_used_def)
next
  case False
  then have c0: "0 < c" by (simp add: word_neq_0_conv)
  have "bm_geometry p" using wf by (simp add: bm_wf_def)
  from unit_range_ok [OF this c0 le]
  have rng: "unit_range ''mark_units_used'' p (unit_addr p i) c = Inr (word_of_nat i)" .
  let ?I = "\<lambda>n b'. run_done b i True n b' \<and> bm_wf p b'"
  have "\<exists>b'. mark_units_used p b (unit_addr p i) c = Inr b' \<and> ?I (unat c) b'"
    unfolding mark_units_used_def if_not_P [OF False] rng bindR_simps
    by (rule for_u32_total [where I = ?I]) (use wf mark_used_turn le in \<open>auto simp: u32_less_iff\<close>)
  then show thesis using that bm_used_run_True [OF _ le] by blast
qed

lemma mark_units_free_result:
  assumes wf: "bm_wf p b" and le: "i + unat c \<le> unat (MAX_UNITS p)"
  obtains b' where "mark_units_free p b (unit_addr p i) c = Inr b'" and "bm_wf p b'"
    and "bm_used p b' = bm_used p b - {i..<i + unat c}"
proof (cases "c = 0")
  case True
  then show thesis using that wf by (simp add: mark_units_free_def)
next
  case False
  then have c0: "0 < c" by (simp add: word_neq_0_conv)
  have "bm_geometry p" using wf by (simp add: bm_wf_def)
  from unit_range_ok [OF this c0 le]
  have rng: "unit_range ''mark_units_free'' p (unit_addr p i) c = Inr (word_of_nat i)" .
  let ?I = "\<lambda>n b'. run_done b i False n b' \<and> bm_wf p b'"
  have "\<exists>b'. mark_units_free p b (unit_addr p i) c = Inr b' \<and> ?I (unat c) b'"
    unfolding mark_units_free_def if_not_P [OF False] rng bindR_simps
    by (rule for_u32_total [where I = ?I]) (use wf mark_free_turn le in \<open>auto simp: u32_less_iff\<close>)
  then show thesis using that bm_used_run_False by blast
qed

lemma bm_contains_unit:
  assumes "bm_geometry p" and "i < unat (MAX_UNITS p)"
  shows "bm_contains p (unit_addr p i)" and "(unit_addr p i - BASE_ADDR p) mod UNIT_SIZE p = 0"
    and "(unit_addr p i - BASE_ADDR p) div UNIT_SIZE p = word_of_nat i"
proof -
  note g = bm_geometry_facts [OF assms(1)]
  have a: "unat (unit_addr p i) = unat (BASE_ADDR p) + i * unat (UNIT_SIZE p)"
    using assms by (rule unit_addr_unat)
  then have ge: "BASE_ADDR p \<le> unit_addr p i" by (simp add: u32_le_iff)
  then have off: "unat (unit_addr p i - BASE_ADDR p) = i * unat (UNIT_SIZE p)"
    using a by (simp add: unat_sub_u32)
  have iu: "unat (word_of_nat i :: u32) = i" using assms(2) g(3) by (intro unat_of_nat_u32) linarith
  show dv: "(unit_addr p i - BASE_ADDR p) div UNIT_SIZE p = word_of_nat i"
    unfolding u32_eq_iff iu using g(2) by (simp add: unat_div off)
  show "(unit_addr p i - BASE_ADDR p) mod UNIT_SIZE p = 0"
    by (simp add: u32_eq_iff unat_mod off)
  show "bm_contains p (unit_addr p i)"
    unfolding bm_contains_def dv using ge assms(2)
    by (simp add: u32_less_iff u32_le_iff iu del: unsigned_of_nat)
qed

lemma bm_allocated_unit:
  assumes "bm_wf p b" and "i < unat (MAX_UNITS p)"
  shows "bm_allocated p b (unit_addr p i) = Inr (i \<in> bm_used p b)"
proof -
  have geo: "bm_geometry p" using assms(1) by (simp add: bm_wf_def)
  have iu: "unat (word_of_nat i :: u32) = i"
    using assms(2) bm_geometry_facts(3) [OF geo] by (intro unat_of_nat_u32) linarith
  have "unat (word_of_nat i :: u32) < 32 * length (bitmap b)"
    unfolding iu using assms(2) bm_wf_capacity [OF assms(1)] by linarith
  from test_bit_bm_eq [OF this] show ?thesis
    using assms(2) by (simp add: bm_allocated_def bm_contains_unit [OF geo assms(2)] iu bm_used_def
        del: unsigned_of_nat)
qed

lemma bm_init_wf: "bm_geometry p \<Longrightarrow> bm_wf p (bm_init p) \<and> bm_used p (bm_init p) = {}"
  by (auto simp: bm_wf_def bm_init_def bm_used_def bm_bits_def)

lemma bm_eqI:
  assumes "bm_bits b = bm_bits b'" and "length (bitmap b) = length (bitmap b')"
    and "allocated_units b = allocated_units b'"
  shows "b = (b' :: bitmap_alloc)"
proof -
  have "bitmap b = bitmap b'"
  proof (rule nth_equalityI [OF assms(2)], rule bit_word_eqI)
    fix k n assume k: "k < length (bitmap b)" and n: "n < LENGTH(32)"
    have "32 * k + n < 32 * length (bitmap b)" using k n by simp
    moreover have "(32 * k + n) div 32 = k" "(32 * k + n) mod 32 = n" using n by simp_all
    ultimately show "bit (bitmap b ! k) n = bit (bitmap b' ! k) n"
      using fun_cong [OF assms(1), of "32 * k + n"] assms(2) by (simp add: bm_bits_def)
  qed
  with assms(3) show ?thesis by simp
qed

section \<open>The interface of an allocator of equal units\<close>

text \<open>
  What the physical memory manager and the linker rely on, without the bitmap: \<open>used\<close> is
  the set of unit numbers handed out, \<open>addr\<close> the address of a unit.
\<close>

locale unit_allocator =
  fixes inv :: "'s \<Rightarrow> bool"
    and used :: "'s \<Rightarrow> nat set"
    and capacity :: nat
    and addr :: "nat \<Rightarrow> u32"
    and alloc :: "'s \<Rightarrow> u32 \<Rightarrow> (u32 \<times> 's) kres"
    and release :: "'s \<Rightarrow> u32 \<Rightarrow> u32 \<Rightarrow> 's kres"
  assumes used_bound: "used s \<subseteq> {..<capacity}"
    and alloc_ok: "inv s \<Longrightarrow> 0 < c \<Longrightarrow> alloc s c = Inr (a, s') \<Longrightarrow>
      \<exists>i. i + unat c \<le> capacity \<and> a = addr i \<and> {i..<i + unat c} \<inter> used s = {} \<and>
          used s' = used s \<union> {i..<i + unat c} \<and> inv s'"
    and alloc_available: "inv s \<Longrightarrow> 0 < c \<Longrightarrow> i + unat c \<le> capacity \<Longrightarrow>
      {i..<i + unat c} \<inter> used s = {} \<Longrightarrow> \<exists>a s'. alloc s c = Inr (a, s')"
    and release_ok: "inv s \<Longrightarrow> 0 < c \<Longrightarrow> i + unat c \<le> capacity \<Longrightarrow>
      {i..<i + unat c} \<subseteq> used s \<Longrightarrow>
      \<exists>s'. release s (addr i) c = Inr s' \<and> used s' = used s - {i..<i + unat c} \<and> inv s'"
    and release_stops: "inv s \<Longrightarrow> 0 < c \<Longrightarrow> i + unat c \<le> capacity \<Longrightarrow>
      \<not> {i..<i + unat c} \<subseteq> used s \<Longrightarrow> \<exists>m. release s (addr i) c = Inl (Panic m)"
begin

lemma alloc_inv: "inv s \<Longrightarrow> 0 < c \<Longrightarrow> alloc s c = Inr (a, s') \<Longrightarrow> inv s'"
  using alloc_ok by blast

lemma alloc_twice_disjoint:
  assumes "inv s" and "0 < c" and "alloc s c = Inr (a, s1)" and "0 < d" and "alloc s1 d = Inr (a', s2)"
  shows "\<exists>i j. a = addr i \<and> a' = addr j \<and> {i..<i + unat c} \<inter> {j..<j + unat d} = {} \<and>
    {i..<i + unat c} \<union> {j..<j + unat d} \<subseteq> used s2"
proof -
  obtain i where i: "a = addr i" "used s1 = used s \<union> {i..<i + unat c}" "inv s1"
    using alloc_ok [OF assms(1-3)] by blast
  obtain j where "a' = addr j" "{j..<j + unat d} \<inter> used s1 = {}"
    "used s2 = used s1 \<union> {j..<j + unat d}"
    using alloc_ok [OF i(3) assms(4,5)] by blast
  with i show ?thesis by blast
qed

lemma alloc_release:
  assumes "inv s" and "0 < c" and "alloc s c = Inr (a, s1)"
  shows "\<exists>s2. release s1 a c = Inr s2 \<and> used s2 = used s \<and> inv s2"
proof -
  obtain i where i: "i + unat c \<le> capacity" "a = addr i" "{i..<i + unat c} \<inter> used s = {}"
    "used s1 = used s \<union> {i..<i + unat c}" "inv s1"
    using alloc_ok [OF assms] by blast
  then obtain s2 where "release s1 a c = Inr s2" "used s2 = used s1 - {i..<i + unat c}" "inv s2"
    using release_ok [OF i(5) assms(2) i(1)] by auto
  with i show ?thesis by (intro exI [of _ s2]) auto
qed

lemma release_twice_stops:
  assumes "inv s" and "0 < c" and "i + unat c \<le> capacity" and "release s (addr i) c = Inr s1"
  shows "\<exists>m. release s1 (addr i) c = Inl (Panic m)"
proof -
  have "{i..<i + unat c} \<subseteq> used s"
    using release_stops [OF assms(1-3)] assms(4) by fastforce
  then have "used s1 = used s - {i..<i + unat c}" "inv s1"
    using release_ok [OF assms(1-3)] assms(4) by auto
  moreover have i: "i \<in> {i..<i + unat c}" using assms(2) by (simp add: u32_less_iff)
  ultimately have "\<not> {i..<i + unat c} \<subseteq> used s1" by blast
  with \<open>inv s1\<close> show ?thesis by (rule release_stops [OF _ assms(2,3)])
qed

end

text \<open>Every sound instance of the class template provides the interface.\<close>

lemma bm_unit_allocator:
  assumes geo: "bm_geometry p"
  shows "unit_allocator (bm_wf p) (bm_used p) (unat (MAX_UNITS p)) (unit_addr p)
    (alloc_units p) (free_units p)"
proof (unfold_locales, goal_cases)
  case (1 s)
  show ?case by (rule bm_used_bound)
next
  case (2 s c a s')
  then have "c \<le> MAX_UNITS p" by (auto simp: alloc_units_def not_less split: if_splits)
  from alloc_units_result [OF 2(1,2) this] 2(3) show ?case
    by (auto simp: run_free_used)
next
  case (3 s c i)
  then have "c \<le> MAX_UNITS p" by (simp add: u32_le_iff)
  from alloc_units_result [OF 3(1,2) this] 3(3,4) show ?case
    by (cases "alloc_units p s c") (auto simp: run_free_used)
next
  case (4 s c i)
  then show ?case using free_units_result [OF 4(1-3)] by auto
next
  case (5 s c i)
  then show ?case using free_units_result [OF 5(1-3)] by simp
qed

section \<open>Properties\<close>

definition example_bm :: bm_params where
  "example_bm = \<lparr>BASE_ADDR = 0x400000, MAX_UNITS = 32, UNIT_SIZE = 0x1000\<rparr>"

lemma example_bm_sel [simp]:
  "BASE_ADDR example_bm = 0x400000" "MAX_UNITS example_bm = 32" "UNIT_SIZE example_bm = 0x1000"
  by (simp_all add: example_bm_def)

lemma example_bm_geometry: "bm_geometry example_bm"
  by (simp add: bm_geometry_def example_bm_def)

lemma example_bm_init [simp]: "bm_wf example_bm (bm_init example_bm)" "bm_used example_bm (bm_init example_bm) = {}"
  using bm_init_wf [OF example_bm_geometry] by simp_all

text \<open>
  Property C4 (functional): \<open>alloc_units\<close> is a complete first-fit search. On a well-formed
  allocator and a request that fits the capacity, it either returns the address of the
  lowest run of free units of the requested length, marks exactly these units as used, adds
  the request to the counter and keeps the allocator well-formed, or it panics with out of
  memory, and then no run of free units of that length exists. The skip over the unit in
  use (\<^verbatim>\<open>i += j\<close>) therefore never misses a run.
\<close>

theorem alloc_units_first_fit:
  assumes "bm_wf p b" and "0 < c" and "c \<le> MAX_UNITS p"
  shows "case alloc_units p b c of
      Inr (a, b') \<Rightarrow> \<exists>i. i + unat c \<le> unat (MAX_UNITS p) \<and> a = unit_addr p i \<and>
        run_free b i (unat c) \<and> (\<forall>m < i. \<not> run_free b m (unat c)) \<and>
        bm_used p b' = bm_used p b \<union> {i..<i + unat c} \<and>
        allocated_units b' = allocated_units b + c \<and> bm_wf p b'
    | Inl e \<Rightarrow> e = Panic ''alloc_units: out of memory'' \<and>
        (\<forall>i. i + unat c \<le> unat (MAX_UNITS p) \<longrightarrow> \<not> run_free b i (unat c))"
  using alloc_units_result [OF assms] by (cases "alloc_units p b c") auto

theorem alloc_units_first_fit_witness:
  "\<exists>b'. alloc_units example_bm (bm_init example_bm) 3 = Inr (0x400000, b') \<and>
    bm_used example_bm b' = {0, 1, 2}"
proof -
  let ?b = "bm_init example_bm"
  have free: "run_free ?b 0 3"
    by (simp add: run_free_def bm_bits_def bm_init_def BITMAP_SIZE_def)
  note * = alloc_units_first_fit [of example_bm ?b 3]
  show ?thesis
  proof (cases "alloc_units example_bm ?b 3")
    case (Inl e)
    with * have "\<not> run_free ?b 0 3" by (simp add: example_bm_def [symmetric])
    with free show ?thesis by simp
  next
    case (Inr r)
    obtain a b' where r: "r = (a, b')" by (cases r)
    with * Inr obtain i where i: "a = unit_addr example_bm i" "\<forall>m < i. \<not> run_free ?b m 3"
      "bm_used example_bm b' = {i..<i + 3}" by auto
    with free have "i = 0" by auto
    moreover have "{0..<3 :: nat} = {0, 1, 2}" by auto
    ultimately show ?thesis using Inr r i by (simp add: unit_addr_def)
  qed
qed

text \<open>
  \<open>free_units\<close> detects double frees. On a run inside the capacity it
  succeeds exactly when every unit of the run is in use, and then clears exactly these units
  and keeps the allocator well-formed; when any unit of the run is already free it panics
  with double free.
\<close>

theorem free_units_exact:
  assumes "bm_wf p b" and "0 < c" and "i + unat c \<le> unat (MAX_UNITS p)"
  shows "if {i..<i + unat c} \<subseteq> bm_used p b
    then \<exists>b'. free_units p b (unit_addr p i) c = Inr b' \<and>
      bm_used p b' = bm_used p b - {i..<i + unat c} \<and>
      allocated_units b' = allocated_units b - c \<and> bm_wf p b'
    else free_units p b (unit_addr p i) c = Inl (Panic ''free_units: double free'')"
  using free_units_result [OF assms] by (auto split: if_splits)

theorem free_units_exact_witness:
  "free_units example_bm (bm_init example_bm) 0x405000 2 = Inl (Panic ''free_units: double free'')"
proof -
  have "unit_addr example_bm 5 = 0x405000" by (simp add: unit_addr_def)
  moreover have "\<not> {5..<7 :: nat} \<subseteq> {}" by simp
  ultimately show ?thesis
    using free_units_exact [of example_bm "bm_init example_bm" 2 5] by simp
qed

text \<open>
  Releasing what was just allocated gives back the very same
  allocator, bit for bit and counter included.
\<close>

theorem alloc_free_units_roundtrip:
  assumes wf: "bm_wf p b" and c: "0 < c" and al: "alloc_units p b c = Inr (a, b1)"
  shows "free_units p b1 a c = Inr b"
proof -
  have "c \<le> MAX_UNITS p" using al c by (auto simp: alloc_units_def not_less split: if_splits)
  from alloc_units_result [OF wf c this] al obtain i where
    i: "i + unat c \<le> unat (MAX_UNITS p)" "a = unit_addr p i" "run_free b i (unat c)"
      "run_done b i True (unat c) b1" "bm_used p b1 = bm_used p b \<union> {i..<i + unat c}" "bm_wf p b1"
      "allocated_units b1 = allocated_units b + c" by auto
  then obtain b2 where b2: "free_units p b1 a c = Inr b2" "run_done b1 i False (unat c) b2"
    "allocated_units b2 = allocated_units b1 - c"
    using free_units_result [OF i(6) c i(1)] by auto
  have "b2 = b"
    using i(3,4,7) b2(2,3) by (intro bm_eqI) (auto simp: run_done_def run_free_def fun_eq_iff)
  with b2 show ?thesis by simp
qed

theorem alloc_free_units_roundtrip_witness:
  "\<exists>b1. alloc_units example_bm (bm_init example_bm) 1 = Inr (0x400000, b1) \<and>
    free_units example_bm b1 0x400000 1 = Inr (bm_init example_bm)"
proof -
  have "alloc_units example_bm (bm_init example_bm) 1 =
    Inr (0x400000, \<lparr>bitmap = [1], allocated_units = 1\<rparr>)"
    by (simp add: alloc_units_def bm_init_def BITMAP_SIZE_def alloc_search.simps
        alloc_scan.simps test_bit_bm_def set_bit_bm_def for_u32.simps)
  then show ?thesis
    using alloc_free_units_roundtrip [of example_bm "bm_init example_bm" 1] by simp
qed

text \<open>
  The range check \<^verbatim>\<open>start + count > MAX_UNITS\<close> is done in 32 bits, and a
  count of \<open>2^32 - i\<close> at unit \<open>i\<close> makes the sum wrap to 0 and pass. \<open>mark_units_used\<close> then
  marks every unit from \<open>i\<close> to the end and goes on past the end of the bitmap array, which
  is undefined behaviour.
\<close>

theorem mark_units_used_overflow:
  assumes wf: "bm_wf p b" and i: "0 < i" "i < unat (MAX_UNITS p)"
  shows "mark_units_used p b (unit_addr p i) (- word_of_nat i) = Inl Undefined"
proof -
  let ?c = "- word_of_nat i :: u32" and ?L = "32 * length (bitmap b)"
  have geo: "bm_geometry p" using wf by (simp add: bm_wf_def)
  have len: "length (bitmap b) = (unat (MAX_UNITS p) + 31) div 32"
    using wf by (simp add: bm_wf_def unat_BITMAP_SIZE)
  have L: "i < ?L" "?L < 4294967296" "unat (MAX_UNITS p) \<le> ?L"
    using len i(2) bm_geometry_facts(3) [OF geo] by linarith+
  have iu: "unat (word_of_nat i :: u32) = i" using L by (intro unat_of_nat_u32) linarith
  have "word_of_nat (4294967296 - i) + word_of_nat i = (word_of_nat 4294967296 :: u32)"
    using L by (simp flip: of_nat_add)
  also have "\<dots> = 0" by simp
  finally have "word_of_nat (4294967296 - i) = ?c" unfolding eq_neg_iff_add_eq_0 .
  moreover have "unat (word_of_nat (4294967296 - i) :: u32) = 4294967296 - i"
    using i(1) by (intro unat_of_nat_u32) simp
  ultimately have cu: "unat ?c = 4294967296 - i" by simp
  let ?m = "word_of_nat (?L - i) :: u32"
  have mu: "unat ?m = ?L - i" using L by (intro unat_of_nat_u32) linarith
  have c0: "?c \<noteq> 0" unfolding u32_eq_iff cu using L by simp
  have rng: "unit_range ''mark_units_used'' p (unit_addr p i) ?c = Inr (word_of_nat i)"
    using unit_range_unit_addr [OF geo i(2)] by simp
  show ?thesis
    unfolding mark_units_used_def if_not_P [OF c0] rng bindR_simps
  proof (rule for_u32_stops [where I = "\<lambda>n b'. length (bitmap b') = length (bitmap b)" and m = ?m])
    show "?m < ?c" unfolding u32_less_iff mu cu using L by linarith
    fix k :: u32 and b' :: bitmap_alloc assume "k < ?m" and len': "length (bitmap b') = length (bitmap b)"
    then have k: "unat k < ?L - i" by (simp only: u32_less_iff mu)
    have "unat (word_of_nat i + k :: u32) = i + unat k" using L by (intro run_index [OF k]) linarith
    then have bound: "unat (word_of_nat i + k :: u32) < 32 * length (bitmap b')"
      using k len' by linarith
    obtain b'' where "set_bit_bm b' (word_of_nat i + k) = Inr b''" "length (bitmap b'') = length (bitmap b')"
      using set_bit_bm_eq [OF bound] by metis
    then show "\<exists>b''. bindR (test_bit_bm b' (word_of_nat i + k)) (\<lambda>t. if \<not> t
        then bindR (set_bit_bm b' (word_of_nat i + k))
               (\<lambda>b. Inr (b\<lparr>allocated_units := allocated_units b + 1\<rparr>))
        else Inr b') = Inr b'' \<and> length (bitmap b'') = length (bitmap b)"
      using len' test_bit_bm_eq [OF bound] by simp
  next
    fix b' :: bitmap_alloc assume len': "length (bitmap b') = length (bitmap b)"
    have "unat (word_of_nat i :: u32) + unat ?m < 4294967296" unfolding iu mu using L by linarith
    from unat_add_u32 [OF this] have "unat (word_of_nat i + ?m) = ?L"
      unfolding iu mu using L by simp
    then show "bindR (test_bit_bm b' (word_of_nat i + ?m)) (\<lambda>t. if \<not> t
        then bindR (set_bit_bm b' (word_of_nat i + ?m))
               (\<lambda>b. Inr (b\<lparr>allocated_units := allocated_units b + 1\<rparr>))
        else Inr b') = Inl Undefined"
      using test_bit_bm_out [of b' "word_of_nat i + ?m"] len' by simp
  qed simp_all
qed

theorem mark_units_used_overflow_witness:
  "mark_units_used example_bm (bm_init example_bm) 0x401000 0xFFFFFFFF = Inl Undefined"
proof -
  have "unit_addr example_bm 1 = 0x401000" by (simp add: unit_addr_def)
  moreover have c: "(0xFFFFFFFF :: u32) = - 1" by simp
  ultimately show ?thesis
    unfolding c using mark_units_used_overflow [of example_bm "bm_init example_bm" 1] by simp
qed

end
