(* ===== verification/PMM.thy ===== *)
theory PMM
  imports Layout Bitmap
begin

text \<open>
  \<^verbatim>\<open>mm/pmm.hpp\<close>, \<^verbatim>\<open>mm/pmm.cpp\<close> and \<^verbatim>\<open>multiboot_utils.hpp\<close>: the physical memory manager. It owns a
  bitmap allocator over the 2^20 frames of the 4 GiB physical address space and two counters.
  \<open>pmm_init\<close> marks every frame used, frees the whole pages of the memory map's available
  entries, and takes back the kernel image, the modules and the low bootstrap area. The
  spin lock around each operation makes it atomic; the operations are modelled as they run
  under it. What \<^verbatim>\<open>init\<close> only prints is left out, except for the array access
  \<^verbatim>\<open>typeNames[type]\<close>, which is undefined for a type above 5.
\<close>

section \<open>State and page ranges\<close>

definition PMM_params :: bm_params where
  "PMM_params = \<lparr>BASE_ADDR = 0, MAX_UNITS = MAX_FRAMES, UNIT_SIZE = PAGE_SIZE\<rparr>"

record pmm =
  mem_mngr :: bitmap_alloc
  available_frames :: u32
  used_frames :: u32

record page_range =
  prbase :: u32
  frames :: u32

definition empty_range :: page_range where
  "empty_range = \<lparr>prbase = 0, frames = 0\<rparr>"

definition pr_size :: "page_range \<Rightarrow> u32" where
  "pr_size r = frames r * PAGE_SIZE"

definition pr_empty :: "page_range \<Rightarrow> bool" where
  "pr_empty r \<longleftrightarrow> frames r = 0"

definition freeable_page_range :: "u32 \<Rightarrow> u32 \<Rightarrow> u32 \<Rightarrow> page_range" where
  "freeable_page_range base sz min_base =
     (if sz = 0 then empty_range
      else let
        start = ucast base :: u64;
        fin = (ucast base :: u64) + ucast sz;
        floor = ucast min_base :: u64;
        ceil = (ucast MAX_FRAMES :: u64) * ucast PAGE_SIZE
      in if fin \<le> floor \<or> start \<ge> ceil then empty_range
      else let
        start = (if start < floor then floor else start);
        fin = (if fin > ceil then ceil else fin);
        start = (start + ucast PAGE_SIZE - 1) AND NOT (ucast PAGE_SIZE - 1);
        fin = fin AND NOT (ucast PAGE_SIZE - 1)
      in if fin \<le> start then empty_range
      else \<lparr>prbase = ucast start, frames = ucast ((fin - start) div ucast PAGE_SIZE)\<rparr>)"

definition covered_page_range :: "u32 \<Rightarrow> u32 \<Rightarrow> page_range" where
  "covered_page_range base sz =
     (if sz = 0 then empty_range
      else let
        start = ucast (align_down base PAGE_SIZE) :: u64;
        fin = ucast (align_up (base + sz) PAGE_SIZE) :: u64;
        ceil = (ucast MAX_FRAMES :: u64) * ucast PAGE_SIZE
      in if start \<ge> ceil then empty_range
      else let fin = (if fin > ceil then ceil else fin)
      in if fin \<le> start then empty_range
      else \<lparr>prbase = ucast start, frames = ucast ((fin - start) div ucast PAGE_SIZE)\<rparr>)"

section \<open>Allocation\<close>

definition alloc_frames :: "pmm \<Rightarrow> u32 \<Rightarrow> (u32 \<times> pmm) kres" where
  "alloc_frames s count = bindR (alloc_units PMM_params (mem_mngr s) count)
     (\<lambda>(addr, b). Inr (addr, s\<lparr>mem_mngr := b, used_frames := used_frames s + count\<rparr>))"

definition free_frames :: "pmm \<Rightarrow> u32 \<Rightarrow> u32 \<Rightarrow> pmm kres" where
  "free_frames s base count = bindR (free_units PMM_params (mem_mngr s) base count)
     (\<lambda>b. Inr (s\<lparr>mem_mngr := b, used_frames := used_frames s - count\<rparr>))"

definition alloc_frame :: "pmm \<Rightarrow> (u32 \<times> pmm) kres" where
  "alloc_frame s = alloc_frames s 1"

definition free_frame :: "pmm \<Rightarrow> u32 \<Rightarrow> pmm kres" where
  "free_frame s addr = free_frames s addr 1"

definition frame_used :: "pmm \<Rightarrow> u32 \<Rightarrow> bool kres" where
  "frame_used s addr = bm_allocated PMM_params (mem_mngr s) addr"

definition free_memory :: "pmm \<Rightarrow> u32" where
  "free_memory s = (available_frames s - used_frames s) * PAGE_SIZE"

definition used_memory :: "pmm \<Rightarrow> u32" where
  "used_memory s = used_frames s * PAGE_SIZE"

definition total_memory :: "pmm \<Rightarrow> u32" where
  "total_memory s = available_frames s * PAGE_SIZE"

definition init_region :: "pmm \<Rightarrow> u32 \<Rightarrow> u32 \<Rightarrow> pmm kres" where
  "init_region s base sz =
     (let range = freeable_page_range base sz 0 in
      if pr_empty range then Inr s
      else bindR (mark_units_free PMM_params (mem_mngr s) (prbase range) (frames range))
        (\<lambda>b. Inr (s\<lparr>mem_mngr := b\<rparr>)))"

definition deinit_region :: "pmm \<Rightarrow> u32 \<Rightarrow> u32 \<Rightarrow> pmm kres" where
  "deinit_region s base sz =
     (let range = covered_page_range base sz in
      if pr_empty range then Inr s
      else bindR (for_u32 0 (frames range)
          (\<lambda>i used_before. bindR (bm_allocated PMM_params (mem_mngr s) (prbase range + i * PAGE_SIZE))
             (\<lambda>u. Inr (if u then used_before + 1 else used_before))) 0)
        (\<lambda>used_before. bindR (mark_units_used PMM_params (mem_mngr s) (prbase range) (frames range))
          (\<lambda>b. Inr (s\<lparr>mem_mngr := b,
             used_frames := used_frames s + (frames range - used_before)\<rparr>))))"

section \<open>The boot loader's tables\<close>

text \<open>The fields of \<^verbatim>\<open>multiboot_info_t\<close> that the kernel reads.\<close>

record multiboot_info =
  mb_flags :: u32
  mods_count :: u32
  mods_addr :: u32
  mmap_length :: u32
  mmap_addr :: u32

record mmap_entry =
  me_size :: u32
  me_addr :: u64
  me_len :: u64
  me_type :: u32

record multiboot_module =
  mod_start :: u32
  mod_end :: u32

definition MULTIBOOT_INFO_MODS :: u32 where "MULTIBOOT_INFO_MODS = 0x8"
definition MULTIBOOT_INFO_MEM_MAP :: u32 where "MULTIBOOT_INFO_MEM_MAP = 0x40"
definition MULTIBOOT_MEMORY_AVAILABLE :: u32 where "MULTIBOOT_MEMORY_AVAILABLE = 1"

definition TEST_MASK :: "u32 \<Rightarrow> u32 \<Rightarrow> bool" where
  "TEST_MASK v m \<longleftrightarrow> v AND m = m"

definition load_mmap_entry :: "mem \<Rightarrow> u32 \<Rightarrow> mmap_entry" where
  "load_mmap_entry m p = \<lparr>me_size = load32 m p, me_addr = load64 m (p + 4), me_len = load64 m (p + 12),
     me_type = load32 m (p + 20)\<rparr>"

definition load_module :: "mem \<Rightarrow> u32 \<Rightarrow> multiboot_module" where
  "load_module m p = \<lparr>mod_start = load32 m p, mod_end = load32 m (p + 4)\<rparr>"

definition has_modules :: "multiboot_info \<Rightarrow> bool" where
  "has_modules info \<longleftrightarrow> TEST_MASK (mb_flags info) MULTIBOOT_INFO_MODS \<and> mods_count info \<noteq> 0 \<and>
     mods_addr info \<noteq> 0"

definition module_count :: "multiboot_info \<Rightarrow> u32" where
  "module_count info = (if has_modules info then mods_count info else 0)"

definition modules :: "multiboot_info \<Rightarrow> u32 option" where
  "modules info = (if \<not> has_modules info then None else Some (mods_addr info))"

definition for_each_module ::
  "mem \<Rightarrow> multiboot_info \<Rightarrow> (u32 \<Rightarrow> multiboot_module \<Rightarrow> 's \<Rightarrow> 's kres) \<Rightarrow> 's \<Rightarrow> 's kres" where
  "for_each_module m info fn s =
     (case modules info of
        None \<Rightarrow> Inr s
      | Some module \<Rightarrow> for_u32 0 (mods_count info) (\<lambda>i. fn i (load_module m (module + i * 16))) s)"

definition max_module_end_aligned :: "mem \<Rightarrow> multiboot_info \<Rightarrow> u32 kres" where
  "max_module_end_aligned m info = for_each_module m info
     (\<lambda>_ module fin. let aligned_end = align_up (mod_end module) PAGE_SIZE in
        Inr (if aligned_end > fin then aligned_end else fin)) 0"

section \<open>Initialisation\<close>

text \<open>One turn of the loop over the memory map.\<close>

definition map_region :: "mmap_entry \<Rightarrow> pmm \<Rightarrow> pmm kres" where
  "map_region e s =
     (let base = ucast (me_addr e); len = ucast (me_len e); type = me_type e in
      bindR (guardR (type \<le> 5) Undefined) (\<lambda>_.
      if type = MULTIBOOT_MEMORY_AVAILABLE then
        let range = freeable_page_range base len LOW_USABLE_BASE in
        if \<not> pr_empty range then
          init_region (s\<lparr>available_frames := available_frames s + frames range\<rparr>) (prbase range) (pr_size range)
        else Inr s
      else Inr s))"

text \<open>
  The loop itself. An entry's \<^verbatim>\<open>size\<close> field is taken on trust, so the walk need not end (a
  size of \<^verbatim>\<open>0xFFFFFFFC\<close> makes no progress): \<open>None\<close> is a walk that does not end.
\<close>

partial_function (option) mmap_walk :: "mem \<Rightarrow> u32 \<Rightarrow> u32 \<Rightarrow> pmm \<Rightarrow> pmm kres option" where
  [code]: "mmap_walk m mmap mmap_end s =
     (if mmap < mmap_end then
        case map_region (load_mmap_entry m mmap) s of
          Inl e \<Rightarrow> Some (Inl e)
        | Inr s' \<Rightarrow> mmap_walk m (mmap + me_size (load_mmap_entry m mmap) + 4) mmap_end s'
      else Some (Inr s))"

definition reserve_kernel :: "u32 \<Rightarrow> u32 \<Rightarrow> pmm \<Rightarrow> pmm kres" where
  "reserve_kernel kernel_start kernel_end s =
     (let kernel_span = pr_size (covered_page_range kernel_start (kernel_end - kernel_start)) in
      deinit_region s kernel_start kernel_span)"

definition reserve_module :: "multiboot_module \<Rightarrow> pmm \<Rightarrow> pmm kres" where
  "reserve_module module s =
     (let sz = mod_end module - mod_start module;
          span = pr_size (covered_page_range (mod_start module) sz) in
      deinit_region s (mod_start module) span)"

definition low_boot_reserved_end :: "mem \<Rightarrow> multiboot_info \<Rightarrow> u32 \<Rightarrow> u32 kres" where
  "low_boot_reserved_end m info kernel_end =
     bindR (max_module_end_aligned m info) (\<lambda>modules_end.
       let low = align_up kernel_end PAGE_SIZE in
       Inr (if modules_end > low then modules_end else low))"

definition reserve_boot :: "mem \<Rightarrow> multiboot_info \<Rightarrow> u32 \<Rightarrow> u32 \<Rightarrow> pmm \<Rightarrow> pmm kres" where
  "reserve_boot m info kernel_start kernel_end s =
     bindR (low_boot_reserved_end m info kernel_end) (\<lambda>low.
     bindR (reserve_kernel kernel_start kernel_end s) (\<lambda>s.
     bindR (for_each_module m info (\<lambda>_ module s. reserve_module module s) s) (\<lambda>s.
     if low > LOW_USABLE_BASE then deinit_region s LOW_USABLE_BASE (low - LOW_USABLE_BASE) else Inr s)))"

definition pmm_init :: "mem \<Rightarrow> multiboot_info \<Rightarrow> u32 \<Rightarrow> u32 \<Rightarrow> pmm \<Rightarrow> pmm kres option" where
  "pmm_init m mboot kernel_start kernel_end s =
     (if \<not> TEST_MASK (mb_flags mboot) MULTIBOOT_INFO_MEM_MAP
      then Some (Inl (Panic (''Bootloader can't store memory map!'' @ [CHR 0x0A])))
      else
        case mark_units_used PMM_params (mem_mngr s) 0 MAX_FRAMES of
          Inl e \<Rightarrow> Some (Inl e)
        | Inr b \<Rightarrow>
            (case mmap_walk m (mmap_addr mboot) (mmap_addr mboot + mmap_length mboot)
                (s\<lparr>mem_mngr := b, available_frames := 0, used_frames := 0\<rparr>) of
               None \<Rightarrow> None
             | Some (Inl e) \<Rightarrow> Some (Inl e)
             | Some (Inr s) \<Rightarrow> Some (reserve_boot m mboot kernel_start kernel_end s)))"

section \<open>Page ranges as sets of frame numbers\<close>

definition pr_set :: "page_range \<Rightarrow> nat set" where
  "pr_set r = {unat (prbase r) div 4096..<unat (prbase r) div 4096 + unat (frames r)}"

definition pr_ok :: "page_range \<Rightarrow> bool" where
  "pr_ok r \<longleftrightarrow> unat (prbase r) mod 4096 = 0 \<and> unat (prbase r) div 4096 + unat (frames r) \<le> 1048576"

text \<open>The frames between two page-aligned 64-bit bounds that do not exceed 4 GiB.\<close>

definition mk_range :: "nat \<Rightarrow> nat \<Rightarrow> page_range" where
  "mk_range a b = (if b \<le> a then empty_range
     else \<lparr>prbase = word_of_nat (a * 4096), frames = word_of_nat (b - a)\<rparr>)"

lemma mk_range_set: "b \<le> 1048576 \<Longrightarrow> pr_set (mk_range a b) = {a..<b} \<and> pr_ok (mk_range a b) \<and>
    (pr_empty (mk_range a b) \<longleftrightarrow> b \<le> a)"
proof (cases "b \<le> a")
  case False
  assume "b \<le> 1048576"
  with False have "unat (word_of_nat (a * 4096) :: u32) = a * 4096"
    "unat (word_of_nat (b - a) :: u32) = b - a"
    by (intro unat_of_nat_u32; simp)+
  with False \<open>b \<le> 1048576\<close> show ?thesis
    by (simp add: mk_range_def pr_set_def pr_ok_def pr_empty_def u32_eq_iff del: unsigned_of_nat)
qed (simp add: mk_range_def empty_range_def pr_set_def pr_ok_def pr_empty_def)

lemma u64_range:
  fixes start fin :: u64
  assumes "unat start = a * 4096" "unat fin = b * 4096" "b \<le> 1048576"
  shows "(if fin \<le> start then empty_range
      else \<lparr>prbase = ucast start, frames = ucast ((fin - start) div ucast PAGE_SIZE)\<rparr>) = mk_range a b"
proof (cases "b \<le> a")
  case True
  then show ?thesis using assms by (simp add: mk_range_def word_le_nat_alt)
next
  case False
  then have "start \<le> fin" using assms by (simp add: word_le_nat_alt)
  then have "unat (fin - start) = (b - a) * 4096"
    using assms by (simp add: unat_sub diff_mult_distrib)
  then have "unat ((fin - start) div ucast PAGE_SIZE) = b - a"
    by (simp add: unat_div PAGE_SIZE_def)
  then have "ucast ((fin - start) div ucast PAGE_SIZE) = (word_of_nat (b - a) :: u32)"
    using of_nat_unat [of "(fin - start) div ucast PAGE_SIZE", where 'a = "u32"] by simp
  moreover have "ucast start = (word_of_nat (a * 4096) :: u32)"
    using of_nat_unat [of start, where 'a = "u32"] assms(1) by simp
  ultimately show ?thesis using False assms by (simp add: mk_range_def word_le_nat_alt)
qed

lemma unat_add_u64: "unat x + unat y < 18446744073709551616 \<Longrightarrow> unat (x + y :: u64) = unat x + unat y"
  by (subst unat_add_lem [THEN iffD1]) simp_all

lemma u64_page_up:
  fixes x :: u64
  assumes "unat x \<le> 4294967296"
  shows "unat ((x + ucast PAGE_SIZE - 1) AND NOT (ucast PAGE_SIZE - 1)) = (unat x + 4095) div 4096 * 4096"
proof -
  have P: "ucast PAGE_SIZE - 1 = (4095 :: u64)" by (simp add: PAGE_SIZE_def)
  have "x + ucast PAGE_SIZE - 1 = x + (ucast PAGE_SIZE - 1)" by (simp only: add_diff_eq)
  then have "(x + ucast PAGE_SIZE - 1) AND NOT (ucast PAGE_SIZE - 1) = (x + 4095) AND NOT (mask 12)"
    unfolding P by (simp add: mask_eq_exp_minus_1 add.commute)
  moreover have "unat (x + 4095) = unat x + 4095" using assms by (subst unat_add_u64) simp_all
  ultimately show ?thesis by (simp add: unat_and_not_mask)
qed

lemma u64_page_down: "unat (x AND NOT (ucast PAGE_SIZE - 1) :: u64) = unat x div 4096 * 4096"
  using unat_and_not_mask [of x 12] by (simp add: PAGE_SIZE_def mask_eq_exp_minus_1)

lemma u64_ceil: "(ucast MAX_FRAMES :: u64) * ucast PAGE_SIZE = 4294967296"
  by (simp add: MAX_FRAMES_def PAGE_SIZE_def)

lemma freeable_page_range_eq:
  "freeable_page_range base sz min_base =
     mk_range ((max (unat base) (unat min_base) + 4095) div 4096)
       (min (unat base + unat sz) 4294967296 div 4096)"
proof -
  let ?S = "max (unat base) (unat min_base)" and ?E = "min (unat base + unat sz) 4294967296"
  let ?start = "ucast base :: u64" and ?fin = "(ucast base :: u64) + ucast sz"
  let ?floor = "ucast min_base :: u64"
  have fin: "unat ?fin = unat base + unat sz"
    using add_strict_mono [OF unat_u32_lt [of base] unat_u32_lt [of sz]] by (subst unat_add_u64) simp_all
  show ?thesis
  proof (cases "sz = 0 \<or> ?fin \<le> ?floor \<or> ?start \<ge> 4294967296")
    case True
    have "\<not> ?start \<ge> 4294967296"
      using unat_u32_lt [of base] by (simp add: word_le_nat_alt not_le del: unat_u32_lt)
    with True have "?E \<le> ?S" using fin by (auto simp: word_le_nat_alt)
    then have "?E div 4096 \<le> (?S + 4095) div 4096" by (intro div_le_mono) simp
    with True show ?thesis
      by (auto simp: freeable_page_range_def mk_range_def u64_ceil Let_def)
  next
    case False
    let ?s = "if ?start < ?floor then ?floor else ?start"
    let ?e = "if ?fin > 4294967296 then 4294967296 else ?fin"
    have s: "unat ?s = ?S" by (simp add: word_less_nat_alt max_def)
    have e: "unat ?e = ?E" using fin by (simp add: word_less_nat_alt min_def)
    have S: "?S \<le> 4294967296" using unat_u32_lt [of base] unat_u32_lt [of min_base] by linarith
    have "freeable_page_range base sz min_base =
      (if ?e AND NOT (ucast PAGE_SIZE - 1) \<le> (?s + ucast PAGE_SIZE - 1) AND NOT (ucast PAGE_SIZE - 1)
       then empty_range
       else \<lparr>prbase = ucast ((?s + ucast PAGE_SIZE - 1) AND NOT (ucast PAGE_SIZE - 1)),
         frames = ucast (((?e AND NOT (ucast PAGE_SIZE - 1)) -
           ((?s + ucast PAGE_SIZE - 1) AND NOT (ucast PAGE_SIZE - 1))) div ucast PAGE_SIZE)\<rparr>)"
      using False unfolding freeable_page_range_def Let_def u64_ceil by simp
    also have "\<dots> = mk_range ((?S + 4095) div 4096) (?E div 4096)"
    proof (rule u64_range)
      show "unat ((?s + ucast PAGE_SIZE - 1) AND NOT (ucast PAGE_SIZE - 1)) = (?S + 4095) div 4096 * 4096"
        using u64_page_up [of ?s] s S by simp
      show "unat (?e AND NOT (ucast PAGE_SIZE - 1)) = ?E div 4096 * 4096"
        using u64_page_down [of ?e] e by simp
      show "?E div 4096 \<le> 1048576" by simp
    qed
    finally show ?thesis .
  qed
qed

lemma unat_align_up_page_wrap: "unat (align_up v PAGE_SIZE) = unat (v + 4095) div 4096 * 4096"
proof -
  have "align_up v PAGE_SIZE = (v + 4095) AND NOT (mask 12)"
    by (simp add: align_up_def PAGE_SIZE_def mask_eq_exp_minus_1 algebra_simps)
  then show ?thesis by (simp add: unat_and_not_mask)
qed

lemma covered_page_range_eq:
  "covered_page_range base sz =
    (if sz = 0 then empty_range else mk_range (unat base div 4096) (unat (base + sz + 4095) div 4096))"
proof (cases "sz = 0")
  case False
  let ?start = "ucast (align_down base PAGE_SIZE) :: u64"
  let ?fin = "ucast (align_up (base + sz) PAGE_SIZE) :: u64"
  have s: "unat ?start = unat base div 4096 * 4096" by (simp add: unat_align_down_page)
  have e: "unat ?fin = unat (base + sz + 4095) div 4096 * 4096" by (simp add: unat_align_up_page_wrap)
  have "\<not> ?start \<ge> 4294967296"
    using unat_u32_lt [of "align_down base PAGE_SIZE"]
    by (simp add: word_le_nat_alt not_le del: unat_u32_lt)
  moreover have "\<not> ?fin > 4294967296"
    using unat_u32_lt [of "align_up (base + sz) PAGE_SIZE"]
    by (simp add: word_less_nat_alt del: unat_u32_lt)
  ultimately have "covered_page_range base sz = (if ?fin \<le> ?start then empty_range
      else \<lparr>prbase = ucast ?start, frames = ucast ((?fin - ?start) div ucast PAGE_SIZE)\<rparr>)"
    using False unfolding covered_page_range_def Let_def u64_ceil by simp
  also have "\<dots> = mk_range (unat base div 4096) (unat (base + sz + 4095) div 4096)"
  proof (rule u64_range [OF s e])
    show "unat (base + sz + 4095) div 4096 \<le> 1048576"
      using unat_u32_lt [of "base + sz + 4095"] by (simp del: unat_u32_lt)
  qed
  finally show ?thesis using False by simp
qed (simp add: covered_page_range_def)

lemma covered_page_range_ok [simp]: "pr_ok (covered_page_range base sz)"
proof -
  have "unat (base + sz + 4095) div 4096 \<le> 1048576"
    using unat_u32_lt [of "base + sz + 4095"] by (simp del: unat_u32_lt)
  then show ?thesis using mk_range_set
    by (simp add: covered_page_range_eq pr_ok_def empty_range_def)
qed

lemma covered_page_range_top:
  assumes "4294967296 \<le> unat base + unat sz + 4095" "unat base + unat sz \<le> 4294967296"
  shows "covered_page_range base sz = empty_range"
proof -
  have "unat (base + sz + 4095) < 4096"
  proof -
    have "unat (base + sz + 4095) = (unat base + unat sz + 4095) mod 4294967296"
      by (simp add: unat_word_ariths mod_simps)
    also have "\<dots> = unat base + unat sz + 4095 - 4294967296"
      using assms by (simp add: mod_if [of "unat base + unat sz + 4095"])
    finally show ?thesis using assms by simp
  qed
  then show ?thesis by (simp add: covered_page_range_eq mk_range_def)
qed

section \<open>The frame allocator\<close>

lemma PMM_params_sel [simp]:
  "BASE_ADDR PMM_params = 0" "unat (MAX_UNITS PMM_params) = 1048576" "UNIT_SIZE PMM_params = 4096"
  by (simp_all add: PMM_params_def MAX_FRAMES_def PAGE_SIZE_def)

lemma MAX_UNITS_PMM: "MAX_UNITS PMM_params = 1048576"
  by (simp add: u32_eq_iff)

lemma PMM_geometry: "bm_geometry PMM_params"
  by (simp add: bm_geometry_def u32_less_iff)

interpretation frame_bitmap: unit_allocator "bm_wf PMM_params" "bm_used PMM_params"
  "unat (MAX_UNITS PMM_params)" "unit_addr PMM_params" "alloc_units PMM_params" "free_units PMM_params"
  by (rule bm_unit_allocator [OF PMM_geometry])

definition pmm_used :: "pmm \<Rightarrow> nat set" where
  "pmm_used s = bm_used PMM_params (mem_mngr s)"

text \<open>
  The allocator is well formed, and the two counters account for it: their difference, which
  \<^verbatim>\<open>free_memory\<close> reports, is the number of free frames. The equation is one of 32-bit words:
  \<open>used_frames\<close> itself wraps below zero when frames are released that were never allocated.
\<close>

definition pmm_wf :: "pmm \<Rightarrow> bool" where
  "pmm_wf s \<longleftrightarrow> bm_wf PMM_params (mem_mngr s) \<and>
     available_frames s - used_frames s = free_unit_count PMM_params (mem_mngr s)"

lemma pmm_used_bound: "pmm_used s \<subseteq> {..<1048576}"
  using bm_used_bound [of PMM_params "mem_mngr s"] by (simp add: pmm_used_def)

lemma pmm_used_finite [simp]: "finite (pmm_used s)"
  by (rule finite_subset [OF pmm_used_bound]) simp

lemma bm_wf_allocated: "bm_wf p b \<Longrightarrow> allocated_units b = word_of_nat (card (bm_used p b))"
  by (metis bm_wf_def of_nat_unat ucast_id)

lemma free_unit_count_card:
  assumes "bm_wf PMM_params b"
  shows "free_unit_count PMM_params b = word_of_nat (card ({..<1048576} - bm_used PMM_params b))"
proof -
  have sub: "bm_used PMM_params b \<subseteq> {..<1048576}" using bm_used_bound [of PMM_params b] by simp
  then have "card ({..<1048576} - bm_used PMM_params b) = 1048576 - card (bm_used PMM_params b)"
    by (simp add: card_Diff_subset)
  moreover have "card (bm_used PMM_params b) \<le> 1048576"
    using card_mono [OF _ sub] by simp
  ultimately show ?thesis
    by (simp add: free_unit_count_def MAX_UNITS_PMM bm_wf_allocated [OF assms] of_nat_diff)
qed

lemma range_unit_addr: "pr_ok r \<Longrightarrow> prbase r = unit_addr PMM_params (unat (prbase r) div 4096)"
proof -
  assume "pr_ok r"
  then have "unat (prbase r) = unat (prbase r) div 4096 * 4096"
    by (metis pr_ok_def div_mult_mod_eq add_0_right)
  then have "(word_of_nat (unat (prbase r)) :: u32) = word_of_nat (unat (prbase r) div 4096 * 4096)"
    by (rule arg_cong)
  then show ?thesis by (simp add: unit_addr_def)
qed

lemma alloc_frames_result:
  assumes "pmm_wf s" "0 < c" "alloc_frames s c = Inr (a, s')"
  shows "\<exists>i. i + unat c \<le> 1048576 \<and> a = unit_addr PMM_params i \<and> {i..<i + unat c} \<inter> pmm_used s = {} \<and>
    pmm_used s' = pmm_used s \<union> {i..<i + unat c} \<and> pmm_wf s'"
proof -
  obtain b where b: "alloc_units PMM_params (mem_mngr s) c = Inr (a, b)"
    "s' = s\<lparr>mem_mngr := b, used_frames := used_frames s + c\<rparr>"
    using assms(3) by (auto simp: alloc_frames_def bindR_eq_Inr)
  have "c \<le> MAX_UNITS PMM_params" using b(1) by (auto simp: alloc_units_def not_less split: if_splits)
  from alloc_units_result [OF _ assms(2) this, of "mem_mngr s"] assms(1) b(1)
  obtain i where i: "i + unat c \<le> 1048576" "a = unit_addr PMM_params i"
    "run_free (mem_mngr s) i (unat c)" "bm_used PMM_params b = bm_used PMM_params (mem_mngr s) \<union> {i..<i + unat c}"
    "bm_wf PMM_params b" "allocated_units b = allocated_units (mem_mngr s) + c"
    by (auto simp: pmm_wf_def)
  have "{i..<i + unat c} \<inter> pmm_used s = {}" using i(3) run_free_used [of i "unat c" PMM_params] i(1) by (simp add: pmm_used_def)
  moreover have "pmm_wf s'" using assms(1) i(5,6) b(2)
    by (simp add: pmm_wf_def free_unit_count_def algebra_simps)
  ultimately show ?thesis using i b(2) by (auto simp: pmm_used_def)
qed

lemma free_frames_result:
  assumes "pmm_wf s" "0 < c" "i + unat c \<le> 1048576"
  shows "if {i..<i + unat c} \<subseteq> pmm_used s
    then \<exists>s'. free_frames s (unit_addr PMM_params i) c = Inr s' \<and>
      pmm_used s' = pmm_used s - {i..<i + unat c} \<and> pmm_wf s'
    else free_frames s (unit_addr PMM_params i) c = Inl (Panic ''free_units: double free'')"
proof -
  have wf: "bm_wf PMM_params (mem_mngr s)" using assms(1) by (simp add: pmm_wf_def)
  have le: "i + unat c \<le> unat (MAX_UNITS PMM_params)" using assms(3) by simp
  show ?thesis
  proof (cases "{i..<i + unat c} \<subseteq> pmm_used s")
    case True
    then obtain b where b: "free_units PMM_params (mem_mngr s) (unit_addr PMM_params i) c = Inr b"
      "bm_used PMM_params b = bm_used PMM_params (mem_mngr s) - {i..<i + unat c}" "bm_wf PMM_params b"
      "allocated_units b = allocated_units (mem_mngr s) - c"
      using free_units_result [OF wf assms(2) le] by (auto simp: pmm_used_def)
    let ?s' = "s\<lparr>mem_mngr := b, used_frames := used_frames s - c\<rparr>"
    have "available_frames s - (used_frames s - c) =
        MAX_UNITS PMM_params - (allocated_units (mem_mngr s) - c)"
      using assms(1) by (simp add: pmm_wf_def free_unit_count_def algebra_simps)
    then have "pmm_wf ?s'" using b(3,4) by (simp add: pmm_wf_def free_unit_count_def)
    with True b show ?thesis by (simp add: free_frames_def pmm_used_def)
  next
    case False
    then show ?thesis using free_units_result [OF wf assms(2) le]
      by (simp add: free_frames_def pmm_used_def)
  qed
qed

text \<open>The physical memory manager itself provides the contract of a unit allocator.\<close>

interpretation frame_alloc: unit_allocator pmm_wf pmm_used 1048576 "unit_addr PMM_params" alloc_frames free_frames
proof (unfold_locales, goal_cases)
  case (1 s)
  show ?case by (rule pmm_used_bound)
next
  case (2 s c a s')
  then show ?case by (rule alloc_frames_result)
next
  case (3 s c i)
  then have "\<exists>a b. alloc_units PMM_params (mem_mngr s) c = Inr (a, b)"
    using frame_bitmap.alloc_available [of "mem_mngr s" c i] by (simp add: pmm_wf_def pmm_used_def)
  then show ?case by (auto simp: alloc_frames_def)
next
  case (4 s c i)
  then show ?case using free_frames_result [OF 4(1-3)] by simp
next
  case (5 s c i)
  then show ?case using free_frames_result [OF 5(1-3)] by simp
qed

section \<open>Regions\<close>

lemma mark_free_range:
  assumes "bm_wf PMM_params b" "pr_ok r"
  obtains b' where "mark_units_free PMM_params b (prbase r) (frames r) = Inr b'" "bm_wf PMM_params b'"
    "bm_used PMM_params b' = bm_used PMM_params b - pr_set r"
proof -
  have le: "unat (prbase r) div 4096 + unat (frames r) \<le> unat (MAX_UNITS PMM_params)"
    using assms(2) by (simp add: pr_ok_def)
  show thesis
    using mark_units_free_result [OF assms(1) le] that range_unit_addr [OF assms(2)]
    by (metis pr_set_def)
qed

lemma mark_used_range:
  assumes "bm_wf PMM_params b" "pr_ok r"
  obtains b' where "mark_units_used PMM_params b (prbase r) (frames r) = Inr b'" "bm_wf PMM_params b'"
    "bm_used PMM_params b' = bm_used PMM_params b \<union> pr_set r"
proof -
  have le: "unat (prbase r) div 4096 + unat (frames r) \<le> unat (MAX_UNITS PMM_params)"
    using assms(2) by (simp add: pr_ok_def)
  show thesis
    using mark_units_used_result [OF assms(1) le] that range_unit_addr [OF assms(2)]
    by (metis pr_set_def)
qed

lemma range_unit_index:
  assumes "pr_ok r" "i < frames r"
  shows "prbase r + i * PAGE_SIZE = unit_addr PMM_params (unat (prbase r) div 4096 + unat i)"
  by (subst range_unit_addr [OF assms(1)]) (simp add: unit_addr_def PAGE_SIZE_def algebra_simps)

lemma used_before_loop:
  assumes wf: "bm_wf PMM_params b" and ok: "pr_ok r"
  shows "for_u32 0 (frames r) (\<lambda>i n. bindR (bm_allocated PMM_params b (prbase r + i * PAGE_SIZE))
      (\<lambda>u. Inr (if u then n + 1 else n))) 0 = Inr (word_of_nat (card (pr_set r \<inter> bm_used PMM_params b)) :: u32)"
proof -
  let ?a = "unat (prbase r) div 4096" and ?U = "bm_used PMM_params b"
  let ?f = "\<lambda>i n. bindR (bm_allocated PMM_params b (prbase r + i * PAGE_SIZE))
      (\<lambda>u. Inr (if u then n + 1 else n :: u32))"
  define I :: "nat \<Rightarrow> u32 \<Rightarrow> bool" where "I k n \<longleftrightarrow> n = word_of_nat (card ({?a..<?a + k} \<inter> ?U))" for k n
  have "\<exists>n. for_u32 0 (frames r) ?f 0 = Inr n \<and> I (unat (frames r)) n"
  proof (rule for_u32_total)
    show "I (unat (0 :: u32)) 0" by (simp add: I_def)
    show "0 \<le> frames r" by (simp add: u32_le_iff)
    fix k :: u32 and n
    assume k: "k < frames r" and n: "I (unat k) n"
    have lt: "?a + unat k < unat (MAX_UNITS PMM_params)" using k ok by (simp add: pr_ok_def u32_less_iff)
    have eq: "{?a..<?a + Suc (unat k)} \<inter> ?U = (if ?a + unat k \<in> ?U then insert (?a + unat k) else id)
        ({?a..<?a + unat k} \<inter> ?U)" by (auto simp: less_Suc_eq)
    show "\<exists>n'. ?f k n = Inr n' \<and> I (Suc (unat k)) n'"
      using n bm_allocated_unit [OF wf lt] unfolding range_unit_index [OF ok k] I_def eq by simp
  qed
  then show ?thesis by (simp add: I_def pr_set_def)
qed

lemma card_used_union:
  assumes "finite U" "finite P"
  shows "card (U \<union> P) + card (P \<inter> U) = card U + card P"
  using card_Un_Int [OF assms] by (simp add: Int_commute)

lemma deinit_region_result:
  assumes wf: "bm_wf PMM_params (mem_mngr s)"
  shows "\<exists>s'. deinit_region s base sz = Inr s' \<and> bm_wf PMM_params (mem_mngr s') \<and>
    pmm_used s' = pmm_used s \<union> pr_set (covered_page_range base sz) \<and>
    available_frames s' = available_frames s \<and>
    used_frames s' - allocated_units (mem_mngr s') = used_frames s - allocated_units (mem_mngr s)"
proof (cases "pr_empty (covered_page_range base sz)")
  case True
  then have "pr_set (covered_page_range base sz) = {}" by (simp add: pr_empty_def pr_set_def)
  with True wf show ?thesis by (simp add: deinit_region_def)
next
  case False
  let ?r = "covered_page_range base sz" and ?U = "pmm_used s"
  obtain b' where b': "mark_units_used PMM_params (mem_mngr s) (prbase ?r) (frames ?r) = Inr b'"
    "bm_wf PMM_params b'" "bm_used PMM_params b' = ?U \<union> pr_set ?r"
    using mark_used_range [OF wf covered_page_range_ok] by (auto simp: pmm_used_def)
  let ?s' = "s\<lparr>mem_mngr := b', used_frames := used_frames s + (frames ?r - word_of_nat (card (pr_set ?r \<inter> ?U)))\<rparr>"
  have "deinit_region s base sz = Inr ?s'"
    using False b'(1) used_before_loop [OF wf covered_page_range_ok] by (simp add: deinit_region_def Let_def pmm_used_def)
  moreover have "card (?U \<union> pr_set ?r) + card (pr_set ?r \<inter> ?U) = card ?U + unat (frames ?r)"
    using card_used_union [of ?U "pr_set ?r"] by (simp add: pr_set_def)
  then have "word_of_nat (card (?U \<union> pr_set ?r)) + word_of_nat (card (pr_set ?r \<inter> ?U)) =
      word_of_nat (card ?U) + (frames ?r :: u32)"
    by (metis of_nat_add of_nat_unat ucast_id)
  then have "allocated_units b' + word_of_nat (card (pr_set ?r \<inter> ?U)) = allocated_units (mem_mngr s) + frames ?r"
    using bm_wf_allocated [OF wf] bm_wf_allocated [OF b'(2)] b'(3) by (simp add: pmm_used_def)
  then have "used_frames ?s' - allocated_units b' = used_frames s - allocated_units (mem_mngr s)"
    by (simp add: algebra_simps)
  ultimately show ?thesis using b' by (simp add: pmm_used_def)
qed

section \<open>The memory map\<close>

text \<open>
  The frames an entry of the memory map gives: the whole pages inside it, at or above 1 MiB.
  The address and the length count with their low 32 bits only.
\<close>

definition entry_frames :: "mmap_entry \<Rightarrow> nat set" where
  "entry_frames e = (if me_type e = MULTIBOOT_MEMORY_AVAILABLE then
     {k. 256 \<le> k \<and> k < 1048576 \<and> unat (ucast (me_addr e) :: u32) \<le> 4096 * k \<and>
         4096 * k + 4096 \<le> unat (ucast (me_addr e) :: u32) + unat (ucast (me_len e) :: u32)} else {})"

lemma pages_inside:
  "{(max a m + 4095) div 4096..<min f 4294967296 div 4096} =
   {k. k < 1048576 \<and> a \<le> 4096 * k \<and> m \<le> 4096 * k \<and> 4096 * k + 4096 \<le> (f :: nat)}"
  by auto

lemma freeable_page_range_set:
  "pr_set (freeable_page_range base sz min_base) =
     {k. k < 1048576 \<and> unat base \<le> 4096 * k \<and> unat min_base \<le> 4096 * k \<and>
         4096 * k + 4096 \<le> unat base + unat sz}"
  "pr_ok (freeable_page_range base sz min_base)"
  "pr_empty (freeable_page_range base sz min_base) \<longleftrightarrow> pr_set (freeable_page_range base sz min_base) = {}"
proof -
  have le: "min (unat base + unat sz) 4294967296 div 4096 \<le> 1048576" by simp
  show "pr_set (freeable_page_range base sz min_base) =
     {k. k < 1048576 \<and> unat base \<le> 4096 * k \<and> unat min_base \<le> 4096 * k \<and>
         4096 * k + 4096 \<le> unat base + unat sz}"
    using mk_range_set [OF le] unfolding freeable_page_range_eq by (simp only: pages_inside)
  show "pr_ok (freeable_page_range base sz min_base)"
    using mk_range_set [OF le] by (simp add: freeable_page_range_eq)
  show "pr_empty (freeable_page_range base sz min_base) \<longleftrightarrow> pr_set (freeable_page_range base sz min_base) = {}"
    by (simp add: pr_empty_def pr_set_def u32_eq_iff)
qed

lemma init_region_result:
  assumes "bm_wf PMM_params (mem_mngr s)"
  shows "\<exists>b. init_region s base sz = Inr (s\<lparr>mem_mngr := b\<rparr>) \<and> bm_wf PMM_params b \<and>
    bm_used PMM_params b = pmm_used s - pr_set (freeable_page_range base sz 0)"
proof (cases "pr_empty (freeable_page_range base sz 0)")
  case True
  then show ?thesis using assms freeable_page_range_set(3) [of base sz 0]
    by (intro exI [of _ "mem_mngr s"]) (simp add: init_region_def pmm_used_def)
next
  case False
  let ?r = "freeable_page_range base sz 0"
  obtain b' where "mark_units_free PMM_params (mem_mngr s) (prbase ?r) (frames ?r) = Inr b'"
    "bm_wf PMM_params b'" "bm_used PMM_params b' = bm_used PMM_params (mem_mngr s) - pr_set ?r"
    using mark_free_range [OF assms freeable_page_range_set(2)] by blast
  with False show ?thesis
    by (intro exI [of _ b']) (simp add: init_region_def Let_def pmm_used_def)
qed

text \<open>The range that \<^verbatim>\<open>init\<close> computes is unchanged when \<^verbatim>\<open>init_region\<close> computes it again.\<close>

lemma freeable_twice:
  assumes "pr_ok r" "unat (frames r) < 1048576"
  shows "pr_set (freeable_page_range (prbase r) (pr_size r) 0) = pr_set r"
proof -
  have "unat (frames r * PAGE_SIZE) = unat (frames r) * 4096"
    using assms(2) by (subst unat_mult_u32) (simp_all add: PAGE_SIZE_def)
  moreover obtain q where "unat (prbase r) = 4096 * q"
    using assms(1) by (auto simp: pr_ok_def)
  moreover from this have "q + unat (frames r) \<le> 1048576" using assms(1) by (simp add: pr_ok_def)
  ultimately show ?thesis
    by (subst freeable_page_range_set(1)) (auto simp: pr_set_def pr_size_def)
qed

lemma map_region_result:
  assumes wf: "bm_wf PMM_params (mem_mngr s)" and ty: "me_type e \<le> 5"
  shows "\<exists>s'. map_region e s = Inr s' \<and> bm_wf PMM_params (mem_mngr s') \<and>
    pmm_used s' = pmm_used s - entry_frames e \<and> used_frames s' = used_frames s \<and>
    available_frames s' = available_frames s + word_of_nat (card (entry_frames e))"
proof (cases "me_type e = MULTIBOOT_MEMORY_AVAILABLE")
  case False
  with wf ty show ?thesis by (simp add: map_region_def entry_frames_def)
next
  case True
  let ?base = "ucast (me_addr e) :: u32" and ?len = "ucast (me_len e) :: u32"
  let ?r = "freeable_page_range ?base ?len LOW_USABLE_BASE"
  have set: "pr_set ?r = entry_frames e"
    using True unfolding freeable_page_range_set(1) entry_frames_def by (auto simp: LOW_USABLE_BASE_def)
  have fr: "unat (frames ?r) = card (entry_frames e)" using set by (simp add: pr_set_def flip: set)
  have "entry_frames e \<subseteq> {256..<1048576}" by (auto simp: entry_frames_def)
  from card_mono [OF _ this] have "unat (frames ?r) < 1048576" by (simp add: fr)
  note again = freeable_twice [OF freeable_page_range_set(2) this]
  show ?thesis
  proof (cases "pr_empty ?r")
    case True
    then have "entry_frames e = {}" using freeable_page_range_set(3) set by simp
    with True \<open>me_type e = _\<close> wf ty show ?thesis by (simp add: map_region_def Let_def)
  next
    case False
    let ?s = "s\<lparr>available_frames := available_frames s + frames ?r\<rparr>"
    have "bm_wf PMM_params (mem_mngr ?s)" using wf by simp
    from init_region_result [OF this, of "prbase ?r" "pr_size ?r"] obtain b
      where "init_region ?s (prbase ?r) (pr_size ?r) = Inr (?s\<lparr>mem_mngr := b\<rparr>)" "bm_wf PMM_params b"
      "bm_used PMM_params b = pmm_used s - entry_frames e"
      by (auto simp: again set pmm_used_def)
    moreover have "frames ?r = word_of_nat (card (entry_frames e))"
      using fr by (metis of_nat_unat ucast_id)
    ultimately show ?thesis using False True ty by (simp add: map_region_def Let_def pmm_used_def)
  qed
qed

text \<open>The entries that the walk from \<^verbatim>\<open>mmap\<close> to \<^verbatim>\<open>mmap_end\<close> visits, in order.\<close>

fun mmap_visits :: "mem \<Rightarrow> u32 \<Rightarrow> u32 \<Rightarrow> mmap_entry list \<Rightarrow> bool" where
  "mmap_visits m mmap mmap_end [] \<longleftrightarrow> \<not> mmap < mmap_end"
| "mmap_visits m mmap mmap_end (e # es) \<longleftrightarrow> mmap < mmap_end \<and> e = load_mmap_entry m mmap \<and>
     mmap_visits m (mmap + me_size e + 4) mmap_end es"

lemma mmap_walk_result:
  assumes "mmap_visits m p fin es" "bm_wf PMM_params (mem_mngr s)" "\<forall>e \<in> set es. me_type e \<le> 5"
  shows "\<exists>s'. mmap_walk m p fin s = Some (Inr s') \<and> bm_wf PMM_params (mem_mngr s') \<and>
    pmm_used s' = pmm_used s - (\<Union>e \<in> set es. entry_frames e) \<and> used_frames s' = used_frames s \<and>
    available_frames s' = available_frames s + word_of_nat (\<Sum>e\<leftarrow>es. card (entry_frames e))"
  using assms
proof (induction es arbitrary: p s)
  case Nil
  then show ?case by (subst mmap_walk.simps) simp
next
  case (Cons e es)
  then have e: "e = load_mmap_entry m p" "p < fin" by simp_all
  obtain s1 where s1: "map_region e s = Inr s1" "bm_wf PMM_params (mem_mngr s1)"
    "pmm_used s1 = pmm_used s - entry_frames e" "used_frames s1 = used_frames s"
    "available_frames s1 = available_frames s + word_of_nat (card (entry_frames e))"
    using map_region_result [OF Cons.prems(2), of e] Cons.prems(3) by auto
  have walk: "mmap_walk m p fin s = mmap_walk m (p + me_size e + 4) fin s1"
    using e s1(1) by (subst mmap_walk.simps) simp
  obtain s2 where "mmap_walk m (p + me_size e + 4) fin s1 = Some (Inr s2)"
    "bm_wf PMM_params (mem_mngr s2)" "pmm_used s2 = pmm_used s1 - (\<Union>e \<in> set es. entry_frames e)"
    "used_frames s2 = used_frames s1"
    "available_frames s2 = available_frames s1 + word_of_nat (\<Sum>e\<leftarrow>es. card (entry_frames e))"
    using Cons.IH [OF _ s1(2), of "p + me_size e + 4"] Cons.prems(1,3) by fastforce
  with s1 walk show ?case by (auto simp: algebra_simps)
qed

section \<open>Modules and the reserved frames\<close>

definition module_list :: "mem \<Rightarrow> multiboot_info \<Rightarrow> multiboot_module list" where
  "module_list m info =
     map (\<lambda>i. load_module m (mods_addr info + word_of_nat i * 16)) [0..<unat (module_count info)]"

lemma for_each_module_total:
  assumes "I [] s"
    and step: "\<And>i x xs s. x \<in> set (module_list m info) \<Longrightarrow> I xs s \<Longrightarrow> \<exists>s'. fn i x s = Inr s' \<and> I (xs @ [x]) s'"
  shows "\<exists>s'. for_each_module m info fn s = Inr s' \<and> I (module_list m info) s'"
proof (cases "has_modules info")
  case False
  then show ?thesis using assms(1)
    by (simp add: for_each_module_def modules_def module_list_def module_count_def)
next
  case True
  let ?ms = "module_list m info" and ?n = "mods_count info"
  have len: "length ?ms = unat ?n" using True by (simp add: module_list_def module_count_def)
  have nth: "?ms ! unat k = load_module m (mods_addr info + k * 16)" if "k < ?n" for k :: u32
    using that True by (simp add: module_list_def module_count_def u32_less_iff)
  have "\<exists>s'. for_u32 0 ?n (\<lambda>i. fn i (load_module m (mods_addr info + i * 16))) s = Inr s' \<and>
      I (take (unat ?n) ?ms) s'"
  proof (rule for_u32_total [where I = "\<lambda>k. I (take k ?ms)"])
    show "I (take (unat (0 :: u32)) ?ms) s" using assms(1) by simp
    show "0 \<le> ?n" by (simp add: u32_le_iff)
    fix k :: u32 and s
    assume k: "k < ?n" and I: "I (take (unat k) ?ms) s"
    have lt: "unat k < length ?ms" using k len by (simp add: u32_less_iff)
    have "?ms ! unat k \<in> set ?ms" using lt by simp
    from step [OF this I, of k] show
      "\<exists>s'. fn k (load_module m (mods_addr info + k * 16)) s = Inr s' \<and> I (take (Suc (unat k)) ?ms) s'"
      using lt nth [OF k] by (simp add: take_Suc_conv_app_nth)
  qed
  then show ?thesis using True len by (simp add: for_each_module_def modules_def)
qed

lemma max_module_end_result:
  "\<exists>e. max_module_end_aligned m info = Inr e \<and> unat e mod 4096 = 0 \<and>
    (\<forall>x \<in> set (module_list m info). align_up (mod_end x) PAGE_SIZE \<le> e)"
proof -
  let ?fn = "\<lambda>_ module fin. let aligned_end = align_up (mod_end module) PAGE_SIZE in
        Inr (if aligned_end > fin then aligned_end else fin)"
  have "\<exists>e. for_each_module m info ?fn 0 = Inr e \<and> unat e mod 4096 = 0 \<and>
    (\<forall>x \<in> set (module_list m info). align_up (mod_end x) PAGE_SIZE \<le> e)"
  proof (rule for_each_module_total [where I = "\<lambda>xs e. unat e mod 4096 = 0 \<and>
        (\<forall>x \<in> set xs. align_up (mod_end x) PAGE_SIZE \<le> e)"])
    fix i :: u32 and x :: multiboot_module and xs :: "multiboot_module list" and e :: u32
    assume I: "unat e mod 4096 = 0 \<and> (\<forall>x \<in> set xs. align_up (mod_end x) PAGE_SIZE \<le> e)"
    let ?e = "if align_up (mod_end x) PAGE_SIZE > e then align_up (mod_end x) PAGE_SIZE else e"
    have "unat ?e mod 4096 = 0" using I by (simp add: unat_align_up_page_wrap)
    moreover have "\<forall>y \<in> set (xs @ [x]). align_up (mod_end y) PAGE_SIZE \<le> ?e"
      using I by auto
    ultimately show "\<exists>e'. ?fn i x e = Inr e' \<and> unat e' mod 4096 = 0 \<and>
        (\<forall>y \<in> set (xs @ [x]). align_up (mod_end y) PAGE_SIZE \<le> e')"
      unfolding Let_def by (intro exI [of _ ?e] conjI refl) assumption+
  qed simp
  then show ?thesis by (simp only: max_module_end_aligned_def)
qed

definition kernel_frames :: "u32 \<Rightarrow> u32 \<Rightarrow> nat set" where
  "kernel_frames kernel_start kernel_end = pr_set (covered_page_range kernel_start
     (pr_size (covered_page_range kernel_start (kernel_end - kernel_start))))"

definition module_frames :: "multiboot_module \<Rightarrow> nat set" where
  "module_frames x = pr_set (covered_page_range (mod_start x)
     (pr_size (covered_page_range (mod_start x) (mod_end x - mod_start x))))"

text \<open>What every reservation keeps: the allocator, and the balance of the two counters.\<close>

definition reserved_from :: "pmm \<Rightarrow> nat set \<Rightarrow> pmm \<Rightarrow> bool" where
  "reserved_from s F s' \<longleftrightarrow> bm_wf PMM_params (mem_mngr s') \<and> pmm_used s' = pmm_used s \<union> F \<and>
     available_frames s' = available_frames s \<and>
     used_frames s' - allocated_units (mem_mngr s') = used_frames s - allocated_units (mem_mngr s)"

lemma reserved_from_refl: "bm_wf PMM_params (mem_mngr s) \<Longrightarrow> reserved_from s {} s"
  by (simp add: reserved_from_def)

lemma reserved_from_trans:
  "reserved_from s F s' \<Longrightarrow> reserved_from s' G s'' \<Longrightarrow> reserved_from s (F \<union> G) s''"
  by (auto simp: reserved_from_def)

lemma reserved_from_wf: "reserved_from s F s' \<Longrightarrow> bm_wf PMM_params (mem_mngr s')"
  by (simp add: reserved_from_def)

lemma balance_shift:
  fixes a u m k u' k' :: u32
  assumes "a - u = m - k" and "u' - k' = u - k"
  shows "a - u' = m - k'"
proof -
  have "u' = u - k + k'" using assms(2) by (simp only: diff_eq_eq)
  then have "a - u' = (a - u) + k - k'" by simp
  then show ?thesis using assms(1) by simp
qed

lemma reserved_from_pmm_wf: "reserved_from s F s' \<Longrightarrow> pmm_wf s \<Longrightarrow> pmm_wf s'"
  unfolding reserved_from_def pmm_wf_def free_unit_count_def using balance_shift by metis

lemma deinit_region_reserves:
  "bm_wf PMM_params (mem_mngr s) \<Longrightarrow>
   \<exists>s'. deinit_region s base sz = Inr s' \<and> reserved_from s (pr_set (covered_page_range base sz)) s'"
  using deinit_region_result [of s base sz] by (auto simp: reserved_from_def)

lemma reserve_modules_result:
  assumes "bm_wf PMM_params (mem_mngr s)"
  shows "\<exists>s'. for_each_module m info (\<lambda>_ module s. reserve_module module s) s = Inr s' \<and>
    reserved_from s (\<Union>x \<in> set (module_list m info). module_frames x) s'"
proof (rule for_each_module_total [where I = "\<lambda>xs. reserved_from s (\<Union>x \<in> set xs. module_frames x)"])
  show "reserved_from s (\<Union>x \<in> set []. module_frames x) s"
    using reserved_from_refl [OF assms] by simp
  fix i :: u32 and x xs s1
  assume I: "reserved_from s (\<Union>x \<in> set xs. module_frames x) s1"
  obtain s2 where s2: "reserve_module x s1 = Inr s2" "reserved_from s1 (module_frames x) s2"
    using deinit_region_reserves [OF reserved_from_wf [OF I]]
    by (auto simp: reserve_module_def module_frames_def Let_def)
  with reserved_from_trans [OF I s2(2)] show "\<exists>s'. reserve_module x s1 = Inr s' \<and>
      reserved_from s (\<Union>x \<in> set (xs @ [x]). module_frames x) s'" by (simp add: Un_commute)
qed

lemma low_boot_reserved_end_result:
  "\<exists>low. low_boot_reserved_end m info kernel_end = Inr low \<and> unat low mod 4096 = 0 \<and>
    align_up kernel_end PAGE_SIZE \<le> low \<and>
    (\<forall>x \<in> set (module_list m info). align_up (mod_end x) PAGE_SIZE \<le> low)"
proof -
  obtain e where e: "max_module_end_aligned m info = Inr e" "unat e mod 4096 = 0"
    "\<forall>x \<in> set (module_list m info). align_up (mod_end x) PAGE_SIZE \<le> e"
    using max_module_end_result [of m info] by (elim exE conjE) (rule that)
  then show ?thesis
    by (auto simp: low_boot_reserved_end_def Let_def unat_align_up_page_wrap intro: order_trans)
qed

lemma low_area_frames:
  assumes "unat low mod 4096 = 0" "LOW_USABLE_BASE < low"
  shows "pr_set (covered_page_range LOW_USABLE_BASE (low - LOW_USABLE_BASE)) = {256..<unat low div 4096}"
proof -
  obtain q where q: "unat low = 4096 * q" using assms(1) by auto
  have "unat low < 4294967296" by simp
  then have "q < 1048576" using q by simp
  then have "unat low + 4095 < 4294967296" using q by linarith
  then have up: "unat (low + 4095) = unat low + 4095" by (subst unat_add_u32) simp_all
  have "low - LOW_USABLE_BASE \<noteq> 0" using assms(2) by auto
  then have "covered_page_range LOW_USABLE_BASE (low - LOW_USABLE_BASE) =
      mk_range 256 ((unat low + 4095) div 4096)"
    using up by (simp add: covered_page_range_eq LOW_USABLE_BASE_def)
  moreover have "(unat low + 4095) div 4096 = unat low div 4096" using q by simp
  moreover have "unat low div 4096 \<le> 1048576"
    using unat_u32_lt [of low] by (simp del: unat_u32_lt)
  ultimately show ?thesis using mk_range_set by simp
qed

definition boot_reserved :: "mem \<Rightarrow> multiboot_info \<Rightarrow> u32 \<Rightarrow> u32 \<Rightarrow> u32 \<Rightarrow> nat set" where
  "boot_reserved m info kernel_start kernel_end low =
     kernel_frames kernel_start kernel_end \<union>
     (\<Union>x \<in> set (module_list m info). module_frames x) \<union> {256..<unat low div 4096}"

lemma reserve_boot_result:
  assumes "bm_wf PMM_params (mem_mngr s)"
  shows "\<exists>low s'. low_boot_reserved_end m info kernel_end = Inr low \<and>
    reserve_boot m info kernel_start kernel_end s = Inr s' \<and>
    reserved_from s (boot_reserved m info kernel_start kernel_end low) s'"
proof -
  obtain low where low: "low_boot_reserved_end m info kernel_end = Inr low" "unat low mod 4096 = 0"
    using low_boot_reserved_end_result [of m info kernel_end] by (elim exE conjE) (rule that)
  obtain s1 where s1: "reserve_kernel kernel_start kernel_end s = Inr s1"
    "reserved_from s (kernel_frames kernel_start kernel_end) s1"
    using deinit_region_reserves [OF assms]
    by (auto simp: reserve_kernel_def kernel_frames_def Let_def)
  obtain s2 where s2: "for_each_module m info (\<lambda>_ module s. reserve_module module s) s1 = Inr s2"
    "reserved_from s1 (\<Union>x \<in> set (module_list m info). module_frames x) s2"
    using reserve_modules_result [OF reserved_from_wf [OF s1(2)]] by blast
  note s12 = reserved_from_trans [OF s1(2) s2(2)]
  show ?thesis
  proof (cases "LOW_USABLE_BASE < low")
    case True
    obtain s3 where s3: "deinit_region s2 LOW_USABLE_BASE (low - LOW_USABLE_BASE) = Inr s3"
      "reserved_from s2 {256..<unat low div 4096} s3"
      using deinit_region_reserves [OF reserved_from_wf [OF s12]] low_area_frames [OF low(2) True] by metis
    then show ?thesis using low(1) s1(1) s2(1) True reserved_from_trans [OF s12 s3(2)]
      by (simp add: reserve_boot_def boot_reserved_def)
  next
    case False
    then have "unat low \<le> 1048576" by (simp add: u32_less_iff LOW_USABLE_BASE_def not_less)
    then have "{256..<unat low div 4096} = {}" by auto
    then show ?thesis using low(1) s1(1) s2(1) False s12
      by (simp add: reserve_boot_def boot_reserved_def)
  qed
qed

section \<open>Initialisation\<close>

lemma all_used:
  assumes "bm_wf PMM_params b"
  shows "\<exists>b'. mark_units_used PMM_params b 0 MAX_FRAMES = Inr b' \<and> bm_wf PMM_params b' \<and>
    bm_used PMM_params b' = {..<1048576}"
proof -
  have "0 + unat MAX_FRAMES \<le> unat (MAX_UNITS PMM_params)" by (simp add: MAX_FRAMES_def)
  then obtain b' where b': "mark_units_used PMM_params b (unit_addr PMM_params 0) MAX_FRAMES = Inr b'"
    "bm_wf PMM_params b'" "bm_used PMM_params b' = bm_used PMM_params b \<union> {0..<0 + unat MAX_FRAMES}"
    using mark_units_used_result [OF assms] by blast
  have "bm_used PMM_params b' = {..<1048576}"
    using b'(3) bm_used_bound [of PMM_params b] by (auto simp: MAX_FRAMES_def)
  with b' show ?thesis by (simp add: unit_addr_def)
qed

lemma pmm_init_result:
  assumes "TEST_MASK (mb_flags mboot) MULTIBOOT_INFO_MEM_MAP" and "bm_wf PMM_params (mem_mngr s)"
    and "mmap_visits m (mmap_addr mboot) (mmap_addr mboot + mmap_length mboot) es"
    and "\<forall>e \<in> set es. me_type e \<le> 5"
  shows "\<exists>low s1 s'. low_boot_reserved_end m mboot kernel_end = Inr low \<and>
    pmm_init m mboot kernel_start kernel_end s = Some (Inr s') \<and>
    bm_wf PMM_params (mem_mngr s1) \<and> pmm_used s1 = {..<1048576} - (\<Union>e \<in> set es. entry_frames e) \<and>
    used_frames s1 = 0 \<and> available_frames s1 = word_of_nat (\<Sum>e\<leftarrow>es. card (entry_frames e)) \<and>
    reserved_from s1 (boot_reserved m mboot kernel_start kernel_end low) s'"
proof -
  obtain b where b: "mark_units_used PMM_params (mem_mngr s) 0 MAX_FRAMES = Inr b" "bm_wf PMM_params b"
    "bm_used PMM_params b = {..<1048576}"
    using all_used [OF assms(2)] by blast
  let ?s0 = "s\<lparr>mem_mngr := b, available_frames := 0, used_frames := 0\<rparr>"
  have "bm_wf PMM_params (mem_mngr ?s0)" using b(2) by simp
  from mmap_walk_result [OF assms(3) this assms(4)] obtain s1 where s1:
    "mmap_walk m (mmap_addr mboot) (mmap_addr mboot + mmap_length mboot) ?s0 = Some (Inr s1)"
    "bm_wf PMM_params (mem_mngr s1)" "pmm_used s1 = {..<1048576} - (\<Union>e \<in> set es. entry_frames e)"
    "used_frames s1 = 0" "available_frames s1 = word_of_nat (\<Sum>e\<leftarrow>es. card (entry_frames e))"
    by (auto simp: pmm_used_def b(3))
  from reserve_boot_result [OF s1(2), of m mboot kernel_end kernel_start] obtain low s'
    where "low_boot_reserved_end m mboot kernel_end = Inr low"
      "reserve_boot m mboot kernel_start kernel_end s1 = Inr s'"
      "reserved_from s1 (boot_reserved m mboot kernel_start kernel_end low) s'" by blast
  then show ?thesis using assms(1) b(1) s1
    by (intro exI [of _ low] exI [of _ s1] exI [of _ s']) (simp add: pmm_init_def)
qed

lemma entry_frames_bound: "entry_frames e \<subseteq> {256..<1048576}"
  by (auto simp: entry_frames_def)

lemma entry_frames_finite [simp]: "finite (entry_frames e)"
  by (rule finite_subset [OF entry_frames_bound]) simp

definition entries_disjoint :: "mmap_entry list \<Rightarrow> bool" where
  "entries_disjoint es \<longleftrightarrow> sorted_wrt (\<lambda>e f. entry_frames e \<inter> entry_frames f = {}) es"

lemma entries_disjoint_card:
  "entries_disjoint es \<Longrightarrow> (\<Sum>e\<leftarrow>es. card (entry_frames e)) = card (\<Union>e \<in> set es. entry_frames e)"
proof (induction es)
  case (Cons e es)
  then have "entry_frames e \<inter> (\<Union>f \<in> set es. entry_frames f) = {}"
    by (auto simp: entries_disjoint_def)
  then show ?case using Cons by (simp add: entries_disjoint_def card_Un_disjoint)
qed simp

lemma pmm_wf_free_memory:
  assumes "pmm_wf s"
  shows "free_memory s = word_of_nat (card ({..<1048576} - pmm_used s) * 4096)"
  using assms free_unit_count_card [of "mem_mngr s"]
  by (simp add: pmm_wf_def free_memory_def pmm_used_def PAGE_SIZE_def)

section \<open>Properties\<close>

text \<open>
  The range that \<^verbatim>\<open>freeable_page_range\<close> computes for a piece of
  physical memory consists of exactly the pages that lie wholly inside it, below 4 GiB and
  not below \<^verbatim>\<open>min_base\<close>: no partial page is ever given to the allocator, and no whole page is
  lost, whatever the bounds, including pieces that reach past 4 GiB.
\<close>

theorem freeable_page_range_exact:
  "k \<in> pr_set (freeable_page_range base sz min_base) \<longleftrightarrow>
     k < 1048576 \<and> unat min_base \<le> 4096 * k \<and>
     {4096 * k..<4096 * k + 4096} \<subseteq> {unat base..<unat base + unat sz}"
  unfolding freeable_page_range_set(1) by auto

text \<open>
  \<^verbatim>\<open>covered_page_range\<close> computes exactly the pages that a piece of memory
  touches, as long as the piece ends below the last page of the address space. A piece that
  reaches into that last page gets the empty range instead, because \<^verbatim>\<open>align_up(base + size)\<close>
  wraps to 0 in 32 bits: such memory would not be reserved at all.
\<close>

theorem covered_page_range_exact:
  "if sz = 0 \<or> (4294967296 < unat base + unat sz + 4096 \<and> unat base + unat sz \<le> 4294967296)
   then pr_set (covered_page_range base sz) = {}
   else if unat base + unat sz + 4096 \<le> 4294967296
   then pr_set (covered_page_range base sz) =
     {k. {4096 * k..<4096 * k + 4096} \<inter> {unat base..<unat base + unat sz} \<noteq> {}}
   else pr_ok (covered_page_range base sz)"
proof (cases "sz = 0 \<or> (4294967296 < unat base + unat sz + 4096 \<and> unat base + unat sz \<le> 4294967296)")
  case True
  have "pr_set empty_range = {}" by (simp add: pr_set_def empty_range_def)
  moreover have "covered_page_range base sz = empty_range"
  proof (cases "sz = 0")
    case False
    with True show ?thesis by (intro covered_page_range_top) linarith+
  qed (simp add: covered_page_range_def)
  ultimately show ?thesis using True by simp
next
  case False
  show ?thesis
  proof (cases "unat base + unat sz + 4096 \<le> 4294967296")
    case True
    have sz: "0 < unat sz" using False by (simp add: unat_gt_0)
    have "unat (base + sz + 4095) = unat base + unat sz + 4095"
      using True by (simp add: unat_add_u32)
    moreover have "(unat base + unat sz + 4095) div 4096 \<le> 1048576" using True by simp
    ultimately have "pr_set (covered_page_range base sz) =
        {unat base div 4096..<(unat base + unat sz + 4095) div 4096}"
      using False mk_range_set by (simp add: covered_page_range_eq)
    also have "\<dots> = {k. {4096 * k..<4096 * k + 4096} \<inter> {unat base..<unat base + unat sz} \<noteq> {}}"
    proof (intro set_eqI iffI)
      fix k assume "k \<in> {unat base div 4096..<(unat base + unat sz + 4095) div 4096}"
      then have "max (4096 * k) (unat base) \<in> {4096 * k..<4096 * k + 4096} \<inter> {unat base..<unat base + unat sz}"
        using sz by auto
      then show "k \<in> {k. {4096 * k..<4096 * k + 4096} \<inter> {unat base..<unat base + unat sz} \<noteq> {}}" by blast
    next
      fix k assume "k \<in> {k. {4096 * k..<4096 * k + 4096} \<inter> {unat base..<unat base + unat sz} \<noteq> {}}"
      then obtain x where "x \<in> {4096 * k..<4096 * k + 4096} \<inter> {unat base..<unat base + unat sz}" by blast
      then show "k \<in> {unat base div 4096..<(unat base + unat sz + 4095) div 4096}" by auto
    qed
    finally show ?thesis using False True by (simp only: if_False if_True)
  next
    case False2: False
    show ?thesis unfolding if_not_P [OF False] if_not_P [OF False2] by simp
  qed
qed


text \<open>A memory map with one available entry of 16 MiB from 1 MiB on, and no modules.\<close>

definition example_mem :: mem where
  "example_mem a = (let i = unat (a - 0x9000) in
     if i < 24 then [20, 0, 0, 0,  0, 0, 0x10, 0, 0, 0, 0, 0,  0, 0, 0, 1, 0, 0, 0, 0,  1, 0, 0, 0] ! i else 0)"

definition example_mboot :: multiboot_info where
  "example_mboot = \<lparr>mb_flags = 0x40, mods_count = 0, mods_addr = 0, mmap_length = 24, mmap_addr = 0x9000\<rparr>"

definition example_entry :: mmap_entry where
  "example_entry = \<lparr>me_size = 20, me_addr = 0x100000, me_len = 0x1000000, me_type = 1\<rparr>"

definition example_pmm :: pmm where
  "example_pmm = \<lparr>mem_mngr = bm_init PMM_params, available_frames = 0, used_frames = 0\<rparr>"

lemma example_pmm_bm: "bm_wf PMM_params (mem_mngr example_pmm)"
  using bm_init_wf [OF PMM_geometry] by (simp add: example_pmm_def)

lemma example_mboot_ok:
  "TEST_MASK (mb_flags example_mboot) MULTIBOOT_INFO_MEM_MAP"
  "mmap_visits example_mem (mmap_addr example_mboot) (mmap_addr example_mboot + mmap_length example_mboot)
     [example_entry]"
  "\<forall>e \<in> set [example_entry]. me_type e \<le> 5"
  "module_list example_mem example_mboot = []"
  "low_boot_reserved_end example_mem example_mboot 0x180000 = Inr 0x180000"
  by code_simp+

lemma example_entry_frames: "entry_frames example_entry = {256..<4352}"
  by (auto simp: entry_frames_def example_entry_def MULTIBOOT_MEMORY_AVAILABLE_def)

lemma example_boot_reserved: "boot_reserved example_mem example_mboot 0x100000 0x180000 0x180000 = {256..<384}"
proof -
  have "covered_page_range 0x100000 (pr_size (covered_page_range 0x100000 (0x180000 - 0x100000))) =
      \<lparr>prbase = 0x100000, frames = 128\<rparr>" by code_simp
  then show ?thesis
    by (auto simp: boot_reserved_def example_mboot_ok kernel_frames_def pr_set_def)
qed


lemma align_up_page_ge: "unat v + 4095 < 4294967296 \<Longrightarrow> unat v \<le> unat (align_up v PAGE_SIZE)"
  by (simp add: unat_align_up_page)

lemma free_frame_above:
  assumes "k \<in> (\<Union>e \<in> set es. entry_frames e) - boot_reserved m mboot kernel_start kernel_end low"
    and "low_boot_reserved_end m mboot kernel_end = Inr low"
    and "unat kernel_end + 4095 < 4294967296"
    and "\<forall>x \<in> set (module_list m mboot). unat (mod_end x) + 4095 < 4294967296"
  shows "unat kernel_end \<le> 4096 * k" "\<forall>x \<in> set (module_list m mboot). unat (mod_end x) \<le> 4096 * k"
    "256 \<le> k"
proof -
  have low: "unat low mod 4096 = 0" "align_up kernel_end PAGE_SIZE \<le> low"
    "\<forall>x \<in> set (module_list m mboot). align_up (mod_end x) PAGE_SIZE \<le> low"
    using low_boot_reserved_end_result [of m mboot kernel_end] assms(2) by auto
  show k: "256 \<le> k" using assms(1) entry_frames_bound by fastforce
  then have "unat low div 4096 \<le> k" using assms(1) by (auto simp: boot_reserved_def)
  then have above: "unat low \<le> 4096 * k" using low(1) by auto
  show "unat kernel_end \<le> 4096 * k"
    using align_up_page_ge [OF assms(3)] low(2) above unfolding u32_le_iff by linarith
  show "\<forall>x \<in> set (module_list m mboot). unat (mod_end x) \<le> 4096 * k"
  proof
    fix x assume x: "x \<in> set (module_list m mboot)"
    from align_up_page_ge [of "mod_end x"] low(3) assms(4) x above
    show "unat (mod_end x) \<le> 4096 * k" unfolding u32_le_iff by force
  qed
qed


lemma example_free_frame: "\<exists>s' s''. pmm_init example_mem example_mboot 0x100000 0x180000 example_pmm = Some (Inr s') \<and>
  (\<exists>a. alloc_frames s' 1 = Inr (a, s''))"
proof -
  have d: "entries_disjoint [example_entry]" by (simp add: entries_disjoint_def)
  obtain low s1 s' where init: "pmm_init example_mem example_mboot 0x100000 0x180000 example_pmm = Some (Inr s')"
    and low: "low_boot_reserved_end example_mem example_mboot 0x180000 = Inr low"
    and s1: "pmm_used s1 = {..<1048576} - (\<Union>e \<in> set [example_entry]. entry_frames e)"
    and res: "reserved_from s1 (boot_reserved example_mem example_mboot 0x100000 0x180000 low) s'"
    using pmm_init_result [OF example_mboot_ok(1) example_pmm_bm example_mboot_ok(2,3), of "0x180000" "0x100000"]
    by (elim exE conjE) (rule that)
  have "low = 0x180000" using low by (simp add: example_mboot_ok(5))
  then have "384 \<notin> pmm_used s'"
    using res s1 by (auto simp: reserved_from_def example_boot_reserved example_entry_frames)
  then have "{384..<384 + unat (1 :: u32)} \<inter> bm_used PMM_params (mem_mngr s') = {}"
    using atLeastLessThan_singleton [of 384] by (simp add: pmm_used_def del: atLeastLessThan_singleton)
  then have "\<exists>a b. alloc_units PMM_params (mem_mngr s') 1 = Inr (a, b)"
    using frame_bitmap.alloc_available [OF reserved_from_wf [OF res], of 1 384] by simp
  then show ?thesis using init by (auto simp: alloc_frames_def)
qed


text \<open>
  Property C22 (invariant): the balance of the counters survives every use. Starting from a
  state where \<^verbatim>\<open>available_frames - used_frames\<close> counts the free frames, an allocation hands out
  frames that were free and that no earlier allocation owns, and afterwards, as after the
  release of a run in use, \<^verbatim>\<open>free_memory\<close> is again 4096 bytes per free frame; a second
  allocation gives frames disjoint from the first, and a second release panics.
\<close>

theorem frame_accounting:
  assumes "pmm_wf s" and "0 < c" and "alloc_frames s c = Inr (a, s1)"
    and "0 < d" and "alloc_frames s1 d = Inr (a', s2)"
  shows "\<exists>i j s3 msg. a = unit_addr PMM_params i \<and> a' = unit_addr PMM_params j \<and>
    {i..<i + unat c} \<inter> {j..<j + unat d} = {} \<and> {i..<i + unat c} \<union> {j..<j + unat d} \<subseteq> pmm_used s2 \<and>
    free_memory s2 = word_of_nat (card ({..<1048576} - pmm_used s2) * 4096) \<and>
    free_frames s2 a' d = Inr s3 \<and> pmm_used s3 = pmm_used s1 \<and>
    free_memory s3 = word_of_nat (card ({..<1048576} - pmm_used s3) * 4096) \<and>
    free_frames s3 a' d = Inl (Panic msg)"
proof -
  have wf1: "pmm_wf s1" by (rule frame_alloc.alloc_inv [OF assms(1-3)])
  have wf2: "pmm_wf s2" by (rule frame_alloc.alloc_inv [OF wf1 assms(4,5)])
  obtain i j where ij: "a = unit_addr PMM_params i" "a' = unit_addr PMM_params j"
    "{i..<i + unat c} \<inter> {j..<j + unat d} = {}" "{i..<i + unat c} \<union> {j..<j + unat d} \<subseteq> pmm_used s2"
    using frame_alloc.alloc_twice_disjoint [OF assms] by blast
  obtain s3 where s3: "free_frames s2 a' d = Inr s3" "pmm_used s3 = pmm_used s1" "pmm_wf s3"
    using frame_alloc.alloc_release [OF wf1 assms(4,5)] by blast
  obtain j' where j': "j' + unat d \<le> 1048576" "a' = unit_addr PMM_params j'"
    using frame_alloc.alloc_ok [OF wf1 assms(4,5)] by blast
  obtain msg where "free_frames s3 a' d = Inl (Panic msg)"
    using frame_alloc.release_twice_stops [OF wf2 assms(4) j'(1)] s3(1) j'(2) by blast
  then show ?thesis using ij s3 pmm_wf_free_memory wf2 by blast
qed

text \<open>A machine whose frames are all free.\<close>

definition example_free :: pmm where
  "example_free = \<lparr>mem_mngr = bm_init PMM_params, available_frames = MAX_FRAMES, used_frames = 0\<rparr>"

lemma example_free_wf: "pmm_wf example_free" "pmm_used example_free = {}"
  using bm_init_wf [OF PMM_geometry]
  by (simp_all add: example_free_def pmm_wf_def pmm_used_def free_unit_count_def bm_init_def
      MAX_FRAMES_def MAX_UNITS_PMM)

theorem frame_accounting_witness:
  "pmm_wf example_free \<and> (\<exists>a s1 a' s2 s3. alloc_frames example_free 2 = Inr (a, s1) \<and>
     alloc_frames s1 3 = Inr (a', s2) \<and> free_frames s2 a' 3 = Inr s3 \<and> pmm_used s3 = pmm_used s1)"
proof -
  obtain a s1 where s1: "alloc_frames example_free 2 = Inr (a, s1)"
    using frame_alloc.alloc_available [OF example_free_wf(1), of 2 0] example_free_wf(2)
    by (auto simp: u32_less_iff)
  obtain i where i: "pmm_wf s1" "pmm_used s1 = {i..<i + 2}"
    using frame_alloc.alloc_ok [OF example_free_wf(1) _ s1] example_free_wf(2) by (auto simp: u32_less_iff)
  have "{(if i < 10 then 20 else 0)..<(if i < 10 then 20 else 0) + unat (3 :: u32)} \<inter> pmm_used s1 = {}"
    using i(2) by auto
  then obtain a' s2 where s2: "alloc_frames s1 3 = Inr (a', s2)"
    using frame_alloc.alloc_available [OF i(1), of 3 "if i < 10 then 20 else 0"] by (auto simp: u32_less_iff split: if_splits)
  from frame_accounting [OF example_free_wf(1) _ s1 _ s2] s1 s2 show ?thesis
    using example_free_wf(1) by (auto simp: u32_less_iff)
qed

text \<open>The addresses the walk over the memory map can reach.\<close>

inductive mmap_reach :: "mem \<Rightarrow> u32 \<Rightarrow> u32 \<Rightarrow> u32 \<Rightarrow> bool" for m mmap mmap_end where
  start: "mmap_reach m mmap mmap_end mmap"
| step: "mmap_reach m mmap mmap_end p \<Longrightarrow> p < mmap_end \<Longrightarrow>
    mmap_reach m mmap mmap_end (p + me_size (load_mmap_entry m p) + 4)"

lemma mmap_visits_exist:
  assumes "mmap_reach m mmap fin p"
    and adv: "\<And>p. mmap_reach m mmap fin p \<Longrightarrow> p < fin \<Longrightarrow>
      unat p + unat (me_size (load_mmap_entry m p)) + 4 < 4294967296"
  shows "\<exists>es. mmap_visits m p fin es"
  using assms(1)
proof (induction "unat fin - unat p" arbitrary: p rule: less_induct)
  case less
  show ?case
  proof (cases "p < fin")
    case False
    then have "mmap_visits m p fin []" by simp
    then show ?thesis by blast
  next
    case True
    let ?q = "p + me_size (load_mmap_entry m p) + 4"
    have "unat ?q = unat p + unat (me_size (load_mmap_entry m p)) + 4"
      using adv [OF less.prems True] by (simp add: unat_add_u32)
    then have "unat fin - unat ?q < unat fin - unat p" using True by (simp add: u32_less_iff)
    from less.hyps [OF this mmap_reach.step [OF less.prems True]]
    obtain es where "mmap_visits m ?q fin es" by blast
    then have "mmap_visits m p fin (load_mmap_entry m p # es)" using True by simp
    then show ?thesis by blast
  qed
qed

text \<open>
  The walk over the memory map ends, with a state or a fault,
  whenever no entry it reaches has a size that takes the pointer past 4 GiB. (Nothing in
  the code enforces this: a size of \<^verbatim>\<open>0xFFFFFFFC\<close> keeps the pointer in place.)
\<close>

theorem mmap_walk_terminates:
  assumes "\<And>p. mmap_reach m mmap fin p \<Longrightarrow> p < fin \<Longrightarrow>
    unat p + unat (me_size (load_mmap_entry m p)) + 4 < 4294967296"
  shows "mmap_walk m mmap fin s \<noteq> None"
proof -
  obtain es where "mmap_visits m mmap fin es"
    using mmap_visits_exist [OF mmap_reach.start assms] by blast
  then show ?thesis
  proof (induction es arbitrary: mmap s)
    case Nil
    then show ?case by (subst mmap_walk.simps) simp
  next
    case (Cons e es)
    then show ?case
      by (subst mmap_walk.simps) (auto split: sum.splits)
  qed
qed

lemma example_reach: "mmap_reach example_mem 0x9000 0x9018 p \<Longrightarrow> p = 0x9000 \<or> p = 0x9018"
proof (induction rule: mmap_reach.induct)
  case (step p)
  have "me_size (load_mmap_entry example_mem 0x9000) = 20" by code_simp
  with step show ?case by auto
qed simp

theorem mmap_walk_terminates_witness:
  "unat (0x9000 :: u32) + unat (me_size (load_mmap_entry example_mem 0x9000)) + 4 < 4294967296 \<and>
   mmap_walk example_mem 0x9000 0x9018 example_pmm \<noteq> None"
proof -
  have sz: "me_size (load_mmap_entry example_mem 0x9000) = 20" by code_simp
  have "unat p + unat (me_size (load_mmap_entry example_mem p)) + 4 < 4294967296"
    if "mmap_reach example_mem 0x9000 0x9018 p" "p < 0x9018" for p
    using example_reach [OF that(1)] that(2) sz by auto
  from mmap_walk_terminates [OF this] show ?thesis using sz by simp
qed

end
