(* ===== verification/IDT.thy ===== *)
theory IDT
  imports Machine
begin

text \<open>
  \<^verbatim>\<open>int/idt.hpp\<close>, \<^verbatim>\<open>int/idt.cpp\<close>, \<^verbatim>\<open>driver/pic.hpp\<close> and \<^verbatim>\<open>io/ports.hpp\<close>: the interrupt gates, the
  tables of registered handlers, the dispatcher, the end-of-interrupt protocol of the legacy
  controllers, and the assembly of \<^verbatim>\<open>context_switch\<close>, which builds an \<^verbatim>\<open>InterruptFrame\<close> on the
  stack, calls the dispatcher and loads every register back from that frame.
\<close>

section \<open>Port output\<close>

text \<open>Writes to I/O ports are recorded in order; what reads return is decided by the devices.\<close>

datatype io_out = Outb u16 u8 | Outw u16 u16 | Outl u16 u32

definition PIC1_COMMAND :: u16 where "PIC1_COMMAND = 0x20"
definition PIC1_DATA :: u16 where "PIC1_DATA = 0x21"
definition PIC2_COMMAND :: u16 where "PIC2_COMMAND = 0xA0"
definition PIC2_DATA :: u16 where "PIC2_DATA = 0xA1"
definition ICW1_INIT :: u8 where "ICW1_INIT = 0x10"
definition ICW1_ICW4 :: u8 where "ICW1_ICW4 = 0x01"
definition ICW4_8086 :: u8 where "ICW4_8086 = 0x01"

definition io_wait :: "io_out list" where
  "io_wait = [Outb 0x80 0]"

text \<open>\<open>a1\<close> and \<open>a2\<close> are the interrupt masks read from the two data ports first.\<close>

definition pic_remap :: "u8 \<Rightarrow> u8 \<Rightarrow> u8 \<Rightarrow> u8 \<Rightarrow> io_out list" where
  "pic_remap a1 a2 offset1 offset2 =
     [Outb PIC1_COMMAND (ICW1_INIT OR ICW1_ICW4)] @ io_wait @
     [Outb PIC2_COMMAND (ICW1_INIT OR ICW1_ICW4)] @ io_wait @
     [Outb PIC1_DATA offset1] @ io_wait @ [Outb PIC2_DATA offset2] @ io_wait @
     [Outb PIC1_DATA 0x04] @ io_wait @ [Outb PIC2_DATA 0x02] @ io_wait @
     [Outb PIC1_DATA ICW4_8086] @ io_wait @ [Outb PIC2_DATA ICW4_8086] @ io_wait @
     [Outb PIC1_DATA a1, Outb PIC2_DATA a2]"

definition pic_EOI :: "u8 \<Rightarrow> io_out list" where
  "pic_EOI irq = (if irq \<ge> 8 then [Outb PIC2_COMMAND 0x20] else []) @ [Outb PIC1_COMMAND 0x20]"

definition pic_disable :: "io_out list" where
  "pic_disable = [Outb PIC1_DATA 0xFF, Outb PIC2_DATA 0xFF]"

section \<open>Wrappers and gates\<close>

datatype frame_kind = Base | ContextSwitch

text \<open>The instantiations of the three wrapper templates; their addresses are the linker's.\<close>

datatype isr_entry = Context_Switch nat | Isr_Wrapper_Err nat | Isr_Wrapper_No_Err nat

record isr_descriptor =
  isr_entry_point :: isr_entry
  isr_kind :: frame_kind
  has_error_code :: bool

definition get_isr_wrapper :: "nat \<Rightarrow> isr_descriptor" where
  "get_isr_wrapper n =
     (if n = 32 \<or> n = 48
      then \<lparr>isr_entry_point = Context_Switch n, isr_kind = ContextSwitch, has_error_code = False\<rparr>
      else if n = 8 \<or> n = 10 \<or> n = 11 \<or> n = 12 \<or> n = 13 \<or> n = 14 \<or> n = 17 \<or> n = 21
      then \<lparr>isr_entry_point = Isr_Wrapper_Err n, isr_kind = Base, has_error_code = True\<rparr>
      else \<lparr>isr_entry_point = Isr_Wrapper_No_Err n, isr_kind = Base, has_error_code = False\<rparr>)"

definition isr_table :: "isr_descriptor list" where
  "isr_table = map get_isr_wrapper [0..<256]"

record idt_entry =
  offset_low :: u16
  selector :: u16
  idt_zero :: u8
  type_attr :: u8
  offset_high :: u16

definition set_offset :: "idt_entry \<Rightarrow> u32 \<Rightarrow> idt_entry" where
  "set_offset e offset = e\<lparr>offset_low := ucast (offset AND 0xFFFF),
     offset_high := ucast (drop_bit 16 offset AND 0xFFFF)\<rparr>"

definition IDT_PRESENT :: u8 where "IDT_PRESENT = 0x80"
definition IDT_INTERRUPT_GATE :: u8 where "IDT_INTERRUPT_GATE = 0x0E"

definition set_entry :: "idt_entry list \<Rightarrow> u8 \<Rightarrow> u32 \<Rightarrow> u8 \<Rightarrow> u16 \<Rightarrow> idt_entry list" where
  "set_entry es vector handler flags sel =
     es[unat vector := (set_offset (es ! unat vector) handler)\<lparr>selector := sel, type_attr := flags\<rparr>]"

primrec idt_fill :: "(isr_entry \<Rightarrow> u32) \<Rightarrow> nat \<Rightarrow> idt_entry list \<Rightarrow> idt_entry list" where
  "idt_fill addr 0 es = es"
| "idt_fill addr (Suc n) es =
     (let es = idt_fill addr n es in
      set_entry (es[n := (es ! n)\<lparr>idt_zero := 0\<rparr>]) (word_of_nat n)
        (addr (isr_entry_point (isr_table ! n))) (IDT_PRESENT OR IDT_INTERRUPT_GATE) 0x08)"

definition idt_init :: "(isr_entry \<Rightarrow> u32) \<Rightarrow> idt_entry list \<Rightarrow> idt_entry list" where
  "idt_init addr es = idt_fill addr 256 es"

text \<open>What the processor jumps to when it takes a vector: the offset stored in the gate.\<close>

definition gate_offset :: "idt_entry \<Rightarrow> u32" where
  "gate_offset e = ucast (offset_low e) OR push_bit 16 (ucast (offset_high e))"

section \<open>Handlers and dispatch\<close>

text \<open>
  A handler acts on the rest of the kernel's state, \<open>'s\<close>. The machine around it that the
  dispatcher touches is the floating-point state, the port writes and the count of
  end-of-interrupt writes to the local APIC.
\<close>

record ('s, 'f) isr_env =
  env_rest :: 's
  env_fpu :: 'f
  env_io :: "io_out list"
  env_lapic_eoi :: nat

record ('s, 'f) idt =
  isr_handlers :: "(u32 \<Rightarrow> u32 \<Rightarrow> ('s, 'f) isr_env \<Rightarrow> ('s, 'f) isr_env kres) option list"
  irq_handlers :: "(u32 \<Rightarrow> ('s, 'f) isr_env \<Rightarrow> ('s, 'f) isr_env kres) option list"

definition idt_tables_wf :: "('s, 'f) idt \<Rightarrow> bool" where
  "idt_tables_wf t \<longleftrightarrow> length (isr_handlers t) = 256 \<and> length (irq_handlers t) = 16"

definition register_isr where
  "register_isr t (vector :: u8) handler = t\<lparr>isr_handlers := (isr_handlers t)[unat vector := Some handler]\<rparr>"

definition register_irq :: "('s, 'f) idt \<Rightarrow> u8 \<Rightarrow> (u32 \<Rightarrow> ('s, 'f) isr_env \<Rightarrow> ('s, 'f) isr_env kres) \<Rightarrow>
    ('s, 'f) idt kres" where
  "register_irq t irq handler = bindR (guardR (irq < 16) Undefined)
     (\<lambda>_. Inr (t\<lparr>irq_handlers := (irq_handlers t)[unat irq := Some handler]\<rparr>))"

definition unregister_isr where
  "unregister_isr t (vector :: u8) = t\<lparr>isr_handlers := (isr_handlers t)[unat vector := None]\<rparr>"

definition unregister_irq :: "('s, 'f) idt \<Rightarrow> u8 \<Rightarrow> ('s, 'f) idt kres" where
  "unregister_irq t irq = bindR (guardR (irq < 16) Undefined)
     (\<lambda>_. Inr (t\<lparr>irq_handlers := (irq_handlers t)[unat irq := None]\<rparr>))"

definition exception_messages :: "string list" where
  "exception_messages = [''Division by zero'', ''Debug'', ''Non-maskable interrupt'', ''Breakpoint'',
     ''Detected overflow'', ''Out of bounds'', ''Invalid opcode'', ''No coprocessor'', ''Double fault'',
     ''Coprocessor segment overrun'', ''Bad TSS'', ''Segment not present'', ''Stack fault'',
     ''General protection fault'', ''Page fault'', ''Unknown interrupt'', ''Coprocessor fault'',
     ''Alignment check'', ''Machine check'']"

text \<open>
  \<open>isr_handler\<close>: \<open>core\<close> says whether the anchor of the running core has a core object. The
  message of the panic is the format string with the exception's name appended.
\<close>

definition isr_handler ::
  "('s, 'f) idt \<Rightarrow> bool \<Rightarrow> u8 \<Rightarrow> u32 \<Rightarrow> u32 \<Rightarrow> ('s, 'f) isr_env \<Rightarrow> ('s, 'f) isr_env kres" where
  "isr_handler t core no err ctx env =
     (let fxsave_region = env_fpu env in
      bindR
        (if no \<ge> 32 \<and> no < 48 then
           let irq = no - 32 in
           bindR (case irq_handlers t ! unat irq of Some handler \<Rightarrow> handler ctx env | None \<Rightarrow> Inr env)
             (\<lambda>env. Inr (env\<lparr>env_io := env_io env @ pic_EOI irq\<rparr>))
         else
           case isr_handlers t ! unat no of
             Some handler \<Rightarrow> handler err ctx env
           | None \<Rightarrow>
               if no < 32 then
                 if unat no < length exception_messages
                 then Inl (Panic (''Unhandled critical ISR: '' @ exception_messages ! unat no))
                 else Inl Undefined
               else Inr env)
        (\<lambda>env. Inr (env\<lparr>env_fpu := fxsave_region,
           env_lapic_eoi := env_lapic_eoi env + (if core then 1 else 0)\<rparr>)))"

section \<open>Interrupt frames\<close>

record interrupt_frame =
  f_ds :: u32
  f_es :: u32
  f_fs :: u32
  f_gs :: u32
  f_edi :: u32
  f_esi :: u32
  f_ebp :: u32
  f_esp :: u32
  f_ebx :: u32
  f_edx :: u32
  f_ecx :: u32
  f_eax :: u32
  f_int_no :: u32
  f_err_code :: u32
  f_eip :: u32
  f_cs :: u32
  f_eflags :: u32
  f_user_esp :: u32
  f_user_ss :: u32

text \<open>
  The packed structure as the stack holds it. The processor pushes \<^verbatim>\<open>user_esp\<close> and \<^verbatim>\<open>user_ss\<close> only on
  a change of privilege, which this kernel, running in ring 0 throughout, never makes: these two
  words are then the topmost ones of the stack that was interrupted.
\<close>

definition load_frame :: "mem \<Rightarrow> u32 \<Rightarrow> interrupt_frame" where
  "load_frame m p = \<lparr>f_ds = load32 m p, f_es = load32 m (p + 4), f_fs = load32 m (p + 8),
     f_gs = load32 m (p + 12), f_edi = load32 m (p + 16), f_esi = load32 m (p + 20),
     f_ebp = load32 m (p + 24), f_esp = load32 m (p + 28), f_ebx = load32 m (p + 32),
     f_edx = load32 m (p + 36), f_ecx = load32 m (p + 40), f_eax = load32 m (p + 44),
     f_int_no = load32 m (p + 48), f_err_code = load32 m (p + 52), f_eip = load32 m (p + 56),
     f_cs = load32 m (p + 60), f_eflags = load32 m (p + 64), f_user_esp = load32 m (p + 68),
     f_user_ss = load32 m (p + 72)\<rparr>"

definition base_offset :: u32 where "base_offset = 56"

definition from_base :: "u32 \<Rightarrow> u32" where
  "from_base b = b - base_offset"

section \<open>The context switch\<close>

record cpu =
  r_eax :: u32
  r_ecx :: u32
  r_edx :: u32
  r_ebx :: u32
  r_esp :: u32
  r_ebp :: u32
  r_esi :: u32
  r_edi :: u32
  r_eip :: u32
  r_eflags :: u32
  s_cs :: u16
  s_ds :: u16
  s_es :: u16
  s_fs :: u16
  s_gs :: u16
  cmem :: mem

definition push :: "u32 \<Rightarrow> cpu \<Rightarrow> cpu" where
  "push v c = c\<lparr>r_esp := r_esp c - 4, cmem := store32 (cmem c) (r_esp c - 4) v\<rparr>"

definition stack_top :: "cpu \<Rightarrow> u32" where
  "stack_top c = load32 (cmem c) (r_esp c)"

definition drop_top :: "cpu \<Rightarrow> cpu" where
  "drop_top c = c\<lparr>r_esp := r_esp c + 4\<rparr>"

definition pusha :: "cpu \<Rightarrow> cpu" where
  "pusha c = push (r_edi c) (push (r_esi c) (push (r_ebp c) (push (r_esp c) (push (r_ebx c)
     (push (r_edx c) (push (r_ecx c) (push (r_eax c) c)))))))"

definition popa :: "cpu \<Rightarrow> cpu" where
  "popa c = (let
     c = drop_top (c\<lparr>r_edi := stack_top c\<rparr>);
     c = drop_top (c\<lparr>r_esi := stack_top c\<rparr>);
     c = drop_top (c\<lparr>r_ebp := stack_top c\<rparr>);
     c = drop_top c;
     c = drop_top (c\<lparr>r_ebx := stack_top c\<rparr>);
     c = drop_top (c\<lparr>r_edx := stack_top c\<rparr>);
     c = drop_top (c\<lparr>r_ecx := stack_top c\<rparr>)
   in drop_top (c\<lparr>r_eax := stack_top c\<rparr>))"

text \<open>Taking an interrupt without a change of privilege, and returning from it.\<close>

definition interrupt :: "cpu \<Rightarrow> cpu" where
  "interrupt c = push (r_eip c) (push (ucast (s_cs c)) (push (r_eflags c) c))"

definition iret :: "cpu \<Rightarrow> cpu" where
  "iret c = (let
     c = drop_top (c\<lparr>r_eip := stack_top c\<rparr>);
     c = drop_top (c\<lparr>s_cs := ucast (stack_top c)\<rparr>)
   in drop_top (c\<lparr>r_eflags := stack_top c\<rparr>))"

text \<open>The part of \<^verbatim>\<open>context_switch<N>\<close> before the call: the frame and the three arguments.\<close>

definition push_seg :: "(cpu \<Rightarrow> u16) \<Rightarrow> cpu \<Rightarrow> cpu" where
  "push_seg seg c = (let c = c\<lparr>r_eax := (r_eax c AND 0xFFFF0000) OR ucast (seg c)\<rparr> in push (r_eax c) c)"

definition context_switch_enter :: "u32 \<Rightarrow> cpu \<Rightarrow> cpu" where
  "context_switch_enter n c = (let
     c = push 0 c;
     c = push n c;
     c = pusha c;
     c = c\<lparr>r_eax := 0\<rparr>;
     c = push_seg s_gs c;
     c = push_seg s_fs c;
     c = push_seg s_es c;
     c = push_seg s_ds c;
     c = c\<lparr>r_eax := (r_eax c AND 0xFFFF0000) OR 0x10\<rparr>;
     c = c\<lparr>s_ds := ucast (r_eax c), s_es := ucast (r_eax c), s_fs := ucast (r_eax c), s_gs := ucast (r_eax c)\<rparr>;
     c = c\<lparr>r_eax := r_esp c\<rparr>;
     c = c\<lparr>r_eax := r_eax c + base_offset\<rparr>;
     c = push (r_eax c) c;
     c = push 0 c
   in push n c)"

text \<open>The part after the call. \<^verbatim>\<open>add $12, %esp\<close> drops the arguments.\<close>

definition context_switch_leave :: "cpu \<Rightarrow> cpu" where
  "context_switch_leave c = (let
     c = c\<lparr>r_esp := r_esp c + 12\<rparr>;
     c = c\<lparr>r_eax := 0\<rparr>;
     c = drop_top (c\<lparr>r_eax := stack_top c\<rparr>);
     c = c\<lparr>s_ds := ucast (r_eax c)\<rparr>;
     c = drop_top (c\<lparr>r_eax := stack_top c\<rparr>);
     c = c\<lparr>s_es := ucast (r_eax c)\<rparr>;
     c = drop_top (c\<lparr>r_eax := stack_top c\<rparr>);
     c = c\<lparr>s_fs := ucast (r_eax c)\<rparr>;
     c = drop_top (c\<lparr>r_eax := stack_top c\<rparr>);
     c = c\<lparr>s_gs := ucast (r_eax c)\<rparr>;
     c = popa c;
     c = c\<lparr>r_esp := r_esp c + 8\<rparr>
   in iret c)"

text \<open>
  The whole stub. \<open>call\<close> is \<^verbatim>\<open>call *%eax\<close> to \<^verbatim>\<open>idt::isr_handler\<close>, from the push of the return
  address to the return.
\<close>

definition context_switch :: "u32 \<Rightarrow> (cpu \<Rightarrow> cpu) \<Rightarrow> cpu \<Rightarrow> cpu" where
  "context_switch n call c = context_switch_leave (call (context_switch_enter n c))"

section \<open>What the stub establishes and restores\<close>

lemma push_sel [simp]:
  "r_esp (push v c) = r_esp c - 4" "cmem (push v c) = store32 (cmem c) (r_esp c - 4) v"
  "s_ds (push v c) = s_ds c" "s_es (push v c) = s_es c" "s_fs (push v c) = s_fs c"
  "s_gs (push v c) = s_gs c" "r_eax (push v c) = r_eax c" "r_ecx (push v c) = r_ecx c"
  "r_edx (push v c) = r_edx c" "r_ebx (push v c) = r_ebx c" "r_ebp (push v c) = r_ebp c"
  "r_esi (push v c) = r_esi c" "r_edi (push v c) = r_edi c"
  by (simp_all add: push_def)

text \<open>The memory below \<open>e\<close> after a list of values was pushed there.\<close>

primrec push_mem :: "u32 \<Rightarrow> u32 list \<Rightarrow> mem \<Rightarrow> mem" where
  "push_mem e [] m = m"
| "push_mem e (v # vs) m = push_mem (e - 4) vs (store32 m (e - 4) v)"

lemma push_mem_above:
  assumes "word_aligned e" "word_aligned a" "length vs < 1073741824"
    "\<And>i. i < length vs \<Longrightarrow> a \<noteq> e - 4 * word_of_nat (Suc i)"
  shows "load32 (push_mem e vs m) a = load32 m a"
  using assms
proof (induction vs arbitrary: e m)
  case (Cons v vs)
  have al: "word_aligned (e - 4)" using Cons.prems(1) word_aligned_mult4 [of 1] by (simp add: word_aligned_diff)
  have "load32 (push_mem (e - 4) vs (store32 m (e - 4) v)) a = load32 (store32 m (e - 4) v) a"
  proof (rule Cons.IH [OF al Cons.prems(2)])
    show "length vs < 1073741824" using Cons.prems(3) by simp
    show "a \<noteq> e - 4 - 4 * word_of_nat (Suc i)" if "i < length vs" for i
      using Cons.prems(4) [of "Suc i"] that by (simp add: algebra_simps)
  qed
  moreover have "a \<noteq> e - 4" using Cons.prems(4) [of 0] by simp
  ultimately show ?case using load32_store32_other [OF al Cons.prems(2)] by simp
qed simp

lemma push_mem_nth:
  assumes "word_aligned e" "length vs < 1073741824" "i < length vs"
  shows "load32 (push_mem e vs m) (e - 4 * word_of_nat (Suc i)) = vs ! i"
  using assms
proof (induction vs arbitrary: e m i)
  case (Cons v vs)
  have al: "word_aligned (e - 4)" using Cons.prems(1) word_aligned_mult4 [of 1] by (simp add: word_aligned_diff)
  show ?case
  proof (cases i)
    case 0
    have ne: "e - 4 \<noteq> e - 4 - 4 * word_of_nat (Suc j)" if "j < length vs" for j
    proof
      assume "e - 4 = e - 4 - 4 * word_of_nat (Suc j)"
      then have "4 * word_of_nat (Suc j) = (0 :: u32)" by (simp add: algebra_simps)
      then have "unat (4 * word_of_nat (Suc j) :: u32) = 0" by simp
      moreover have "Suc j < 1073741824" using that Cons.prems(2) by simp
      ultimately show False using unat_nat_mult4 [of "Suc j"] by (simp del: of_nat_Suc)
    qed
    have "load32 (push_mem (e - 4) vs (store32 m (e - 4) v)) (e - 4) = load32 (store32 m (e - 4) v) (e - 4)"
      using push_mem_above [OF al al] ne Cons.prems(2) by simp
    then show ?thesis using 0 by simp
  next
    case (Suc j)
    have "length vs < 1073741824" "j < length vs" using Cons.prems(2,3) Suc by simp_all
    from Cons.IH [OF al this] show ?thesis using Suc by (simp add: algebra_simps)
  qed
qed simp

lemma seg_eax: "(0 AND 0xFFFF0000) OR ucast (x :: u16) = (ucast x :: u32)"
  by simp

lemma seg_eax_next: "(ucast (y :: u16) AND 0xFFFF0000) OR ucast (x :: u16) = (ucast x :: u32)"
proof -
  have "ucast y AND (0xFFFF0000 :: u32) = 0"
  proof (rule bit_word_eqI)
    fix n assume "n < LENGTH(32)"
    have eq: "(0xFFFF0000 :: u32) = push_bit 16 (mask 16)" by (simp add: mask_eq_exp_minus_1)
    show "bit (ucast y AND (0xFFFF0000 :: u32)) n = bit (0 :: u32) n"
      unfolding eq by (auto simp: bit_simps dest: bit_imp_le_length)
  qed
  then show ?thesis by simp
qed

lemma context_switch_enter_eq:
  "r_esp (context_switch_enter n c) = r_esp c - 68"
  "cmem (context_switch_enter n c) = push_mem (r_esp c)
     [0, n, r_eax c, r_ecx c, r_edx c, r_ebx c, r_esp c - 8, r_ebp c, r_esi c, r_edi c,
      ucast (s_gs c), ucast (s_fs c), ucast (s_es c), ucast (s_ds c), r_esp c, 0, n] (cmem c)"
  by (simp_all add: context_switch_enter_def Let_def pusha_def push_seg_def seg_eax seg_eax_next base_offset_def)

lemma context_switch_frame:
  assumes "word_aligned (r_esp c)"
  shows "load_frame (cmem (context_switch_enter n (interrupt c))) (r_esp c - 68) =
    \<lparr>f_ds = ucast (s_ds c), f_es = ucast (s_es c), f_fs = ucast (s_fs c), f_gs = ucast (s_gs c),
     f_edi = r_edi c, f_esi = r_esi c, f_ebp = r_ebp c, f_esp = r_esp c - 20, f_ebx = r_ebx c,
     f_edx = r_edx c, f_ecx = r_ecx c, f_eax = r_eax c, f_int_no = n, f_err_code = 0,
     f_eip = r_eip c, f_cs = ucast (s_cs c), f_eflags = r_eflags c,
     f_user_esp = load32 (cmem c) (r_esp c), f_user_ss = load32 (cmem c) (r_esp c + 4)\<rparr>"
proof -
  let ?vs = "[r_eflags c, ucast (s_cs c), r_eip c, 0, n, r_eax c, r_ecx c, r_edx c, r_ebx c, r_esp c - 20,
    r_ebp c, r_esi c, r_edi c, ucast (s_gs c), ucast (s_fs c), ucast (s_es c), ucast (s_ds c),
    r_esp c - 12, 0, n]"
  have m: "cmem (context_switch_enter n (interrupt c)) = push_mem (r_esp c) ?vs (cmem c)"
    by (simp add: context_switch_enter_eq interrupt_def)
  have len: "length ?vs = 20" by simp
  have "load32 (push_mem (r_esp c) ?vs (cmem c)) (r_esp c - 4 * word_of_nat (Suc i)) = ?vs ! i"
    if "i < 20" for i
    using that len by (intro push_mem_nth [OF assms]) simp_all
  note pushed = this [of 0] this [of 1] this [of 2] this [of 3] this [of 4] this [of 5] this [of 6] this [of 7]
    this [of 8] this [of 9] this [of 10] this [of 11] this [of 12] this [of 13] this [of 14] this [of 15]
    this [of 16]
  have above: "load32 (push_mem (r_esp c) ?vs (cmem c)) (r_esp c + 4 * word_of_nat k) = load32 (cmem c) (r_esp c + 4 * word_of_nat k)"
    if "k < 2" for k
  proof (rule push_mem_above [OF assms])
    show "word_aligned (r_esp c + 4 * word_of_nat k)" using assms by (simp add: word_aligned_add word_aligned_mult4)
    show "r_esp c + 4 * word_of_nat k \<noteq> r_esp c - 4 * word_of_nat (Suc i)" if "i < length ?vs" for i
    proof
      assume "r_esp c + 4 * word_of_nat k = r_esp c - 4 * word_of_nat (Suc i)"
      then have "4 * word_of_nat (k + Suc i) = (0 :: u32)" by (simp add: algebra_simps)
      then have "unat (4 * word_of_nat (k + Suc i) :: u32) = 0" by simp
      moreover have "k + Suc i < 1073741824" using that len \<open>k < 2\<close> by simp
      ultimately show False using unat_nat_mult4 [of "k + Suc i"] by (simp del: of_nat_Suc of_nat_add)
    qed
  qed simp
  show ?thesis unfolding m load_frame_def using pushed above [of 0] above [of 1] by (simp add: algebra_simps)
qed

lemma context_switch_leave_eq:
  "context_switch_leave c = (let f = load_frame (cmem c) (r_esp c + 12) in
     c\<lparr>s_ds := ucast (f_ds f), s_es := ucast (f_es f), s_fs := ucast (f_fs f), s_gs := ucast (f_gs f),
       r_edi := f_edi f, r_esi := f_esi f, r_ebp := f_ebp f, r_ebx := f_ebx f, r_edx := f_edx f,
       r_ecx := f_ecx f, r_eax := f_eax f, r_eip := f_eip f, s_cs := ucast (f_cs f),
       r_eflags := f_eflags f, r_esp := r_esp c + 80\<rparr>)"
  by (simp add: context_switch_leave_def Let_def popa_def iret_def drop_top_def stack_top_def load_frame_def)

lemma ucast_u16_u32_u16: "ucast (ucast (x :: u16) :: u32) = x"
  by (rule bit_word_eqI) (auto simp: bit_simps dest: bit_imp_le_length)

lemma u8_index: "unat (x :: u8) < 256"
  using unsigned_less [of x, where 'a = nat] by simp

lemma gate_offset_set: "gate_offset (set_offset e a) = a"
proof (rule bit_word_eqI)
  fix n assume n: "n < LENGTH(32)"
  have "a AND 0xFFFF = take_bit 16 a" "drop_bit 16 a AND 0xFFFF = take_bit 16 (drop_bit 16 a)"
    by (simp_all add: take_bit_eq_mask mask_eq_exp_minus_1)
  then show "bit (gate_offset (set_offset e a)) n = bit a n"
    using n by (cases "n < 16") (auto simp: gate_offset_def set_offset_def bit_simps)
qed

lemma gate_offset_sel: "gate_offset (e\<lparr>selector := x, type_attr := y\<rparr>) = gate_offset e"
  by (simp add: gate_offset_def)

lemma set_offset_sel: "idt_zero (set_offset e a) = idt_zero e"
  by (simp add: set_offset_def)

lemma idt_fill_length: "length (idt_fill addr n es) = length es"
  by (induction n) (simp_all add: Let_def set_entry_def)

lemma idt_fill_nth:
  assumes "length es = 256" "n \<le> 256" "v < n"
  shows "gate_offset (idt_fill addr n es ! v) = addr (isr_entry_point (get_isr_wrapper v)) \<and>
    selector (idt_fill addr n es ! v) = 0x08 \<and> type_attr (idt_fill addr n es ! v) = 0x8E \<and>
    idt_zero (idt_fill addr n es ! v) = 0"
  using assms(2,3)
proof (induction n)
  case (Suc n)
  have len: "length (idt_fill addr n es) = 256" using assms(1) by (simp add: idt_fill_length)
  have un: "unat (word_of_nat n :: u8) = n" using Suc.prems(1) by (simp add: unat_of_nat)
  show ?case
  proof (cases "v = n")
    case True
    have "isr_table ! n = get_isr_wrapper n" using Suc.prems(1) by (simp add: isr_table_def)
    then show ?thesis using True Suc.prems(1) len un
      by (simp add: Let_def set_entry_def gate_offset_sel gate_offset_set set_offset_sel
          IDT_PRESENT_def IDT_INTERRUPT_GATE_def del: unsigned_of_nat)
  next
    case False
    then show ?thesis using Suc len un by (simp add: Let_def set_entry_def del: unsigned_of_nat)
  qed
qed simp

section \<open>Properties\<close>

text \<open>
  Property C27 (functional): \<^verbatim>\<open>context_switch<N>\<close> saves and restores the whole register file.
  Before the call it has built, at the address \<^verbatim>\<open>from_base\<close> computes from the pointer it
  passes, a frame that holds the interrupted registers, segments, program counter and
  flags. Whatever the dispatcher then leaves in that frame, and as long as it returns with
  the stack pointer it was called with, is what the processor resumes with; only the stack
  pointer comes from where the frame lies and not from the frame.
\<close>

theorem context_switch_saves_and_restores:
  assumes "word_aligned (r_esp c)" and "enter = context_switch_enter n (interrupt c)"
    and "r_esp (call enter) = r_esp enter"
    and "p = from_base (load32 (cmem enter) (r_esp enter + 8))"
    and "saved = load_frame (cmem enter) p" and "f = load_frame (cmem (call enter)) p"
    and "c' = context_switch n call (interrupt c)"
  shows "f_eax saved = r_eax c \<and> f_ecx saved = r_ecx c \<and> f_edx saved = r_edx c \<and> f_ebx saved = r_ebx c \<and>
    f_ebp saved = r_ebp c \<and> f_esi saved = r_esi c \<and> f_edi saved = r_edi c \<and> f_eip saved = r_eip c \<and>
    f_eflags saved = r_eflags c \<and> ucast (f_cs saved) = s_cs c \<and> ucast (f_ds saved) = s_ds c \<and>
    ucast (f_es saved) = s_es c \<and> ucast (f_fs saved) = s_fs c \<and> ucast (f_gs saved) = s_gs c \<and>
    f_int_no saved = n \<and> f_err_code saved = 0 \<and>
    r_eax c' = f_eax f \<and> r_ecx c' = f_ecx f \<and> r_edx c' = f_edx f \<and> r_ebx c' = f_ebx f \<and>
    r_ebp c' = f_ebp f \<and> r_esi c' = f_esi f \<and> r_edi c' = f_edi f \<and> r_eip c' = f_eip f \<and>
    r_eflags c' = f_eflags f \<and> s_cs c' = ucast (f_cs f) \<and> s_ds c' = ucast (f_ds f) \<and>
    s_es c' = ucast (f_es f) \<and> s_fs c' = ucast (f_fs f) \<and> s_gs c' = ucast (f_gs f) \<and>
    r_esp c' = r_esp c"
proof -
  have al: "word_aligned (r_esp c - 12)"
    using assms(1) word_aligned_mult4 [of 3] by (simp add: word_aligned_diff)
  have esp: "r_esp enter = r_esp c - 80" unfolding assms(2) by (simp add: context_switch_enter_eq interrupt_def)
  have "load32 (cmem enter) (r_esp enter + 8) = r_esp c - 12"
    using push_mem_nth [OF al, of "[0, n, r_eax c, r_ecx c, r_edx c, r_ebx c, r_esp c - 20, r_ebp c,
        r_esi c, r_edi c, ucast (s_gs c), ucast (s_fs c), ucast (s_es c), ucast (s_ds c), r_esp c - 12, 0, n]" 14]
    unfolding esp unfolding assms(2) by (simp add: context_switch_enter_eq interrupt_def algebra_simps)
  then have p: "p = r_esp c - 68" unfolding assms(4) by (simp add: from_base_def base_offset_def)
  have saved: "saved = \<lparr>f_ds = ucast (s_ds c), f_es = ucast (s_es c), f_fs = ucast (s_fs c), f_gs = ucast (s_gs c),
     f_edi = r_edi c, f_esi = r_esi c, f_ebp = r_ebp c, f_esp = r_esp c - 20, f_ebx = r_ebx c,
     f_edx = r_edx c, f_ecx = r_ecx c, f_eax = r_eax c, f_int_no = n, f_err_code = 0,
     f_eip = r_eip c, f_cs = ucast (s_cs c), f_eflags = r_eflags c,
     f_user_esp = load32 (cmem c) (r_esp c), f_user_ss = load32 (cmem c) (r_esp c + 4)\<rparr>"
    unfolding assms(5) p assms(2) by (rule context_switch_frame [OF assms(1)])
  have c': "c' = context_switch_leave (call enter)"
    unfolding assms(7) context_switch_def assms(2) ..
  have f: "f = load_frame (cmem (call enter)) (r_esp (call enter) + 12)"
    unfolding assms(6) p assms(3) esp by simp
  show ?thesis unfolding c' context_switch_leave_eq Let_def f [symmetric]
    by (simp add: saved assms(3) esp ucast_u16_u32_u16)
qed

text \<open>An interrupted program, and a dispatcher that only looks.\<close>

definition example_cpu :: cpu where
  "example_cpu = \<lparr>r_eax = 1, r_ecx = 2, r_edx = 3, r_ebx = 4, r_esp = 0x9000, r_ebp = 6, r_esi = 7,
     r_edi = 8, r_eip = 0x100500, r_eflags = 0x202, s_cs = 8, s_ds = 16, s_es = 16, s_fs = 16, s_gs = 16,
     cmem = (\<lambda>_. 0)\<rparr>"

lemma example_cpu_sel: "r_eip example_cpu = 0x100500" "r_edi example_cpu = 8" "r_esp example_cpu = 0x9000"
  by (simp_all add: example_cpu_def)

theorem context_switch_saves_and_restores_witness:
  "word_aligned (r_esp example_cpu) \<and>
   r_esp (id (context_switch_enter 32 (interrupt example_cpu))) = r_esp (context_switch_enter 32 (interrupt example_cpu)) \<and>
   r_eip (context_switch 32 id (interrupt example_cpu)) = r_eip example_cpu \<and>
   r_edi (context_switch 32 id (interrupt example_cpu)) = 8 \<and>
   r_esp (context_switch 32 id (interrupt example_cpu)) = 0x9000"
proof -
  have al: "word_aligned (r_esp example_cpu)" by (simp add: word_aligned_def example_cpu_sel)
  let ?e = "context_switch_enter 32 (interrupt example_cpu)"
  have esp: "r_esp (id ?e) = r_esp ?e" by simp
  have "r_eip (context_switch 32 id (interrupt example_cpu)) = r_eip example_cpu \<and>
    r_edi (context_switch 32 id (interrupt example_cpu)) = r_edi example_cpu \<and>
    r_esp (context_switch 32 id (interrupt example_cpu)) = r_esp example_cpu"
    using context_switch_saves_and_restores [where c = example_cpu and n = 32 and call = id,
        OF al refl esp refl refl refl refl] unfolding id_apply
    by (elim conjE) (simp only: simp_thms)
  then show ?thesis using al esp by (simp only: example_cpu_sel simp_thms)
qed

text \<open>
  Property C28 (functional): a registered interrupt handler is the one that runs. After
  \<^verbatim>\<open>register_irq\<close>, an interrupt on that line runs exactly this handler, once, then sends the
  end-of-interrupt command to the master controller, and to the slave as well for lines 8
  to 15 only, restores the floating-point state and acknowledges the local APIC when the
  core is known; the dispatch of every other vector is unchanged.
\<close>

theorem irq_dispatch:
  assumes "idt_tables_wf t" and "register_irq t irq h = Inr t'" and "h ctx env = Inr env1"
  shows "isr_handler t' core (32 + irq) err ctx env =
      Inr (env1\<lparr>env_fpu := env_fpu env,
        env_io := env_io env1 @ (if irq < 8 then [] else [Outb 0xA0 0x20]) @ [Outb 0x20 0x20],
        env_lapic_eoi := env_lapic_eoi env1 + (if core then 1 else 0)\<rparr>) \<and>
    (\<forall>no. no \<noteq> 32 + irq \<longrightarrow> isr_handler t' core no err ctx env = isr_handler t core no err ctx env)"
proof -
  have irq: "irq < 16" and t': "t' = t\<lparr>irq_handlers := (irq_handlers t)[unat irq := Some h]\<rparr>"
    using assms(2) by (auto simp: register_irq_def kres_iffs)
  have lt: "unat irq < 16" using irq by (simp add: word_less_nat_alt)
  have sum: "unat (32 + irq) = 32 + unat irq"
    using lt by (subst unat_add_lem [THEN iffD1]) simp_all
  have in_range: "32 + irq \<ge> 32" "32 + irq < 48"
    using sum lt by (simp_all add: word_le_nat_alt word_less_nat_alt)
  have nth: "irq_handlers t' ! unat irq = Some h" using assms(1) lt t' by (simp add: idt_tables_wf_def)
  have "isr_handler t' core (32 + irq) err ctx env =
      Inr (env1\<lparr>env_fpu := env_fpu env, env_io := env_io env1 @ pic_EOI irq,
        env_lapic_eoi := env_lapic_eoi env1 + (if core then 1 else 0)\<rparr>)"
    using in_range nth assms(3) by (simp add: isr_handler_def Let_def)
  moreover have "pic_EOI irq = (if irq < 8 then [] else [Outb 0xA0 0x20]) @ [Outb 0x20 0x20]"
    by (auto simp: pic_EOI_def PIC1_COMMAND_def PIC2_COMMAND_def)
  moreover have "isr_handler t' core no err ctx env = isr_handler t core no err ctx env"
    if "no \<noteq> 32 + irq" for no
  proof (cases "no \<ge> 32 \<and> no < 48")
    case True
    have "unat (no - 32) \<noteq> unat irq"
    proof
      assume "unat (no - 32) = unat irq"
      then have "no - 32 = irq" by (simp add: word_unat_eq_iff)
      with that show False by auto
    qed
    then have "irq_handlers t' ! unat (no - 32) = irq_handlers t ! unat (no - 32)"
      unfolding t' by simp
    then show ?thesis unfolding isr_handler_def Let_def if_P [OF True] by simp
  next
    case False
    have "isr_handlers t' = isr_handlers t" unfolding t' by simp
    then show ?thesis unfolding isr_handler_def Let_def if_not_P [OF False] by simp
  qed
  ultimately show ?thesis by simp
qed

definition example_idt :: "(nat, nat) idt" where
  "example_idt = \<lparr>isr_handlers = replicate 256 None, irq_handlers = replicate 16 None\<rparr>"

definition example_env :: "(nat, nat) isr_env" where
  "example_env = \<lparr>env_rest = 0, env_fpu = 7, env_io = [], env_lapic_eoi = 0\<rparr>"

theorem irq_dispatch_witness:
  "idt_tables_wf example_idt \<and>
   (\<exists>t' env'. register_irq example_idt 12 (\<lambda>ctx e. Inr (e\<lparr>env_rest := 1, env_fpu := 0\<rparr>)) = Inr t' \<and>
      isr_handler t' True 44 0 0x9000 example_env = Inr env' \<and> env_rest env' = 1 \<and> env_fpu env' = 7 \<and>
      env_io env' = [Outb 0xA0 0x20, Outb 0x20 0x20] \<and> env_lapic_eoi env' = 1)"
proof -
  let ?h = "\<lambda>ctx :: u32. \<lambda>e :: (nat, nat) isr_env. Inr (e\<lparr>env_rest := 1, env_fpu := 0\<rparr>) :: (nat, nat) isr_env kres"
  have wf: "idt_tables_wf example_idt" by (simp add: idt_tables_wf_def example_idt_def)
  have "(12 :: u8) < 16" by (simp add: word_less_nat_alt)
  then obtain t' where t': "register_irq example_idt 12 ?h = Inr t'" by (simp add: register_irq_def)
  have ge: "\<not> (12 :: u8) < 8" by (simp add: word_less_nat_alt)
  from irq_dispatch [OF wf t', where ctx = "0x9000" and env = example_env and core = True and err = 0] t' wf ge show ?thesis
    by (simp add: example_env_def)
qed

text \<open>
  An exception for which no handler is registered stops the kernel.
  For vectors 0 to 18 it panics with the name of the exception; for vectors 19 to 31 the
  table of names is read past its end, since it has 19 entries.
\<close>

theorem unhandled_exception:
  assumes "idt_tables_wf t" and "no < 32" and "isr_handlers t ! unat no = None"
  shows "isr_handler t core no err ctx env =
    (if no < 19 then Inl (Panic (''Unhandled critical ISR: '' @ exception_messages ! unat no))
     else Inl Undefined)"
proof -
  have "length exception_messages = 19" by (simp add: exception_messages_def)
  moreover have "\<not> (no \<ge> 32 \<and> no < 48)" using assms(2) by auto
  ultimately show ?thesis using assms(2,3)
    by (auto simp: isr_handler_def Let_def word_less_nat_alt)
qed

theorem unhandled_exception_witness:
  "idt_tables_wf example_idt \<and>
   isr_handler example_idt True 13 0 0 example_env =
     Inl (Panic ''Unhandled critical ISR: General protection fault'') \<and>
   isr_handler example_idt True 20 0 0 example_env = Inl Undefined"
proof -
  have wf: "idt_tables_wf example_idt" by (simp add: idt_tables_wf_def example_idt_def)
  from unhandled_exception [OF wf, of 13] unhandled_exception [OF wf, of 20] wf show ?thesis
    by (simp add: example_idt_def exception_messages_def word_less_nat_alt)
qed

text \<open>
  \<^verbatim>\<open>idt::init\<close> makes every one of the 256 gates a present ring-0
  interrupt gate in the kernel code segment whose target is the wrapper that the table
  gives for its vector: the register-saving stub for vectors 32 and 48, the wrapper that
  pops an error code for the exceptions that push one, the plain wrapper otherwise.
\<close>

theorem idt_init_gates:
  assumes "length es = 256" and "v < 256"
  shows "gate_offset (idt_init addr es ! v) =
      addr (if v \<in> {32, 48} then Context_Switch v
            else if v \<in> {8, 10, 11, 12, 13, 14, 17, 21} then Isr_Wrapper_Err v
            else Isr_Wrapper_No_Err v) \<and>
    selector (idt_init addr es ! v) = 0x08 \<and> type_attr (idt_init addr es ! v) = 0x8E \<and>
    idt_zero (idt_init addr es ! v) = 0"
proof -
  have "isr_entry_point (get_isr_wrapper v) = (if v \<in> {32, 48} then Context_Switch v
            else if v \<in> {8, 10, 11, 12, 13, 14, 17, 21} then Isr_Wrapper_Err v
            else Isr_Wrapper_No_Err v)"
    by (auto simp: get_isr_wrapper_def)
  with idt_fill_nth [OF assms(1) order_refl assms(2), of addr] show ?thesis
    by (simp only: idt_init_def)
qed

theorem idt_init_gates_witness:
  "length (replicate 256 \<lparr>offset_low = 0, selector = 0, idt_zero = 1, type_attr = 0, offset_high = 0\<rparr>) = 256 \<and>
   gate_offset (idt_init (\<lambda>_. 0x123456) (replicate 256 \<lparr>offset_low = 0, selector = 0, idt_zero = 1,
     type_attr = 0, offset_high = 0\<rparr>) ! 32) = 0x123456"
  using idt_init_gates [of "replicate 256 \<lparr>offset_low = 0, selector = 0, idt_zero = 1, type_attr = 0,
     offset_high = 0\<rparr>" 32 "\<lambda>_. 0x123456"] by simp

end
