(* ===== verification/VMM.thy ===== *)
theory VMM
  imports PMM IDT
begin

text \<open>
  \<^verbatim>\<open>mm/vmm.hpp\<close> and \<^verbatim>\<open>mm/vmm.cpp\<close>: the virtual memory manager. The page tables are what the
  processor sees: bytes of physical memory, reached from \<^verbatim>\<open>cr3\<close> by the two-level walk of
  \<open>translate\<close>. The code reaches them through virtual addresses, as the recursive entry 1023 of
  the page directory makes them visible; every access of the model goes through \<open>translate\<close>
  as well, so that the recursive window is proved to work and not assumed. Translation reads
  the tables each time: the code invalidates the affected translation after each change of a
  page table entry. Bit 7 of a directory entry has no effect, as \<^verbatim>\<open>CR4.PSE\<close> is never set, and
  the read-only bit none on ring 0, as \<^verbatim>\<open>CR0.WP\<close> is never set.
\<close>

section \<open>Entries\<close>

definition PDE_BASE :: u32 where "PDE_BASE = RECURSIVE_PD_BASE"
definition PT_BASE :: u32 where "PT_BASE = RECURSIVE_PT_BASE"
definition PAGE_MASK :: u32 where "PAGE_MASK = 0xFFFFF000"

definition PG_Present :: u32 where "PG_Present = 1"
definition PG_Writable :: u32 where "PG_Writable = 2"
definition PG_User :: u32 where "PG_User = 4"

definition ADDRESS_MASK :: u32 where "ADDRESS_MASK = 0xFFFFF000"
definition FLAGS_MASK :: u32 where "FLAGS_MASK = 0x00000FFF"

definition entry_address :: "u32 \<Rightarrow> u32" where
  "entry_address v = v AND ADDRESS_MASK"

definition entry_set_address :: "u32 \<Rightarrow> u32 \<Rightarrow> u32" where
  "entry_set_address physical_addr v = (v AND FLAGS_MASK) OR (physical_addr AND ADDRESS_MASK)"

definition entry_invalidate :: "u32 \<Rightarrow> u32" where
  "entry_invalidate v = 0"

definition entry_has_flag :: "u32 \<Rightarrow> u32 \<Rightarrow> bool" where
  "entry_has_flag v flag \<longleftrightarrow> v AND FLAGS_MASK AND flag = flag"

definition entry_update_flags :: "u32 \<Rightarrow> u32 \<Rightarrow> u32" where
  "entry_update_flags flags v = v OR (flags AND FLAGS_MASK)"

definition align_address :: "u32 \<Rightarrow> u32 \<times> u32" where
  "align_address address = (address AND PAGE_MASK, address AND (PAGE_SIZE - 1))"

definition pde_index :: "u32 \<Rightarrow> u32" where
  "pde_index virt_addr = drop_bit 22 virt_addr AND 0x3FF"

definition pte_index :: "u32 \<Rightarrow> u32" where
  "pte_index virt_addr = drop_bit 12 virt_addr AND 0x3FF"

definition pde_entry :: "u32 \<Rightarrow> u32" where
  "pde_entry virt_addr = PDE_BASE + pde_index virt_addr * 4"

definition pt_virtual_base :: "u32 \<Rightarrow> u32" where
  "pt_virtual_base virt_addr = PT_BASE + push_bit 12 (pde_index virt_addr)"

definition pte_entry :: "u32 \<Rightarrow> u32" where
  "pte_entry virt_addr =
     (let pt_virt = PT_BASE + push_bit 12 (pde_index virt_addr) in pt_virt + pte_index virt_addr * 4)"

section \<open>The machine\<close>

record vmm =
  phys :: mem
  cr3 :: u32
  paging :: bool
  vpmm :: pmm
  kernel_dir_phys :: u32

text \<open>The walk of the processor, without and with paging.\<close>

definition translate :: "vmm \<Rightarrow> u32 \<Rightarrow> u32 option" where
  "translate s va =
     (if \<not> paging s then Some va
      else let pde = load32 (phys s) ((cr3 s AND ADDRESS_MASK) + 4 * pde_index va) in
        if pde AND 1 = 0 then None
        else let pte = load32 (phys s) ((pde AND ADDRESS_MASK) + 4 * pte_index va) in
          if pte AND 1 = 0 then None
          else Some ((pte AND ADDRESS_MASK) + (va AND 0xFFF)))"

definition vload32 :: "vmm \<Rightarrow> u32 \<Rightarrow> u32 kres" where
  "vload32 s va = (case translate s va of None \<Rightarrow> Inl (Page_Fault va) | Some pa \<Rightarrow> Inr (load32 (phys s) pa))"

definition vstore32 :: "vmm \<Rightarrow> u32 \<Rightarrow> u32 \<Rightarrow> vmm kres" where
  "vstore32 s va v = (case translate s va of None \<Rightarrow> Inl (Page_Fault va)
     | Some pa \<Rightarrow> Inr (s\<lparr>phys := store32 (phys s) pa v\<rparr>))"

definition vstore8 :: "vmm \<Rightarrow> u32 \<Rightarrow> u8 \<Rightarrow> vmm kres" where
  "vstore8 s va v = (case translate s va of None \<Rightarrow> Inl (Page_Fault va)
     | Some pa \<Rightarrow> Inr (s\<lparr>phys := (phys s)(pa := v)\<rparr>))"

text \<open>An update of an entry through a reference to it.\<close>

definition update_entry :: "vmm \<Rightarrow> u32 \<Rightarrow> (u32 \<Rightarrow> u32) \<Rightarrow> vmm kres" where
  "update_entry s va f = bindR (vload32 s va) (\<lambda>v. vstore32 s va (f v))"

definition memset_virt :: "vmm \<Rightarrow> u32 \<Rightarrow> u8 \<Rightarrow> u32 \<Rightarrow> vmm kres" where
  "memset_virt s dest val len = for_u32 0 len (\<lambda>i s. vstore8 s (dest + i) val) s"

section \<open>Operations\<close>

definition ensure_page_table :: "vmm \<Rightarrow> u32 \<Rightarrow> u32 \<Rightarrow> vmm kres" where
  "ensure_page_table s virt_addr flags =
     bindR (vload32 s (pde_entry virt_addr)) (\<lambda>pde.
     if entry_has_flag pde PG_Present
     then update_entry s (pde_entry virt_addr) (entry_update_flags flags)
     else bindR (alloc_frame (vpmm s)) (\<lambda>(pt_phys, p).
       let s = s\<lparr>vpmm := p\<rparr> in
       if pt_phys = 0 then Inl (Panic ''ensure_page_table: out of physical memory'')
       else bindR (update_entry s (pde_entry virt_addr) entry_invalidate) (\<lambda>s.
         bindR (update_entry s (pde_entry virt_addr) (entry_set_address pt_phys)) (\<lambda>s.
         bindR (update_entry s (pde_entry virt_addr)
             (entry_update_flags (PG_Present OR PG_Writable OR (flags AND PG_User)))) (\<lambda>s.
         memset_virt s (pt_virtual_base virt_addr) 0 PAGE_SIZE)))))"

definition map_page_locked :: "vmm \<Rightarrow> u32 \<Rightarrow> u32 \<Rightarrow> u32 \<Rightarrow> vmm kres" where
  "map_page_locked s virt_addr phys_addr flags =
     (let virt_addr = fst (align_address virt_addr); phys_addr = fst (align_address phys_addr) in
      bindR (ensure_page_table s virt_addr flags) (\<lambda>s.
      bindR (update_entry s (pte_entry virt_addr) entry_invalidate) (\<lambda>s.
      bindR (update_entry s (pte_entry virt_addr) (entry_set_address phys_addr)) (\<lambda>s.
      update_entry s (pte_entry virt_addr) (entry_update_flags flags)))))"

definition unmap_page_locked :: "vmm \<Rightarrow> u32 \<Rightarrow> vmm kres" where
  "unmap_page_locked s virt_addr =
     (let virt_addr = fst (align_address virt_addr) in
      bindR (vload32 s (pde_entry virt_addr)) (\<lambda>pde.
      if \<not> entry_has_flag pde PG_Present then Inr s
      else bindR (vload32 s (pte_entry virt_addr)) (\<lambda>pte.
        if \<not> entry_has_flag pte PG_Present then Inr s
        else bindR (free_frame (vpmm s) (entry_address pte)) (\<lambda>p.
          update_entry (s\<lparr>vpmm := p\<rparr>) (pte_entry virt_addr) entry_invalidate))))"

definition map_page :: "vmm \<Rightarrow> u32 \<Rightarrow> u32 \<Rightarrow> u32 \<Rightarrow> vmm kres" where
  "map_page s virt_addr phys_addr flags = map_page_locked s virt_addr phys_addr flags"

definition map_pages :: "vmm \<Rightarrow> u32 \<Rightarrow> u32 \<Rightarrow> u32 \<Rightarrow> u32 \<Rightarrow> vmm kres" where
  "map_pages s virt_addr phys_addr pages flags =
     (let virt_addr = fst (align_address virt_addr); phys_addr = fst (align_address phys_addr) in
      for_u32 0 pages (\<lambda>i s. map_page_locked s (virt_addr + i * PAGE_SIZE) (phys_addr + i * PAGE_SIZE) flags) s)"

definition map_identity_page :: "vmm \<Rightarrow> u32 \<Rightarrow> u32 \<Rightarrow> vmm kres" where
  "map_identity_page s addr flags = map_page s addr addr flags"

definition map_identity_pages :: "vmm \<Rightarrow> u32 \<Rightarrow> u32 \<Rightarrow> u32 \<Rightarrow> vmm kres" where
  "map_identity_pages s addr pages flags = map_pages s addr addr pages flags"

definition map_identity_span :: "vmm \<Rightarrow> u32 \<Rightarrow> u32 \<Rightarrow> u32 \<Rightarrow> vmm kres" where
  "map_identity_span s addr sz flags =
     (if sz = 0 then Inr s
      else let (aligned, offset) = align_address addr; span = align_up (offset + sz) PAGE_SIZE in
        map_identity_pages s aligned (span div PAGE_SIZE) flags)"

definition unmap_page :: "vmm \<Rightarrow> u32 \<Rightarrow> vmm kres" where
  "unmap_page s virt_addr = unmap_page_locked s virt_addr"

definition unmap_pages :: "vmm \<Rightarrow> u32 \<Rightarrow> u32 \<Rightarrow> vmm kres" where
  "unmap_pages s virt_addr pages =
     (let virt_addr = fst (align_address virt_addr) in
      for_u32 0 pages (\<lambda>i s. unmap_page_locked s (virt_addr + i * PAGE_SIZE)) s)"

definition virt_to_phys :: "vmm \<Rightarrow> u32 \<Rightarrow> u32 kres" where
  "virt_to_phys s virt_addr =
     bindR (vload32 s (pde_entry virt_addr)) (\<lambda>pde.
     if \<not> entry_has_flag pde PG_Present then Inr 0xFFFFFFFF
     else bindR (vload32 s (pte_entry virt_addr)) (\<lambda>pte.
       if \<not> entry_has_flag pte PG_Present then Inr 0xFFFFFFFF
       else Inr (entry_address pte OR (virt_addr AND (PAGE_SIZE - 1)))))"

definition is_mapped :: "vmm \<Rightarrow> u32 \<Rightarrow> bool kres" where
  "is_mapped s virt_addr =
     bindR (vload32 s (pde_entry virt_addr)) (\<lambda>pde.
     if \<not> entry_has_flag pde PG_Present then Inr False
     else bindR (vload32 s (pte_entry virt_addr)) (\<lambda>pte. Inr (entry_has_flag pte PG_Present)))"

definition load_directory :: "vmm \<Rightarrow> u32 \<Rightarrow> vmm" where
  "load_directory s phys_addr = s\<lparr>cr3 := phys_addr\<rparr>"

definition enable_paging :: "vmm \<Rightarrow> vmm" where
  "enable_paging s = s\<lparr>paging := True\<rparr>"

text \<open>
  \<^verbatim>\<open>vmm::init\<close> runs before paging is on, when an address is its own translation. The two
  handlers it registers are the model's \<open>page_fault\<close> below and the shootdown handler.
\<close>

definition TLB_SHOOTDOWN_VECTOR :: u8 where "TLB_SHOOTDOWN_VECTOR = 49"

definition page_fault :: "u32 \<Rightarrow> u32 \<Rightarrow> u32 \<Rightarrow> kfault" where
  "page_fault cr2 err_code ctx =
     (let err = (if err_code AND 0x1 = 0 then ''Page not present''
        else if err_code AND 0x2 \<noteq> 0 then ''Page is read-only''
        else if err_code AND 0x4 \<noteq> 0 then ''Processor in user-mode''
        else if err_code AND 0x8 \<noteq> 0 then ''Overwrite CPU-reserved bits''
        else ''Unknown'') in Panic (''Page fault: '' @ err))"

definition vmm_init_tables :: "vmm \<Rightarrow> u32 \<Rightarrow> u32 \<Rightarrow> vmm kres" where
  "vmm_init_tables s pd pt =
     bindR (memset_virt s pd 0 PAGE_SIZE) (\<lambda>s.
     bindR (memset_virt s pt 0 PAGE_SIZE) (\<lambda>s.
     bindR (for_u32 0 (IDENTITY_WINDOW_SIZE div PAGE_SIZE) (\<lambda>i s.
         bindR (update_entry s (pt + i * 4) (entry_set_address (i * PAGE_SIZE))) (\<lambda>s.
         update_entry s (pt + i * 4) (entry_update_flags (PG_Present OR PG_Writable)))) s) (\<lambda>s.
     bindR (update_entry s pd (entry_set_address pt)) (\<lambda>s.
     bindR (update_entry s pd (entry_update_flags (PG_Present OR PG_Writable))) (\<lambda>s.
     bindR (update_entry s (pd + 1023 * 4) (entry_set_address pd)) (\<lambda>s.
     update_entry s (pd + 1023 * 4) (entry_update_flags (PG_Present OR PG_Writable))))))))"

definition vmm_init :: "vmm \<Rightarrow> ('s, 'f) idt \<Rightarrow>
    (u32 \<Rightarrow> u32 \<Rightarrow> ('s, 'f) isr_env \<Rightarrow> ('s, 'f) isr_env kres) \<Rightarrow>
    (u32 \<Rightarrow> u32 \<Rightarrow> ('s, 'f) isr_env \<Rightarrow> ('s, 'f) isr_env kres) \<Rightarrow> (vmm \<times> ('s, 'f) idt) kres" where
  "vmm_init s t page_fault_handler tlb_handler =
     bindR (alloc_frame (vpmm s)) (\<lambda>(pd_phys, p).
     bindR (alloc_frame p) (\<lambda>(pt_phys, p).
     let s = s\<lparr>vpmm := p\<rparr> in
     if pd_phys = 0 \<or> pt_phys = 0 then Inl (Panic ''vmm::init: out of physical memory'')
     else bindR (vmm_init_tables s pd_phys pt_phys) (\<lambda>s.
       let t = register_isr t 14 page_fault_handler;
           t = register_isr t TLB_SHOOTDOWN_VECTOR tlb_handler;
           s = s\<lparr>kernel_dir_phys := pd_phys\<rparr>;
           s = load_directory s (kernel_dir_phys s)
       in Inr (enable_paging s, t))))"

section \<open>Addresses of entries\<close>

lemma unat_drop_bit_u32: "unat (drop_bit n (w :: u32)) = unat w div 2 ^ n"
  by (simp only: unsigned_drop_bit_eq) (simp add: drop_bit_eq_div take_bit_nat_eq_self)

lemma unat_and_3FF: "unat (w AND 0x3FF :: u32) = unat w mod 1024"
  using unat_and_mask [of w 10] by (simp add: mask_eq_exp_minus_1)

lemma unat_and_FFF: "unat (w AND 0xFFF :: u32) = unat w mod 4096"
  using unat_and_mask [of w 12] by (simp add: mask_eq_exp_minus_1)

lemma unat_and_page: "unat (w AND 0xFFFFF000 :: u32) = unat w div 4096 * 4096"
proof -
  have "(0xFFFFF000 :: u32) = NOT (mask 12)" by (simp add: mask_eq_exp_minus_1)
  then show ?thesis using unat_and_not_mask [of w 12] by simp
qed

lemma unat_pde_index: "unat (pde_index va) = unat va div 4194304"
proof -
  have "unat va div 4194304 < 1024" using unat_u32_lt [of va] by (simp del: unat_u32_lt)
  then show ?thesis by (simp add: pde_index_def unat_and_3FF unat_drop_bit_u32)
qed

lemma unat_pte_index: "unat (pte_index va) = unat va div 4096 mod 1024"
  by (simp add: pte_index_def unat_and_3FF unat_drop_bit_u32)

lemma pde_index_lt [simp]: "unat (pde_index va) < 1024"
  using unat_u32_lt [of va] by (simp add: unat_pde_index del: unat_u32_lt)

lemma pte_index_lt [simp]: "unat (pte_index va) < 1024"
  by (simp add: unat_pte_index)

definition page_aligned :: "u32 \<Rightarrow> bool" where
  "page_aligned a \<longleftrightarrow> unat a mod 4096 = 0"

lemma page_aligned_and [simp]: "page_aligned (w AND ADDRESS_MASK)" "page_aligned (entry_address w)"
  by (simp_all add: page_aligned_def ADDRESS_MASK_def entry_address_def unat_and_page)

lemma page_aligned_id: "page_aligned a \<Longrightarrow> a AND ADDRESS_MASK = a"
  by (auto simp: u32_eq_iff ADDRESS_MASK_def unat_and_page page_aligned_def)

text \<open>The address of the dword with index \<open>j\<close> in the page at \<open>P\<close>, and of the byte at offset \<open>k\<close>.\<close>

lemma page_byte:
  assumes "page_aligned P" "unat k < 4096"
  shows "unat (P + k) = unat P + unat k"
proof (rule unat_add_u32)
  obtain q where q: "unat P = 4096 * q" using assms(1) by (auto simp: page_aligned_def)
  have "unat P < 4294967296" by simp
  then have "q < 1048576" using q by simp
  then show "unat P + unat k < 4294967296" using q assms(2) by linarith
qed

lemma unat_times4: "unat j < 1024 \<Longrightarrow> unat (4 * j :: u32) = 4 * unat j"
  by (subst unat_mult_u32) simp_all

lemma page_slot:
  assumes "page_aligned P" "unat j < 1024"
  shows "unat (P + 4 * j) = unat P + 4 * unat j" "word_aligned (P + 4 * j)"
    "unat (P + 4 * j) div 4096 = unat P div 4096"
proof -
  show *: "unat (P + 4 * j) = unat P + 4 * unat j"
    using page_byte [OF assms(1), of "4 * j"] assms(2) by (simp add: unat_times4)
  obtain q where q: "unat P = 4096 * q" using assms(1) by (auto simp: page_aligned_def)
  show "word_aligned (P + 4 * j)" using q unfolding word_aligned_def * by simp
  show "unat (P + 4 * j) div 4096 = unat P div 4096" using q assms(2) unfolding * by simp
qed

lemma page_aligned_div: "page_aligned P \<Longrightarrow> page_aligned Q \<Longrightarrow> unat P div 4096 = unat Q div 4096 \<longleftrightarrow> P = Q"
  unfolding page_aligned_def u32_eq_iff by (metis div_mult_mod_eq)

lemma page_slot_eq:
  assumes "page_aligned P" "page_aligned Q" "unat j < 1024" "unat k < 1024"
  shows "P + 4 * j = Q + 4 * k \<longleftrightarrow> P = Q \<and> j = k"
proof
  assume eq: "P + 4 * j = Q + 4 * k"
  then have "P = Q"
    using page_slot(3) [OF assms(1,3)] page_slot(3) [OF assms(2,4)] page_aligned_div [OF assms(1,2)] by simp
  with eq have "unat (4 * j) = unat (4 * k)" by simp
  then have "j = k" using assms(3,4) by (simp add: unat_times4 u32_eq_iff)
  with \<open>P = Q\<close> show "P = Q \<and> j = k" by simp
qed simp

lemma load32_slot:
  assumes "page_aligned P" "page_aligned Q" "unat j < 1024" "unat k < 1024"
  shows "load32 (store32 m (P + 4 * j) v) (Q + 4 * k) =
    (if P = Q \<and> j = k then v else load32 m (Q + 4 * k))"
  using load32_store32 [OF page_slot(2) [OF assms(1,3)] page_slot(2) [OF assms(2,4)]]
    page_slot_eq [OF assms] by simp

section \<open>The recursive window\<close>

definition pde :: "vmm \<Rightarrow> u32 \<Rightarrow> u32" where
  "pde s i = load32 (phys s) (cr3 s + 4 * i)"

definition present :: "u32 \<Rightarrow> bool" where
  "present v \<longleftrightarrow> v AND 1 \<noteq> 0"

lemma and_1_cases: "(v :: u32) AND 1 = 0 \<or> v AND 1 = 1"
  by (simp add: and_one_eq mod_2_eq_odd)

lemma present_flag: "entry_has_flag v PG_Present \<longleftrightarrow> present v"
proof -
  have "v AND FLAGS_MASK AND 1 = v AND 1"
    by (simp add: FLAGS_MASK_def and.assoc)
  then show ?thesis using and_1_cases [of v] by (auto simp: entry_has_flag_def PG_Present_def present_def)
qed

text \<open>The part of the invariant that the window rests on: the directory maps itself.\<close>

definition self_mapped :: "vmm \<Rightarrow> bool" where
  "self_mapped s \<longleftrightarrow> paging s \<and> page_aligned (cr3 s) \<and> present (pde s 1023) \<and>
     entry_address (pde s 1023) = cr3 s"

lemma translate_pde_pte:
  assumes "paging s" "page_aligned (cr3 s)"
  shows "translate s va =
    (if \<not> present (pde s (pde_index va)) then None
     else let pte = load32 (phys s) (entry_address (pde s (pde_index va)) + 4 * pte_index va) in
       if \<not> present pte then None else Some (entry_address pte + (va AND 0xFFF)))"
  using assms by (simp add: translate_def page_aligned_id pde_def present_def entry_address_def Let_def)

lemma window_split:
  assumes "unat i < 1024" "unat k < 4096"
  shows "pde_index (PT_BASE + push_bit 12 i + k) = 1023" "pte_index (PT_BASE + push_bit 12 i + k) = i"
    "(PT_BASE + push_bit 12 i + k) AND 0xFFF = k"
proof -
  have "unat (push_bit 12 i) = 4096 * unat i"
  proof -
    have "push_bit 12 i = i * 4096" by (simp add: push_bit_eq_mult)
    then show ?thesis using assms(1) by (simp add: unat_mult_u32)
  qed
  then have a: "unat (PT_BASE + push_bit 12 i + k) = 4290772992 + 4096 * unat i + unat k"
    using assms by (simp add: unat_add_u32 PT_BASE_def RECURSIVE_PT_BASE_def)
  have "(4290772992 + 4096 * unat i + unat k) div 4194304 = 1023"
    using assms by (intro div_nat_eqI) simp_all
  then show "pde_index (PT_BASE + push_bit 12 i + k) = 1023"
    by (simp add: u32_eq_iff unat_pde_index a)
  have "(4290772992 + 4096 * unat i + unat k) div 4096 = 1047552 + unat i"
    using assms by (intro div_nat_eqI) simp_all
  then show "pte_index (PT_BASE + push_bit 12 i + k) = i"
    using assms(1) by (simp add: u32_eq_iff unat_pte_index a mod_add_left_eq [symmetric])
  have "4290772992 + 4096 * unat i + unat k = 4096 * (1047552 + unat i) + unat k" by simp
  then have "(4290772992 + 4096 * unat i + unat k) mod 4096 = unat k"
    using assms(2) by (simp only: mod_mult_self4 mod_less)
  then show "(PT_BASE + push_bit 12 i + k) AND 0xFFF = k" by (simp add: u32_eq_iff unat_and_FFF a)
qed

text \<open>A byte of the window is the byte of the page table with the same offset.\<close>

lemma window_byte:
  assumes "self_mapped s" "unat i < 1024" "present (pde s i)" "unat k < 4096"
  shows "translate s (PT_BASE + push_bit 12 i + k) = Some (entry_address (pde s i) + k)"
proof -
  note sm = assms(1) [unfolded self_mapped_def]
  show ?thesis
    using sm assms(3) unfolding translate_pde_pte [OF sm [THEN conjunct1] sm [THEN conjunct2, THEN conjunct1]]
      window_split [OF assms(2,4)] Let_def by (simp add: pde_def)
qed

lemma window_pde:
  assumes "self_mapped s"
  shows "translate s (pde_entry va) = Some (cr3 s + 4 * pde_index va)"
proof -
  have "pde_entry va = PT_BASE + push_bit 12 1023 + 4 * pde_index va"
    by (simp add: pde_entry_def PDE_BASE_def PT_BASE_def RECURSIVE_PD_BASE_def RECURSIVE_PT_BASE_def
        RECURSIVE_PT_SIZE_def PAGE_SIZE_def mult.commute)
  moreover have "present (pde s 1023)" "entry_address (pde s 1023) = cr3 s"
    using assms by (simp_all add: self_mapped_def)
  moreover have "unat (4 * pde_index va) < 4096" by (simp add: unat_times4)
  ultimately show ?thesis using window_byte [OF assms, of 1023 "4 * pde_index va"] by simp
qed

lemma window_pte:
  assumes "self_mapped s" "present (pde s (pde_index va))"
  shows "translate s (pte_entry va) = Some (entry_address (pde s (pde_index va)) + 4 * pte_index va)"
proof -
  have "unat (4 * pte_index va) < 4096" by (simp add: unat_times4)
  from window_byte [OF assms(1) pde_index_lt assms(2) this] show ?thesis
    by (simp add: pte_entry_def Let_def mult.commute)
qed

section \<open>Invariant and abstraction\<close>

text \<open>
  The page tables: the directory maps itself, every other present entry points to a frame of
  its own, different from the directory's, and all these frames are allocated.
\<close>

definition vmm_wf :: "vmm \<Rightarrow> bool" where
  "vmm_wf s \<longleftrightarrow> self_mapped s \<and> bm_wf PMM_params (mem_mngr (vpmm s)) \<and>
     unat (cr3 s) div 4096 \<in> pmm_used (vpmm s) \<and>
     (\<forall>i. unat i < 1023 \<longrightarrow> present (pde s i) \<longrightarrow> entry_address (pde s i) \<noteq> cr3 s \<and>
        unat (entry_address (pde s i)) div 4096 \<in> pmm_used (vpmm s)) \<and>
     (\<forall>i j. unat i < 1023 \<longrightarrow> unat j < 1023 \<longrightarrow> i \<noteq> j \<longrightarrow> present (pde s i) \<longrightarrow> present (pde s j) \<longrightarrow>
        entry_address (pde s i) \<noteq> entry_address (pde s j))"

text \<open>The mapping as seen from outside: the page table entry of an address, if it is mapped.\<close>

definition raw_pte :: "vmm \<Rightarrow> u32 \<Rightarrow> u32" where
  "raw_pte s va = load32 (phys s) (entry_address (pde s (pde_index va)) + 4 * pte_index va)"

definition mapping :: "vmm \<Rightarrow> u32 \<Rightarrow> u32 option" where
  "mapping s va = (if present (pde s (pde_index va)) \<and> present (raw_pte s va) then Some (raw_pte s va) else None)"

definition same_page :: "u32 \<Rightarrow> u32 \<Rightarrow> bool" where
  "same_page a b \<longleftrightarrow> unat a div 4096 = unat b div 4096"

definition below_window :: "u32 \<Rightarrow> bool" where
  "below_window va \<longleftrightarrow> va < PT_BASE"

lemma below_window_index: "below_window va \<longleftrightarrow> unat (pde_index va) < 1023"
proof -
  have "unat va < 4290772992 \<longleftrightarrow> unat va div 4194304 < 1023"
    by (simp add: div_less_iff_less_mult)
  then show ?thesis
    by (simp add: below_window_def u32_less_iff unat_pde_index PT_BASE_def RECURSIVE_PT_BASE_def)
qed

lemma same_page_index: "same_page a b \<longleftrightarrow> pde_index a = pde_index b \<and> pte_index a = pte_index b"
proof -
  have *: "unat x div 4096 = 1024 * unat (pde_index x) + unat (pte_index x)" for x
  proof -
    have "unat x div 4096 div 1024 = unat x div 4194304" by (simp add: div_mult2_eq [symmetric])
    then show ?thesis by (metis mult_div_mod_eq unat_pde_index unat_pte_index)
  qed
  show ?thesis
  proof
    assume "same_page a b"
    then have eq: "1024 * unat (pde_index a) + unat (pte_index a) = 1024 * unat (pde_index b) + unat (pte_index b)"
      by (simp add: same_page_def *)
    then have "(1024 * unat (pde_index a) + unat (pte_index a)) div 1024 =
        (1024 * unat (pde_index b) + unat (pte_index b)) div 1024" by (rule arg_cong)
    then have "unat (pde_index a) = unat (pde_index b)" using pte_index_lt [of a] pte_index_lt [of b] by simp
    with eq show "pde_index a = pde_index b \<and> pte_index a = pte_index b" by (simp add: u32_eq_iff)
  qed (simp add: same_page_def *)
qed

lemma vmm_wf_facts:
  assumes "vmm_wf s"
  shows "self_mapped s" "paging s" "page_aligned (cr3 s)" "bm_wf PMM_params (mem_mngr (vpmm s))"
    "unat (cr3 s) div 4096 \<in> pmm_used (vpmm s)"
    "\<And>i. unat i < 1023 \<Longrightarrow> present (pde s i) \<Longrightarrow> entry_address (pde s i) \<noteq> cr3 s"
    "\<And>i. unat i < 1023 \<Longrightarrow> present (pde s i) \<Longrightarrow> unat (entry_address (pde s i)) div 4096 \<in> pmm_used (vpmm s)"
    "\<And>i j. unat i < 1023 \<Longrightarrow> unat j < 1023 \<Longrightarrow> i \<noteq> j \<Longrightarrow> present (pde s i) \<Longrightarrow> present (pde s j) \<Longrightarrow>
       entry_address (pde s i) \<noteq> entry_address (pde s j)"
  using assms unfolding vmm_wf_def by (auto simp: self_mapped_def)

text \<open>What the processor translates is the abstract mapping.\<close>

lemma translate_mapping:
  assumes "vmm_wf s"
  shows "translate s va = map_option (\<lambda>v. entry_address v + (va AND 0xFFF)) (mapping s va)"
  using translate_pde_pte [OF vmm_wf_facts(2,3) [OF assms]]
  by (simp add: mapping_def raw_pte_def Let_def)

section \<open>Writes to the directory and to the tables\<close>

lemma pde_write:
  assumes "page_aligned (cr3 s)" "unat i < 1024" "unat j < 1024"
  shows "pde (s\<lparr>phys := store32 (phys s) (cr3 s + 4 * i) v\<rparr>) j = (if i = j then v else pde s j)"
  using load32_slot [OF assms(1,1,2,3)] by (simp add: pde_def)

lemma vload_pde: "self_mapped s \<Longrightarrow> vload32 s (pde_entry va) = Inr (pde s (pde_index va))"
  by (simp add: vload32_def window_pde pde_def)

lemma update_pde:
  "self_mapped s \<Longrightarrow> update_entry s (pde_entry va) f =
     Inr (s\<lparr>phys := store32 (phys s) (cr3 s + 4 * pde_index va) (f (pde s (pde_index va)))\<rparr>)"
  by (simp add: update_entry_def vload_pde vstore32_def window_pde)

lemma vload_pte:
  "self_mapped s \<Longrightarrow> present (pde s (pde_index va)) \<Longrightarrow> vload32 s (pte_entry va) = Inr (raw_pte s va)"
  by (simp add: vload32_def window_pte raw_pte_def)

lemma update_pte:
  "self_mapped s \<Longrightarrow> present (pde s (pde_index va)) \<Longrightarrow> update_entry s (pte_entry va) f =
     Inr (s\<lparr>phys := store32 (phys s) (entry_address (pde s (pde_index va)) + 4 * pte_index va) (f (raw_pte s va))\<rparr>)"
  by (simp add: update_entry_def vload_pte vstore32_def window_pte)

lemma self_mapped_pde_write:
  assumes "self_mapped s" "unat i < 1023"
  shows "self_mapped (s\<lparr>phys := store32 (phys s) (cr3 s + 4 * i) v\<rparr>)"
proof -
  have "i \<noteq> 1023" using assms(2) by auto
  then show ?thesis using assms pde_write [of s i 1023 v] by (simp add: self_mapped_def)
qed

text \<open>A write to a slot of a page table leaves the directory and the other tables alone.\<close>

lemma pt_write:
  fixes v va :: u32
  assumes wf: "vmm_wf s" and i: "below_window va" "present (pde s (pde_index va))"
  defines "s' \<equiv> s\<lparr>phys := store32 (phys s) (entry_address (pde s (pde_index va)) + 4 * pte_index va) v\<rparr>"
  shows "\<And>j. unat j < 1024 \<Longrightarrow> pde s' j = pde s j" and "vmm_wf s'"
    and "\<And>va'. below_window va' \<Longrightarrow> present (pde s (pde_index va')) \<Longrightarrow>
      raw_pte s' va' = (if same_page va va' then v else raw_pte s va')"
proof -
  note f = vmm_wf_facts [OF wf] and i' = i(1) [unfolded below_window_index]
  let ?P = "entry_address (pde s (pde_index va))"
  show pde: "pde s' j = pde s j" if "unat j < 1024" for j
    using load32_slot [OF page_aligned_and(2) f(3) pte_index_lt that] f(6) [OF i' i(2)]
    by (simp add: s'_def pde_def)
  have "self_mapped s'" using f(1) pde [of 1023] by (simp add: self_mapped_def s'_def)
  then show "vmm_wf s'" using wf pde by (auto simp: vmm_wf_def s'_def)
  show "raw_pte s' va' = (if same_page va va' then v else raw_pte s va')"
    if va': "below_window va'" "present (pde s (pde_index va'))" for va'
  proof -
    have idx': "unat (pde_index va') < 1023" using va'(1) by (simp add: below_window_index)
    have "entry_address (pde s (pde_index va)) = entry_address (pde s (pde_index va')) \<longleftrightarrow> pde_index va = pde_index va'"
      using f(8) [OF i' idx' _ i(2) va'(2)] by auto
    moreover have "raw_pte s' va' = load32 (store32 (phys s) (?P + 4 * pte_index va) v)
        (entry_address (pde s (pde_index va')) + 4 * pte_index va')"
      unfolding raw_pte_def pde [OF pde_index_lt] by (simp add: s'_def)
    ultimately show ?thesis
      using load32_slot [OF page_aligned_and(2) page_aligned_and(2) pte_index_lt pte_index_lt]
      by (simp add: raw_pte_def same_page_index)
  qed
qed

section \<open>A new page table\<close>

definition zero_page :: "u32 \<Rightarrow> nat \<Rightarrow> mem \<Rightarrow> mem" where
  "zero_page P k m a = (if unat a div 4096 = unat P div 4096 \<and> unat a mod 4096 < k then 0 else m a)"

lemma slot_bytes:
  assumes "page_aligned Q" "unat j < 1024" "unat k < 4"
  shows "unat (Q + 4 * j + k) div 4096 = unat Q div 4096"
proof -
  obtain q where q: "unat Q = 4096 * q" using assms(1) by (auto simp: page_aligned_def)
  have "unat (Q + 4 * j + k) = 4096 * q + (4 * unat j + unat k)"
    using word_aligned_byte [OF page_slot(2) [OF assms(1,2)] assms(3)] page_slot(1) [OF assms(1,2)] q by simp
  then show ?thesis using q assms(2,3) by simp
qed

lemma load32_same_page:
  assumes "page_aligned Q" "unat j < 1024" "\<And>a. unat a div 4096 = unat Q div 4096 \<Longrightarrow> m a = m' a"
  shows "load32 m (Q + 4 * j) = load32 m' (Q + 4 * j)"
proof (rule load32_bytes)
  note b = assms(3) [OF slot_bytes [OF assms(1,2)]]
  show "m (Q + 4 * j) = m' (Q + 4 * j)" using b [of 0] by simp
  show "m (Q + 4 * j + 1) = m' (Q + 4 * j + 1)" "m (Q + 4 * j + 2) = m' (Q + 4 * j + 2)"
    "m (Q + 4 * j + 3) = m' (Q + 4 * j + 3)" using b [of 1] b [of 2] b [of 3] by simp_all
qed

lemma load32_zero_page_other:
  assumes "page_aligned P" "page_aligned Q" "P \<noteq> Q" "unat j < 1024"
  shows "load32 (zero_page P k m) (Q + 4 * j) = load32 m (Q + 4 * j)"
  using assms by (intro load32_same_page) (auto simp: zero_page_def page_aligned_div)

lemma load32_zero_page_same:
  assumes "page_aligned P" "unat j < 1024"
  shows "load32 (zero_page P 4096 m) (P + 4 * j) = 0"
proof -
  have "load32 (zero_page P 4096 m) (P + 4 * j) = load32 (\<lambda>_. 0) (P + 4 * j)"
    using assms by (intro load32_same_page) (auto simp: zero_page_def)
  then show ?thesis by (simp add: load32_def)
qed

lemma page_number_offset:
  assumes "k < 4096"
  shows "n = 4096 * q + k \<longleftrightarrow> n div 4096 = q \<and> n mod 4096 = (k :: nat)"
proof
  assume "n div 4096 = q \<and> n mod 4096 = k"
  then show "n = 4096 * q + k" using mult_div_mod_eq [of 4096 n] by simp
qed (use assms in simp)

lemma zero_page_step:
  assumes "page_aligned P" "unat k < 4096"
  shows "(zero_page P (unat k) m)(P + k := 0) = zero_page P (Suc (unat k)) m"
proof
  fix a
  obtain q where q: "unat P = 4096 * q" using assms(1) by (auto simp: page_aligned_def)
  have pk: "unat (P + k) = 4096 * q + unat k" using page_byte [OF assms] q by simp
  have "a = P + k \<longleftrightarrow> unat a div 4096 = q \<and> unat a mod 4096 = unat k"
    unfolding u32_eq_iff pk by (rule page_number_offset [OF assms(2)])
  then show "((zero_page P (unat k) m)(P + k := 0)) a = zero_page P (Suc (unat k)) m a"
    using q by (auto simp: zero_page_def less_Suc_eq)
qed

lemma pde_zero_page:
  assumes "page_aligned (cr3 s)" "page_aligned P" "P \<noteq> cr3 s" "unat j < 1024"
  shows "pde (s\<lparr>phys := zero_page P k (phys s)\<rparr>) j = pde s j"
  using load32_zero_page_other [OF assms(2,1,3,4)] by (simp add: pde_def)

text \<open>The \<^verbatim>\<open>memset\<close> through the window clears the page table it shows, and nothing else.\<close>

lemma memset_window:
  assumes sm: "self_mapped s" and i: "unat i < 1023" "present (pde s i)"
    and ne: "entry_address (pde s i) \<noteq> cr3 s"
  shows "memset_virt s (PT_BASE + push_bit 12 i) 0 PAGE_SIZE =
    Inr (s\<lparr>phys := zero_page (entry_address (pde s i)) 4096 (phys s)\<rparr>)"
proof -
  let ?P = "entry_address (pde s i)"
  let ?f = "\<lambda>k s. vstore8 s (PT_BASE + push_bit 12 i + k) 0"
  define I where "I n s' \<longleftrightarrow> s' = s\<lparr>phys := zero_page ?P n (phys s)\<rparr>" for n s'
  have al: "page_aligned (cr3 s)" using sm by (simp add: self_mapped_def)
  have "\<exists>s'. for_u32 0 PAGE_SIZE ?f s = Inr s' \<and> I (unat PAGE_SIZE) s'"
  proof (rule for_u32_total)
    have "zero_page ?P 0 (phys s) = phys s" by (simp add: zero_page_def fun_eq_iff)
    then show "I (unat (0 :: u32)) s" by (simp add: I_def)
    show "0 \<le> PAGE_SIZE" by (simp add: u32_le_iff)
    fix k :: u32 and s'
    assume "k < PAGE_SIZE" and s': "I (unat k) s'"
    then have k: "unat k < 4096" by (simp add: u32_less_iff PAGE_SIZE_def)
    have pde: "pde s' j = pde s j" if "unat j < 1024" for j
      using s' pde_zero_page [OF al page_aligned_and(2) ne that] by (simp add: I_def)
    have "self_mapped s'" using sm s' pde [of 1023] by (simp add: self_mapped_def I_def)
    moreover have "present (pde s' i)" using pde [of i] i by simp
    ultimately have "translate s' (PT_BASE + push_bit 12 i + k) = Some (?P + k)"
      using window_byte [of s' i k] pde [of i] i(1) k by simp
    then have "?f k s' = Inr (s\<lparr>phys := (zero_page ?P (unat k) (phys s))(?P + k := 0)\<rparr>)"
      using s' by (simp add: vstore8_def I_def)
    then show "\<exists>s''. ?f k s' = Inr s'' \<and> I (Suc (unat k)) s''"
      by (simp add: I_def zero_page_step [OF page_aligned_and(2) k])
  qed
  then show ?thesis by (simp add: memset_virt_def I_def PAGE_SIZE_def)
qed

section \<open>Entry values\<close>

lemma low_high_masks: "FLAGS_MASK = mask 12" "ADDRESS_MASK = NOT (mask 12)"
  by (simp_all add: FLAGS_MASK_def ADDRESS_MASK_def mask_eq_exp_minus_1)

lemma entry_address_update_flags [simp]: "entry_address (entry_update_flags f v) = entry_address v"
  unfolding entry_address_def entry_update_flags_def low_high_masks
  by (rule bit_word_eqI) (auto simp: bit_simps)

lemma present_bit: "present v \<longleftrightarrow> bit v 0"
  using and_1_cases [of v] by (auto simp: present_def bit_0 and_one_eq odd_iff_mod_2_eq_one)

lemma present_update_flags [simp]: "present (entry_update_flags f v) \<longleftrightarrow> present v \<or> present f"
  unfolding present_bit entry_update_flags_def low_high_masks by (auto simp: bit_simps)

lemma entry_set_address_fresh: "entry_set_address a (entry_invalidate v) = entry_address a"
  by (simp add: entry_set_address_def entry_invalidate_def entry_address_def)

lemma entry_address_idem [simp]: "entry_address (entry_address v) = entry_address v"
  by (simp add: entry_address_def and.assoc)

lemma present_new_table_flags: "present (PG_Present OR PG_Writable OR (flags AND PG_User))"
  unfolding present_bit by (simp add: PG_Present_def PG_Writable_def PG_User_def bit_simps)

lemma entry_address_aligned: "page_aligned a \<Longrightarrow> entry_address a = a"
  by (simp add: entry_address_def page_aligned_id)

lemma alloc_frame_result:
  assumes "bm_wf PMM_params (mem_mngr p)" "alloc_frame p = Inr (a, p')"
  shows "page_aligned a" "unat a div 4096 \<notin> pmm_used p" "pmm_used p' = insert (unat a div 4096) (pmm_used p)"
    "bm_wf PMM_params (mem_mngr p')"
proof -
  obtain b where b: "alloc_units PMM_params (mem_mngr p) 1 = Inr (a, b)" "mem_mngr p' = b"
    using assms(2) by (auto simp: alloc_frame_def alloc_frames_def bindR_eq_Inr)
  from frame_bitmap.alloc_ok [OF assms(1) _ b(1)] obtain i where i: "i + 1 \<le> 1048576"
    "a = unit_addr PMM_params i" "{i..<i + 1} \<inter> bm_used PMM_params (mem_mngr p) = {}"
    "bm_used PMM_params b = bm_used PMM_params (mem_mngr p) \<union> {i..<i + 1}" "bm_wf PMM_params b"
    by (auto simp: u32_less_iff)
  have ua: "unat a = 4096 * i"
    using unit_addr_unat [OF PMM_geometry, of i] i(1,2) by (simp add: mult.commute)
  then show "page_aligned a" "bm_wf PMM_params (mem_mngr p')" using i(5) b(2) by (simp_all add: page_aligned_def)
  show "unat a div 4096 \<notin> pmm_used p" using i(3) ua by (auto simp: pmm_used_def)
  show "pmm_used p' = insert (unat a div 4096) (pmm_used p)" using i(4) ua b(2) by (auto simp: pmm_used_def)
qed

section \<open>Ensuring a page table\<close>

text \<open>A frame that holds no page table.\<close>

definition data_frame :: "vmm \<Rightarrow> u32 \<Rightarrow> bool" where
  "data_frame s a \<longleftrightarrow> a \<noteq> cr3 s \<and>
     (\<forall>i. unat i < 1023 \<longrightarrow> present (pde s i) \<longrightarrow> entry_address (pde s i) \<noteq> a)"

text \<open>What making sure that the table for \<open>va\<close> exists keeps and establishes.\<close>

definition table_ensured :: "vmm \<Rightarrow> u32 \<Rightarrow> vmm \<Rightarrow> bool" where
  "table_ensured s va s' \<longleftrightarrow> vmm_wf s' \<and> present (pde s' (pde_index va)) \<and> cr3 s' = cr3 s \<and>
     (\<forall>va'. below_window va' \<longrightarrow> mapping s' va' = mapping s va') \<and> pmm_used (vpmm s) \<subseteq> pmm_used (vpmm s') \<and>
     (\<forall>a. data_frame s a \<longrightarrow> unat a div 4096 \<in> pmm_used (vpmm s) \<longrightarrow> data_frame s' a)"

lemma ensure_present:
  assumes wf: "vmm_wf s" and bw: "below_window va" and pr: "present (pde s (pde_index va))"
  shows "\<exists>s'. ensure_page_table s va flags = Inr s' \<and> table_ensured s va s' \<and> vpmm s' = vpmm s"
proof -
  note f = vmm_wf_facts [OF wf] and i = bw [unfolded below_window_index]
  let ?i = "pde_index va"
  let ?v = "entry_update_flags flags (pde s ?i)"
  let ?s = "s\<lparr>phys := store32 (phys s) (cr3 s + 4 * ?i) ?v\<rparr>"
  have e: "ensure_page_table s va flags = Inr ?s"
    using pr by (simp add: ensure_page_table_def vload_pde [OF f(1)] update_pde [OF f(1)] present_flag)
  have pde: "pde ?s j = (if ?i = j then ?v else pde s j)" if "unat j < 1024" for j
    using pde_write [OF f(3) _ that] by simp
  have ea: "entry_address (pde ?s j) = entry_address (pde s j)" if "unat j < 1024" for j
    using pde [OF that] by simp
  have prs: "present (pde ?s j) \<longleftrightarrow> present (pde s j)" if "unat j < 1024" for j
    using pde [OF that] pr by auto
  have "vmm_wf ?s"
    unfolding vmm_wf_def using self_mapped_pde_write [OF f(1) i] f ea prs by auto
  moreover have "mapping ?s va' = mapping s va'" if "below_window va'" for va'
  proof (cases "present (pde s (pde_index va'))")
    case True
    have "entry_address (pde s (pde_index va')) \<noteq> cr3 s"
      using f(6) [OF _ True] that by (simp add: below_window_index)
    then have "raw_pte ?s va' = raw_pte s va'"
      unfolding raw_pte_def ea [OF pde_index_lt]
      using load32_slot [OF f(3) page_aligned_and(2) pde_index_lt pte_index_lt] by auto
    then show ?thesis using prs [OF pde_index_lt] by (simp add: mapping_def)
  qed (use prs [OF pde_index_lt] in \<open>simp add: mapping_def\<close>)
  moreover have "data_frame ?s a" if "data_frame s a" for a
    using that ea prs by (auto simp: data_frame_def)
  ultimately show ?thesis using e prs [OF pde_index_lt] pr by (simp add: table_ensured_def)
qed

text \<open>The three updates of a directory entry in a row write its final value.\<close>

lemma store32_twice: "word_aligned a \<Longrightarrow> store32 (store32 m a v) a w = store32 m a w"
  by (simp add: store32_def fun_eq_iff)

lemma new_pde:
  assumes sm: "self_mapped s" and i: "below_window va"
  shows "bindR (update_entry s (pde_entry va) entry_invalidate) (\<lambda>s.
      bindR (update_entry s (pde_entry va) (entry_set_address a)) (\<lambda>s.
      bindR (update_entry s (pde_entry va) (entry_update_flags fl)) k)) =
    k (s\<lparr>phys := store32 (phys s) (cr3 s + 4 * pde_index va) (entry_update_flags fl (entry_address a))\<rparr>)"
proof -
  let ?a = "cr3 s + 4 * pde_index va" and ?i = "pde_index va"
  have al: "page_aligned (cr3 s)" using sm by (simp add: self_mapped_def)
  have i': "unat ?i < 1023" using i by (simp add: below_window_index)
  have tw: "store32 (store32 m ?a v) ?a w = store32 m ?a w" for m v w
    using store32_twice page_slot(2) [OF al pde_index_lt] by blast
  have sm': "self_mapped (s\<lparr>phys := store32 (phys s) ?a v\<rparr>)" for v
    by (rule self_mapped_pde_write [OF sm i'])
  have pde: "pde (s\<lparr>phys := store32 (phys s) ?a v\<rparr>) ?i = v" for v
    using pde_write [OF al pde_index_lt pde_index_lt, of va v va] by simp
  show ?thesis
    by (simp add: update_pde [OF sm] update_pde [OF sm'] pde tw entry_set_address_fresh)
qed

lemma ensure_absent:
  assumes wf: "vmm_wf s" and bw: "below_window va" and pr: "\<not> present (pde s (pde_index va))"
    and alloc: "alloc_frame (vpmm s) = Inr (a, p)" and a0: "a \<noteq> 0"
  shows "\<exists>s'. ensure_page_table s va flags = Inr s' \<and> table_ensured s va s' \<and> vpmm s' = p"
proof -
  note f = vmm_wf_facts [OF wf] and al = alloc_frame_result [OF vmm_wf_facts(4) [OF wf] alloc]
  let ?i = "pde_index va"
  have i: "unat ?i < 1023" using bw by (simp add: below_window_index)
  let ?v = "entry_update_flags (PG_Present OR PG_Writable OR (flags AND PG_User)) (entry_address a)"
  let ?s0 = "s\<lparr>vpmm := p\<rparr>"
  let ?s1 = "?s0\<lparr>phys := store32 (phys s) (cr3 s + 4 * ?i) ?v\<rparr>"
  let ?s2 = "?s1\<lparr>phys := zero_page a 4096 (phys ?s1)\<rparr>"
  have sm0: "self_mapped ?s0" using f(1) by (simp add: self_mapped_def pde_def)
  have sm1: "self_mapped ?s1" using self_mapped_pde_write [OF sm0 i, of ?v] by simp
  have v: "present ?v" "entry_address ?v = a"
    using present_new_table_flags entry_address_aligned [OF al(1)] by simp_all
  have pde1: "pde ?s1 j = (if ?i = j then ?v else pde s j)" if "unat j < 1024" for j
    using pde_write [OF _ pde_index_lt that, of ?s0 va ?v] f(3) by (simp add: pde_def)
  have acr3: "a \<noteq> cr3 s" using al(2) f(5) by auto
  have "pt_virtual_base va = PT_BASE + push_bit 12 ?i" by (simp add: pt_virtual_base_def)
  then have "memset_virt ?s1 (pt_virtual_base va) 0 PAGE_SIZE = Inr ?s2"
    using memset_window [OF sm1 i] v pde1 [OF pde_index_lt, of va] acr3 by simp
  then have e: "ensure_page_table s va flags = Inr ?s2"
    using pr alloc a0 new_pde [OF sm0 bw, where a = a and k = "\<lambda>s. memset_virt s (pt_virtual_base va) 0 PAGE_SIZE"
        and fl = "PG_Present OR PG_Writable OR (flags AND PG_User)"]
    by (simp add: ensure_page_table_def vload_pde [OF f(1)] present_flag Let_def)
  have pde2: "pde ?s2 j = (if ?i = j then ?v else pde s j)" if "unat j < 1024" for j
    using pde_zero_page [of ?s1 a j 4096] pde1 [OF that] f(3) al(1) acr3 that by simp
  have sm2: "self_mapped ?s2" using sm1 pde2 [of 1023] pde1 [of 1023] i by (simp add: self_mapped_def)
  have used: "pmm_used p = insert (unat a div 4096) (pmm_used (vpmm s))" by (rule al(3))
  have other: "entry_address (pde s j) \<noteq> a" if "unat j < 1023" "present (pde s j)" for j
    using f(7) [OF that] al(2) by auto
  have "vmm_wf ?s2"
    unfolding vmm_wf_def
  proof (intro conjI allI impI)
    show "self_mapped ?s2" by (rule sm2)
    show "bm_wf PMM_params (mem_mngr (vpmm ?s2))" using al(4) by simp
    show "unat (cr3 ?s2) div 4096 \<in> pmm_used (vpmm ?s2)" using f(5) used by simp
  next
    fix j assume j: "unat j < 1023" "present (pde ?s2 j)"
    then show "entry_address (pde ?s2 j) \<noteq> cr3 ?s2"
      "unat (entry_address (pde ?s2 j)) div 4096 \<in> pmm_used (vpmm ?s2)"
      using pde2 [of j] v acr3 f(6,7) used by auto
  next
    fix j k assume "unat j < 1023" "unat k < 1023" "j \<noteq> k" "present (pde ?s2 j)" "present (pde ?s2 k)"
    then show "entry_address (pde ?s2 j) \<noteq> entry_address (pde ?s2 k)"
      using pde2 [of j] pde2 [of k] v f(8) other by (auto split: if_splits)
  qed
  moreover have "mapping ?s2 va' = mapping s va'" if bw': "below_window va'" for va'
  proof (cases "pde_index va' = ?i")
    case True
    then have "raw_pte ?s2 va' = 0"
      using pde2 [OF pde_index_lt] v load32_zero_page_same [OF al(1) pte_index_lt] by (simp add: raw_pte_def)
    then show ?thesis using True pr by (simp add: mapping_def present_def)
  next
    case False
    then have same: "pde ?s2 (pde_index va') = pde s (pde_index va')" using pde2 [OF pde_index_lt] by simp
    have "raw_pte ?s2 va' = raw_pte s va'" if pr': "present (pde s (pde_index va'))"
    proof -
      have idx: "unat (pde_index va') < 1023" using bw' by (simp add: below_window_index)
      have "load32 (phys ?s2) (entry_address (pde s (pde_index va')) + 4 * pte_index va') =
          load32 (phys ?s1) (entry_address (pde s (pde_index va')) + 4 * pte_index va')"
        using load32_zero_page_other [OF al(1) page_aligned_and(2) _ pte_index_lt] other [OF idx pr'] by simp
      then show ?thesis unfolding raw_pte_def same
        using load32_slot [OF f(3) page_aligned_and(2) pde_index_lt pte_index_lt] f(6) [OF idx pr'] by auto
    qed
    then show ?thesis unfolding mapping_def same by (cases "present (pde s (pde_index va'))") simp_all
  qed
  moreover have "data_frame ?s2 b" if "data_frame s b" "unat b div 4096 \<in> pmm_used (vpmm s)" for b
    using that al(2) v pde2 unfolding data_frame_def by (auto split: if_splits)
  ultimately show ?thesis using e v pde2 [OF pde_index_lt, of va] used by (auto simp: table_ensured_def)
qed

section \<open>Mapping and unmapping\<close>

lemma same_page_aligned [simp]: "same_page (fst (align_address va)) va" "same_page va (fst (align_address va))"
  by (simp_all add: same_page_def align_address_def PAGE_MASK_def unat_and_page)

lemma below_window_aligned [simp]: "below_window (fst (align_address va)) \<longleftrightarrow> below_window va"
  using same_page_aligned(1) [of va] by (simp add: below_window_index same_page_index)

lemma index_aligned [simp]:
  "pde_index (fst (align_address va)) = pde_index va" "pte_index (fst (align_address va)) = pte_index va"
  using same_page_aligned(1) [of va] by (simp_all add: same_page_index)

lemma same_page_aligned_iff [simp]: "same_page (fst (align_address va)) va' \<longleftrightarrow> same_page va va'"
  by (simp add: same_page_index)

lemma new_pte:
  assumes wf: "vmm_wf s" and i: "below_window va" and pr: "present (pde s (pde_index va))"
  shows "bindR (update_entry s (pte_entry va) entry_invalidate) (\<lambda>s.
      bindR (update_entry s (pte_entry va) (entry_set_address a)) (\<lambda>s.
      update_entry s (pte_entry va) (entry_update_flags fl))) =
    Inr (s\<lparr>phys := store32 (phys s) (entry_address (pde s (pde_index va)) + 4 * pte_index va)
      (entry_update_flags fl (entry_address a))\<rparr>)"
proof -
  let ?a = "entry_address (pde s (pde_index va)) + 4 * pte_index va"
  let ?s = "\<lambda>v. s\<lparr>phys := store32 (phys s) ?a v\<rparr>"
  note w = pt_write [OF wf i pr]
  have sm: "self_mapped (?s v)" for v using vmm_wf_facts(1) [OF w(2)] .
  have pde: "pde (?s v) (pde_index va) = pde s (pde_index va)" for v by (rule w(1) [OF pde_index_lt])
  have pr': "present (pde (?s v) (pde_index va))" for v using pde pr by simp
  have raw: "raw_pte (?s v) va = v" for v using w(3) [OF i pr, of v] by (simp add: same_page_def)
  have tw: "store32 (store32 m ?a v) ?a x = store32 m ?a x" for m v x
    using store32_twice page_slot(2) [OF page_aligned_and(2) pte_index_lt] by blast
  show ?thesis
    using update_pte [OF vmm_wf_facts(1) [OF wf] pr] update_pte [OF sm pr'] pde raw
    by (simp add: tw entry_set_address_fresh)
qed

definition mapped_entry :: "u32 \<Rightarrow> u32 \<Rightarrow> u32 option" where
  "mapped_entry phys_addr flags =
     (if present flags then Some (entry_update_flags flags (entry_address phys_addr)) else None)"

lemma present_entry_address [simp]: "\<not> present (entry_address v)"
  unfolding present_bit entry_address_def low_high_masks by (simp add: bit_simps)

lemma mapping_pt_write:
  assumes wf: "vmm_wf s" and i: "below_window va" and pr: "present (pde s (pde_index va))"
    and bw: "below_window va'"
  shows "mapping (s\<lparr>phys := store32 (phys s) (entry_address (pde s (pde_index va)) + 4 * pte_index va) v\<rparr>) va' =
    (if same_page va va' then if present v then Some v else None else mapping s va')"
proof -
  note w = pt_write [OF wf i pr]
  have pde: "pde (s\<lparr>phys := store32 (phys s) (entry_address (pde s (pde_index va)) + 4 * pte_index va) v\<rparr>)
      (pde_index va') = pde s (pde_index va')" by (rule w(1) [OF pde_index_lt])
  show ?thesis
  proof (cases "present (pde s (pde_index va'))")
    case True
    then show ?thesis unfolding mapping_def pde using w(3) [OF bw True] by simp
  next
    case False
    then have "\<not> same_page va va'" using pr by (auto simp: same_page_index)
    then show ?thesis unfolding mapping_def pde using False by simp
  qed
qed

lemma map_page_locked_result:
  assumes bw: "below_window va"
    and e: "ensure_page_table s (fst (align_address va)) flags = Inr s1"
    and t: "table_ensured s (fst (align_address va)) s1"
  shows "\<exists>s'. map_page_locked s va pa flags = Inr s' \<and> vmm_wf s' \<and> cr3 s' = cr3 s \<and> vpmm s' = vpmm s1 \<and>
    (\<forall>va'. below_window va' \<longrightarrow>
      mapping s' va' = (if same_page va va' then mapped_entry pa flags else mapping s va')) \<and>
    (\<forall>a. data_frame s a \<longrightarrow> unat a div 4096 \<in> pmm_used (vpmm s) \<longrightarrow> data_frame s' a)"
proof -
  let ?va = "fst (align_address va)"
  have wf: "vmm_wf s1" and pr: "present (pde s1 (pde_index ?va))" and cr: "cr3 s1 = cr3 s"
    and m: "\<And>va'. below_window va' \<Longrightarrow> mapping s1 va' = mapping s va'"
    using t by (auto simp: table_ensured_def)
  have bw': "below_window ?va" using bw by simp
  let ?v = "entry_update_flags flags (entry_address (fst (align_address pa)))"
  let ?s = "s1\<lparr>phys := store32 (phys s1) (entry_address (pde s1 (pde_index ?va)) + 4 * pte_index ?va) ?v\<rparr>"
  have "fst (align_address pa) = entry_address pa"
    by (simp add: align_address_def entry_address_def PAGE_MASK_def ADDRESS_MASK_def)
  then have v: "(if present ?v then Some ?v else None) = mapped_entry pa flags"
    by (simp add: mapped_entry_def)
  have "map_page_locked s va pa flags = Inr ?s"
    using e new_pte [OF wf bw' pr, of "fst (align_address pa)" flags] by (simp add: map_page_locked_def Let_def)
  moreover have "vmm_wf ?s" by (rule pt_write(2) [OF wf bw' pr])
  moreover have "mapping ?s va' = (if same_page va va' then mapped_entry pa flags else mapping s va')"
    if "below_window va'" for va'
    using mapping_pt_write [OF wf bw' pr that, of ?v, unfolded v] m [OF that] by simp
  moreover have "data_frame ?s a" if "data_frame s a" "unat a div 4096 \<in> pmm_used (vpmm s)" for a
  proof -
    have "data_frame s1 a" using t that by (simp add: table_ensured_def)
    then show ?thesis using pt_write(1) [OF wf bw' pr] by (simp add: data_frame_def)
  qed
  ultimately show ?thesis using cr by (intro exI [of _ ?s]) simp
qed

text \<open>When mapping can go ahead: the table exists, or a frame other than 0 can be had for it.\<close>

definition table_available :: "vmm \<Rightarrow> u32 \<Rightarrow> bool" where
  "table_available s va \<longleftrightarrow> present (pde s (pde_index va)) \<or>
     (\<exists>a p. alloc_frame (vpmm s) = Inr (a, p) \<and> a \<noteq> 0)"

lemma ensure_result:
  assumes "vmm_wf s" "below_window va" "table_available s va"
  shows "\<exists>s'. ensure_page_table s va flags = Inr s' \<and> table_ensured s va s'"
  using ensure_present [OF assms(1,2)] ensure_absent [OF assms(1,2)] assms(3)
  by (metis table_available_def)

lemma map_page_result:
  assumes "vmm_wf s" "below_window va" "table_available s va"
  shows "\<exists>s'. map_page_locked s va pa flags = Inr s' \<and> vmm_wf s' \<and> cr3 s' = cr3 s \<and> pmm_used (vpmm s) \<subseteq> pmm_used (vpmm s') \<and>
    (\<forall>va'. below_window va' \<longrightarrow>
      mapping s' va' = (if same_page va va' then mapped_entry pa flags else mapping s va')) \<and>
    (\<forall>a. data_frame s a \<longrightarrow> unat a div 4096 \<in> pmm_used (vpmm s) \<longrightarrow> data_frame s' a)"
proof -
  have "below_window (fst (align_address va))" "table_available s (fst (align_address va))"
    using assms(2,3) by (simp_all add: table_available_def)
  from ensure_result [OF assms(1) this] obtain s1
    where s1: "ensure_page_table s (fst (align_address va)) flags = Inr s1"
      "table_ensured s (fst (align_address va)) s1" by blast
  from s1(2) have "pmm_used (vpmm s) \<subseteq> pmm_used (vpmm s1)" by (simp add: table_ensured_def)
  with map_page_locked_result [OF assms(2) s1] show ?thesis by metis
qed

lemma virt_to_phys_mapping:
  assumes "vmm_wf s"
  shows "virt_to_phys s va = Inr (case mapping s va of None \<Rightarrow> 0xFFFFFFFF
      | Some v \<Rightarrow> entry_address v OR (va AND (PAGE_SIZE - 1)))"
    and "is_mapped s va = Inr (mapping s va \<noteq> None)"
proof -
  note sm = vmm_wf_facts(1) [OF assms]
  show "virt_to_phys s va = Inr (case mapping s va of None \<Rightarrow> 0xFFFFFFFF
      | Some v \<Rightarrow> entry_address v OR (va AND (PAGE_SIZE - 1)))"
    by (simp add: virt_to_phys_def vload_pde [OF sm] present_flag mapping_def vload_pte [OF sm])
  show "is_mapped s va = Inr (mapping s va \<noteq> None)"
    by (simp add: is_mapped_def vload_pde [OF sm] present_flag mapping_def vload_pte [OF sm])
qed

lemma free_frame_result:
  assumes wf: "bm_wf PMM_params (mem_mngr p)" and a: "page_aligned a"
  shows "if unat a div 4096 \<in> pmm_used p
    then \<exists>p'. free_frame p a = Inr p' \<and> bm_wf PMM_params (mem_mngr p') \<and>
      pmm_used p' = pmm_used p - {unat a div 4096}
    else free_frame p a = Inl (Panic ''free_units: double free'')"
proof -
  let ?i = "unat a div 4096"
  have lt: "?i < 1048576" using unat_u32_lt [of a] by (simp del: unat_u32_lt)
  then have le: "?i + unat (1 :: u32) \<le> unat (MAX_UNITS PMM_params)" by simp
  have addr: "unit_addr PMM_params ?i = a"
  proof -
    have "unat (unit_addr PMM_params ?i) = ?i * 4096"
      using unit_addr_unat [OF PMM_geometry, of ?i] lt by simp
    also have "\<dots> = unat a" using a by (auto simp: page_aligned_def)
    finally show ?thesis by (simp add: u32_eq_iff)
  qed
  have one: "{?i..<?i + unat (1 :: u32)} = {?i}" by auto
  from free_units_result [OF wf _ le] show ?thesis
    unfolding addr one by (auto simp: free_frame_def free_frames_def pmm_used_def u32_less_iff)
qed

lemma vmm_wf_free:
  assumes wf: "vmm_wf s" and df: "data_frame s a" "page_aligned a"
    and p: "bm_wf PMM_params (mem_mngr p)" "pmm_used p = pmm_used (vpmm s) - {unat a div 4096}"
  shows "vmm_wf (s\<lparr>vpmm := p\<rparr>)"
proof -
  note f = vmm_wf_facts [OF wf]
  have "unat (cr3 s) div 4096 \<noteq> unat a div 4096"
    using df f(3) page_aligned_div by (auto simp: data_frame_def)
  moreover have "unat (entry_address (pde s i)) div 4096 \<noteq> unat a div 4096"
    if "unat i < 1023" "present (pde s i)" for i
    using df that page_aligned_div [OF page_aligned_and(2) df(2)] by (auto simp: data_frame_def)
  ultimately show ?thesis using f p
    by (auto simp: vmm_wf_def self_mapped_def pde_def)
qed

lemma unmap_page_result:
  assumes wf: "vmm_wf s" and bw: "below_window va"
  shows "case mapping s va of
      None \<Rightarrow> unmap_page_locked s va = Inr s
    | Some v \<Rightarrow> if unat (entry_address v) div 4096 \<notin> pmm_used (vpmm s)
        then unmap_page_locked s va = Inl (Panic ''free_units: double free'')
        else data_frame s (entry_address v) \<longrightarrow>
          (\<exists>s'. unmap_page_locked s va = Inr s' \<and> vmm_wf s' \<and> cr3 s' = cr3 s \<and>
             pmm_used (vpmm s') = pmm_used (vpmm s) - {unat (entry_address v) div 4096} \<and>
             (\<forall>va'. below_window va' \<longrightarrow>
                mapping s' va' = (if same_page va va' then None else mapping s va')))"
proof (cases "mapping s va")
  case None
  note sm = vmm_wf_facts(1) [OF wf]
  let ?va = "fst (align_address va)"
  have "\<not> (present (pde s (pde_index ?va)) \<and> present (raw_pte s ?va))"
    using None by (auto simp: mapping_def raw_pte_def split: if_splits)
  then show ?thesis using None
    by (auto simp: unmap_page_locked_def Let_def vload_pde [OF sm] present_flag
        vload_pte [OF sm])
next
  case (Some v)
  note sm = vmm_wf_facts(1) [OF wf]
  let ?va = "fst (align_address va)"
  have pr: "present (pde s (pde_index va))" and v: "raw_pte s ?va = v" "present v"
    using Some by (auto simp: mapping_def raw_pte_def split: if_splits)
  have un: "unmap_page_locked s va = bindR (free_frame (vpmm s) (entry_address v))
      (\<lambda>p. update_entry (s\<lparr>vpmm := p\<rparr>) (pte_entry ?va) entry_invalidate)"
    using pr v by (simp add: unmap_page_locked_def Let_def vload_pde [OF sm] present_flag vload_pte [OF sm])
  note fr = free_frame_result [OF vmm_wf_facts(4) [OF wf] page_aligned_and(2), of v]
  show ?thesis
  proof (cases "unat (entry_address v) div 4096 \<in> pmm_used (vpmm s)")
    case False
    then show ?thesis using fr Some un by simp
  next
    case True
    then obtain p where p: "free_frame (vpmm s) (entry_address v) = Inr p" "bm_wf PMM_params (mem_mngr p)"
      "pmm_used p = pmm_used (vpmm s) - {unat (entry_address v) div 4096}" using fr by auto
    let ?s = "s\<lparr>vpmm := p\<rparr>"
    let ?s' = "?s\<lparr>phys := store32 (phys ?s) (entry_address (pde ?s (pde_index va)) + 4 * pte_index va) 0\<rparr>"
    have "\<exists>s'. unmap_page_locked s va = Inr s' \<and> vmm_wf s' \<and> cr3 s' = cr3 s \<and>
        pmm_used (vpmm s') = pmm_used (vpmm s) - {unat (entry_address v) div 4096} \<and>
        (\<forall>va'. below_window va' \<longrightarrow> mapping s' va' = (if same_page va va' then None else mapping s va'))"
      if df: "data_frame s (entry_address v)"
    proof -
      have wf': "vmm_wf ?s" by (rule vmm_wf_free [OF wf df page_aligned_and(2) p(2,3)])
      have same: "pde ?s = pde s" "mapping ?s = mapping s"
        by (auto simp: pde_def mapping_def raw_pte_def fun_eq_iff)
      have pr': "present (pde ?s (pde_index va))" using pr same by simp
      have "unmap_page_locked s va = Inr ?s'"
        using update_pte [OF vmm_wf_facts(1) [OF wf'], of ?va entry_invalidate] pr' p(1) un
        by (simp add: entry_invalidate_def)
      moreover have "mapping ?s' va' = (if same_page va va' then None else mapping s va')"
        if "below_window va'" for va'
        using mapping_pt_write [OF wf' bw pr' that, of 0] same(2) by (simp add: present_def)
      ultimately show ?thesis using pt_write(2) [OF wf' bw pr', of 0] p(3)
        by (intro exI [of _ ?s']) simp
    qed
    then show ?thesis using True Some by simp
  qed
qed

section \<open>Initialisation\<close>

lemma update_entry_flat:
  "\<not> paging s \<Longrightarrow> update_entry s a f = Inr (s\<lparr>phys := store32 (phys s) a (f (load32 (phys s) a))\<rparr>)"
  by (simp add: update_entry_def vload32_def vstore32_def translate_def)

lemma memset_flat:
  assumes "\<not> paging s" "page_aligned P"
  shows "memset_virt s P 0 PAGE_SIZE = Inr (s\<lparr>phys := zero_page P 4096 (phys s)\<rparr>)"
proof -
  let ?f = "\<lambda>k s. vstore8 s (P + k) 0"
  define I where "I n s' \<longleftrightarrow> s' = s\<lparr>phys := zero_page P n (phys s)\<rparr>" for n s'
  have "\<exists>s'. for_u32 0 PAGE_SIZE ?f s = Inr s' \<and> I (unat PAGE_SIZE) s'"
  proof (rule for_u32_total)
    have "zero_page P 0 (phys s) = phys s" by (simp add: zero_page_def fun_eq_iff)
    then show "I (unat (0 :: u32)) s" by (simp add: I_def)
    show "0 \<le> PAGE_SIZE" by (simp add: u32_le_iff)
    fix k :: u32 and s'
    assume "k < PAGE_SIZE" and s': "I (unat k) s'"
    then have k: "unat k < 4096" by (simp add: u32_less_iff PAGE_SIZE_def)
    have "?f k s' = Inr (s\<lparr>phys := (zero_page P (unat k) (phys s))(P + k := 0)\<rparr>)"
      using s' assms(1) by (simp add: vstore8_def I_def translate_def)
    then show "\<exists>s''. ?f k s' = Inr s'' \<and> I (Suc (unat k)) s''"
      by (simp add: I_def zero_page_step [OF assms(2) k])
  qed
  then show ?thesis by (simp add: memset_virt_def I_def PAGE_SIZE_def)
qed

text \<open>The entry that maps page \<open>j\<close> to itself, and a table that starts with \<open>k\<close> of them.\<close>

definition ident_entry :: "u32 \<Rightarrow> u32" where
  "ident_entry j = entry_update_flags (PG_Present OR PG_Writable) (entry_address (j * PAGE_SIZE))"

definition ident_table :: "u32 \<Rightarrow> nat \<Rightarrow> mem \<Rightarrow> mem \<Rightarrow> bool" where
  "ident_table P k m m' \<longleftrightarrow>
     (\<forall>j. unat j < 1024 \<longrightarrow> load32 m' (P + 4 * j) = (if unat j < k then ident_entry j else 0)) \<and>
     (\<forall>Q j. page_aligned Q \<longrightarrow> Q \<noteq> P \<longrightarrow> unat j < 1024 \<longrightarrow> load32 m' (Q + 4 * j) = load32 m (Q + 4 * j))"

lemma ident_table_step:
  assumes P: "page_aligned P" and k: "unat k < 1024" and t: "ident_table P (unat k) m m'"
  shows "ident_table P (Suc (unat k)) m (store32 m' (P + 4 * k) (ident_entry k))"
  unfolding ident_table_def
proof (intro conjI allI impI)
  fix j :: u32 assume j: "unat j < 1024"
  show "load32 (store32 m' (P + 4 * k) (ident_entry k)) (P + 4 * j) =
      (if unat j < Suc (unat k) then ident_entry j else 0)"
  proof (cases "j = k")
    case False
    then have "unat j \<noteq> unat k" by (simp add: u32_eq_iff)
    then show ?thesis using load32_slot [OF P P k j] False t j by (simp add: ident_table_def less_Suc_eq)
  qed (use load32_slot [OF P P k j] in simp)
next
  fix Q j :: u32 assume "page_aligned Q" "Q \<noteq> P" "unat j < 1024"
  then show "load32 (store32 m' (P + 4 * k) (ident_entry k)) (Q + 4 * j) = load32 m (Q + 4 * j)"
    using load32_slot [OF P \<open>page_aligned Q\<close> k] t by (auto simp: ident_table_def)
qed

lemma ident_loop:
  assumes np: "\<not> paging s" and P: "page_aligned P"
    and z: "\<And>j. unat j < 1024 \<Longrightarrow> load32 (phys s) (P + 4 * j) = 0"
  shows "\<exists>m'. for_u32 0 (IDENTITY_WINDOW_SIZE div PAGE_SIZE) (\<lambda>i s.
         bindR (update_entry s (P + i * 4) (entry_set_address (i * PAGE_SIZE))) (\<lambda>s.
         update_entry s (P + i * 4) (entry_update_flags (PG_Present OR PG_Writable)))) s =
      Inr (s\<lparr>phys := m'\<rparr>) \<and> ident_table P 1024 (phys s) m'"
proof -
  let ?f = "\<lambda>i s. bindR (update_entry s (P + i * 4) (entry_set_address (i * PAGE_SIZE))) (\<lambda>s.
         update_entry s (P + i * 4) (entry_update_flags (PG_Present OR PG_Writable)))"
  define I where "I n s' \<longleftrightarrow> (\<exists>m'. s' = s\<lparr>phys := m'\<rparr> \<and> ident_table P n (phys s) m')" for n s'
  have n: "IDENTITY_WINDOW_SIZE div PAGE_SIZE = 1024" by (simp add: IDENTITY_WINDOW_SIZE_def PAGE_SIZE_def)
  have "\<exists>s'. for_u32 0 1024 ?f s = Inr s' \<and> I (unat (1024 :: u32)) s'"
  proof (rule for_u32_total)
    have "ident_table P 0 (phys s) (phys s)" using z by (simp add: ident_table_def)
    then show "I (unat (0 :: u32)) s" by (auto simp: I_def intro!: exI [of _ "phys s"])
    show "(0 :: u32) \<le> 1024" by (simp add: u32_le_iff)
    fix k :: u32 and s'
    assume "k < 1024" and s': "I (unat k) s'"
    then have k: "unat k < 1024" by (simp add: u32_less_iff)
    obtain m' where m': "s' = s\<lparr>phys := m'\<rparr>" "ident_table P (unat k) (phys s) m'" using s' by (auto simp: I_def)
    have z': "load32 m' (P + 4 * k) = 0" using m'(2) k by (simp add: ident_table_def)
    have np': "\<not> paging s'" "\<not> paging (s'\<lparr>phys := x\<rparr>)" for x using np m'(1) by simp_all
    have tw: "store32 (store32 m' (P + 4 * k) v) (P + 4 * k) x = store32 m' (P + 4 * k) x" for v x
      using store32_twice page_slot(2) [OF P k] by blast
    have "?f k s' = Inr (s\<lparr>phys := store32 m' (P + 4 * k) (ident_entry k)\<rparr>)"
      using m'(1) np' z' tw load32_slot [OF P P k k]
      by (simp add: update_entry_flat mult.commute [of k 4] ident_entry_def entry_set_address_def entry_address_def)
    then show "\<exists>s''. ?f k s' = Inr s'' \<and> I (Suc (unat k)) s''"
      using ident_table_step [OF P k m'(2)] by (auto simp: I_def)
  qed
  then show ?thesis by (auto simp: n I_def)
qed

lemma init_tables_result:
  assumes np: "\<not> paging s" and pd: "page_aligned pd" and pt: "page_aligned pt" and ne: "pd \<noteq> pt"
  shows "\<exists>m'. vmm_init_tables s pd pt = Inr (s\<lparr>phys := m'\<rparr>) \<and>
    (\<forall>j. unat j < 1024 \<longrightarrow> load32 m' (pt + 4 * j) = ident_entry j) \<and>
    (\<forall>j. unat j < 1024 \<longrightarrow> load32 m' (pd + 4 * j) =
      (if j = 0 then entry_update_flags (PG_Present OR PG_Writable) pt
       else if j = 1023 then entry_update_flags (PG_Present OR PG_Writable) pd else 0)) \<and>
    (\<forall>Q j. page_aligned Q \<longrightarrow> Q \<noteq> pd \<longrightarrow> Q \<noteq> pt \<longrightarrow> unat j < 1024 \<longrightarrow>
      load32 m' (Q + 4 * j) = load32 (phys s) (Q + 4 * j))"
proof -
  let ?m1 = "zero_page pd 4096 (phys s)"
  let ?m2 = "zero_page pt 4096 ?m1"
  let ?fl = "entry_update_flags (PG_Present OR PG_Writable)"
  have m2pt: "load32 ?m2 (pt + 4 * j) = 0" if "unat j < 1024" for j
    by (rule load32_zero_page_same [OF pt that])
  have m2pd: "load32 ?m2 (pd + 4 * j) = 0" if "unat j < 1024" for j
    using load32_zero_page_other [OF pt pd _ that] load32_zero_page_same [OF pd that] ne by simp
  obtain m3 where loop: "for_u32 0 (IDENTITY_WINDOW_SIZE div PAGE_SIZE) (\<lambda>i s.
         bindR (update_entry s (pt + i * 4) (entry_set_address (i * PAGE_SIZE))) (\<lambda>s.
         update_entry s (pt + i * 4) (entry_update_flags (PG_Present OR PG_Writable)))) (s\<lparr>phys := ?m2\<rparr>) =
      Inr (s\<lparr>phys := m3\<rparr>)" and m3: "ident_table pt 1024 ?m2 m3"
    using ident_loop [of "s\<lparr>phys := ?m2\<rparr>" pt] np pt m2pt by auto
  have m3pd: "load32 m3 (pd + 4 * j) = 0" if "unat j < 1024" for j
    using m3 m2pd that ne pd by (simp add: ident_table_def)
  have m3pt: "load32 m3 (pt + 4 * j) = ident_entry j" if "unat j < 1024" for j
    using m3 that by (simp add: ident_table_def)
  let ?m4 = "store32 m3 pd (?fl pt)"
  let ?m5 = "store32 ?m4 (pd + 4 * 1023) (?fl pd)"
  have z: "unat (0 :: u32) < 1024" "unat (1023 :: u32) < 1024" by simp_all
  note slot0 = load32_slot [OF pd _ z(1), simplified]
  note slot1 = load32_slot [OF pd _ z(2), simplified]
  have tw: "store32 (store32 m pd v) pd x = store32 m pd x"
    "store32 (store32 m (pd + 4092) v) (pd + 4092) x = store32 m (pd + 4092) x" for m v x
    using store32_twice page_slot(2) [OF pd z(1)] page_slot(2) [OF pd z(2)] by simp_all
  have ea: "entry_address pt = pt" "entry_address pd = pd" using pd pt by (simp_all add: entry_address_aligned)
  have np': "\<not> paging (s\<lparr>phys := x\<rparr>)" for x using np by simp
  have set0: "entry_set_address a 0 = entry_address a" for a
    by (simp add: entry_set_address_def entry_address_def)
  have m4z: "load32 ?m4 (pd + 4092) = 0"
    using slot0 [OF pd z(2)] m3pd [OF z(2)] by simp
  have "vmm_init_tables s pd pt = Inr (s\<lparr>phys := ?m5\<rparr>)"
    using np np' memset_flat [OF np pd] memset_flat [OF np' pt] loop m3pd [OF z(1)] m4z
    by (simp add: vmm_init_tables_def update_entry_flat tw set0 ea)
  moreover have "load32 ?m5 (pt + 4 * j) = ident_entry j" if "unat j < 1024" for j
    using slot1 [OF pt that] slot0 [OF pt that] ne m3pt [OF that] by simp
  moreover have "load32 ?m5 (pd + 4 * j) = (if j = 0 then ?fl pt else if j = 1023 then ?fl pd else 0)"
    if "unat j < 1024" for j
    using slot1 [OF pd that] slot0 [OF pd that] m3pd [OF that] by auto
  moreover have "load32 ?m5 (Q + 4 * j) = load32 (phys s) (Q + 4 * j)"
    if "page_aligned Q" "Q \<noteq> pd" "Q \<noteq> pt" "unat j < 1024" for Q j
    using slot1 [OF that(1,4)] slot0 [OF that(1,4)] that m3 load32_zero_page_other [OF pt that(1) _ that(4)]
      load32_zero_page_other [OF pd that(1) _ that(4)] by (auto simp: ident_table_def)
  ultimately show ?thesis by blast
qed

lemma ident_entry_facts:
  assumes "unat j < 1024"
  shows "present (ident_entry j)" "entry_address (ident_entry j) = j * 4096" "unat (j * 4096) = unat j * 4096"
proof -
  show u: "unat (j * 4096) = unat j * 4096" using assms by (simp add: unat_mult_u32)
  have "page_aligned (j * 4096)" by (simp add: page_aligned_def u)
  then show "entry_address (ident_entry j) = j * 4096"
    by (simp add: ident_entry_def PAGE_SIZE_def entry_address_aligned)
  show "present (ident_entry j)"
    by (simp add: ident_entry_def present_bit bit_simps PG_Present_def PG_Writable_def)
      (simp add: entry_update_flags_def bit_simps FLAGS_MASK_def)
qed

lemma vmm_init_result:
  assumes np: "\<not> paging s" and bm: "bm_wf PMM_params (mem_mngr (vpmm s))"
    and a: "alloc_frame (vpmm s) = Inr (pd, p1)" "pd \<noteq> 0" and b: "alloc_frame p1 = Inr (pt, p2)" "pt \<noteq> 0"
  shows "\<exists>s'. vmm_init s t pf tlb = Inr (s', register_isr (register_isr t 14 pf) TLB_SHOOTDOWN_VECTOR tlb) \<and>
    vmm_wf s' \<and> pde s' 0 = entry_update_flags (PG_Present OR PG_Writable) pt \<and>
    (\<forall>j. unat j < 1024 \<longrightarrow> load32 (phys s') (pt + 4 * j) = ident_entry j) \<and>
    (\<forall>j. unat j < 1023 \<longrightarrow> j \<noteq> 0 \<longrightarrow> \<not> present (pde s' j)) \<and> entry_address pt = pt \<and> vpmm s' = p2 \<and> cr3 s' = pd \<and>
    (\<forall>Q j. page_aligned Q \<longrightarrow> Q \<noteq> pd \<longrightarrow> Q \<noteq> pt \<longrightarrow> unat j < 1024 \<longrightarrow>
      load32 (phys s') (Q + 4 * j) = load32 (phys s) (Q + 4 * j))"
proof -
  note fa = alloc_frame_result [OF bm a(1)]
  note fb = alloc_frame_result [OF fa(4) b(1)]
  have ne: "pd \<noteq> pt" using fa(3) fb(2) by auto
  have np': "\<not> paging (s\<lparr>vpmm := p2\<rparr>)" using np by simp
  from init_tables_result [OF np' fa(1) fb(1) ne] obtain m' where
    m': "vmm_init_tables (s\<lparr>vpmm := p2\<rparr>) pd pt = Inr (s\<lparr>vpmm := p2, phys := m'\<rparr>)"
    "\<forall>j. unat j < 1024 \<longrightarrow> load32 m' (pt + 4 * j) = ident_entry j"
    "\<forall>j. unat j < 1024 \<longrightarrow> load32 m' (pd + 4 * j) =
      (if j = 0 then entry_update_flags (PG_Present OR PG_Writable) pt
       else if j = 1023 then entry_update_flags (PG_Present OR PG_Writable) pd else 0)"
    "\<forall>Q j. page_aligned Q \<longrightarrow> Q \<noteq> pd \<longrightarrow> Q \<noteq> pt \<longrightarrow> unat j < 1024 \<longrightarrow>
      load32 m' (Q + 4 * j) = load32 (phys s) (Q + 4 * j)" by auto
  let ?s' = "s\<lparr>vpmm := p2, phys := m', kernel_dir_phys := pd, cr3 := pd, paging := True\<rparr>"
  have init: "vmm_init s t pf tlb = Inr (?s', register_isr (register_isr t 14 pf) TLB_SHOOTDOWN_VECTOR tlb)"
    using a b m'(1) by (simp add: vmm_init_def Let_def load_directory_def enable_paging_def)
  have pde: "pde ?s' j = (if j = 0 then entry_update_flags (PG_Present OR PG_Writable) pt
       else if j = 1023 then entry_update_flags (PG_Present OR PG_Writable) pd else 0)"
    if "unat j < 1024" for j using m'(3) that by (simp add: pde_def)
  have ea: "entry_address pt = pt" "entry_address pd = pd"
    using fa(1) fb(1) by (simp_all add: entry_address_aligned)
  have pfl: "present (PG_Present OR PG_Writable)" by (simp add: present_bit PG_Present_def PG_Writable_def bit_simps)
  have n0: "\<not> present 0" by (simp add: present_def)
  have sm: "self_mapped ?s'" using pde [of 1023] fa(1) ea pfl by (simp add: self_mapped_def)
  have only: "j = 0" if "unat j < 1023" "present (pde ?s' j)" for j
  proof (rule ccontr)
    assume "j \<noteq> 0"
    moreover have "j \<noteq> 1023" using that(1) by auto
    ultimately show False using pde [of j] that n0 by simp
  qed
  have used: "pmm_used p2 = insert (unat pt div 4096) (insert (unat pd div 4096) (pmm_used (vpmm s)))"
    using fb(3) fa(3) by simp
  have "vmm_wf ?s'"
    unfolding vmm_wf_def
  proof (intro conjI allI impI)
    show "self_mapped ?s'" by (rule sm)
    show "bm_wf PMM_params (mem_mngr (vpmm ?s'))" using fb(4) by simp
    show "unat (cr3 ?s') div 4096 \<in> pmm_used (vpmm ?s')" using used by simp
  next
    fix i assume "unat i < 1023" "present (pde ?s' i)"
    then show "entry_address (pde ?s' i) \<noteq> cr3 ?s'" "unat (entry_address (pde ?s' i)) div 4096 \<in> pmm_used (vpmm ?s')"
      using only [of i] pde [of 0] ea ne used by auto
  next
    fix i j assume "unat i < 1023" "unat j < 1023" "i \<noteq> j" "present (pde ?s' i)" "present (pde ?s' j)"
    then show "entry_address (pde ?s' i) \<noteq> entry_address (pde ?s' j)" using only by metis
  qed
  then show ?thesis using init m'(2,4) pde [of 0] only ea by (intro exI [of _ ?s']) auto
qed

section \<open>Ranges of pages\<close>

lemma ensure_available:
  assumes "vmm_wf s" "ensure_page_table s va flags = Inr s'"
  shows "table_available s va"
  using assms(2) unfolding table_available_def ensure_page_table_def vload_pde [OF vmm_wf_facts(1) [OF assms(1)]]
  by (auto simp: present_flag kres_iffs Let_def split: if_splits)

lemma map_page_available: "vmm_wf s \<Longrightarrow> map_page_locked s va pa flags = Inr s' \<Longrightarrow> table_available s va"
  using ensure_available [of s "fst (align_address va)" flags]
  by (auto simp: map_page_locked_def Let_def bindR_eq_Inr table_available_def)

lemma page_step:
  assumes "page_aligned P" "unat P div 4096 + unat i < 1048576"
  shows "unat (P + i * PAGE_SIZE) = 4096 * (unat P div 4096 + unat i)"
proof -
  obtain q where q: "unat P = 4096 * q" using assms(1) by (auto simp: page_aligned_def)
  have "unat (i * 4096) = unat i * 4096" using assms(2) by (simp add: unat_mult_u32)
  then show ?thesis using assms(2) q by (simp add: PAGE_SIZE_def unat_add_u32)
qed

lemma page_aligned_align [simp]: "page_aligned (fst (align_address a))"
  by (simp add: page_aligned_def align_address_def PAGE_MASK_def unat_and_page)

lemma align_page_number [simp]: "unat (fst (align_address a)) div 4096 = unat a div 4096"
  using same_page_aligned(1) [of a] by (simp add: same_page_def)

text \<open>The mapping after the first \<open>k\<close> pages of a range were mapped.\<close>

definition range_mapped :: "vmm \<Rightarrow> u32 \<Rightarrow> u32 \<Rightarrow> u32 \<Rightarrow> nat \<Rightarrow> vmm \<Rightarrow> bool" where
  "range_mapped s va pa flags k s' \<longleftrightarrow> vmm_wf s' \<and> (\<forall>va'. below_window va' \<longrightarrow> mapping s' va' =
     (if unat va div 4096 \<le> unat va' div 4096 \<and> unat va' div 4096 < unat va div 4096 + k
      then mapped_entry (fst (align_address pa) + word_of_nat (unat va' div 4096 - unat va div 4096) * PAGE_SIZE) flags
      else mapping s va'))"

lemma map_pages_result:
  assumes wf: "vmm_wf s" and r: "map_pages s va pa n flags = Inr s'"
    and bound: "unat va div 4096 + unat n \<le> 1047552"
  shows "range_mapped s va pa flags (unat n) s'"
proof -
  let ?V = "fst (align_address va)" and ?P = "fst (align_address pa)" and ?b = "unat va div 4096"
  let ?f = "\<lambda>i s. map_page_locked s (?V + i * PAGE_SIZE) (?P + i * PAGE_SIZE) flags"
  from r have "for_u32 0 n ?f s = Inr s'" by (simp add: map_pages_def Let_def)
  then show ?thesis
  proof (rule for_u32_partial)
    show "range_mapped s va pa flags (unat (0 :: u32)) s" using wf by (auto simp: range_mapped_def)
    show "0 \<le> n" by (simp add: u32_le_iff)
    fix i :: u32 and s1 s2
    assume i: "i < n" and I: "range_mapped s va pa flags (unat i) s1" and step: "?f i s1 = Inr s2"
    have wf1: "vmm_wf s1" using I by (simp add: range_mapped_def)
    have lt: "unat i < unat n" using i by (simp add: u32_less_iff)
    have ui: "unat (?V + i * PAGE_SIZE) = 4096 * (?b + unat i)"
      using page_step [of ?V i] lt bound by simp
    have "?b + unat i < 1047552" using add_strict_left_mono [OF lt, of ?b] bound by (rule less_le_trans)
    then have "unat (?V + i * PAGE_SIZE) < 4290772992" unfolding ui by simp
    then have bw: "below_window (?V + i * PAGE_SIZE)"
      by (simp add: below_window_def u32_less_iff PT_BASE_def RECURSIVE_PT_BASE_def)
    obtain s2' where s2': "?f i s1 = Inr s2'" "vmm_wf s2'"
      "\<forall>va'. below_window va' \<longrightarrow> mapping s2' va' = (if same_page (?V + i * PAGE_SIZE) va'
         then mapped_entry (?P + i * PAGE_SIZE) flags else mapping s1 va')"
      using map_page_result [OF wf1 bw map_page_available [OF wf1 step]] by blast
    then have s2: "s2' = s2" using step by simp
    have sp: "same_page (?V + i * PAGE_SIZE) va' \<longleftrightarrow> unat va' div 4096 = ?b + unat i" for va'
      using ui by (auto simp: same_page_def)
    show "range_mapped s va pa flags (Suc (unat i)) s2"
      unfolding range_mapped_def
    proof (intro conjI allI impI)
      show "vmm_wf s2" using s2'(2) s2 by simp
      fix va' assume b: "below_window va'"
      show "mapping s2 va' = (if ?b \<le> unat va' div 4096 \<and> unat va' div 4096 < ?b + Suc (unat i)
        then mapped_entry (?P + word_of_nat (unat va' div 4096 - ?b) * PAGE_SIZE) flags else mapping s va')"
      proof (cases "unat va' div 4096 = ?b + unat i")
        case True
        then show ?thesis using s2'(3) b sp s2 by simp
      next
        case False
        then show ?thesis using s2'(3) b sp s2 I by (auto simp: range_mapped_def)
      qed
    qed
  qed
qed

lemma div_add_small: "(b :: nat) mod 1024 + i < 1024 \<Longrightarrow> (b + i) div 1024 = b div 1024"
  using div_add1_eq [of b i 1024] by simp

text \<open>
  A range that lies in one directory entry can be mapped as soon as its table can be had: the
  first page makes the table present, and the others use it.
\<close>

lemma map_pages_one_table:
  assumes wf: "vmm_wf s" and fl: "present flags" and av: "table_available s va"
    and bound: "unat va div 4096 + unat n \<le> 1047552"
    and one: "unat va div 4096 mod 1024 + unat n \<le> 1024"
  shows "\<exists>s'. map_pages s va pa n flags = Inr s' \<and> range_mapped s va pa flags (unat n) s' \<and>
    pmm_used (vpmm s) \<subseteq> pmm_used (vpmm s')"
proof -
  let ?V = "fst (align_address va)" and ?P = "fst (align_address pa)" and ?b = "unat va div 4096"
  let ?f = "\<lambda>i s. map_page_locked s (?V + i * PAGE_SIZE) (?P + i * PAGE_SIZE) flags"
  define I where "I k s' \<longleftrightarrow> vmm_wf s' \<and> pmm_used (vpmm s) \<subseteq> pmm_used (vpmm s') \<and>
    (if k = (0 :: nat) then s' = s else present (pde s' (pde_index va)))" for k s'
  have "\<exists>s'. for_u32 0 n ?f s = Inr s' \<and> I (unat n) s'"
  proof (rule for_u32_total)
    show "I (unat (0 :: u32)) s" using wf by (simp add: I_def)
    show "0 \<le> n" by (simp add: u32_le_iff)
    fix i :: u32 and s1
    assume "i < n" and I: "I (unat i) s1"
    then have lt: "unat i < unat n" by (simp add: u32_less_iff)
    let ?a = "?V + i * PAGE_SIZE"
    have ui: "unat ?a = 4096 * (?b + unat i)" using page_step [of ?V i] lt bound by simp
    have "?b + unat i < 1047552" using lt bound by linarith
    then have bw: "below_window ?a"
      using ui by (simp add: below_window_def u32_less_iff PT_BASE_def RECURSIVE_PT_BASE_def)
    have "(?b + unat i) div 1024 = ?b div 1024" using one lt by (intro div_add_small) simp
    then have pi: "pde_index ?a = pde_index va"
      by (simp add: u32_eq_iff unat_pde_index ui div_mult2_eq [symmetric])
    have "table_available s1 ?a"
    proof (cases "unat i = 0")
      case True
      then show ?thesis using I av pi by (simp add: I_def table_available_def)
    next
      case False
      then show ?thesis using I pi by (simp add: I_def table_available_def)
    qed
    then obtain s2 where s2: "?f i s1 = Inr s2" "vmm_wf s2" "pmm_used (vpmm s1) \<subseteq> pmm_used (vpmm s2)"
      "\<forall>va'. below_window va' \<longrightarrow> mapping s2 va' = (if same_page ?a va' then mapped_entry (?P + i * PAGE_SIZE) flags
         else mapping s1 va')"
      using map_page_result [of s1 ?a "?P + i * PAGE_SIZE" flags] I bw by (auto simp: I_def)
    have "mapping s2 ?a \<noteq> None" using s2(4) bw fl by (simp add: mapped_entry_def same_page_def)
    then have "present (pde s2 (pde_index va))" using pi by (auto simp: mapping_def split: if_splits)
    then show "\<exists>s'. ?f i s1 = Inr s' \<and> I (Suc (unat i)) s'" using s2 I by (auto simp: I_def)
  qed
  then obtain s' where s': "map_pages s va pa n flags = Inr s'" "pmm_used (vpmm s) \<subseteq> pmm_used (vpmm s')"
    by (auto simp: map_pages_def Let_def I_def)
  then show ?thesis using map_pages_result [OF wf s'(1) bound] by blast
qed

text \<open>A machine before paging whose frames are all free but frame 0, and the same after \<^verbatim>\<open>init\<close>.\<close>

definition example_flat :: vmm where
  "example_flat = \<lparr>phys = (\<lambda>_. 0), cr3 = 0, paging = False,
     vpmm = \<lparr>mem_mngr = (case mark_units_used PMM_params (bm_init PMM_params) 0 1 of Inr b \<Rightarrow> b | Inl _ \<Rightarrow> bm_init PMM_params),
       available_frames = 0, used_frames = 0\<rparr>, kernel_dir_phys = 0\<rparr>"

definition example_isrs :: "(nat, nat) idt" where
  "example_isrs = \<lparr>isr_handlers = replicate 256 None, irq_handlers = replicate 16 None\<rparr>"

lemma example_isrs_wf: "idt_tables_wf example_isrs"
  by (simp add: idt_tables_wf_def example_isrs_def)

lemma example_flat_pmm: "bm_wf PMM_params (mem_mngr (vpmm example_flat))" "pmm_used (vpmm example_flat) = {0}"
  "\<not> paging example_flat"
proof -
  have bm: "bm_wf PMM_params (bm_init PMM_params)" "bm_used PMM_params (bm_init PMM_params) = {}"
    using bm_init_wf [OF PMM_geometry] by simp_all
  have "0 + unat (1 :: u32) \<le> unat (MAX_UNITS PMM_params)" by simp
  from mark_units_used_result [OF bm(1) this] obtain b where
    "mark_units_used PMM_params (bm_init PMM_params) 0 1 = Inr b" "bm_wf PMM_params b"
    "bm_used PMM_params b = {0}"
    using bm(2) by (auto simp: unit_addr_def)
  then show "bm_wf PMM_params (mem_mngr (vpmm example_flat))" "pmm_used (vpmm example_flat) = {0}"
    by (simp_all add: example_flat_def pmm_used_def)
  show "\<not> paging example_flat" by (simp add: example_flat_def)
qed

lemma alloc_frame_nonzero:
  assumes "bm_wf PMM_params (mem_mngr p)" "0 \<in> pmm_used p" "k < 1048576" "k \<notin> pmm_used p"
  shows "\<exists>a p'. alloc_frame p = Inr (a, p') \<and> a \<noteq> 0"
proof -
  have "{k..<k + unat (1 :: u32)} \<inter> bm_used PMM_params (mem_mngr p) = {}"
    using assms(4) by (auto simp: pmm_used_def less_Suc_eq)
  then obtain a b where "alloc_units PMM_params (mem_mngr p) 1 = Inr (a, b)"
    using frame_bitmap.alloc_available [OF assms(1), of 1 k] assms(3) by (auto simp: u32_less_iff)
  then obtain p' where p': "alloc_frame p = Inr (a, p')" by (auto simp: alloc_frame_def alloc_frames_def)
  then have "a \<noteq> 0" using alloc_frame_result(2) [OF assms(1) p'] assms(2) by auto
  with p' show ?thesis by blast
qed

lemma example_init:
  "\<exists>pd p1 pt p2. alloc_frame (vpmm example_flat) = Inr (pd, p1) \<and> pd \<noteq> 0 \<and>
     alloc_frame p1 = Inr (pt, p2) \<and> pt \<noteq> 0 \<and> 0 \<in> pmm_used p2 \<and> (\<exists>k < 1048576. k \<notin> pmm_used p2)"
proof -
  obtain pd p1 where a: "alloc_frame (vpmm example_flat) = Inr (pd, p1)" "pd \<noteq> 0"
    using alloc_frame_nonzero [OF example_flat_pmm(1), of 1] example_flat_pmm(2) by auto
  note fa = alloc_frame_result [OF example_flat_pmm(1) a(1)]
  have u1: "pmm_used p1 = {unat pd div 4096, 0}" using fa(3) example_flat_pmm(2) by simp
  obtain k1 where k1: "k1 \<in> {1, 2 :: nat}" "k1 \<noteq> unat pd div 4096" 
    using that [of "if unat pd div 4096 = 1 then 2 else 1"] by auto
  then obtain pt p2 where b: "alloc_frame p1 = Inr (pt, p2)" "pt \<noteq> 0"
    using alloc_frame_nonzero [OF fa(4), of k1] u1 by auto
  have u2: "pmm_used p2 = {unat pt div 4096, unat pd div 4096, 0}"
    using alloc_frame_result(3) [OF fa(4) b(1)] u1 by simp
  have "\<exists>k < 1048576. k \<notin> {x, y, 0}" for x y :: nat
    by (rule exI [of _ "if 1 \<notin> {x, y} then 1 else if 2 \<notin> {x, y} then 2 else 3"]) auto
  then show ?thesis using a b u2 by fastforce
qed

lemma example_vmm: "\<exists>s. vmm_wf s \<and> (\<forall>va. table_available s va) \<and> 0 \<in> pmm_used (vpmm s) \<and> data_frame s 0"
proof -
  obtain pd p1 pt p2 k where e: "alloc_frame (vpmm example_flat) = Inr (pd, p1)" "pd \<noteq> 0"
    "alloc_frame p1 = Inr (pt, p2)" "pt \<noteq> 0" "0 \<in> pmm_used p2" "k < 1048576" "k \<notin> pmm_used p2"
    using example_init by blast
  obtain s where s: "vmm_wf s" "vpmm s = p2" "cr3 s = pd" "entry_address (pde s 0) = pt"
    "\<forall>j. unat j < 1023 \<longrightarrow> j \<noteq> 0 \<longrightarrow> \<not> present (pde s j)"
    using vmm_init_result [OF example_flat_pmm(3,1) e(1-4), of example_isrs undefined undefined]
    by (elim exE conjE) (rule that, simp_all)
  have "data_frame s 0" unfolding data_frame_def using s(3-5) e(2,4) by metis
  moreover have "bm_wf PMM_params (mem_mngr p2)" using vmm_wf_facts(4) [OF s(1)] s(2) by simp
  from alloc_frame_nonzero [OF this e(5-7)] s(2) have "table_available s va" for va
    by (auto simp: table_available_def)
  ultimately show ?thesis using s(1,2) e(5) by blast
qed

section \<open>Properties\<close>

text \<open>
  Property C1 (refinement): \<^verbatim>\<open>map_page\<close> does to the page tables what it promises about
  addresses. Whenever the page table exists or can be allocated, it returns, and then the
  processor translates every address of the page to the same offset of the given frame,
  \<^verbatim>\<open>virt_to_phys\<close> reports it, and the translation of every other page outside the recursive
  window is what it was, although the page tables were changed through that window.
\<close>

theorem map_page_translates:
  assumes "vmm_wf s" and "below_window va" and "table_available s va" and "present flags"
  shows "\<exists>s'. map_page s va pa flags = Inr s' \<and> vmm_wf s' \<and>
    (\<forall>va'. same_page va va' \<longrightarrow> translate s' va' = Some (entry_address pa + (va' AND 0xFFF)) \<and>
       virt_to_phys s' va' = Inr (entry_address pa OR (va' AND 0xFFF))) \<and>
    (\<forall>va'. below_window va' \<longrightarrow> \<not> same_page va va' \<longrightarrow> translate s' va' = translate s va')"
proof -
  obtain s' where s': "map_page_locked s va pa flags = Inr s'" "vmm_wf s'"
    "\<forall>va'. below_window va' \<longrightarrow>
      mapping s' va' = (if same_page va va' then mapped_entry pa flags else mapping s va')"
    using map_page_result [OF assms(1-3), of pa flags] by blast
  have bw: "below_window va'" if "same_page va va'" for va'
    using that assms(2) by (simp add: below_window_index same_page_index)
  have entry: "mapped_entry pa flags = Some (entry_update_flags flags (entry_address pa))"
    using assms(4) by (simp add: mapped_entry_def)
  have "translate s' va' = Some (entry_address pa + (va' AND 0xFFF)) \<and>
       virt_to_phys s' va' = Inr (entry_address pa OR (va' AND 0xFFF))" if "same_page va va'" for va'
    using translate_mapping [OF s'(2)] virt_to_phys_mapping(1) [OF s'(2)] s'(3) that bw [OF that] entry
    by (simp add: PAGE_SIZE_def)
  moreover have "translate s' va' = translate s va'" if "below_window va'" "\<not> same_page va va'" for va'
    using translate_mapping [OF s'(2)] translate_mapping [OF assms(1)] s'(3) that by simp
  ultimately show ?thesis using s'(1,2) by (auto simp: map_page_def)
qed

theorem map_page_translates_witness:
  "\<exists>s s'. vmm_wf s \<and> map_page s 0x1000000 0x300000 3 = Inr s' \<and> translate s' 0x1000123 = Some 0x300123"
proof -
  obtain s where s: "vmm_wf s" "table_available s 0x1000000" using example_vmm by blast
  have bw: "below_window 0x1000000" by (simp add: below_window_def PT_BASE_def RECURSIVE_PT_BASE_def u32_less_iff)
  have pr: "present 3" by (simp add: present_def)
  have sp: "same_page 0x1000000 0x1000123" by (simp add: same_page_def)
  from map_page_translates [OF s(1) bw s(2) pr, of "0x300000"] s(1) sp show ?thesis
    by (auto simp: entry_address_def ADDRESS_MASK_def)
qed

lemma vmm_init_translates:
  assumes "\<not> paging s" and "bm_wf PMM_params (mem_mngr (vpmm s))"
    and "alloc_frame (vpmm s) = Inr (pd, p1)" and "pd \<noteq> 0" and "alloc_frame p1 = Inr (pt, p2)" and "pt \<noteq> 0"
  shows "\<exists>s'. vmm_init s t pf tlb = Inr (s', register_isr (register_isr t 14 pf) TLB_SHOOTDOWN_VECTOR tlb) \<and> vmm_wf s' \<and>
    (\<forall>va. below_window va \<longrightarrow> translate s' va = (if va < IDENTITY_WINDOW_SIZE then Some va else None)) \<and> vpmm s' = p2 \<and>
    (\<forall>Q j. page_aligned Q \<longrightarrow> Q \<noteq> pd \<longrightarrow> Q \<noteq> pt \<longrightarrow> unat j < 1024 \<longrightarrow>
      load32 (phys s') (Q + 4 * j) = load32 (phys s) (Q + 4 * j))"
proof -
  let ?t' = "register_isr (register_isr t 14 pf) TLB_SHOOTDOWN_VECTOR tlb"
  obtain s' where s': "vmm_init s t pf tlb = Inr (s', ?t')" "vmm_wf s'"
    "pde s' 0 = entry_update_flags (PG_Present OR PG_Writable) pt"
    "\<forall>j. unat j < 1024 \<longrightarrow> load32 (phys s') (pt + 4 * j) = ident_entry j"
    "\<forall>j. unat j < 1023 \<longrightarrow> j \<noteq> 0 \<longrightarrow> \<not> present (pde s' j)" "entry_address pt = pt" "vpmm s' = p2"
    "\<forall>Q j. page_aligned Q \<longrightarrow> Q \<noteq> pd \<longrightarrow> Q \<noteq> pt \<longrightarrow> unat j < 1024 \<longrightarrow>
      load32 (phys s') (Q + 4 * j) = load32 (phys s) (Q + 4 * j)"
    using vmm_init_result [OF assms(1-6), of t pf tlb] by (elim exE conjE) (rule that, assumption+)
  have "translate s' va = (if va < IDENTITY_WINDOW_SIZE then Some va else None)" if bw: "below_window va" for va
  proof (cases "va < IDENTITY_WINDOW_SIZE")
    case True
    then have lt: "unat va < 4194304" by (simp add: u32_less_iff IDENTITY_WINDOW_SIZE_def)
    then have i0: "pde_index va = 0" by (simp add: u32_eq_iff unat_pde_index)
    have "present (PG_Present OR PG_Writable)" by (simp add: present_bit PG_Present_def PG_Writable_def bit_simps)
    then have "mapping s' va = Some (ident_entry (pte_index va))"
      using s'(3,4,6) i0 ident_entry_facts [OF pte_index_lt, of va] by (simp add: mapping_def raw_pte_def)
    moreover have "pte_index va * 4096 + (va AND 0xFFF) = va"
    proof -
      have idx: "unat (pte_index va) = unat va div 4096" using lt by (simp add: unat_pte_index)
      have "unat (pte_index va * 4096 + (va AND 0xFFF)) = unat va div 4096 * 4096 + unat va mod 4096"
        using ident_entry_facts(3) [OF pte_index_lt, of va] idx lt
        by (subst unat_add_u32) (simp_all add: unat_and_FFF)
      then show ?thesis by (simp add: u32_eq_iff)
    qed
    ultimately show ?thesis using True translate_mapping [OF s'(2)] ident_entry_facts(2) [OF pte_index_lt, of va]
      by simp
  next
    case False
    then have "\<not> unat va < 4194304" by (simp add: u32_less_iff IDENTITY_WINDOW_SIZE_def)
    then have "unat (pde_index va) \<noteq> 0" by (simp add: unat_pde_index)
    then have "pde_index va \<noteq> 0" by auto
    then have "\<not> present (pde s' (pde_index va))" using s'(5) bw by (simp add: below_window_index)
    then show ?thesis using False translate_mapping [OF s'(2)] by (simp add: mapping_def)
  qed
  then show ?thesis using s'(1,2,7,8) by blast
qed

text \<open>
  \<^verbatim>\<open>vmm::init\<close> turns paging on with exactly the bootstrap window
  mapped. Given two free frames, neither of them frame 0, it returns; the directory then
  maps itself, every address below 4 MiB translates to itself, no other address below the
  recursive window translates at all, and the page fault and shootdown handlers are
  registered.
\<close>

theorem vmm_init_identity:
  assumes "\<not> paging s" and "bm_wf PMM_params (mem_mngr (vpmm s))"
    and "alloc_frame (vpmm s) = Inr (pd, p1)" and "pd \<noteq> 0" and "alloc_frame p1 = Inr (pt, p2)" and "pt \<noteq> 0"
    and "idt_tables_wf t"
  shows "\<exists>s' t'. vmm_init s t pf tlb = Inr (s', t') \<and> vmm_wf s' \<and>
    (\<forall>va. below_window va \<longrightarrow> translate s' va = (if va < IDENTITY_WINDOW_SIZE then Some va else None)) \<and>
    isr_handlers t' ! 14 = Some pf \<and> isr_handlers t' ! 49 = Some tlb"
proof -
  let ?t' = "register_isr (register_isr t 14 pf) TLB_SHOOTDOWN_VECTOR tlb"
  have "isr_handlers ?t' ! 14 = Some pf" "isr_handlers ?t' ! 49 = Some tlb"
    using assms(7) by (simp_all add: register_isr_def idt_tables_wf_def TLB_SHOOTDOWN_VECTOR_def)
  then show ?thesis using vmm_init_translates [OF assms(1-6), of t pf tlb] by blast
qed

theorem vmm_init_identity_witness:
  "\<exists>s' t'. vmm_init example_flat example_isrs (\<lambda>_ _. Inr) (\<lambda>_ _. Inr) = Inr (s', t') \<and>
     translate s' 0x123456 = Some 0x123456 \<and> translate s' 0x500000 = None"
proof -
  obtain pd p1 pt p2 where e: "alloc_frame (vpmm example_flat) = Inr (pd, p1)" "pd \<noteq> 0"
    "alloc_frame p1 = Inr (pt, p2)" "pt \<noteq> 0"
    using example_init by blast
  have bw: "below_window 0x123456" "below_window 0x500000"
    by (simp_all add: below_window_def PT_BASE_def RECURSIVE_PT_BASE_def u32_less_iff)
  have lt: "(0x123456 :: u32) < IDENTITY_WINDOW_SIZE" "\<not> (0x500000 :: u32) < IDENTITY_WINDOW_SIZE"
    by (simp_all add: IDENTITY_WINDOW_SIZE_def u32_less_iff)
  from vmm_init_identity [OF example_flat_pmm(3,1) e example_isrs_wf, of "\<lambda>_ _. Inr" "\<lambda>_ _. Inr"]
  obtain s' t' where "vmm_init example_flat example_isrs (\<lambda>_ _. Inr) (\<lambda>_ _. Inr) = Inr (s', t')"
    "\<forall>va. below_window va \<longrightarrow> translate s' va = (if va < IDENTITY_WINDOW_SIZE then Some va else None)" by blast
  with bw lt show ?thesis by auto
qed

text \<open>
  \<^verbatim>\<open>map_pages\<close> maps a contiguous range. When it returns for a range
  that ends below the recursive window, page number \<open>k\<close> of the range translates to page
  number \<open>k\<close> from the given physical page on, offset by offset, and every other page keeps
  its translation. The heap, the module loader and the ACPI code map their memory with it.
\<close>

theorem map_pages_contiguous:
  assumes "vmm_wf s" and "map_pages s va pa n flags = Inr s'" and "present flags"
    and "unat va div 4096 + unat n \<le> 1047552" and "below_window va'"
  shows "vmm_wf s' \<and> translate s' va' =
    (if unat va div 4096 \<le> unat va' div 4096 \<and> unat va' div 4096 < unat va div 4096 + unat n
     then Some (entry_address (fst (align_address pa) +
       word_of_nat (unat va' div 4096 - unat va div 4096) * PAGE_SIZE) + (va' AND 0xFFF))
     else translate s va')"
proof -
  from map_pages_result [OF assms(1,2,4)] have wf: "vmm_wf s'" and m: "mapping s' va' =
     (if unat va div 4096 \<le> unat va' div 4096 \<and> unat va' div 4096 < unat va div 4096 + unat n
      then mapped_entry (fst (align_address pa) + word_of_nat (unat va' div 4096 - unat va div 4096) * PAGE_SIZE) flags
      else mapping s va')" using assms(5) unfolding range_mapped_def by blast+
  show ?thesis using wf assms(3)
    unfolding translate_mapping [OF wf] translate_mapping [OF assms(1)] m by (simp add: mapped_entry_def)
qed

theorem map_pages_contiguous_witness:
  "\<exists>s s'. vmm_wf s \<and> map_pages s 0x1000000 0x300000 1 3 = Inr s' \<and> translate s' 0x1000abc = Some 0x300abc"
proof -
  obtain s where s: "vmm_wf s" "table_available s 0x1000000" using example_vmm by blast
  have bw: "below_window 0x1000000" "below_window 0x1000abc"
    by (simp_all add: below_window_def PT_BASE_def RECURSIVE_PT_BASE_def u32_less_iff)
  have al: "fst (align_address 0x1000000) = 0x1000000" "fst (align_address 0x300000) = 0x300000"
    by (simp_all add: align_address_def PAGE_MASK_def)
  obtain s' where s': "map_page_locked s 0x1000000 0x300000 3 = Inr s'"
    using map_page_result [OF s(1) bw(1) s(2)] by blast
  have "map_pages s 0x1000000 0x300000 1 3 = Inr s'"
    using s' by (simp add: map_pages_def al for_u32_step u32_less_iff)
  moreover have "translate s' 0x1000abc = Some 0x300abc"
    using map_pages_contiguous [OF s(1) calculation _ _ bw(2)]
    by (simp add: present_def al entry_address_def ADDRESS_MASK_def)
  ultimately show ?thesis using s(1) by blast
qed

text \<open>
  Property C15 (roundtrip): unmapping undoes mapping, except for the frame. After a frame was
  allocated, mapped at an unmapped address and unmapped again, the address does not
  translate, every other translation is what it was and the frame is free; for an address
  with no mapping \<^verbatim>\<open>unmap_page\<close> does nothing, and a second unmap is such a case.
\<close>

theorem map_unmap_roundtrip:
  assumes "vmm_wf s" and "below_window va" and "table_available s va" and "present flags"
    and "page_aligned pa" and "unat pa div 4096 \<in> pmm_used (vpmm s)" and "data_frame s pa"
  shows "\<exists>s1 s2. map_page s va pa flags = Inr s1 \<and> unmap_page s1 va = Inr s2 \<and> vmm_wf s2 \<and>
    translate s2 va = None \<and> unat pa div 4096 \<notin> pmm_used (vpmm s2) \<and>
    (\<forall>va'. below_window va' \<longrightarrow> \<not> same_page va va' \<longrightarrow> translate s2 va' = translate s va') \<and>
    unmap_page s2 va = Inr s2"
proof -
  obtain s1 where s1: "map_page_locked s va pa flags = Inr s1" "vmm_wf s1"
    "pmm_used (vpmm s) \<subseteq> pmm_used (vpmm s1)"
    "\<forall>va'. below_window va' \<longrightarrow>
      mapping s1 va' = (if same_page va va' then mapped_entry pa flags else mapping s va')"
    "data_frame s1 pa"
    using map_page_result [OF assms(1-3), of pa flags] assms(6,7) by blast
  have self: "same_page va va" by (simp add: same_page_def)
  let ?v = "entry_update_flags flags (entry_address pa)"
  have mva: "mapping s1 va = Some ?v" "entry_address ?v = pa"
    using s1(4) assms(2,4,5) self by (simp_all add: mapped_entry_def entry_address_aligned)
  have "unat pa div 4096 \<in> pmm_used (vpmm s1)" using s1(3) assms(6) by blast
  then obtain s2 where s2: "unmap_page_locked s1 va = Inr s2" "vmm_wf s2"
    "pmm_used (vpmm s2) = pmm_used (vpmm s1) - {unat pa div 4096}"
    "\<forall>va'. below_window va' \<longrightarrow> mapping s2 va' = (if same_page va va' then None else mapping s1 va')"
    using unmap_page_result [OF s1(2) assms(2)] mva s1(5) by auto
  have n: "mapping s2 va = None" using s2(4) assms(2) self by simp
  have "unmap_page_locked s2 va = Inr s2" using unmap_page_result [OF s2(2) assms(2)] n by simp
  moreover have "translate s2 va' = translate s va'" if "below_window va'" "\<not> same_page va va'" for va'
    using that s2(4) s1(4) translate_mapping [OF s2(2)] translate_mapping [OF assms(1)] by simp
  moreover have "translate s2 va = None" using n translate_mapping [OF s2(2)] by simp
  ultimately show ?thesis using s1(1) s2 by (auto simp: unmap_page_def map_page_def)
qed

theorem map_unmap_roundtrip_witness:
  "\<exists>s s1 s2. vmm_wf s \<and> 0 \<in> pmm_used (vpmm s) \<and> map_page s 0x1000000 0 3 = Inr s1 \<and>
     unmap_page s1 0x1000000 = Inr s2 \<and> 0 \<notin> pmm_used (vpmm s2)"
proof -
  obtain s where s: "vmm_wf s" "table_available s 0x1000000" "0 \<in> pmm_used (vpmm s)" "data_frame s 0"
    using example_vmm by blast
  have bw: "below_window 0x1000000" by (simp add: below_window_def PT_BASE_def RECURSIVE_PT_BASE_def u32_less_iff)
  have pr: "present 3" by (simp add: present_def)
  from map_unmap_roundtrip [OF s(1) bw s(2) pr, of 0] s show ?thesis
    by (auto simp: page_aligned_def)
qed

end
