(* ===== verification/CList.thy ===== *)
theory CList
  imports Kernel_Prelude
begin

text \<open>
  \<^verbatim>\<open>klibcpp/cllist.hpp\<close>: intrusive circular doubly linked lists, as the heap links its free
  chunks. The nodes live in a memory of dwords: \<^verbatim>\<open>next\<close> is the dword at the node's address,
  \<^verbatim>\<open>prev\<close> the one after it. The memory is partial, and an access outside of it is a page
  fault. \<open>dlist m h xs\<close> says that the nodes \<open>xs\<close>, in this order, form the list of \<open>h\<close>.
\<close>

section \<open>Memory of dwords\<close>

type_synonym dmem = "u32 \<rightharpoonup> u32"

definition dload :: "dmem \<Rightarrow> u32 \<Rightarrow> u32 kres" where
  "dload m a = (case m a of None \<Rightarrow> Inl (Page_Fault a) | Some v \<Rightarrow> Inr v)"

definition dstore :: "dmem \<Rightarrow> u32 \<Rightarrow> u32 \<Rightarrow> dmem kres" where
  "dstore m a v = (case m a of None \<Rightarrow> Inl (Page_Fault a) | Some _ \<Rightarrow> Inr (m(a \<mapsto> v)))"

definition get_next :: "dmem \<Rightarrow> u32 \<Rightarrow> u32 kres" where
  "get_next m p = dload m p"

definition get_prev :: "dmem \<Rightarrow> u32 \<Rightarrow> u32 kres" where
  "get_prev m p = dload m (p + 4)"

definition set_next :: "dmem \<Rightarrow> u32 \<Rightarrow> u32 \<Rightarrow> dmem kres" where
  "set_next m p q = dstore m p q"

definition set_prev :: "dmem \<Rightarrow> u32 \<Rightarrow> u32 \<Rightarrow> dmem kres" where
  "set_prev m p q = dstore m (p + 4) q"

section \<open>Operations\<close>

definition INIT_LIST_HEAD :: "dmem \<Rightarrow> u32 \<Rightarrow> dmem kres" where
  "INIT_LIST_HEAD m p = bindR (set_next m p p) (\<lambda>m. set_prev m p p)"

definition list_add_between :: "dmem \<Rightarrow> u32 \<Rightarrow> u32 \<Rightarrow> u32 \<Rightarrow> dmem kres" where
  "list_add_between m new prev next =
     bindR (set_prev m next new) (\<lambda>m.
     bindR (set_next m new next) (\<lambda>m.
     bindR (set_prev m new prev) (\<lambda>m.
     set_next m prev new)))"

definition list_add :: "dmem \<Rightarrow> u32 \<Rightarrow> u32 \<Rightarrow> dmem kres" where
  "list_add m new h = bindR (get_next m h) (\<lambda>next. list_add_between m new h next)"

definition list_add_tail :: "dmem \<Rightarrow> u32 \<Rightarrow> u32 \<Rightarrow> dmem kres" where
  "list_add_tail m new h = bindR (get_prev m h) (\<lambda>prev. list_add_between m new prev h)"

definition list_del_between :: "dmem \<Rightarrow> u32 \<Rightarrow> u32 \<Rightarrow> dmem kres" where
  "list_del_between m prev next = bindR (set_prev m next prev) (\<lambda>m. set_next m prev next)"

definition list_del_entry :: "dmem \<Rightarrow> u32 \<Rightarrow> dmem kres" where
  "list_del_entry m entry =
     bindR (get_prev m entry) (\<lambda>prev. bindR (get_next m entry) (\<lambda>next. list_del_between m prev next))"

definition list_del :: "dmem \<Rightarrow> u32 \<Rightarrow> dmem kres" where
  "list_del m entry = bindR (list_del_entry m entry) (\<lambda>m.
     bindR (set_next m entry 0) (\<lambda>m. set_prev m entry 0))"

definition list_del_init :: "dmem \<Rightarrow> u32 \<Rightarrow> dmem kres" where
  "list_del_init m entry = bindR (list_del_entry m entry) (\<lambda>m. INIT_LIST_HEAD m entry)"

definition list_move :: "dmem \<Rightarrow> u32 \<Rightarrow> u32 \<Rightarrow> dmem kres" where
  "list_move m node h = bindR (list_del_entry m node) (\<lambda>m. list_add m node h)"

definition list_move_tail :: "dmem \<Rightarrow> u32 \<Rightarrow> u32 \<Rightarrow> dmem kres" where
  "list_move_tail m node h = bindR (list_del_entry m node) (\<lambda>m. list_add_tail m node h)"

definition list_empty :: "dmem \<Rightarrow> u32 \<Rightarrow> bool kres" where
  "list_empty m h = bindR (get_next m h) (\<lambda>next. Inr (next = h \<or> next = 0))"

text \<open>
  \<^verbatim>\<open>list_for_each\<close> with a body that folds a state and may break off: the node where the loop
  stopped, or \<open>h\<close> when it ran through, and the final state. A list that does not lead back
  to \<open>h\<close> makes the loop run forever, which is \<open>None\<close>.
\<close>

partial_function (option) list_walk ::
  "dmem \<Rightarrow> u32 \<Rightarrow> (u32 \<Rightarrow> 's \<Rightarrow> (bool \<times> 's) kres) \<Rightarrow> u32 \<Rightarrow> 's \<Rightarrow> (u32 \<times> 's) kres option" where
  [code]: "list_walk m h body pos s =
     (if pos = h then Some (Inr (h, s))
      else case body pos s of
        Inl e \<Rightarrow> Some (Inl e)
      | Inr (stop, s') \<Rightarrow>
          if stop then Some (Inr (pos, s'))
          else case get_next m pos of
            Inl e \<Rightarrow> Some (Inl e)
          | Inr next \<Rightarrow> list_walk m h body next s')"

definition list_for_each ::
  "dmem \<Rightarrow> u32 \<Rightarrow> (u32 \<Rightarrow> 's \<Rightarrow> (bool \<times> 's) kres) \<Rightarrow> 's \<Rightarrow> (u32 \<times> 's) kres option" where
  "list_for_each m h body s =
     (case get_next m h of Inl e \<Rightarrow> Some (Inl e) | Inr pos \<Rightarrow> list_walk m h body pos s)"

definition list_size :: "dmem \<Rightarrow> u32 \<Rightarrow> u32 kres option" where
  "list_size m h =
     (case list_for_each m h (\<lambda>_ n. Inr (False, n + 1)) 0 of
        None \<Rightarrow> None | Some (Inl e) \<Rightarrow> Some (Inl e) | Some (Inr (_, n)) \<Rightarrow> Some (Inr n))"

section \<open>Representation\<close>

text \<open>The links along \<open>a # xs\<close>, in both directions.\<close>

definition link :: "dmem \<Rightarrow> u32 \<Rightarrow> u32 \<Rightarrow> bool" where
  "link m a b \<longleftrightarrow> m a = Some b \<and> m (b + 4) = Some a"

primrec dpath :: "dmem \<Rightarrow> u32 \<Rightarrow> u32 list \<Rightarrow> bool" where
  "dpath m a [] \<longleftrightarrow> True"
| "dpath m a (x # xs) \<longleftrightarrow> link m a x \<and> dpath m x xs"

text \<open>Nodes lie at multiples of eight, so that the fields of different nodes do not overlap.\<close>

definition node :: "u32 \<Rightarrow> bool" where
  "node p \<longleftrightarrow> unat p mod 8 = 0 \<and> p \<noteq> 0"

definition dlist :: "dmem \<Rightarrow> u32 \<Rightarrow> u32 list \<Rightarrow> bool" where
  "dlist m h xs \<longleftrightarrow> distinct (h # xs) \<and> (\<forall>p \<in> set (h # xs). node p) \<and> dpath m h (xs @ [h])"

lemma dpath_append: "dpath m a (xs @ ys) \<longleftrightarrow> dpath m a xs \<and> dpath m (last (a # xs)) ys"
  by (induction xs arbitrary: a) auto

lemma dpath_frame:
  assumes "dpath m a xs" "\<And>q. q \<in> set (butlast (a # xs)) \<Longrightarrow> m' q = m q"
    "\<And>q. q \<in> set xs \<Longrightarrow> m' (q + 4) = m (q + 4)"
  shows "dpath m' a xs"
  using assms
proof (induction xs arbitrary: a)
  case (Cons x xs)
  have "dpath m' x xs" by (rule Cons.IH) (use Cons.prems in auto)
  then show ?case using Cons.prems by (auto simp: link_def)
qed simp

lemma node_plus_4: "node p \<Longrightarrow> unat (p + 4) = unat p + 4"
proof -
  assume "node p"
  then obtain q where q: "unat p = 8 * q" by (auto simp: node_def)
  have "unat p < 4294967296" by simp
  then have "q < 536870912" using q by simp
  then show ?thesis using q by (simp add: unat_add_u32)
qed

lemma node_fields: "node p \<Longrightarrow> node q \<Longrightarrow> p + 4 \<noteq> q"
proof
  assume n: "node p" "node q" and "p + 4 = q"
  then have eq: "unat q = unat p + 4" using node_plus_4 by auto
  obtain k where "unat p = 8 * k" using n(1) by (auto simp: node_def)
  moreover obtain l where "unat q = 8 * l" using n(2) by (auto simp: node_def)
  ultimately have "8 * l = 8 * k + 4" using eq by simp
  then show False by presburger
qed

text \<open>A list with a marked place: the node before it and the node at it are linked.\<close>

lemma cons_hd_tl: "zs @ [h] = hd (zs @ [h]) # tl (zs @ [h])"
  by (cases zs) simp_all

lemma dlist_split:
  "dlist m h (ys @ zs) \<longleftrightarrow> distinct (h # ys @ zs) \<and> (\<forall>p \<in> set (h # ys @ zs). node p) \<and> dpath m h ys \<and>
     link m (last (h # ys)) (hd (zs @ [h])) \<and> dpath m (hd (zs @ [h])) (tl (zs @ [h]))"
proof -
  have "dpath m h ((ys @ zs) @ [h]) \<longleftrightarrow> dpath m h ys \<and> dpath m (last (h # ys)) (zs @ [h])"
    using dpath_append [of m h ys "zs @ [h]"] by simp
  also have "dpath m (last (h # ys)) (zs @ [h]) \<longleftrightarrow> link m (last (h # ys)) (hd (zs @ [h])) \<and>
      dpath m (hd (zs @ [h])) (tl (zs @ [h]))"
    by (cases zs) simp_all
  finally show ?thesis unfolding dlist_def by blast
qed

lemma marked_nodes:
  "last (h # ys) \<in> set (h # ys)" "hd (zs @ [h]) \<in> set (h # zs)"
  by (cases ys rule: rev_cases; cases zs; simp)+

lemma butlast_tl: "butlast (hd (zs @ [h]) # tl (zs @ [h])) = zs"
  by (metis cons_hd_tl butlast_snoc)

text \<open>The two parts on either side of the place do not use the two links across it.\<close>

lemma dpath_parts_frame:
  assumes d: "distinct (h # ys @ zs)" and nd: "\<forall>p \<in> set (h # ys @ zs). node p"
    and p1: "dpath m h ys" and p2: "dpath m (hd (zs @ [h])) (tl (zs @ [h]))"
    and same: "\<And>q. q \<in> set (h # ys @ zs) \<Longrightarrow> q \<noteq> last (h # ys) \<Longrightarrow> m' q = m q"
      "\<And>q. q \<in> set (h # ys @ zs) \<Longrightarrow> q \<noteq> hd (zs @ [h]) \<Longrightarrow> m' (q + 4) = m (q + 4)"
  shows "dpath m' h ys" "dpath m' (hd (zs @ [h])) (tl (zs @ [h]))"
proof -
  have bl: "q \<noteq> last (h # ys) \<and> q \<in> set (h # ys)" if "q \<in> set (butlast (h # ys))" for q
  proof -
    have "h # ys = butlast (h # ys) @ [last (h # ys)]" by simp
    moreover have "distinct (h # ys)" using d by auto
    ultimately have "last (h # ys) \<notin> set (butlast (h # ys))"
      by (metis distinct_append disjoint_insert(1) list.simps(15))
    then show ?thesis using that by (auto dest: in_set_butlastD)
  qed
  have hd_ys: "hd (zs @ [h]) \<notin> set ys" using d by (cases zs) auto
  have hd_tl: "hd (zs @ [h]) \<notin> set (tl (zs @ [h]))" using d by (cases zs) auto
  have tl_in: "set (tl (zs @ [h])) \<subseteq> set (h # zs)" by (cases zs) auto
  have last_zs: "last (h # ys) \<notin> set zs" using d marked_nodes(1) [of h ys] by auto
  show "dpath m' h ys"
    using p1 by (rule dpath_frame) (use bl same hd_ys in \<open>auto\<close>)
  show "dpath m' (hd (zs @ [h])) (tl (zs @ [h]))"
    using p2
  proof (rule dpath_frame)
    fix q assume "q \<in> set (butlast (hd (zs @ [h]) # tl (zs @ [h])))"
    then have "q \<in> set zs" by (simp only: butlast_tl)
    then show "m' q = m q" using same(1) [of q] last_zs by auto
  next
    fix q assume q: "q \<in> set (tl (zs @ [h]))"
    then have "q \<noteq> hd (zs @ [h])" "q \<in> set (h # ys @ zs)" using hd_tl tl_in by auto
    then show "m' (q + 4) = m (q + 4)" by (rule same(2) [rotated])
  qed
qed

section \<open>Insertion and removal\<close>

lemma dload_Some [simp]: "m a = Some v \<Longrightarrow> dload m a = Inr v"
  by (simp add: dload_def)

lemma dstore_eq: "m a \<noteq> None \<Longrightarrow> dstore m a w = Inr (m(a \<mapsto> w))"
  by (auto simp: dstore_def)

definition linked :: "dmem \<Rightarrow> u32 \<Rightarrow> u32 \<Rightarrow> u32 \<Rightarrow> dmem" where
  "linked m new p n = m(n + 4 \<mapsto> new, new \<mapsto> n, new + 4 \<mapsto> p, p \<mapsto> new)"

definition unlinked :: "dmem \<Rightarrow> u32 \<Rightarrow> u32 \<Rightarrow> dmem" where
  "unlinked m p n = m(n + 4 \<mapsto> p, p \<mapsto> n)"

lemma list_add_between_eq:
  assumes "m (n + 4) \<noteq> None" "m new \<noteq> None" "m (new + 4) \<noteq> None" "m p \<noteq> None"
  shows "list_add_between m new p n = Inr (linked m new p n)"
  using assms by (simp add: list_add_between_def set_prev_def set_next_def dstore_eq linked_def)

lemma list_del_between_eq:
  assumes "m (n + 4) \<noteq> None" "m p \<noteq> None"
  shows "list_del_between m p n = Inr (unlinked m p n)"
  using assms by (simp add: list_del_between_def set_prev_def set_next_def dstore_eq unlinked_def)

lemma dlist_link:
  assumes l: "dlist m h (ys @ zs)" and new: "node new" "new \<notin> set (h # ys @ zs)"
  shows "dlist (linked m new (last (h # ys)) (hd (zs @ [h]))) h (ys @ new # zs)"
proof -
  let ?p = "last (h # ys)" and ?n = "hd (zs @ [h])"
  let ?m = "linked m new ?p ?n"
  have d: "distinct (h # ys @ zs)" and nd: "\<forall>p \<in> set (h # ys @ zs). node p" and p1: "dpath m h ys"
    and lk: "link m ?p ?n" and p2: "dpath m ?n (tl (zs @ [h]))"
    using l unfolding dlist_split by blast+
  have p: "?p \<in> set (h # ys @ zs)" "?n \<in> set (h # ys @ zs)"
    using marked_nodes(1) [of h ys] marked_nodes(2) [of zs h] by auto
  then have np: "node ?p" "node ?n" using nd by blast+
  have ne: "?p \<noteq> new" "?n \<noteq> new" using p new(2) by metis+
  have f: "a + 4 \<noteq> b" if "node a" "node b" for a b using node_fields [OF that] .
  have nx: "?m q = m q" if "q \<in> set (h # ys @ zs)" "q \<noteq> ?p" for q
  proof -
    have "node q" "q \<noteq> new" using that(1) nd new(2) by blast+
    then show ?thesis using that(2) f [OF np(2), of q] f [OF new(1), of q] by (auto simp: linked_def)
  qed
  have pv: "?m (q + 4) = m (q + 4)" if "q \<in> set (h # ys @ zs)" "q \<noteq> ?n" for q
  proof -
    have "node q" "q \<noteq> new" using that(1) nd new(2) by blast+
    then show ?thesis using that(2) f [of q new] f [of q ?p] new(1) np(1) by (auto simp: linked_def)
  qed
  note parts = dpath_parts_frame [OF d nd p1 p2 nx pv]
  have "link ?m ?p new" "link ?m new ?n"
    using ne f [OF np(2) new(1)] f [OF np(2) np(1)] f [OF new(1) new(1)] f [OF new(1) np(1)]
      f [OF np(2) np(1)] by (auto simp: link_def linked_def)
  then have "dpath ?m h (ys @ new # zs @ [h])"
    using parts unfolding dpath_append by (cases zs) simp_all
  then show ?thesis using d nd new by (auto simp: dlist_def)
qed

lemma dlist_unlink:
  assumes l: "dlist m h (ys @ x # zs)"
  shows "dlist (unlinked m (last (h # ys)) (hd (zs @ [h]))) h (ys @ zs)"
proof -
  let ?p = "last (h # ys)" and ?n = "hd (zs @ [h])"
  let ?m = "unlinked m ?p ?n"
  have d: "distinct (h # ys @ zs)" and nd: "\<forall>p \<in> set (h # ys @ zs). node p" and p1: "dpath m h ys"
    using l unfolding dlist_def by (auto simp: dpath_append)
  have p2: "dpath m ?n (tl (zs @ [h]))"
    using l unfolding dlist_split [of m h ys "x # zs"] by (cases zs) simp_all
  have p: "?p \<in> set (h # ys @ zs)" "?n \<in> set (h # ys @ zs)"
    using marked_nodes(1) [of h ys] marked_nodes(2) [of zs h] by auto
  then have np: "node ?p" "node ?n" using nd by blast+
  have nx: "?m q = m q" if "q \<in> set (h # ys @ zs)" "q \<noteq> ?p" for q
  proof -
    have "node q" using that(1) nd by blast
    then show ?thesis using that(2) node_fields [OF np(2)] by (auto simp: unlinked_def)
  qed
  have pv: "?m (q + 4) = m (q + 4)" if "q \<in> set (h # ys @ zs)" "q \<noteq> ?n" for q
  proof -
    have "node q" using that(1) nd by blast
    then show ?thesis using that(2) node_fields [of q ?p] np(1) by (auto simp: unlinked_def)
  qed
  note parts = dpath_parts_frame [OF d nd p1 p2 nx pv]
  have "link ?m ?p ?n" using node_fields [OF np(2) np(1)] by (auto simp: link_def unlinked_def)
  then show ?thesis using parts d nd unfolding dlist_split by blast
qed

text \<open>\<^verbatim>\<open>list_add_tail\<close> at any node of the list, or at its head, puts the new node before it.\<close>

lemma list_add_tail_at:
  assumes l: "dlist m h (ys @ zs)" and new: "node new" "new \<notin> set (h # ys @ zs)"
    "m new \<noteq> None" "m (new + 4) \<noteq> None"
  shows "list_add_tail m new (hd (zs @ [h])) = Inr (linked m new (last (h # ys)) (hd (zs @ [h])))"
    and "dlist (linked m new (last (h # ys)) (hd (zs @ [h]))) h (ys @ new # zs)"
proof -
  have lk: "link m (last (h # ys)) (hd (zs @ [h]))" using l unfolding dlist_split by blast
  then show "list_add_tail m new (hd (zs @ [h])) = Inr (linked m new (last (h # ys)) (hd (zs @ [h])))"
    using new(3,4) list_add_between_eq [of m "hd (zs @ [h])" new "last (h # ys)"]
    by (simp add: list_add_tail_def get_prev_def link_def)
  show "dlist (linked m new (last (h # ys)) (hd (zs @ [h]))) h (ys @ new # zs)"
    by (rule dlist_link [OF l new(1,2)])
qed

lemma list_del_entry_at:
  assumes l: "dlist m h (ys @ x # zs)"
  shows "list_del_entry m x = Inr (unlinked m (last (h # ys)) (hd (zs @ [h])))"
    and "dlist (unlinked m (last (h # ys)) (hd (zs @ [h]))) h (ys @ zs)"
proof -
  have l1: "link m (last (h # ys)) x" using l dlist_split [of m h ys "x # zs"] by simp
  have l2: "link m x (hd (zs @ [h]))" using l dlist_split [of m h "ys @ [x]" zs] by simp
  show "list_del_entry m x = Inr (unlinked m (last (h # ys)) (hd (zs @ [h])))"
    using l1 l2 list_del_between_eq [of m "hd (zs @ [h])" "last (h # ys)"]
    by (simp add: list_del_entry_def get_prev_def get_next_def link_def)
  show "dlist (unlinked m (last (h # ys)) (hd (zs @ [h]))) h (ys @ zs)" by (rule dlist_unlink [OF l])
qed

lemma list_empty_iff: "dlist m h xs \<Longrightarrow> list_empty m h = Inr (xs = [])"
  by (cases xs) (auto simp: dlist_def list_empty_def get_next_def link_def node_def)

section \<open>Walking\<close>

text \<open>The walk over a list is a search with a state.\<close>

primrec walk_list :: "u32 \<Rightarrow> (u32 \<Rightarrow> 's \<Rightarrow> (bool \<times> 's) kres) \<Rightarrow> u32 list \<Rightarrow> 's \<Rightarrow> (u32 \<times> 's) kres" where
  "walk_list h body [] s = Inr (h, s)"
| "walk_list h body (x # xs) s = bindR (body x s) (\<lambda>(stop, s').
     if stop then Inr (x, s') else walk_list h body xs s')"

lemma list_walk_eq:
  assumes "h \<notin> set xs" "dpath m x (xs @ [h])" "x \<noteq> h"
  shows "list_walk m h body x s = Some (walk_list h body (x # xs) s)"
  using assms
proof (induction xs arbitrary: x s)
  case Nil
  then have "list_walk m h body h s' = Some (Inr (h, s'))" for s' by (subst list_walk.simps) simp
  then show ?case using Nil
    by (subst list_walk.simps) (auto simp: get_next_def link_def split: sum.splits)
next
  case (Cons y ys)
  then have "list_walk m h body y s' = Some (walk_list h body (y # ys) s')" for s'
    using Cons.IH [of y s'] by auto
  then show ?case using Cons.prems
    by (subst list_walk.simps) (auto simp: get_next_def link_def split: sum.splits)
qed

lemma list_for_each_eq:
  assumes "dlist m h xs"
  shows "list_for_each m h body s = Some (walk_list h body xs s)"
proof (cases xs)
  case Nil
  then show ?thesis using assms
    by (simp add: list_for_each_def dlist_def get_next_def link_def list_walk.simps)
next
  case (Cons x ys)
  then have "list_walk m h body x s = Some (walk_list h body xs s)"
    using list_walk_eq [of h ys m x body s] assms by (auto simp: dlist_def)
  then show ?thesis using Cons assms
    by (simp add: list_for_each_def dlist_def get_next_def link_def)
qed

section \<open>Properties\<close>

lemma walk_count: "walk_list h (\<lambda>_ n. Inr (False, n + 1)) xs k = Inr (h, k + word_of_nat (length xs))"
  by (induction xs arbitrary: k) (simp_all add: algebra_simps)

text \<open>
  Property C31 (refinement): the list operations on linked nodes are the operations on
  sequences. \<^verbatim>\<open>list_add\<close> puts a node at the front, \<^verbatim>\<open>list_add_tail\<close> at the end (and, given an
  inner node, before that node), \<^verbatim>\<open>__list_del_entry\<close> takes out exactly the given node
  wherever it stands, and \<^verbatim>\<open>list_size\<close> ends and counts the nodes modulo 2^32.
\<close>

theorem list_operations_refine:
  assumes "dlist m h (ys @ zs)" and "node new" and "new \<notin> set (h # ys @ zs)"
    and "m new \<noteq> None" and "m (new + 4) \<noteq> None"
  shows "\<exists>m1 m2 m3 m4. list_add m new h = Inr m1 \<and> dlist m1 h (new # ys @ zs) \<and>
    list_add_tail m new h = Inr m2 \<and> dlist m2 h (ys @ zs @ [new]) \<and>
    list_add_tail m new (hd (zs @ [h])) = Inr m3 \<and> dlist m3 h (ys @ new # zs) \<and>
    list_del_entry m3 new = Inr m4 \<and> dlist m4 h (ys @ zs) \<and>
    list_size m3 h = Some (Inr (word_of_nat (length ys + length zs + 1)))"
proof -
  note at = list_add_tail_at [OF assms]
  have l0: "dlist m h ([] @ (ys @ zs))" "dlist m h ((ys @ zs) @ [])" using assms(1) by simp_all
  have new0: "new \<notin> set (h # [] @ (ys @ zs))" "new \<notin> set (h # (ys @ zs) @ [])" using assms(3) by auto
  note tl = list_add_tail_at [OF l0(2) assms(2) new0(2) assms(4,5)]
  have "link m h (hd ((ys @ zs) @ [h]))" using l0(1) unfolding dlist_split by simp
  then have "list_add m new h = Inr (linked m new h (hd ((ys @ zs) @ [h])))"
    using assms(4,5) list_add_between_eq [of m "hd ((ys @ zs) @ [h])" new h]
    by (simp add: list_add_def get_next_def link_def)
  moreover have "dlist (linked m new h (hd ((ys @ zs) @ [h]))) h (new # ys @ zs)"
    using dlist_link [OF l0(1) assms(2) new0(1)] by simp
  moreover have "list_size m3 h = Some (Inr (word_of_nat (length ys + length zs + 1)))"
    if "dlist m3 h (ys @ new # zs)" for m3
    using list_for_each_eq [OF that, of "\<lambda>_ n. Inr (False, n + 1)" "0 :: u32"] by (simp add: list_size_def walk_count)
  moreover note tl at list_del_entry_at [OF at(2)]
  ultimately show ?thesis by fastforce
qed

definition example_list :: dmem where
  "example_list = [8 \<mapsto> 24, 12 \<mapsto> 24, 24 \<mapsto> 8, 28 \<mapsto> 8, 40 \<mapsto> 0, 44 \<mapsto> 0]"

lemma example_list_ok: "dlist example_list 8 [24]" "node 40" "example_list 40 \<noteq> None" "example_list 44 \<noteq> None"
  by (auto simp: dlist_def example_list_def node_def link_def)

theorem list_operations_refine_witness:
  "\<exists>m1. list_add example_list 40 8 = Inr m1 \<and> dlist m1 8 [40, 24]"
  using list_operations_refine [of example_list 8 "[24]" "[]" 40] example_list_ok by auto

end
