(* ===== verification/Heap.thy ===== *)
theory Heap
  imports VMM CList
begin

text \<open>
  \<^verbatim>\<open>mm/heap.hpp\<close> and \<^verbatim>\<open>mm/heap.cpp\<close>: the kernel heap. Chunks tile the region from \<^verbatim>\<open>startAddr\<close> to
  \<^verbatim>\<open>endAddr\<close>; the header of the chunk at \<open>c\<close> is the dword \<^verbatim>\<open>prevFoot\<close> at \<open>c\<close>, the dword \<^verbatim>\<open>head\<close>
  (size and flags) at \<open>c + 4\<close> and, while the chunk is free, the list node at \<open>c + 8\<close>. The
  memory \<open>hm\<close> holds the dwords of the mapped part of the region and the list head of the
  heap object; an access elsewhere is a page fault. Growing the heap allocates frames and
  maps pages through the physical and the virtual memory manager, shrinking unmaps them.
  What fresh frames contain is arbitrary (\<open>fresh\<close>). The heap's lock makes each operation
  atomic. An operation may fault (\<open>Inl\<close>) or, on a list that is not circular, run forever
  (\<open>None\<close>).
\<close>

section \<open>State and header fields\<close>

record heap =
  startAddr :: u32
  endAddr :: u32
  maxAddr :: u32
  hperms :: u16
  list_hd :: u32
  hm :: dmem
  hvmm :: vmm
  fresh :: "u32 \<Rightarrow> u32"

definition HEAP_START :: u32 where "HEAP_START = KERNEL_HEAP_BASE"
definition HEAP_MIN_SIZE :: u32 where "HEAP_MIN_SIZE = KERNEL_HEAP_INITIAL_SIZE"
definition HEAP_MAX_ADDR :: u32 where "HEAP_MAX_ADDR = KERNEL_HEAP_BASE + KERNEL_HEAP_SIZE"

definition PINUSE_BIT :: u32 where "PINUSE_BIT = 1"
definition CINUSE_BIT :: u32 where "CINUSE_BIT = 2"
definition RESERV_BIT :: u32 where "RESERV_BIT = 4"
definition INUSE_BITS :: u32 where "INUSE_BITS = PINUSE_BIT OR CINUSE_BIT"
definition FLAG_BITS :: u32 where "FLAG_BITS = INUSE_BITS OR RESERV_BIT"

definition HEAPCHUNK_SIZE :: u32 where "HEAPCHUNK_SIZE = 16"
definition KMALLOC_ALIGNMENT :: u32 where "KMALLOC_ALIGNMENT = 8"
definition KMALLOC_ALIGN_MASK :: u32 where "KMALLOC_ALIGN_MASK = KMALLOC_ALIGNMENT - 1"
definition MIN_CHUNK_SIZE :: u32 where
  "MIN_CHUNK_SIZE = (HEAPCHUNK_SIZE + KMALLOC_ALIGN_MASK) AND NOT KMALLOC_ALIGN_MASK"
definition CHUNK_OVERHEAD :: u32 where "CHUNK_OVERHEAD = 4"
definition MIN_REQUEST :: u32 where "MIN_REQUEST = MIN_CHUNK_SIZE - CHUNK_OVERHEAD - 1"

definition pad_request :: "u32 \<Rightarrow> u32" where
  "pad_request req = (req + CHUNK_OVERHEAD + KMALLOC_ALIGN_MASK) AND NOT KMALLOC_ALIGN_MASK"

definition request2size :: "u32 \<Rightarrow> u32" where
  "request2size req = (if req < MIN_REQUEST then MIN_CHUNK_SIZE else pad_request req)"

definition chunk2mem :: "u32 \<Rightarrow> u32" where "chunk2mem p = p + 8"
definition mem2chunk :: "u32 \<Rightarrow> u32" where "mem2chunk p = p - 8"

definition chunk_node :: "u32 \<Rightarrow> u32" where "chunk_node c = c + 8"
definition node_chunk :: "u32 \<Rightarrow> u32" where "node_chunk p = p - 8"

definition get_prevFoot :: "heap \<Rightarrow> u32 \<Rightarrow> u32 kres" where
  "get_prevFoot h c = dload (hm h) c"

definition put_prevFoot :: "heap \<Rightarrow> u32 \<Rightarrow> u32 \<Rightarrow> heap kres" where
  "put_prevFoot h c v = bindR (dstore (hm h) c v) (\<lambda>m. Inr (h\<lparr>hm := m\<rparr>))"

definition get_head :: "heap \<Rightarrow> u32 \<Rightarrow> u32 kres" where
  "get_head h c = dload (hm h) (c + 4)"

definition put_head :: "heap \<Rightarrow> u32 \<Rightarrow> u32 \<Rightarrow> heap kres" where
  "put_head h c v = bindR (dstore (hm h) (c + 4) v) (\<lambda>m. Inr (h\<lparr>hm := m\<rparr>))"

definition chunksize :: "heap \<Rightarrow> u32 \<Rightarrow> u32 kres" where
  "chunksize h c = bindR (get_head h c) (\<lambda>v. Inr (v AND NOT FLAG_BITS))"

definition pinuse :: "heap \<Rightarrow> u32 \<Rightarrow> bool kres" where
  "pinuse h c = bindR (get_head h c) (\<lambda>v. Inr (v AND PINUSE_BIT \<noteq> 0))"

definition cinuse :: "heap \<Rightarrow> u32 \<Rightarrow> bool kres" where
  "cinuse h c = bindR (get_head h c) (\<lambda>v. Inr (v AND CINUSE_BIT \<noteq> 0))"

definition ok_address :: "heap \<Rightarrow> u32 \<Rightarrow> bool" where
  "ok_address h p \<longleftrightarrow> p \<ge> startAddr h \<and> p < endAddr h"

definition ok_inuse :: "heap \<Rightarrow> u32 \<Rightarrow> bool kres" where
  "ok_inuse h c = bindR (get_head h c) (\<lambda>v. Inr (v AND INUSE_BITS \<noteq> PINUSE_BIT))"

definition clear_pinuse :: "heap \<Rightarrow> u32 \<Rightarrow> heap kres" where
  "clear_pinuse h c = bindR (get_head h c) (\<lambda>v. put_head h c (v AND NOT PINUSE_BIT))"

definition set_inuse :: "heap \<Rightarrow> u32 \<Rightarrow> u32 \<Rightarrow> heap kres" where
  "set_inuse h c s =
     bindR (get_head h c) (\<lambda>v.
     bindR (put_head h c ((v AND PINUSE_BIT) OR CINUSE_BIT OR s)) (\<lambda>h.
     bindR (get_head h (c + s)) (\<lambda>w.
     put_head h (c + s) (w OR PINUSE_BIT))))"

definition set_size_and_pinuse :: "heap \<Rightarrow> u32 \<Rightarrow> u32 \<Rightarrow> heap kres" where
  "set_size_and_pinuse h c s = put_head h c (s OR PINUSE_BIT)"

definition set_foot :: "heap \<Rightarrow> u32 \<Rightarrow> u32 \<Rightarrow> heap kres" where
  "set_foot h c s = put_prevFoot h (c + s) s"

section \<open>The free list\<close>

text \<open>The body of the two searches: stop at a chunk that is large enough.\<close>

definition large_enough :: "heap \<Rightarrow> u32 \<Rightarrow> u32 \<Rightarrow> unit \<Rightarrow> (bool \<times> unit) kres" where
  "large_enough h sz p _ = bindR (chunksize h (node_chunk p)) (\<lambda>c. Inr (c \<ge> sz, ()))"

definition findSmallestChunk :: "heap \<Rightarrow> u32 \<Rightarrow> u32 krun" where
  "findSmallestChunk h sz =
     bindK (list_for_each (hm h) (list_hd h) (large_enough h sz) ()) (\<lambda>(iter, _).
     retK (if iter = list_hd h then 0 else node_chunk iter))"

definition insertChunk :: "heap \<Rightarrow> u32 \<Rightarrow> heap krun" where
  "insertChunk h chunk =
     bindK (Some (list_empty (hm h) (list_hd h))) (\<lambda>empty.
     if empty
     then bindK (Some (list_add_tail (hm h) (chunk_node chunk) (list_hd h))) (\<lambda>m. retK (h\<lparr>hm := m\<rparr>))
     else bindK (Some (chunksize h chunk)) (\<lambda>csize.
       bindK (list_for_each (hm h) (list_hd h) (large_enough h csize) ()) (\<lambda>(iter, _).
       bindK (Some (list_add_tail (hm h) (chunk_node chunk) iter)) (\<lambda>m. retK (h\<lparr>hm := m\<rparr>)))))"

definition removeChunk :: "heap \<Rightarrow> u32 \<Rightarrow> heap kres" where
  "removeChunk h chunk = bindR (list_del_entry (hm h) (chunk_node chunk)) (\<lambda>m. Inr (h\<lparr>hm := m\<rparr>))"

section \<open>Growing and shrinking\<close>

definition align_heap_size :: "u32 \<Rightarrow> u32" where
  "align_heap_size sz = align_up sz PAGE_SIZE"

definition back_with :: "dmem \<Rightarrow> (u32 \<Rightarrow> u32) \<Rightarrow> u32 \<Rightarrow> u32 \<Rightarrow> dmem" where
  "back_with m f va sz a = (if unat va \<le> unat a \<and> unat a < unat va + unat sz then Some (f a) else m a)"

definition map_heap_backing :: "heap \<Rightarrow> u32 \<Rightarrow> u32 \<Rightarrow> heap kres" where
  "map_heap_backing h virt_addr sz =
     (if sz = 0 then Inr h
      else let pages = sz div PAGE_SIZE in
        bindR (alloc_frames (vpmm (hvmm h)) pages) (\<lambda>(phys, p).
        bindR (map_pages ((hvmm h)\<lparr>vpmm := p\<rparr>) virt_addr phys pages (ucast (hperms h) OR PG_Present)) (\<lambda>v.
        Inr (h\<lparr>hvmm := v, hm := back_with (hm h) (fresh h) virt_addr sz\<rparr>))))"

definition heap_ctor :: "heap \<Rightarrow> u32 \<Rightarrow> u32 \<Rightarrow> u32 \<Rightarrow> u16 \<Rightarrow> heap krun" where
  "heap_ctor h start sz mx perms =
     (let sz = align_heap_size sz; fin = start + sz in
      if start mod PAGE_SIZE \<noteq> 0 then Some (Inl (Assert ''start % mm::PAGE_SIZE == 0''))
      else if fin mod PAGE_SIZE \<noteq> 0 then Some (Inl (Assert ''end % mm::PAGE_SIZE == 0''))
      else let h = h\<lparr>startAddr := start, endAddr := fin, maxAddr := mx, hperms := perms\<rparr> in
        bindK (Some (INIT_LIST_HEAD (hm h) (list_hd h))) (\<lambda>m. let h = h\<lparr>hm := m\<rparr> in
        bindK (Some (map_heap_backing h start sz)) (\<lambda>h.
        bindK (Some (put_prevFoot h start 0)) (\<lambda>h.
        bindK (Some (set_size_and_pinuse h start sz)) (\<lambda>h.
        insertChunk h start)))))"

definition expand_unlocked :: "heap \<Rightarrow> u32 \<Rightarrow> heap kres" where
  "expand_unlocked h newSize =
     (if \<not> newSize > endAddr h - startAddr h then Inl (Assert ''newSize > this->endAddr - this->startAddr'')
      else let newSize = align_heap_size newSize in
        if \<not> startAddr h + newSize \<le> maxAddr h then Inl (Assert ''this->startAddr + newSize <= this->maxAddr'')
        else let oldEnd = endAddr h; h = h\<lparr>endAddr := startAddr h + newSize\<rparr> in
          map_heap_backing h oldEnd (endAddr h - oldEnd))"

definition contract_unlocked :: "heap \<Rightarrow> u32 \<Rightarrow> (u32 \<times> heap) kres" where
  "contract_unlocked h newSize =
     (if \<not> newSize < endAddr h - startAddr h then Inl (Assert ''newSize < this->endAddr - this->startAddr'')
      else let newSize = align_heap_size newSize;
               newSize = (if newSize < HEAP_MIN_SIZE then HEAP_MIN_SIZE else newSize);
               oldEnd = endAddr h; h = h\<lparr>endAddr := startAddr h + newSize\<rparr>; sz = oldEnd - endAddr h
           in if sz = 0 then Inr (newSize, h)
              else bindR (virt_to_phys (hvmm h) (endAddr h)) (\<lambda>_.
                bindR (unmap_pages (hvmm h) (endAddr h) (sz div PAGE_SIZE)) (\<lambda>v.
                Inr (newSize, h\<lparr>hvmm := v, hm := (\<lambda>a. if unat (endAddr h) \<le> unat a \<and> unat a < unat (endAddr h) + unat sz
                   then None else hm h a)\<rparr>))))"

section \<open>Allocation\<close>

text \<open>What \<^verbatim>\<open>alloc_unlocked\<close> does when no hole is large enough, up to the recursive call.\<close>

definition alloc_grow :: "heap \<Rightarrow> u32 \<Rightarrow> heap krun" where
  "alloc_grow h nb =
     (let oldSize = endAddr h - startAddr h; oldEndAddr = endAddr h in
      bindK (Some (expand_unlocked h (oldSize + nb))) (\<lambda>h.
      bindK (Some (list_empty (hm h) (list_hd h))) (\<lambda>empty.
      bindK (if \<not> empty
          then list_for_each (hm h) (list_hd h) (\<lambda>iter tmp. Inr (False, if iter > tmp then iter else tmp)) 0
          else retK (list_hd h, 0)) (\<lambda>(_, tmp).
      bindK (if tmp \<noteq> 0 then
          let topChunk = node_chunk tmp in
          bindK (Some (pinuse h topChunk)) (\<lambda>pin.
          bindK (Some (cinuse h topChunk)) (\<lambda>cin.
          if \<not> pin \<and> cin then Some (Inl (Panic ''(alloc) Memory Corrupt''))
          else bindK (Some (chunksize h topChunk)) (\<lambda>oldCsize.
            if topChunk + oldCsize \<noteq> oldEndAddr then retK (h, 0, 0)
            else bindK (Some (removeChunk h topChunk)) (\<lambda>h. retK (h, topChunk, endAddr h - topChunk)))))
        else retK (h, 0, 0)) (\<lambda>(h, topChunk, csize).
      let (topChunk, csize) = (if topChunk = 0 then (oldEndAddr, endAddr h - oldEndAddr) else (topChunk, csize)) in
      bindK (Some (set_size_and_pinuse h topChunk csize)) (\<lambda>h.
      insertChunk h topChunk))))))"

text \<open>Taking \<open>nb\<close> bytes from a hole that was found.\<close>

definition alloc_take :: "heap \<Rightarrow> u32 \<Rightarrow> u32 \<Rightarrow> (u32 \<times> heap) krun" where
  "alloc_take h hole nb =
     bindK (Some (chunksize h hole)) (\<lambda>csize.
     if \<not> csize \<ge> nb then Some (Inl (Assert ''chunksize(hole) >= nb''))
     else bindK (Some (removeChunk h hole)) (\<lambda>h.
     bindK (Some (chunksize h hole)) (\<lambda>csize.
     bindK (if csize \<ge> nb + MIN_CHUNK_SIZE
        then let nsize = csize - nb; new = hole + nb in
          bindK (Some (put_head h new nsize)) (\<lambda>h.
          bindK (insertChunk h new) (\<lambda>h. retK (nb, h)))
        else retK (csize, h)) (\<lambda>(nb, h).
     bindK (Some (set_inuse h hole nb)) (\<lambda>h. retK (chunk2mem hole, h))))))"

partial_function (option) alloc_unlocked :: "heap \<Rightarrow> u32 \<Rightarrow> (u32 \<times> heap) krun" where
  [code]: "alloc_unlocked h sz =
     (case findSmallestChunk h (request2size sz) of
        None \<Rightarrow> None
      | Some (Inl e) \<Rightarrow> Some (Inl e)
      | Some (Inr hole) \<Rightarrow>
          if hole = 0 then
            (case alloc_grow h (request2size sz) of
               None \<Rightarrow> None
             | Some (Inl e) \<Rightarrow> Some (Inl e)
             | Some (Inr h') \<Rightarrow> alloc_unlocked h' sz)
          else alloc_take h hole (request2size sz))"

section \<open>Release\<close>

definition free_corrupt :: "kfault" where
  "free_corrupt = Panic ''(free) Memory Corrupt''"

text \<open>Merging with the free chunk before: the block and the size that result.\<close>

definition free_merge_prev :: "heap \<Rightarrow> u32 \<Rightarrow> u32 \<Rightarrow> (u32 \<times> u32 \<times> heap) kres" where
  "free_merge_prev h block sz =
     bindR (pinuse h block) (\<lambda>pin.
     if pin then Inr (block, sz, h)
     else bindR (get_prevFoot h block) (\<lambda>prevsize.
       let prev = block - prevsize in
       if \<not> ok_address h prev then Inl free_corrupt
       else bindR (removeChunk h prev) (\<lambda>h. Inr (prev, sz + prevsize, h))))"

text \<open>Merging with the free chunk after it, or telling the used chunk after it.\<close>

definition free_merge_next :: "heap \<Rightarrow> u32 \<Rightarrow> u32 \<Rightarrow> u32 \<Rightarrow> (u32 \<times> heap) krun" where
  "free_merge_next h block sz next =
     (let corrupt = bindK (insertChunk h block) (\<lambda>_. Some (Inl free_corrupt)) in
      if ok_address h next then
        bindK (Some (pinuse h next)) (\<lambda>pin.
        if \<not> pin then corrupt
        else bindK (Some (cinuse h next)) (\<lambda>cin.
          if cin then bindK (Some (clear_pinuse h next)) (\<lambda>h. retK (sz, h))
          else bindK (Some (chunksize h next)) (\<lambda>nextsize.
            if next + nextsize > endAddr h then corrupt
            else bindK (Some (removeChunk h next)) (\<lambda>h. retK (sz + nextsize, h)))))
      else retK (sz, h))"

text \<open>Giving memory back when the block reaches the end of the heap.\<close>

definition free_trim :: "heap \<Rightarrow> u32 \<Rightarrow> u32 \<Rightarrow> (u32 \<times> u32 \<times> heap) kres" where
  "free_trim h block sz =
     (if block + sz = endAddr h then
        let oldSize = endAddr h - startAddr h;
            newSize = block - startAddr h;
            newSize = (if newSize mod PAGE_SIZE \<noteq> 0 then newSize + MIN_CHUNK_SIZE else newSize)
        in bindR (contract_unlocked h newSize) (\<lambda>(newSize, h).
           if sz > oldSize - newSize then Inr (block, sz - (oldSize - newSize), h)
           else Inr (0, 0, h))
      else bindR (set_foot h block sz) (\<lambda>h. Inr (block, sz, h)))"

definition free_unlocked :: "heap \<Rightarrow> u32 \<Rightarrow> heap krun" where
  "free_unlocked h ptr =
     (if ptr = 0 then retK h
      else let block = mem2chunk ptr in
        bindK (Some (chunksize h block)) (\<lambda>sz.
        let next = block + sz in
        if \<not> ok_address h ptr then Some (Inl free_corrupt)
        else bindK (Some (ok_inuse h block)) (\<lambda>inuse.
        if \<not> inuse then Some (Inl free_corrupt)
        else bindK (Some (free_merge_prev h block sz)) (\<lambda>(block, sz, h).
        bindK (free_merge_next h block sz next) (\<lambda>(sz, h).
        bindK (Some (free_trim h block sz)) (\<lambda>(block, sz, h).
        if block \<noteq> 0 \<and> sz \<noteq> 0 then
          bindK (Some (set_size_and_pinuse h block sz)) (\<lambda>h. insertChunk h block)
        else retK h))))))"

section \<open>Page-aligned allocation\<close>

definition paligned_lead :: "heap \<Rightarrow> u32 \<Rightarrow> u32 \<Rightarrow> (u32 \<times> heap) krun" where
  "paligned_lead h mem chunk =
     (if mem mod PAGE_SIZE \<noteq> 0 then
        let br = mem2chunk ((mem AND - PAGE_SIZE) + PAGE_SIZE);
            pos = (if br - chunk \<ge> MIN_CHUNK_SIZE then br else br + PAGE_SIZE);
            leadsize = pos - chunk
        in bindK (Some (chunksize h chunk)) (\<lambda>csize.
           bindK (Some (set_inuse h pos (csize - leadsize))) (\<lambda>h.
           bindK (Some (set_size_and_pinuse h chunk leadsize)) (\<lambda>h.
           bindK (Some (put_prevFoot h pos leadsize)) (\<lambda>h.
           bindK (insertChunk h chunk) (\<lambda>h. retK (pos, h))))))
      else retK (chunk, h))"

definition paligned_tail :: "heap \<Rightarrow> u32 \<Rightarrow> u32 \<Rightarrow> heap krun" where
  "paligned_tail h chunk nb =
     bindK (Some (chunksize h chunk)) (\<lambda>csize.
     if csize > nb + MIN_CHUNK_SIZE then
       let remainderSize = csize - nb; remainder = chunk + nb in
       bindK (Some (set_inuse h chunk nb)) (\<lambda>h.
       bindK (Some (set_inuse h remainder remainderSize)) (\<lambda>h.
       free_unlocked h (chunk2mem remainder)))
     else retK h)"

definition palignedAlloc_unlocked :: "heap \<Rightarrow> u32 \<Rightarrow> (u32 \<times> heap) krun" where
  "palignedAlloc_unlocked h sz =
     (let nb = request2size sz; req = nb + PAGE_SIZE + MIN_CHUNK_SIZE - CHUNK_OVERHEAD in
      bindK (alloc_unlocked h req) (\<lambda>(mem, h).
      if mem = 0 then retK (0, h)
      else bindK (paligned_lead h mem (mem2chunk mem)) (\<lambda>(chunk, h).
        bindK (paligned_tail h chunk nb) (\<lambda>h.
        let mem = chunk2mem chunk in
        bindK (Some (chunksize h chunk)) (\<lambda>csize.
        if \<not> csize \<ge> nb then Some (Inl (Assert ''chunksize(chunk) >= nb''))
        else if mem mod PAGE_SIZE \<noteq> 0 then Some (Inl (Assert ''((size_t)mem % mm::PAGE_SIZE) == 0''))
        else bindK (Some (cinuse h chunk)) (\<lambda>cin.
          if \<not> cin then Some (Inl (Assert ''cinuse(chunk)''))
          else retK (mem, h)))))))"

section \<open>Entry points\<close>

definition heap_alloc :: "heap \<Rightarrow> u32 \<Rightarrow> (u32 \<times> heap) krun" where
  "heap_alloc h sz = alloc_unlocked h sz"

definition palignedAlloc :: "heap \<Rightarrow> u32 \<Rightarrow> (u32 \<times> heap) krun" where
  "palignedAlloc h sz = palignedAlloc_unlocked h sz"

definition heap_release :: "heap \<Rightarrow> u32 \<Rightarrow> heap krun" where
  "heap_release h p = free_unlocked h p"

definition heap_expand :: "heap \<Rightarrow> u32 \<Rightarrow> heap kres" where
  "heap_expand h newSize = expand_unlocked h newSize"

definition heap_contract :: "heap \<Rightarrow> u32 \<Rightarrow> (u32 \<times> heap) kres" where
  "heap_contract h newSize = contract_unlocked h newSize"

definition heap_malloc :: "heap option \<Rightarrow> u32 \<Rightarrow> u8 \<Rightarrow> (u32 \<times> heap option) krun" where
  "heap_malloc heap sz align =
     (case heap of
        None \<Rightarrow> retK (0, None)
      | Some h \<Rightarrow> bindK (if align \<noteq> 0 then palignedAlloc h sz else heap_alloc h sz)
          (\<lambda>(addr, h). retK (addr, Some h)))"

definition heap_free :: "heap option \<Rightarrow> u32 \<Rightarrow> heap option krun" where
  "heap_free heap addr =
     (case heap of None \<Rightarrow> retK None | Some h \<Rightarrow> bindK (heap_release h addr) (\<lambda>h. retK (Some h)))"

section \<open>Requests\<close>

lemmas heap_consts = PINUSE_BIT_def CINUSE_BIT_def RESERV_BIT_def INUSE_BITS_def FLAG_BITS_def
  HEAPCHUNK_SIZE_def KMALLOC_ALIGNMENT_def KMALLOC_ALIGN_MASK_def MIN_CHUNK_SIZE_def
  CHUNK_OVERHEAD_def MIN_REQUEST_def

lemma MIN_CHUNK_SIZE_eq [simp]: "MIN_CHUNK_SIZE = 16"
  by (simp add: heap_consts)

lemma MIN_REQUEST_eq [simp]: "MIN_REQUEST = 11"
  by (simp add: heap_consts MIN_REQUEST_def)

lemma FLAG_BITS_eq [simp]: "FLAG_BITS = 7"
  by (simp add: heap_consts)

lemma pad_request_unat: "unat (pad_request req) = (unat req + 11) mod 2 ^ 32 div 8 * 8"
proof -
  have "pad_request req = (req + 11) AND NOT (mask 3)"
    by (simp add: pad_request_def heap_consts mask_eq_exp_minus_1 add.assoc)
  then show ?thesis
    using unat_and_not_mask [of "req + 11" 3] by (simp add: unat_word_ariths)
qed

lemma request2size_ok:
  assumes "unat sz + 11 < 4294967296"
  shows "unat (request2size sz) mod 8 = 0" "16 \<le> unat (request2size sz)"
    "unat sz + 4 \<le> unat (request2size sz)" "unat (request2size sz) \<le> max 16 (unat sz + 11)"
proof -
  have "unat (request2size sz) = (if unat sz < 11 then 16 else (unat sz + 11) div 8 * 8)"
    using assms pad_request_unat [of sz] by (simp add: request2size_def u32_less_iff)
  then show "unat (request2size sz) mod 8 = 0" "16 \<le> unat (request2size sz)"
    "unat sz + 4 \<le> unat (request2size sz)" "unat (request2size sz) \<le> max 16 (unat sz + 11)"
    by auto
qed

section \<open>Well-formed free lists\<close>

definition head_of :: "heap \<Rightarrow> u32 \<Rightarrow> u32" where
  "head_of h c = (case hm h (c + 4) of None \<Rightarrow> 0 | Some v \<Rightarrow> v)"

definition csize :: "heap \<Rightarrow> u32 \<Rightarrow> u32" where
  "csize h c = head_of h c AND NOT FLAG_BITS"

text \<open>A block of memory fit to be a chunk of the given size: aligned, mapped, not at page zero.\<close>

definition chunk_at :: "heap \<Rightarrow> u32 \<Rightarrow> nat \<Rightarrow> bool" where
  "chunk_at h c n \<longleftrightarrow> unat c mod 8 = 0 \<and> 4096 \<le> unat c \<and> 16 \<le> n \<and> n mod 8 = 0 \<and> unat c + n + 8 \<le> 4294967296 \<and>
     (\<forall>a. unat a mod 4 = 0 \<longrightarrow> unat c \<le> unat a \<longrightarrow> unat a < unat c + n \<longrightarrow> hm h a \<noteq> None)"

definition apart :: "nat \<Rightarrow> nat \<Rightarrow> nat \<Rightarrow> nat \<Rightarrow> bool" where
  "apart a n b k \<longleftrightarrow> a + n \<le> b \<or> b + k \<le> a"

definition heap_ok :: "heap \<Rightarrow> u32 list \<Rightarrow> bool" where
  "heap_ok h cs \<longleftrightarrow> dlist (hm h) (list_hd h) (map chunk_node cs) \<and> sorted (map (csize h) cs) \<and>
     (\<forall>c \<in> set cs. chunk_at h c (unat (csize h c)) \<and> apart (unat (list_hd h)) 8 (unat c) (unat (csize h c))) \<and>
     (\<forall>c \<in> set cs. \<forall>d \<in> set cs. c \<noteq> d \<longrightarrow>
        apart (unat c) (unat (csize h c)) (unat d) (unat (csize h d)))"

text \<open>The dwords that hold the links of the list.\<close>

definition fields :: "heap \<Rightarrow> u32 list \<Rightarrow> u32 set" where
  "fields h cs = (\<Union>p \<in> set (list_hd h # map chunk_node cs). {p, p + 4})"

lemma chunk_addrs:
  assumes "chunk_at h c n"
  shows "unat (c + 4) = unat c + 4" "unat (chunk_node c) = unat c + 8" "unat (chunk_node c + 4) = unat c + 12"
    "node_chunk (chunk_node c) = c" "node (chunk_node c)"
proof -
  have b: "unat c + 24 \<le> 4294967296" "unat c mod 8 = 0" "4096 \<le> unat c" using assms by (auto simp: chunk_at_def)
  then show 8: "unat (chunk_node c) = unat c + 8" by (simp add: chunk_node_def unat_add_u32)
  show "unat (c + 4) = unat c + 4" using b by (simp add: unat_add_u32)
  show "unat (chunk_node c + 4) = unat c + 12" using b 8 by (simp add: unat_add_u32)
  show "node_chunk (chunk_node c) = c" by (simp add: chunk_node_def node_chunk_def)
  have "chunk_node c \<noteq> 0" using 8 by (metis add_is_0 unat_0 zero_neq_numeral)
  then show "node (chunk_node c)" using b 8 by (simp add: node_def)
qed

lemma chunk_mapped:
  assumes "chunk_at h c n" "unat a mod 4 = 0" "unat c \<le> unat a" "unat a < unat c + n"
  shows "hm h a \<noteq> None"
  using assms by (auto simp: chunk_at_def)

lemma chunk_fields_mapped:
  assumes "chunk_at h c n"
  shows "hm h c \<noteq> None" "hm h (c + 4) \<noteq> None" "hm h (chunk_node c) \<noteq> None" "hm h (chunk_node c + 4) \<noteq> None"
proof -
  note ad = chunk_addrs [OF assms]
  have "unat c mod 8 = 0" "16 \<le> n" using assms by (auto simp: chunk_at_def)
  then have "unat c mod 4 = 0" "16 \<le> n" by presburger+
  then show "hm h c \<noteq> None" "hm h (c + 4) \<noteq> None" "hm h (chunk_node c) \<noteq> None" "hm h (chunk_node c + 4) \<noteq> None"
    using chunk_mapped [OF assms] ad by (simp_all add: mod_add_eq [symmetric])
qed

lemma heap_ok_chunk: "heap_ok h cs \<Longrightarrow> c \<in> set cs \<Longrightarrow> chunk_at h c (unat (csize h c))"
  by (simp add: heap_ok_def)

lemma chunksize_eq: "hm h (c + 4) \<noteq> None \<Longrightarrow> chunksize h c = Inr (csize h c)"
  by (auto simp: chunksize_def get_head_def csize_def head_of_def)

lemma heap_ok_node: "heap_ok h cs \<Longrightarrow> node (list_hd h)"
  by (simp add: heap_ok_def dlist_def)

text \<open>The header of a chunk is none of the links, of itself, of other chunks or of the list head.\<close>

lemma header_not_field:
  assumes d: "chunk_at h d n" and nd: "node (list_hd h)" "apart (unat (list_hd h)) 8 (unat d) n"
    and cs: "\<And>c. c \<in> set cs \<Longrightarrow> chunk_at h c (k c)"
      "\<And>c. c \<in> set cs \<Longrightarrow> c \<noteq> d \<Longrightarrow> apart (unat c) (k c) (unat d) n"
    and a: "unat d \<le> unat a" "unat a \<le> unat d + 4"
  shows "a \<notin> fields h cs"
proof
  assume "a \<in> fields h cs"
  then consider "a = list_hd h \<or> a = list_hd h + 4"
    | c where "c \<in> set cs" "a = chunk_node c \<or> a = chunk_node c + 4" by (auto simp: fields_def)
  then show False
  proof cases
    case 1
    then show False using nd node_plus_4 [OF nd(1)] a d by (auto simp: apart_def chunk_at_def)
  next
    case 2
    then show False using a cs [OF 2(1)] chunk_addrs [OF cs(1) [OF 2(1)]] d
      by (cases "c = d") (auto simp: apart_def chunk_at_def)
  qed
qed

lemma heap_ok_header:
  assumes "heap_ok h cs" "d \<in> set cs"
  shows "d \<notin> fields h cs" "d + 4 \<notin> fields h cs"
proof -
  have d: "chunk_at h d (unat (csize h d))" using heap_ok_chunk [OF assms] .
  have "a \<notin> fields h cs" if "unat d \<le> unat a" "unat a \<le> unat d + 4" for a
    by (rule header_not_field [OF d heap_ok_node [OF assms(1)], of cs "\<lambda>c. unat (csize h c)"])
      (use assms that in \<open>auto simp: heap_ok_def\<close>)
  then show "d \<notin> fields h cs" "d + 4 \<notin> fields h cs" using chunk_addrs [OF d] by auto
qed

lemma dpath_cong:
  assumes "dpath m a xs" "\<And>q. q \<in> set (a # xs) \<Longrightarrow> m' q = m q \<and> m' (q + 4) = m (q + 4)"
  shows "dpath m' a xs"
proof (rule dpath_frame [OF assms(1)])
  fix q assume "q \<in> set (butlast (a # xs))"
  then show "m' q = m q" using assms(2) [of q] by (blast dest: in_set_butlastD)
qed (use assms(2) in simp)

lemma heap_ok_cong:
  assumes h: "heap_ok h cs" and l: "list_hd h' = list_hd h"
    and f: "\<And>a. a \<in> fields h cs \<Longrightarrow> hm h' a = hm h a"
    and s: "\<And>c. c \<in> set cs \<Longrightarrow> csize h' c = csize h c"
    and m: "\<And>a. hm h a \<noteq> None \<Longrightarrow> hm h' a \<noteq> None"
  shows "heap_ok h' cs"
proof -
  have "dpath (hm h') (list_hd h) (map chunk_node cs @ [list_hd h])"
    by (rule dpath_cong [of "hm h"]) (use h f in \<open>auto simp: heap_ok_def dlist_def fields_def\<close>)
  then have "dlist (hm h') (list_hd h') (map chunk_node cs)" using h l by (simp add: heap_ok_def dlist_def)
  moreover have "map (csize h') cs = map (csize h) cs" using s by simp
  then have "sorted (map (csize h') cs)" using h unfolding heap_ok_def by (simp only:)
  moreover have "chunk_at h' c n" if "chunk_at h c n" for c n using that m by (auto simp: chunk_at_def)
  ultimately show ?thesis using h l s by (simp add: heap_ok_def)
qed

text \<open>An update of the memory that stays within a set of dwords and unmaps nothing.\<close>

definition upd_only :: "heap \<Rightarrow> u32 set \<Rightarrow> heap \<Rightarrow> bool" where
  "upd_only h A h' \<longleftrightarrow> h' = h\<lparr>hm := hm h'\<rparr> \<and> (\<forall>a. a \<notin> A \<longrightarrow> hm h' a = hm h a) \<and> (\<forall>a. hm h a \<noteq> None \<longrightarrow> hm h' a \<noteq> None)"

lemma upd_only_refl: "upd_only h A h"
  by (simp add: upd_only_def)

lemma upd_only_trans: "upd_only h A h1 \<Longrightarrow> upd_only h1 B h2 \<Longrightarrow> upd_only h (A \<union> B) h2"
  by (cases h, cases h1, cases h2) (auto simp: upd_only_def)

lemma upd_only_mono: "upd_only h A h' \<Longrightarrow> A \<subseteq> B \<Longrightarrow> upd_only h B h'"
  by (auto simp: upd_only_def)

lemma upd_only_same:
  assumes "upd_only h A h'"
  shows "list_hd h' = list_hd h" "startAddr h' = startAddr h" "endAddr h' = endAddr h" "hvmm h' = hvmm h"
    "a \<notin> A \<Longrightarrow> hm h' a = hm h a" "hm h a \<noteq> None \<Longrightarrow> hm h' a \<noteq> None"
    "c + 4 \<notin> A \<Longrightarrow> csize h' c = csize h c" "c + 4 \<notin> A \<Longrightarrow> head_of h' c = head_of h c"
    "chunk_at h c n \<Longrightarrow> chunk_at h' c n" "fields h' cs = fields h cs"
proof -
  obtain m where h': "h' = h\<lparr>hm := m\<rparr>" and m: "\<And>a. a \<notin> A \<Longrightarrow> m a = hm h a" "\<And>a. hm h a \<noteq> None \<Longrightarrow> m a \<noteq> None"
    using assms by (force simp: upd_only_def)
  show "list_hd h' = list_hd h" "startAddr h' = startAddr h" "endAddr h' = endAddr h" "hvmm h' = hvmm h"
    "a \<notin> A \<Longrightarrow> hm h' a = hm h a" "hm h a \<noteq> None \<Longrightarrow> hm h' a \<noteq> None"
    "c + 4 \<notin> A \<Longrightarrow> csize h' c = csize h c" "c + 4 \<notin> A \<Longrightarrow> head_of h' c = head_of h c"
    "chunk_at h c n \<Longrightarrow> chunk_at h' c n" "fields h' cs = fields h cs"
    unfolding h' using m by (simp_all add: csize_def head_of_def chunk_at_def fields_def)
qed

lemma fields_append: "fields h (ys @ zs) = fields h ys \<union> fields h zs"
  by (auto simp: fields_def)

lemma fields_mono: "set ys \<subseteq> set zs \<Longrightarrow> fields h ys \<subseteq> fields h zs"
  by (auto simp: fields_def)

lemma fields_ends:
  "last (list_hd h # map chunk_node ys) \<in> fields h (ys @ zs)"
  "hd (map chunk_node zs @ [list_hd h]) + 4 \<in> fields h (ys @ zs)"
  using marked_nodes(1) [of "list_hd h" "map chunk_node ys"] marked_nodes(2) [of "map chunk_node zs" "list_hd h"]
  by (force simp: fields_def)+

lemma removeChunk_ok:
  assumes h: "heap_ok h (ys @ c # zs)"
  shows "\<exists>h'. removeChunk h c = Inr h' \<and> heap_ok h' (ys @ zs) \<and> upd_only h (fields h (ys @ zs)) h'"
proof -
  let ?p = "last (list_hd h # map chunk_node ys)" and ?n = "hd (map chunk_node zs @ [list_hd h])"
  let ?h = "h\<lparr>hm := unlinked (hm h) ?p ?n\<rparr>"
  have dl: "dlist (hm h) (list_hd h) (map chunk_node ys @ chunk_node c # map chunk_node zs)"
    using h by (simp add: heap_ok_def)
  note del = list_del_entry_at [OF dl]
  have u: "upd_only h (fields h (ys @ zs)) ?h"
    using fields_ends(1) [of h ys zs] fields_ends(2) [of zs h ys] by (auto simp: upd_only_def unlinked_def)
  have "csize ?h d = csize h d" if "d \<in> set (ys @ zs)" for d
  proof (rule upd_only_same(7) [OF u])
    have "d + 4 \<notin> fields h (ys @ c # zs)" using heap_ok_header [OF h] that by auto
    then show "d + 4 \<notin> fields h (ys @ zs)" using fields_mono [of "ys @ zs" "ys @ c # zs" h] by auto
  qed
  then have sz: "\<forall>d \<in> set (ys @ zs). csize ?h d = csize h d" by blast
  then have "map (csize ?h) (ys @ zs) = map (csize h) (ys @ zs)" by simp
  moreover have "sorted (map (csize h) (ys @ zs))" using h by (auto simp: heap_ok_def sorted_append)
  ultimately have so: "sorted (map (csize ?h) (ys @ zs))" by (simp only:)
  have "heap_ok ?h (ys @ zs)"
    unfolding heap_ok_def
  proof (intro conjI ballI impI so)
    show "dlist (hm ?h) (list_hd ?h) (map chunk_node (ys @ zs))" using del(2) by simp
  next
    fix d assume d: "d \<in> set (ys @ zs)"
    then have "chunk_at h d (unat (csize h d))" using h by (auto simp: heap_ok_def)
    then show "chunk_at ?h d (unat (csize ?h d))" using sz d upd_only_same(9) [OF u] by metis
    show "apart (unat (list_hd ?h)) 8 (unat d) (unat (csize ?h d))" using sz d h by (auto simp: heap_ok_def)
  next
    fix d e assume "d \<in> set (ys @ zs)" "e \<in> set (ys @ zs)" "d \<noteq> e"
    then show "apart (unat d) (unat (csize ?h d)) (unat e) (unat (csize ?h e))"
      using sz h by (auto simp: heap_ok_def)
  qed
  moreover have "removeChunk h c = Inr ?h" using del(1) by (simp add: removeChunk_def)
  ultimately show ?thesis using u by blast
qed

lemma walk_large_enough:
  assumes "\<And>c. c \<in> set cs \<Longrightarrow> hm h (c + 4) \<noteq> None"
  shows "walk_list p (large_enough h s) (map chunk_node cs) () =
    Inr (hd (map chunk_node (dropWhile (\<lambda>d. csize h d < s) cs) @ [p]), ())"
  using assms
proof (induction cs)
  case (Cons c cs)
  have "node_chunk (chunk_node c) = c" by (simp add: node_chunk_def chunk_node_def)
  then show ?case using Cons chunksize_eq [of h c] by (auto simp: large_enough_def)
qed simp

lemma search_large_enough:
  assumes "heap_ok h cs"
  shows "list_for_each (hm h) (list_hd h) (large_enough h s) () =
    Some (Inr (hd (map chunk_node (dropWhile (\<lambda>d. csize h d < s) cs) @ [list_hd h]), ()))"
proof -
  have "dlist (hm h) (list_hd h) (map chunk_node cs)" using assms by (simp add: heap_ok_def)
  moreover have "hm h (c + 4) \<noteq> None" if "c \<in> set cs" for c
    using chunk_fields_mapped(2) [OF heap_ok_chunk [OF assms that]] .
  ultimately show ?thesis by (simp add: list_for_each_eq walk_large_enough)
qed

lemma findSmallestChunk_eq:
  assumes "heap_ok h cs"
  shows "findSmallestChunk h s =
    Some (Inr (case dropWhile (\<lambda>d. csize h d < s) cs of [] \<Rightarrow> 0 | c # _ \<Rightarrow> c))"
proof (cases "dropWhile (\<lambda>d. csize h d < s) cs")
  case Nil
  show ?thesis using search_large_enough [OF assms, of s] unfolding Nil
    by (simp add: findSmallestChunk_def retK_def)
next
  case (Cons c ds)
  then have "c \<in> set cs" by (metis list.set_intros(1) set_dropWhileD)
  then have "chunk_node c \<noteq> list_hd h" using assms by (force simp: heap_ok_def dlist_def)
  then show ?thesis using search_large_enough [OF assms, of s] Cons
    by (simp add: findSmallestChunk_def retK_def node_chunk_def chunk_node_def)
qed

text \<open>The place of a chunk in the list.\<close>

definition insert_by_size :: "heap \<Rightarrow> u32 \<Rightarrow> u32 list \<Rightarrow> u32 list" where
  "insert_by_size h c cs = takeWhile (\<lambda>d. csize h d < csize h c) cs @ c # dropWhile (\<lambda>d. csize h d < csize h c) cs"

lemma set_insert_by_size: "set (insert_by_size h c cs) = insert c (set cs)"
  unfolding insert_by_size_def by (metis Un_insert_right list.simps(15) set_append takeWhile_dropWhile_id)

lemma insert_by_size_sorted:
  assumes "sorted (map (csize h) cs)"
  shows "sorted (map (csize h) (insert_by_size h c cs))"
  using assms
proof (induction cs)
  case (Cons d cs)
  then have IH: "sorted (map (csize h) (insert_by_size h c cs))" by simp
  have "\<forall>x \<in> set (insert_by_size h c cs). csize h d < csize h c \<longrightarrow> csize h d \<le> csize h x"
    using Cons.prems unfolding set_insert_by_size by auto
  then show ?case using IH Cons.prems by (force simp: insert_by_size_def)
qed (simp add: insert_by_size_def)

text \<open>A region between the free chunks that can become a free chunk.\<close>

definition region :: "heap \<Rightarrow> u32 list \<Rightarrow> u32 \<Rightarrow> nat \<Rightarrow> bool" where
  "region h cs c n \<longleftrightarrow> chunk_at h c n \<and> apart (unat (list_hd h)) 8 (unat c) n \<and>
     (\<forall>d \<in> set cs. apart (unat d) (unat (csize h d)) (unat c) n)"

abbreviation fits_apart :: "heap \<Rightarrow> u32 list \<Rightarrow> u32 \<Rightarrow> bool" where
  "fits_apart h cs c \<equiv> region h cs c (unat (csize h c))"

lemma apart_sym: "apart a n b k = apart b k a n"
  by (auto simp: apart_def)

lemma apart_neq: "apart a n b k \<Longrightarrow> 0 < n \<Longrightarrow> 0 < k \<Longrightarrow> a \<noteq> b"
  by (auto simp: apart_def)

lemma insertChunk_ok:
  assumes h: "heap_ok h cs" and c: "fits_apart h cs c"
  shows "\<exists>h'. insertChunk h c = Some (Inr h') \<and> heap_ok h' (insert_by_size h c cs) \<and>
    upd_only h (fields h (c # cs)) h'"
proof -
  define ys where "ys = takeWhile (\<lambda>d. csize h d < csize h c) cs"
  define zs where "zs = dropWhile (\<lambda>d. csize h d < csize h c) cs"
  have cs: "cs = ys @ zs" by (simp add: ys_def zs_def)
  have ins: "insert_by_size h c cs = ys @ c # zs" by (simp add: insert_by_size_def ys_def zs_def)
  let ?p = "last (list_hd h # map chunk_node ys)" and ?n = "hd (map chunk_node zs @ [list_hd h])"
  let ?h = "h\<lparr>hm := linked (hm h) (chunk_node c) ?p ?n\<rparr>"
  have ca: "chunk_at h c (unat (csize h c))" using c by (simp add: region_def)
  have cpos: "0 < unat (csize h d)" if "d \<in> set (c # cs)" for d
    using that ca heap_ok_chunk [OF h, of d] by (auto simp: chunk_at_def)
  have cnew: "c \<notin> set cs" using c cpos [of c] by (force simp: region_def apart_def)
  have ndl: "chunk_node c \<noteq> list_hd h"
    using c chunk_addrs(2) [OF ca] by (auto simp: region_def apart_def chunk_at_def)
  have dl: "dlist (hm h) (list_hd h) (map chunk_node ys @ map chunk_node zs)" using h cs by (simp add: heap_ok_def)
  have nin: "chunk_node c \<notin> set (list_hd h # map chunk_node ys @ map chunk_node zs)"
    using cnew ndl cs by (auto simp: chunk_node_def)
  note add = list_add_tail_at [OF dl chunk_addrs(5) [OF ca] nin chunk_fields_mapped(3,4) [OF ca]]
  have u: "upd_only h (fields h (c # cs)) ?h"
  proof -
    have "fields h (ys @ zs) \<subseteq> fields h (c # cs)" using cs by (intro fields_mono) auto
    then have "?p \<in> fields h (c # cs)" "?n + 4 \<in> fields h (c # cs)"
      using fields_ends(1) [of h ys zs] fields_ends(2) [of zs h ys] by blast+
    moreover have "chunk_node c \<in> fields h (c # cs)" "chunk_node c + 4 \<in> fields h (c # cs)" by (auto simp: fields_def)
    ultimately show ?thesis by (auto simp: upd_only_def linked_def)
  qed
  have run: "insertChunk h c = Some (Inr ?h)"
  proof (cases "cs = []")
    case True
    then show ?thesis using add(1) list_empty_iff [OF dl] cs by (simp add: insertChunk_def retK_def)
  next
    case False
    then have "list_empty (hm h) (list_hd h) = Inr False" using list_empty_iff [OF dl] cs by simp
    moreover have "list_for_each (hm h) (list_hd h) (large_enough h (csize h c)) () = Some (Inr (?n, ()))"
      using search_large_enough [OF h, of "csize h c"] unfolding zs_def by simp
    ultimately show ?thesis
      using add(1) chunksize_eq [OF chunk_fields_mapped(2) [OF ca]] by (simp add: insertChunk_def retK_def)
  qed
  have "csize ?h d = csize h d" if "d \<in> set (c # cs)" for d
  proof (rule upd_only_same(7) [OF u])
    have "apart (unat e) (unat (csize h e)) (unat d) (unat (csize h d))" if "e \<in> set (c # cs)" "e \<noteq> d" for e
      using that \<open>d \<in> set (c # cs)\<close> h c by (auto simp: heap_ok_def region_def apart_sym)
    moreover have "chunk_at h e (unat (csize h e))" if "e \<in> set (c # cs)" for e
      using that h ca by (auto simp: heap_ok_def)
    moreover have "apart (unat (list_hd h)) 8 (unat d) (unat (csize h d))"
      using that h c by (auto simp: heap_ok_def region_def)
    ultimately show "d + 4 \<notin> fields h (c # cs)"
      using header_not_field [of h d "unat (csize h d)" "c # cs" "\<lambda>e. unat (csize h e)" "d + 4"]
        heap_ok_node [OF h] chunk_addrs(1) [of h d "unat (csize h d)"] that by auto
  qed
  then have sz: "\<forall>d \<in> set (c # cs). csize ?h d = csize h d" by blast
  have st: "set (ys @ c # zs) = set (c # cs)" using cs by auto
  have "map (csize ?h) (ys @ c # zs) = map (csize h) (ys @ c # zs)" using sz cs by simp
  then have so: "sorted (map (csize ?h) (ys @ c # zs))"
    using insert_by_size_sorted [of h cs c] h ins by (simp only: heap_ok_def)
  have "heap_ok ?h (ys @ c # zs)"
    unfolding heap_ok_def st
  proof (intro conjI ballI impI so)
    show "dlist (hm ?h) (list_hd ?h) (map chunk_node (ys @ c # zs))" using add(2) by simp
  next
    fix d assume d: "d \<in> set (c # cs)"
    then have "chunk_at h d (unat (csize h d))" using h ca by (auto simp: heap_ok_def)
    then show "chunk_at ?h d (unat (csize ?h d))" using sz d upd_only_same(9) [OF u] by metis
    show "apart (unat (list_hd ?h)) 8 (unat d) (unat (csize ?h d))"
      using sz d h c by (auto simp: heap_ok_def region_def)
  next
    fix d e assume "d \<in> set (c # cs)" "e \<in> set (c # cs)" "d \<noteq> e"
    then show "apart (unat d) (unat (csize ?h d)) (unat e) (unat (csize ?h e))"
      using sz h c by (auto simp: heap_ok_def region_def apart_sym)
  qed
  then show ?thesis using run u ins by auto
qed

section \<open>Allocation keeps the free list\<close>

lemma and_m8_unat: "unat (x AND - 8 :: u32) = unat x div 8 * 8"
  using unat_and_not_mask [of x 3] by (simp add: mask_eq_exp_minus_1)

lemma and_m8_aligned: "unat (x :: u32) mod 8 = 0 \<Longrightarrow> x AND - 8 = x"
  by (metis and_m8_unat minus_mod_eq_div_mult diff_zero word_unat_eq_iff)

lemma csize_aligned: "unat (csize h c) mod 8 = 0"
  by (simp add: csize_def and_m8_unat)

lemma or_flags_size:
  "(x OR 1 :: u32) AND - 8 = x AND - 8" "((v AND 1) OR 2 OR x :: u32) AND - 8 = x AND - 8"
  by (simp_all add: bit.conj_disj_distrib2 and.assoc)

lemma or_flags_inuse: "((v AND 1) OR 2 OR x :: u32) AND 2 \<noteq> 0"
proof
  assume "((v AND 1) OR 2 OR x) AND 2 = 0"
  then have "\<not> bit (((v AND 1) OR 2 OR x) AND 2) 1" by simp
  then show False by (simp add: bit_simps)
qed

lemma taken_flags:
  "((v AND 1) OR 2 OR x :: u32) AND 3 \<noteq> 1" "v AND 1 \<noteq> 0 \<Longrightarrow> ((v AND 1) OR 2 OR x :: u32) AND 1 \<noteq> 0"
proof -
  show "((v AND 1) OR 2 OR x :: u32) AND 3 \<noteq> 1"
  proof
    assume "((v AND 1) OR 2 OR x :: u32) AND 3 = 1"
    then have "bit (((v AND 1) OR 2 OR x :: u32) AND 3) 1 \<longleftrightarrow> bit (1 :: u32) 1" by simp
    then show False by (simp add: bit_simps)
  qed
  have v: "(w AND 1 :: u32) \<noteq> 0 \<longleftrightarrow> bit w 0" for w by (simp add: and_one_eq odd_iff_mod_2_eq_one bit_0)
  show "((v AND 1) OR 2 OR x :: u32) AND 1 \<noteq> 0" if "v AND 1 \<noteq> 0" using that unfolding v by (simp add: bit_simps)
qed

lemma size_flags:
  assumes "unat (x :: u32) mod 8 = 0"
  shows "(x OR 1) AND 2 = 0" "(x OR 1) AND 1 \<noteq> 0"
proof -
  have "x = x AND - 8" using and_m8_aligned [OF assms] by simp
  then have "x OR 1 = (x AND - 8) OR 1" by simp
  moreover have "((x AND - 8) OR 1) AND 2 = 0" by (simp add: bit.conj_disj_distrib2 and.assoc)
  ultimately show "(x OR 1) AND 2 = 0" by simp
  have "(x OR 1) AND 1 = (x AND 1) OR (1 AND 1)" by (rule bit.conj_disj_distrib2)
  then have "bit ((x OR 1) AND 1) 0" by (simp add: bit_simps)
  then show "(x OR 1) AND 1 \<noteq> 0" by auto
qed

lemma used_flags:
  assumes "(x :: u32) AND 2 \<noteq> 0"
  shows "(x OR 1) AND 2 \<noteq> 0" "(x OR 1) AND 1 \<noteq> 0"
proof -
  show "(x OR 1) AND 2 \<noteq> 0" using assms by (simp add: bit.conj_disj_distrib2)
  have "bit ((x OR 1) AND 1) 0" by (simp add: bit_simps)
  then show "(x OR 1) AND 1 \<noteq> 0" by auto
qed

lemma find_eq: "x \<in> set xs \<Longrightarrow> find (\<lambda>d. d = x) xs = Some x"
  by (induction xs) auto

lemma inside_not_field:
  assumes h: "heap_ok h cs" and d: "fits_apart h cs d"
    and a: "unat d \<le> unat a" "unat a < unat d + unat (csize h d)"
  shows "a \<notin> fields h cs"
proof
  assume "a \<in> fields h cs"
  then consider "a = list_hd h \<or> a = list_hd h + 4"
    | c where "c \<in> set cs" "a = chunk_node c \<or> a = chunk_node c + 4" by (auto simp: fields_def)
  then show False
  proof cases
    case 1
    then show False using d node_plus_4 [OF heap_ok_node [OF h]] a by (auto simp: apart_def region_def)
  next
    case 2
    have c: "chunk_at h c (unat (csize h c))" using heap_ok_chunk [OF h 2(1)] .
    have "apart (unat c) (unat (csize h c)) (unat d) (unat (csize h d))" using d 2(1) by (simp add: region_def)
    then show False using 2 a chunk_addrs [OF c] c by (auto simp: apart_def chunk_at_def)
  qed
qed

lemma put_head_eq: "hm h (c + 4) \<noteq> None \<Longrightarrow> put_head h c v = Inr (h\<lparr>hm := (hm h)(c + 4 \<mapsto> v)\<rparr>)"
  by (simp add: put_head_def dstore_eq)

lemma put_head_facts:
  "head_of (h\<lparr>hm := (hm h)(c + 4 \<mapsto> v)\<rparr>) d = (if d = c then v else head_of h d)"
  "csize (h\<lparr>hm := (hm h)(c + 4 \<mapsto> v)\<rparr>) d = (if d = c then v AND - 8 else csize h d)"
  "upd_only h {c + 4} (h\<lparr>hm := (hm h)(c + 4 \<mapsto> v)\<rparr>)"
  by (simp_all add: head_of_def csize_def upd_only_def)

lemma heap_ok_put_head:
  assumes "heap_ok h cs" "c + 4 \<notin> fields h cs" "c \<in> set cs \<Longrightarrow> v AND - 8 = csize h c"
  shows "heap_ok (h\<lparr>hm := (hm h)(c + 4 \<mapsto> v)\<rparr>) cs"
  using assms(1) by (rule heap_ok_cong) (use assms put_head_facts in auto)

lemma set_inuse_ok:
  assumes h: "heap_ok h cs" and m: "hm h (c + 4) \<noteq> None" "hm h (c + s + 4) \<noteq> None" and s: "s \<noteq> 0" "unat s mod 8 = 0"
    and f: "c + 4 \<notin> fields h cs" "c + s + 4 \<notin> fields h cs" and c: "c \<notin> set cs"
  shows "\<exists>h'. set_inuse h c s = Inr h' \<and> heap_ok h' cs \<and> upd_only h {c + 4, c + s + 4} h' \<and>
    csize h' c = s \<and> head_of h' c AND 2 \<noteq> 0 \<and> head_of h' (c + s) = head_of h (c + s) OR 1 \<and>
    head_of h' c = (head_of h c AND 1) OR 2 OR s"
proof -
  let ?v = "head_of h c" and ?w = "head_of h (c + s)"
  let ?h1 = "h\<lparr>hm := (hm h)(c + 4 \<mapsto> (?v AND 1) OR 2 OR s)\<rparr>"
  let ?h2 = "?h1\<lparr>hm := (hm ?h1)(c + s + 4 \<mapsto> ?w OR 1)\<rparr>"
  have hv: "get_head h c = Inr ?v" using m(1) by (auto simp: get_head_def head_of_def)
  have hw: "get_head ?h1 (c + s) = Inr ?w" using m(2) s(1) by (auto simp: get_head_def head_of_def)
  have "set_inuse h c s = Inr ?h2"
    using m s(1) hv hw put_head_eq [of h c] put_head_eq [of ?h1 "c + s"]
    by (simp add: set_inuse_def PINUSE_BIT_def CINUSE_BIT_def or.assoc)
  moreover have h1: "heap_ok ?h1 cs" using heap_ok_put_head [OF h f(1)] c by simp
  have "heap_ok ?h2 cs"
  proof (rule heap_ok_put_head [OF h1])
    show "c + s + 4 \<notin> fields ?h1 cs" using f(2) by (simp add: fields_def)
    show "(?w OR 1) AND - 8 = csize ?h1 (c + s)"
      using s(1) by (simp add: or_flags_size put_head_facts csize_def)
  qed
  moreover have "upd_only h {c + 4, c + s + 4} ?h2" by (auto simp: upd_only_def)
  moreover have "csize ?h2 c = s" using s by (simp add: csize_def head_of_def or_flags_size and_m8_aligned)
  moreover have "head_of ?h2 c AND 2 \<noteq> 0" "head_of ?h2 (c + s) = ?w OR 1" "head_of ?h2 c = (?v AND 1) OR 2 OR s"
    using s by (simp_all add: head_of_def or_flags_inuse)
  ultimately show ?thesis by blast
qed

text \<open>A chunk taken out of the list stands apart from those that stay.\<close>

lemma removed_apart:
  assumes h: "heap_ok h (ys @ c # zs)" and u: "upd_only h (fields h (ys @ zs)) h1"
  shows "fits_apart h1 (ys @ zs) c" "csize h1 c = csize h c" "head_of h1 c = head_of h c" "c \<notin> set (ys @ zs)"
    "\<And>d. d \<in> set (ys @ zs) \<Longrightarrow> csize h1 d = csize h d"
proof -
  have sub: "fields h (ys @ zs) \<subseteq> fields h (ys @ c # zs)" by (rule fields_mono) auto
  have nf: "d + 4 \<notin> fields h (ys @ zs)" if "d \<in> set (ys @ c # zs)" for d
    using heap_ok_header(2) [OF h that] sub by blast
  have cs: "csize h1 d = csize h d" if "d \<in> set (ys @ c # zs)" for d
    using upd_only_same(7) [OF u nf [OF that]] .
  then show "csize h1 c = csize h c" "\<And>d. d \<in> set (ys @ zs) \<Longrightarrow> csize h1 d = csize h d" by auto
  show "head_of h1 c = head_of h c" by (rule upd_only_same(8) [OF u nf]) simp
  have "inj chunk_node" by (auto simp: inj_def chunk_node_def)
  then show c: "c \<notin> set (ys @ zs)" using h by (auto simp: heap_ok_def dlist_def distinct_map)
  have "apart (unat d) (unat (csize h1 d)) (unat c) (unat (csize h1 c))" if "d \<in> set (ys @ zs)" for d
    using h that c cs [of c] cs [of d] by (auto simp: heap_ok_def)
  then show "fits_apart h1 (ys @ zs) c"
    using heap_ok_chunk [OF h, of c] upd_only_same(1,9) [OF u] h cs [of c]
    by (auto simp: region_def heap_ok_def)
qed

text \<open>The header after a chunk is none of the links either.\<close>

lemma region_next_header:
  assumes h: "heap_ok h cs" and c: "region h cs c (unat s)" and n: "c + s \<noteq> list_hd h"
  shows "c + s + 4 \<notin> fields h cs"
proof
  let ?a = "c + s + 4"
  have ca: "chunk_at h c (unat s)" using c by (simp add: region_def)
  then have u: "unat (c + s) = unat c + unat s" "unat ?a = unat c + unat s + 4"
    by (simp_all add: chunk_at_def unat_add_u32)
  have m8: "unat (c + s) mod 8 = 0" using ca u(1) by (auto simp: chunk_at_def)
  assume "?a \<in> fields h cs"
  then consider "?a = list_hd h \<or> ?a = list_hd h + 4"
    | d where "d \<in> set cs" "?a = chunk_node d \<or> ?a = chunk_node d + 4" by (auto simp: fields_def)
  then show False
  proof cases
    case 1
    moreover have "?a \<noteq> list_hd h"
    proof
      assume "?a = list_hd h"
      then have "(unat (c + s) + 4) mod 8 = 0" using heap_ok_node [OF h] u by (simp add: node_def)
      then show False using m8 by presburger
    qed
    ultimately show False using n by simp
  next
    case 2
    have d: "chunk_at h d (unat (csize h d))" using heap_ok_chunk [OF h 2(1)] .
    have "apart (unat d) (unat (csize h d)) (unat c) (unat s)" using c 2(1) by (simp add: region_def)
    moreover have "unat c + unat s + 4 = unat d + 8 \<or> unat c + unat s + 4 = unat d + 12"
      using 2(2) u(2) chunk_addrs [OF d] by auto
    ultimately show False using d ca by (auto simp: apart_def chunk_at_def)
  qed
qed

lemma alloc_take_whole:
  assumes h: "heap_ok h (ys @ c # zs)" and nb: "nb \<le> csize h c" "\<not> unat nb + 16 \<le> unat (csize h c)"
    and room: "hm h (c + csize h c + 4) \<noteq> None" "c + csize h c \<noteq> list_hd h"
  shows "\<exists>h'. alloc_take h c nb = Some (Inr (c + 8, h')) \<and> heap_ok h' (ys @ zs) \<and>
    csize h' c = csize h c \<and> head_of h' c AND 2 \<noteq> 0 \<and> (\<forall>d \<in> set (ys @ zs). csize h' d = csize h d) \<and>
    upd_only h (fields h (ys @ zs) \<union> {c + 4, c + csize h c + 4}) h' \<and>
    head_of h' c = (head_of h c AND 1) OR 2 OR csize h c \<and> head_of h' (c + csize h c) = head_of h (c + csize h c) OR 1"
proof -
  let ?s = "csize h c"
  obtain h1 where h1: "removeChunk h c = Inr h1" "heap_ok h1 (ys @ zs)" and u1: "upd_only h (fields h (ys @ zs)) h1"
    using removeChunk_ok [OF h] by blast
  note ra = removed_apart [OF h u1]
  have ca: "chunk_at h c (unat ?s)" "chunk_at h1 c (unat ?s)"
    using heap_ok_chunk [OF h, of c] upd_only_same(9) [OF u1] by auto
  have cm: "hm h (c + 4) \<noteq> None" "hm h1 (c + 4) \<noteq> None" using chunk_fields_mapped(2) ca by blast+
  have lt: "\<not> nb + 16 \<le> ?s"
  proof -
    have "unat nb + 16 < 4294967296" using nb(1) ca(1) by (auto simp: chunk_at_def u32_le_iff)
    then show ?thesis using nb(2) by (simp add: u32_le_iff unat_add_u32)
  qed
  have f1: "c + 4 \<notin> fields h1 (ys @ zs)"
    by (rule inside_not_field [OF h1(2) ra(1)]) (use ca(1) ra(2) chunk_addrs(1) [OF ca(1)] in \<open>auto simp: chunk_at_def\<close>)
  have f2: "c + ?s + 4 \<notin> fields h1 (ys @ zs)"
    using region_next_header [OF h1(2) ra(1)] room(2) ra(2) upd_only_same(1) [OF u1] by simp
  have r1: "hm h1 (c + ?s + 4) \<noteq> None" using upd_only_same(6) [OF u1 room(1)] .
  have s0: "?s \<noteq> 0" using ca(1) by (auto simp: chunk_at_def)
  obtain h2 where h2: "set_inuse h1 c ?s = Inr h2" "heap_ok h2 (ys @ zs)" "upd_only h1 {c + 4, c + ?s + 4} h2"
    "csize h2 c = ?s" "head_of h2 c AND 2 \<noteq> 0" "head_of h2 c = (head_of h1 c AND 1) OR 2 OR ?s"
    "head_of h2 (c + ?s) = head_of h1 (c + ?s) OR 1"
    using set_inuse_ok [OF h1(2) cm(2) r1 s0 csize_aligned f1 f2 ra(4)] by blast
  have "alloc_take h c nb = Some (Inr (c + 8, h2))"
    using h1(1) h2(1) chunksize_eq [OF cm(1)] chunksize_eq [OF cm(2)] nb(1) lt ra(2)
    by (simp add: alloc_take_def retK_def chunk2mem_def)
  moreover have "upd_only h (fields h (ys @ zs) \<union> {c + 4, c + ?s + 4}) h2" using upd_only_trans [OF u1 h2(3)] .
  moreover have "csize h2 d = csize h d" if d: "d \<in> set (ys @ zs)" for d
  proof -
    have "d \<noteq> c" using d ra(4) by auto
    show ?thesis
    proof (cases "d + 4 = c + ?s + 4")
      case True
      then have "d = c + ?s" by simp
      then have "csize h2 d = csize h1 d" using h2(7) by (simp add: csize_def or_flags_size)
      then show ?thesis using ra(5) [OF d] by simp
    next
      case False
      then show ?thesis using upd_only_same(7) [OF h2(3), of d] \<open>d \<noteq> c\<close> ra(5) [OF d] by simp
    qed
  qed
  moreover have "head_of h1 (c + ?s) = head_of h (c + ?s)"
    using upd_only_same(8) [OF u1, of "c + ?s"] f2 upd_only_same(10) [OF u1] by simp
  ultimately show ?thesis using h2 ra(3) by (intro exI [of _ h2]) simp
qed

text \<open>Cutting a removed chunk in two: the second part becomes a free chunk of its own.\<close>

lemma split_off:
  assumes h: "heap_ok h cs" and c: "fits_apart h cs c" "c \<notin> set cs"
    and nb: "unat nb mod 8 = 0" "16 \<le> unat nb" "unat nb + 16 \<le> unat (csize h c)"
  shows "\<exists>h'. bindK (Some (put_head h (c + nb) (csize h c - nb))) (\<lambda>h. insertChunk h (c + nb)) = Some (Inr h') \<and>
    (\<exists>cs'. set cs' = insert (c + nb) (set cs) \<and> heap_ok h' cs') \<and> csize h' (c + nb) = csize h c - nb \<and>
    csize h' c = csize h c \<and> (\<forall>d \<in> set cs. csize h' d = csize h d) \<and>
    upd_only h (fields h ((c + nb) # cs) \<union> {c + nb + 4}) h' \<and> c + nb \<notin> set cs \<and> c + 4 \<notin> fields h ((c + nb) # cs) \<and>
    head_of h' (c + nb) = csize h c - nb"
proof -
  let ?s = "csize h c" and ?new = "c + nb"
  let ?v = "?s - nb"
  let ?h = "h\<lparr>hm := (hm h)(?new + 4 \<mapsto> ?v)\<rparr>"
  have ca: "chunk_at h c (unat ?s)" using c by (simp add: region_def)
  have un: "unat ?new = unat c + unat nb" using ca nb by (simp add: chunk_at_def unat_add_u32)
  have uv: "unat ?v = unat ?s - unat nb" using nb by (simp add: unat_sub u32_le_iff)
  have v8: "unat ?v mod 8 = 0" using uv nb csize_aligned [of h c] by (simp add: mod_0_imp_dvd)
  have n4: "unat (?new + 4) = unat c + unat nb + 4" using un ca nb by (simp add: chunk_at_def unat_add_u32)
  have cn: "chunk_at h ?new (unat ?v)" using ca nb un uv v8 unfolding chunk_at_def by auto
  have nf: "?new + 4 \<notin> fields h cs" by (rule inside_not_field [OF h c(1)]) (use n4 nb in auto)
  have nin: "?new \<notin> set cs"
  proof
    assume d: "?new \<in> set cs"
    then have "apart (unat ?new) (unat (csize h ?new)) (unat c) (unat ?s)" using c(1) by (simp add: region_def)
    then show False using un nb heap_ok_chunk [OF h d] by (auto simp: apart_def chunk_at_def)
  qed
  have nc: "?new \<noteq> c" using nb by auto
  have h2: "heap_ok ?h cs" using heap_ok_put_head [OF h nf] nin by simp
  have s2: "csize ?h ?new = ?v" "\<And>d. d \<noteq> ?new \<Longrightarrow> csize ?h d = csize h d"
    using and_m8_aligned [OF v8] by (simp_all add: put_head_facts)
  have fa: "fits_apart ?h cs ?new"
    unfolding region_def s2(1)
  proof (intro conjI ballI)
    show "chunk_at ?h ?new (unat ?v)" using cn upd_only_same(9) [OF put_head_facts(3)] by blast
    show "apart (unat (list_hd ?h)) 8 (unat ?new) (unat ?v)"
      using c(1) un uv nb by (auto simp: region_def apart_def)
    fix d assume d: "d \<in> set cs"
    then have e: "csize ?h d = csize h d" using s2(2) [of d] nin by metis
    have "apart (unat d) (unat (csize h d)) (unat c) (unat ?s)" using c(1) d by (simp add: region_def)
    then show "apart (unat d) (unat (csize ?h d)) (unat ?new) (unat ?v)"
      unfolding e using un uv nb by (auto simp: apart_def)
  qed
  have fe: "fields ?h (?new # cs) = fields h (?new # cs)" by (simp add: fields_def)
  obtain h3 where h3: "insertChunk ?h ?new = Some (Inr h3)" "heap_ok h3 (insert_by_size ?h ?new cs)"
      and u3: "upd_only ?h (fields h (?new # cs)) h3"
    using insertChunk_ok [OF h2 fa] unfolding fe by blast
  have c4: "c + 4 \<notin> fields h (?new # cs)"
  proof (rule header_not_field [of h c "unat nb" _ "\<lambda>d. if d = ?new then unat ?v else unat (csize h d)"])
    show "chunk_at h c (unat nb)" using ca nb by (auto simp: chunk_at_def)
    show "node (list_hd h)" by (rule heap_ok_node [OF h])
    show "apart (unat (list_hd h)) 8 (unat c) (unat nb)" using c(1) nb by (auto simp: region_def apart_def)
    show "unat c \<le> unat (c + 4)" "unat (c + 4) \<le> unat c + 4" using chunk_addrs(1) [OF ca] by simp_all
  next
    fix d assume d: "d \<in> set (?new # cs)"
    then show "chunk_at h d (if d = ?new then unat ?v else unat (csize h d))"
      using cn heap_ok_chunk [OF h, of d] by auto
    show "apart (unat d) (if d = ?new then unat ?v else unat (csize h d)) (unat c) (unat nb)"
      using d c(1) un nb uv by (auto simp: region_def apart_def)
  qed
  have hd4: "d + 4 \<notin> fields h (?new # cs)" if d: "d \<in> insert ?new (set cs)" for d
  proof -
    have "d \<in> set (insert_by_size ?h ?new cs)" using d by (simp add: set_insert_by_size)
    from heap_ok_header(2) [OF h3(2) this] show "d + 4 \<notin> fields h (?new # cs)"
      using upd_only_same(1) [OF u3] by (simp add: fields_def set_insert_by_size)
  qed
  note keep = upd_only_same(7) [OF u3 hd4]
  have kc: "csize h3 c = csize h c" using upd_only_same(7) [OF u3 c4] s2(2) [of c] nc by metis
  have "bindK (Some (put_head h ?new ?v)) (\<lambda>h. insertChunk h ?new) = Some (Inr h3)"
    using h3(1) put_head_eq [OF chunk_fields_mapped(2) [OF cn]] by simp
  moreover have "upd_only h (fields h (?new # cs) \<union> {?new + 4}) h3"
    using upd_only_trans [OF put_head_facts(3) u3] by (simp add: Un_commute)
  moreover have "set (insert_by_size ?h ?new cs) = insert ?new (set cs)" by (rule set_insert_by_size)
  moreover have "csize h3 ?new = ?v" using keep [of ?new] s2(1) by simp
  moreover have "csize h3 d = csize h d" if "d \<in> set cs" for d using keep [of d] s2(2) [of d] that nin by auto
  moreover have "head_of h3 ?new = ?v" using upd_only_same(8) [OF u3 hd4, of ?new] by (simp add: put_head_facts)
  ultimately show ?thesis using h3(2) kc nin c4 by blast
qed

lemma alloc_take_split:
  assumes h: "heap_ok h (ys @ c # zs)"
    and nb: "unat nb mod 8 = 0" "16 \<le> unat nb" "unat nb + 16 \<le> unat (csize h c)"
  shows "\<exists>h' cs'. alloc_take h c nb = Some (Inr (c + 8, h')) \<and> heap_ok h' cs' \<and>
    set cs' = insert (c + nb) (set (ys @ zs)) \<and> csize h' (c + nb) = csize h c - nb \<and>
    csize h' c = nb \<and> head_of h' c AND 2 \<noteq> 0 \<and> (\<forall>d \<in> set (ys @ zs). csize h' d = csize h d) \<and>
    upd_only h (fields h ((c + nb) # ys @ zs) \<union> {c + 4, c + nb + 4}) h' \<and>
    head_of h' c = (head_of h c AND 1) OR 2 OR nb \<and> head_of h' (c + nb) = (csize h c - nb) OR 1"
proof -
  let ?s = "csize h c" and ?new = "c + nb"
  obtain h1 where h1: "removeChunk h c = Inr h1" "heap_ok h1 (ys @ zs)" and u1: "upd_only h (fields h (ys @ zs)) h1"
    using removeChunk_ok [OF h] by blast
  note ra = removed_apart [OF h u1]
  have nb1: "unat nb + 16 \<le> unat (csize h1 c)" using nb(3) ra(2) by simp
  have fe: "fields h1 ds = fields h ds" for ds using upd_only_same(10) [OF u1] .
  obtain h2 cs' where h2: "bindK (Some (put_head h1 ?new (?s - nb))) (\<lambda>h. insertChunk h ?new) = Some (Inr h2)"
      and cs': "set cs' = insert ?new (set (ys @ zs))" "heap_ok h2 cs'"
      and s2: "csize h2 ?new = ?s - nb" "csize h2 c = ?s" "\<forall>d \<in> set (ys @ zs). csize h2 d = csize h1 d"
      and u2: "upd_only h1 (fields h (?new # ys @ zs) \<union> {?new + 4}) h2" and nin: "?new \<notin> set (ys @ zs)"
      and c4: "c + 4 \<notin> fields h (?new # ys @ zs)" and hn: "head_of h2 ?new = ?s - nb"
    using split_off [OF h1(2) ra(1,4) nb(1,2) nb1] unfolding fe ra(2) by (elim exE conjE) (rule that)
  have ca: "chunk_at h c (unat ?s)" using heap_ok_chunk [OF h, of c] by simp
  have cm: "hm h (c + 4) \<noteq> None" using chunk_fields_mapped(2) [OF ca] .
  have cm1: "hm h1 (c + 4) \<noteq> None" "hm h2 (c + 4) \<noteq> None"
    using cm upd_only_same(6) [OF u1, of "c + 4"] upd_only_same(6) [OF u2, of "c + 4"] by blast+
  have nbs: "nb + 16 \<le> ?s" "nb \<le> ?s"
    using nb(3) ca by (auto simp: u32_le_iff chunk_at_def unat_add_u32)
  have nm: "?new \<in> set cs'" using cs'(1) by simp
  have n4: "?new + 4 \<notin> fields h2 cs'" using heap_ok_header(2) [OF cs'(2) nm] .
  have fc: "fields h2 cs' = fields h (?new # ys @ zs)"
    using upd_only_same(1) [OF u1] upd_only_same(1) [OF u2] cs'(1) by (simp add: fields_def)
  have c4': "c + 4 \<notin> fields h2 cs'" using c4 fc by simp
  have nm2: "hm h2 (c + nb + 4) \<noteq> None" using chunk_fields_mapped(2) [OF heap_ok_chunk [OF cs'(2) nm]] .
  have nb0: "nb \<noteq> 0" using nb(2) by auto
  have cnin: "c \<notin> set cs'" using cs'(1) ra(4) nb0 by auto
  obtain h3 where h3: "set_inuse h2 c nb = Inr h3" "heap_ok h3 cs'" "csize h3 c = nb" "head_of h3 c AND 2 \<noteq> 0"
      "head_of h3 ?new = head_of h2 ?new OR 1" "head_of h3 c = (head_of h2 c AND 1) OR 2 OR nb"
      and u3: "upd_only h2 {c + 4, ?new + 4} h3"
    using set_inuse_ok [OF cs'(2) cm1(2) nm2 nb0 nb(1) c4' n4 cnin] by blast
  have "alloc_take h c nb = Some (Inr (c + 8, h3))"
  proof -
    have "bindK (Some (put_head h1 ?new (?s - nb))) (\<lambda>h. bindK (insertChunk h ?new) (\<lambda>h. retK (nb, h))) = retK (nb, h2)"
      using h2 by (auto simp: bindK_def split: option.splits sum.splits)
    then show ?thesis
      using h1(1) h3(1) chunksize_eq [OF cm] chunksize_eq [OF cm1(1)] nbs ra(2)
      by (simp add: alloc_take_def retK_def chunk2mem_def)
  qed
  moreover have "csize h3 ?new = ?s - nb" using h3(5) s2(1) by (simp add: csize_def or_flags_size)
  moreover have "csize h3 d = csize h d" if d: "d \<in> set (ys @ zs)" for d
  proof -
    have "d \<noteq> c" "d \<noteq> ?new" using d ra(4) nin by auto
    then show ?thesis using upd_only_same(7) [OF u3, of d] s2(3) ra(5) [OF d] d by simp
  qed
  moreover have "upd_only h (fields h (?new # ys @ zs) \<union> {c + 4, ?new + 4}) h3"
    by (rule upd_only_mono [OF upd_only_trans [OF upd_only_trans [OF u1 u2] u3]])
      (use fields_mono [of "ys @ zs" "?new # ys @ zs" h] in auto)
  moreover have "head_of h2 c = head_of h c"
  proof -
    have "c + 4 \<notin> fields h (ys @ zs)" "c + 4 \<noteq> ?new + 4" using c4 nb0 by (auto simp: fields_def)
    then show ?thesis using upd_only_same(8) [OF u1, of c] upd_only_same(8) [OF u2, of c] c4 by simp
  qed
  ultimately show ?thesis using h3(2,3,4,5,6) hn cs'(1) by metis
qed

section \<open>Release\<close>

lemma region_header:
  assumes h: "heap_ok h cs" and r: "region h cs c n"
  shows "c + 4 \<notin> fields h cs" "c \<notin> fields h cs" "c \<notin> set cs"
proof -
  have ca: "chunk_at h c n" using r by (simp add: region_def)
  show "c \<notin> set cs"
    using r ca heap_ok_chunk [OF h, of c] by (force simp: region_def apart_def chunk_at_def)
  have "a \<notin> fields h cs" if "unat c \<le> unat a" "unat a \<le> unat c + 4" for a
    by (rule header_not_field [OF ca heap_ok_node [OF h], of cs "\<lambda>c. unat (csize h c)"])
      (use r heap_ok_chunk [OF h] that in \<open>auto simp: region_def\<close>)
  then show "c + 4 \<notin> fields h cs" "c \<notin> fields h cs" using chunk_addrs [OF ca] by auto
qed

text \<open>Taking a neighbour out of the list enlarges the region by it.\<close>

lemma absorb:
  assumes h: "heap_ok h cs" and r: "region h cs c n" and d: "d \<in> set cs"
    and adj: "unat d + unat (csize h d) = unat c \<and> b = d \<or> unat c + n = unat d \<and> b = c"
  shows "\<exists>h' cs'. removeChunk h d = Inr h' \<and> heap_ok h' cs' \<and> set cs' = set cs - {d} \<and>
    region h' cs' b (n + unat (csize h d)) \<and> (\<forall>e \<in> set cs'. csize h' e = csize h e) \<and> upd_only h (fields h cs') h'"
proof -
  obtain ys zs where cs: "cs = ys @ d # zs" using split_list [OF d] by blast
  obtain h1 where h1: "removeChunk h d = Inr h1" "heap_ok h1 (ys @ zs)" and u: "upd_only h (fields h (ys @ zs)) h1"
    using removeChunk_ok h cs by blast
  note ra = removed_apart [OF h [unfolded cs] u]
  have st: "set (ys @ zs) = set cs - {d}" using cs ra(4) by auto
  have da: "chunk_at h d (unat (csize h d))" "apart (unat (list_hd h)) 8 (unat d) (unat (csize h d))"
    using h d by (auto simp: heap_ok_def)
  have ca: "chunk_at h c n" "apart (unat (list_hd h)) 8 (unat c) n" using r by (auto simp: region_def)
  have nd: "node (list_hd h)" by (rule heap_ok_node [OF h])
  have "region h1 (ys @ zs) b (n + unat (csize h d))"
    unfolding region_def
  proof (intro conjI ballI)
    have "chunk_at h b (n + unat (csize h d))" unfolding chunk_at_def
    proof (intro conjI allI impI)
      fix a :: u32 assume a: "unat a mod 4 = 0" "unat b \<le> unat a" "unat a < unat b + (n + unat (csize h d))"
      then consider "unat d \<le> unat a" "unat a < unat d + unat (csize h d)"
        | "unat c \<le> unat a" "unat a < unat c + n" using adj by force
      then show "hm h a \<noteq> None" using chunk_mapped [OF da(1) a(1)] chunk_mapped [OF ca(1) a(1)] by cases auto
    qed (use da(1) ca(1) adj csize_aligned [of h d] in \<open>auto simp: chunk_at_def mod_add_eq [symmetric]\<close>)
    then show "chunk_at h1 b (n + unat (csize h d))" using upd_only_same(9) [OF u] by blast
    show "apart (unat (list_hd h1)) 8 (unat b) (n + unat (csize h d))"
      using da(2) ca(2) adj upd_only_same(1) [OF u] da(1) ca(1) nd
      by (auto simp: apart_def chunk_at_def)
  next
    fix e assume e: "e \<in> set (ys @ zs)"
    then have "e \<in> set cs" "e \<noteq> d" using st by auto
    then have "apart (unat e) (unat (csize h e)) (unat d) (unat (csize h d))" "apart (unat e) (unat (csize h e)) (unat c) n"
      using h d r by (auto simp: heap_ok_def region_def)
    moreover have "16 \<le> unat (csize h e)" using heap_ok_chunk [OF h \<open>e \<in> set cs\<close>] by (simp add: chunk_at_def)
    ultimately show "apart (unat e) (unat (csize h1 e)) (unat b) (n + unat (csize h d))"
      using ra(5) [OF e] adj by (auto simp: apart_def)
  qed
  then show ?thesis using h1 u st ra(5) by blast
qed

lemma foot_not_field:
  assumes h: "heap_ok h cs" and r: "region h cs b n" and n: "n = unat sz" "b + sz \<noteq> list_hd h"
  shows "b + sz \<notin> fields h (b # cs)" "\<And>d. d \<in> set (b # cs) \<Longrightarrow> b + sz \<noteq> d + 4"
proof -
  have ba: "chunk_at h b n" using r by (simp add: region_def)
  have u: "unat (b + sz) = unat b + n" using ba n(1) by (simp add: chunk_at_def unat_add_u32)
  have m8: "unat (b + sz) mod 8 = 0" using u ba by (auto simp: chunk_at_def)
  have ch: "chunk_at h d (if d = b then n else unat (csize h d))" if "d \<in> set (b # cs)" for d
    using that ba heap_ok_chunk [OF h, of d] by auto
  have odd: "b + sz \<noteq> d + 4" if "unat (d + 4) = unat d + 4" "unat d mod 8 = 0" for d
  proof
    assume "b + sz = d + 4"
    then have "(unat d + 4) mod 8 = 0" using m8 that(1) by simp
    then show False using that(2) by presburger
  qed
  then show "b + sz \<noteq> d + 4" if "d \<in> set (b # cs)" for d
    using chunk_addrs(1) [OF ch [OF that]] ch [OF that] by (auto simp: chunk_at_def split: if_splits)
  show "b + sz \<notin> fields h (b # cs)"
  proof
    assume "b + sz \<in> fields h (b # cs)"
    then consider "b + sz = list_hd h + 4"
      | d where "d \<in> set (b # cs)" "b + sz = chunk_node d \<or> b + sz = chunk_node d + 4"
      using n(2) by (auto simp: fields_def)
    then show False
    proof cases
      case 1
      then show False
        using odd [OF node_plus_4 [OF heap_ok_node [OF h]]] heap_ok_node [OF h] by (simp add: node_def)
    next
      case 2
      have "b + sz = chunk_node d"
        using 2(2) odd [of "chunk_node d"] chunk_addrs [OF ch [OF 2(1)]] ch [OF 2(1)]
        by (auto simp: node_def)
      then have "unat b + n = unat d + 8" using u chunk_addrs(2) [OF ch [OF 2(1)]] by simp
      moreover have "apart (unat d) (unat (csize h d)) (unat b) n" if "d \<noteq> b"
        using r 2(1) that by (auto simp: region_def)
      ultimately show False using ba ch [OF 2(1)] by (auto simp: apart_def chunk_at_def split: if_splits)
    qed
  qed
qed

definition insert_freed :: "u32 \<times> u32 \<times> heap \<Rightarrow> heap krun" where
  "insert_freed = (\<lambda>(block, sz, h). if block \<noteq> 0 \<and> sz \<noteq> 0
     then bindK (Some (set_size_and_pinuse h block sz)) (\<lambda>h. insertChunk h block) else retK h)"

lemma insert_freed_block:
  assumes h: "heap_ok h cs" and r: "region h cs b (unat sz)"
  shows "\<exists>h' cs'. insert_freed (b, sz, h) = Some (Inr h') \<and> heap_ok h' cs' \<and>
    set cs' = insert b (set cs) \<and> csize h' b = sz \<and> (\<forall>d \<in> set cs. csize h' d = csize h d) \<and>
    upd_only h (fields h (b # cs) \<union> {b + 4}) h' \<and> head_of h' b AND 1 \<noteq> 0"
proof -
  have ba: "chunk_at h b (unat sz)" using r by (simp add: region_def)
  let ?h2 = "h\<lparr>hm := (hm h)(b + 4 \<mapsto> sz OR 1)\<rparr>"
  have sz8: "unat sz mod 8 = 0" and nz: "b \<noteq> 0" "sz \<noteq> 0" using ba by (auto simp: chunk_at_def)
  note hdr = region_header [OF h r]
  have h2: "heap_ok ?h2 cs" using heap_ok_put_head [OF h hdr(1)] hdr(3) by simp
  have s2: "csize ?h2 b = sz" "\<And>d. d \<noteq> b \<Longrightarrow> csize ?h2 d = csize h d"
    using and_m8_aligned [OF sz8] or_flags_size(1) [of sz] put_head_facts(2) [of h b "sz OR 1"] by simp_all
  have "\<forall>d \<in> set cs. csize ?h2 d = csize h d" using s2(2) hdr(3) by metis
  then have f2: "fits_apart ?h2 cs b"
    unfolding region_def s2(1)
    using r upd_only_same(9) [OF put_head_facts(3) [of h b "sz OR 1"], of b "unat sz"]
    by (simp add: region_def)
  obtain h3 where h3: "insertChunk ?h2 b = Some (Inr h3)" "heap_ok h3 (insert_by_size ?h2 b cs)"
      and u3: "upd_only ?h2 (fields h (b # cs)) h3"
    using insertChunk_ok [OF h2 f2] by (auto simp: fields_def)
  have nf: "d + 4 \<notin> fields h (b # cs)" if d: "d \<in> set (b # cs)" for d
  proof -
    have "d \<in> set (insert_by_size ?h2 b cs)" using d by (simp add: set_insert_by_size)
    from heap_ok_header(2) [OF h3(2) this] show ?thesis
      using upd_only_same(1) [OF u3] by (simp add: fields_def set_insert_by_size)
  qed
  note keep = upd_only_same(7) [OF u3 nf]
  have "head_of h3 b = sz OR 1" using upd_only_same(8) [OF u3 nf, of b] by (simp add: put_head_facts(1))
  then have "head_of h3 b AND 1 \<noteq> 0" using size_flags(2) [OF sz8] by simp
  have "put_head h b (sz OR 1) = Inr ?h2"
    using put_head_eq [OF chunk_fields_mapped(2) [OF ba]] by blast
  then have "insert_freed (b, sz, h) = Some (Inr h3)"
    using nz h3(1) by (simp add: insert_freed_def set_size_and_pinuse_def PINUSE_BIT_def)
  moreover have "csize h3 d = csize h d" if "d \<in> set cs" for d
    using keep [of d] s2(2) [of d] that hdr(3) by auto
  moreover have "csize h3 b = sz" using keep [of b] s2(1) by simp
  moreover have "upd_only h (fields h (b # cs) \<union> {b + 4}) h3"
    by (rule upd_only_mono [OF upd_only_trans [OF put_head_facts(3) u3]]) auto
  ultimately show ?thesis using h3(2) set_insert_by_size \<open>head_of h3 b AND 1 \<noteq> 0\<close> by blast
qed

lemma insert_with_foot:
  assumes h: "heap_ok h cs" and r: "region h cs b (unat sz)"
    and e: "hm h (b + sz) \<noteq> None" "b + sz \<noteq> list_hd h"
  shows "\<exists>h' cs'. insert_freed (b, sz, h\<lparr>hm := (hm h)(b + sz \<mapsto> sz)\<rparr>) = Some (Inr h') \<and> heap_ok h' cs' \<and>
    set cs' = insert b (set cs) \<and> csize h' b = sz \<and> (\<forall>d \<in> set cs. csize h' d = csize h d) \<and> hm h' (b + sz) = Some sz \<and>
    upd_only h (fields h (b # cs) \<union> {b + 4, b + sz}) h' \<and> head_of h' b AND 1 \<noteq> 0"
proof -
  note fn = foot_not_field [OF h r refl e(2)]
  let ?h1 = "h\<lparr>hm := (hm h)(b + sz \<mapsto> sz)\<rparr>"
  have u1: "upd_only h {b + sz} ?h1" by (auto simp: upd_only_def)
  have c1: "csize ?h1 d = csize h d" if "d \<in> set (b # cs)" for d
    using upd_only_same(7) [OF u1, of d] fn(2) [OF that] by auto
  have h1: "heap_ok ?h1 cs"
    by (rule heap_ok_cong [OF h]) (use fn(1) fields_mono [of cs "b # cs" h] c1 in auto)
  have r1: "region ?h1 cs b (unat sz)"
    using r c1 upd_only_same(9) [OF u1, of b "unat sz"] by (auto simp: region_def)
  have fe: "fields ?h1 (b # cs) = fields h (b # cs)" by (simp add: fields_def)
  obtain h3 cs' where h3: "insert_freed (b, sz, ?h1) = Some (Inr h3)" "heap_ok h3 cs'" "set cs' = insert b (set cs)"
      "csize h3 b = sz" "\<forall>d \<in> set cs. csize h3 d = csize ?h1 d" "head_of h3 b AND 1 \<noteq> 0"
      and u3: "upd_only ?h1 (fields h (b # cs) \<union> {b + 4}) h3"
    using insert_freed_block [OF h1 r1] unfolding fe by (elim exE conjE) (rule that)
  have "hm h3 (b + sz) = Some sz" using upd_only_same(5) [OF u3, of "b + sz"] fn(1) fn(2) [of b] by simp
  moreover have "upd_only h (fields h (b # cs) \<union> {b + 4, b + sz}) h3"
    by (rule upd_only_mono [OF upd_only_trans [OF u1 u3]]) auto
  ultimately show ?thesis using h3 c1 by (intro exI [of _ h3] exI [of _ cs']) simp
qed

lemma insert_freed_ok:
  assumes h: "heap_ok h cs" and r: "region h cs b (unat sz)"
    and e: "b + sz \<noteq> endAddr h" "hm h (b + sz) \<noteq> None" "b + sz \<noteq> list_hd h"
  shows "\<exists>h' cs'. bindK (Some (free_trim h b sz)) insert_freed = Some (Inr h') \<and> heap_ok h' cs' \<and>
    set cs' = insert b (set cs) \<and> csize h' b = sz \<and> (\<forall>d \<in> set cs. csize h' d = csize h d) \<and> hm h' (b + sz) = Some sz \<and>
    upd_only h (fields h (b # cs) \<union> {b + 4, b + sz}) h' \<and> head_of h' b AND 1 \<noteq> 0"
proof -
  have "free_trim h b sz = Inr (b, sz, h\<lparr>hm := (hm h)(b + sz \<mapsto> sz)\<rparr>)"
    using e by (simp add: free_trim_def set_foot_def put_prevFoot_def dstore_eq)
  then show ?thesis using insert_with_foot [OF h r e(2,3)] by simp
qed

text \<open>
  What \<^verbatim>\<open>free_unlocked\<close> relies on: the block lies between the free chunks, its flags say that it
  is in use, \<^verbatim>\<open>prevFoot\<close> is the size of the chunk before when that one is free, and the chunk
  after it, free or not, says that its predecessor is in use and does not end the heap.
\<close>

definition free_prev :: "heap \<Rightarrow> u32 list \<Rightarrow> u32 \<Rightarrow> u32 option" where
  "free_prev h cs c = (if head_of h c AND 1 \<noteq> 0 then None
     else find (\<lambda>p. hm h c = Some (csize h p) \<and> unat p + unat (csize h p) = unat c) cs)"

definition free_next :: "heap \<Rightarrow> u32 list \<Rightarrow> u32 \<Rightarrow> u32 option" where
  "free_next h cs c = (let n = c + csize h c in if head_of h n AND 2 \<noteq> 0 then None else find (\<lambda>d. d = n) cs)"

definition releasable :: "heap \<Rightarrow> u32 list \<Rightarrow> u32 \<Rightarrow> bool" where
  "releasable h cs c \<longleftrightarrow>
     (let s = csize h c; n = c + s; e = n + (if head_of h n AND 2 \<noteq> 0 then 0 else csize h n) in
      region h cs c (unat s) \<and> head_of h c AND 3 \<noteq> 1 \<and> ok_address h (c + 8) \<and>
      (head_of h c AND 1 \<noteq> 0 \<or> (\<exists>p. free_prev h cs c = Some p \<and> startAddr h \<le> p)) \<and>
      hm h n \<noteq> None \<and> hm h (n + 4) \<noteq> None \<and> n \<noteq> list_hd h \<and> ok_address h n \<and> head_of h n AND 1 \<noteq> 0 \<and>
      (head_of h n AND 2 \<noteq> 0 \<or> n \<in> set cs) \<and> hm h e \<noteq> None \<and> e \<noteq> list_hd h \<and> e < endAddr h)"

lemma head_reads:
  assumes "hm h (c + 4) \<noteq> None"
  shows "pinuse h c = Inr (head_of h c AND 1 \<noteq> 0)" "cinuse h c = Inr (head_of h c AND 2 \<noteq> 0)"
    "ok_inuse h c = Inr (head_of h c AND 3 \<noteq> 1)" "chunksize h c = Inr (csize h c)"
    "clear_pinuse h c = Inr (h\<lparr>hm := (hm h)(c + 4 \<mapsto> head_of h c AND NOT 1)\<rparr>)"
  using assms by (auto simp: pinuse_def cinuse_def ok_inuse_def chunksize_def csize_def get_head_def head_of_def
      clear_pinuse_def put_head_def dstore_def INUSE_BITS_def PINUSE_BIT_def CINUSE_BIT_def)

lemma free_merge_prev_ok:
  assumes h: "heap_ok h cs" and r: "region h cs c (unat sz)"
    and p: "head_of h c AND 1 \<noteq> 0 \<or> (\<exists>p. free_prev h cs c = Some p \<and> startAddr h \<le> p)" and e: "c < endAddr h"
  shows "\<exists>b n h' cs'. free_merge_prev h c sz = Inr (b, n, h') \<and> heap_ok h' cs' \<and> region h' cs' b (unat n) \<and>
    unat b + unat n = unat c + unat sz \<and> b = (case free_prev h cs c of None \<Rightarrow> c | Some p \<Rightarrow> p) \<and>
    set cs' = set cs - set_option (free_prev h cs c) \<and> (\<forall>d \<in> set cs'. csize h' d = csize h d) \<and>
    upd_only h (fields h cs') h'"
proof -
  have ca: "chunk_at h c (unat sz)" using r by (simp add: region_def)
  note rd = head_reads [OF chunk_fields_mapped(2) [OF ca]]
  show ?thesis
  proof (cases "head_of h c AND 1 \<noteq> 0")
    case True
    then have "free_merge_prev h c sz = Inr (c, sz, h)" "free_prev h cs c = None"
      using rd(1) by (simp_all add: free_merge_prev_def free_prev_def)
    then show ?thesis using h r upd_only_refl by fastforce
  next
    case False
    then obtain p where fp: "free_prev h cs c = Some p" and st: "startAddr h \<le> p" using p by blast
    then have pin: "p \<in> set cs" and foot: "hm h c = Some (csize h p)" and adj: "unat p + unat (csize h p) = unat c"
      using False by (auto simp: free_prev_def find_Some_iff dest: nth_mem)
    have "unat (p + csize h p) = unat c" using adj unat_add_u32 [of p "csize h p"] by simp
    then have cp: "c = p + csize h p" by (simp only: word_unat_eq_iff)
    then have "c - csize h p = p" by simp
    moreover have "ok_address h p" using st e adj by (simp add: ok_address_def u32_less_iff)
    ultimately have run: "free_merge_prev h c sz = bindR (removeChunk h p) (\<lambda>h'. Inr (p, sz + csize h p, h'))"
      using False rd(1) foot by (simp add: free_merge_prev_def get_prevFoot_def Let_def)
    obtain h1 cs1 where h1: "removeChunk h p = Inr h1" "heap_ok h1 cs1" "set cs1 = set cs - {p}"
      "region h1 cs1 p (unat sz + unat (csize h p))" "\<forall>e \<in> set cs1. csize h1 e = csize h e" "upd_only h (fields h cs1) h1"
      using absorb [OF h r pin, of p] adj by blast
    have us: "unat (sz + csize h p) = unat sz + unat (csize h p)"
      using ca adj by (simp add: chunk_at_def unat_add_u32)
    show ?thesis
      by (rule exI [of _ p], rule exI [of _ "sz + csize h p"], rule exI [of _ h1], rule exI [of _ cs1])
        (use run h1 us adj fp in simp)
  qed
qed

lemma free_merge_next_ok:
  assumes h: "heap_ok h cs" and r: "region h cs b (unat sz)" and n: "n = b + sz" "ok_address h n"
    and m: "hm h (n + 4) \<noteq> None" "n \<noteq> list_hd h" "head_of h n AND 1 \<noteq> 0"
    and d: "head_of h n AND 2 \<noteq> 0 \<or> n \<in> set cs \<and> n + csize h n \<le> endAddr h"
  shows "\<exists>k h' cs'. free_merge_next h b sz n = Some (Inr (k, h')) \<and> heap_ok h' cs' \<and> region h' cs' b (unat k) \<and>
    k = sz + (if head_of h n AND 2 \<noteq> 0 then 0 else csize h n) \<and>
    set cs' = (if head_of h n AND 2 \<noteq> 0 then set cs else set cs - {n}) \<and> (\<forall>e \<in> set cs'. csize h' e = csize h e) \<and>
    upd_only h (fields h cs' \<union> {n + 4}) h'"
proof -
  have ba: "chunk_at h b (unat sz)" using r by (simp add: region_def)
  have un: "unat n = unat b + unat sz" using ba n(1) by (simp add: chunk_at_def unat_add_u32)
  have nf: "n + 4 \<notin> fields h cs" using region_next_header [OF h r] n(1) m(2) by simp
  note rd = head_reads [OF m(1)]
  show ?thesis
  proof (cases "head_of h n AND 2 \<noteq> 0")
    case used: True
    let ?h = "h\<lparr>hm := (hm h)(n + 4 \<mapsto> head_of h n AND NOT 1)\<rparr>"
    have run: "free_merge_next h b sz n = Some (Inr (sz, ?h))"
      using n(2) used m(3) rd by (simp add: free_merge_next_def retK_def)
    have sz: "csize ?h e = csize h e" for e
      by (simp add: csize_def head_of_def and.assoc)
    have "heap_ok ?h cs" using heap_ok_put_head [OF h nf] by (simp add: csize_def and.assoc)
    moreover have "region ?h cs b (unat sz)"
      using r sz upd_only_same(9) [OF put_head_facts(3)] by (simp add: region_def)
    moreover have "upd_only h (fields h cs \<union> {n + 4}) ?h"
      using upd_only_mono [OF put_head_facts(3)] by blast
    ultimately show ?thesis using run used sz by auto
  next
    case free: False
    then have nin: "n \<in> set cs" and fits: "n + csize h n \<le> endAddr h" using d by auto
    obtain h1 cs1 where h1: "removeChunk h n = Inr h1" "heap_ok h1 cs1" "set cs1 = set cs - {n}"
      "region h1 cs1 b (unat sz + unat (csize h n))" "\<forall>e \<in> set cs1. csize h1 e = csize h e" "upd_only h (fields h cs1) h1"
      using absorb [OF h r nin, of b] un by force
    have us: "unat (sz + csize h n) = unat sz + unat (csize h n)"
      using heap_ok_chunk [OF h nin] un by (simp add: chunk_at_def unat_add_u32)
    have "\<not> endAddr h < n + csize h n" using fits by (rule leD)
    then have run: "free_merge_next h b sz n = Some (Inr (sz + csize h n, h1))"
      using n(2) free m(3) rd h1(1) by (simp add: free_merge_next_def retK_def)
    show ?thesis
      by (rule exI [of _ "sz + csize h n"], rule exI [of _ h1], rule exI [of _ cs1])
        (use run h1 us free upd_only_mono [OF h1(6), of "fields h cs1 \<union> {n + 4}"] in auto)
  qed
qed

lemma free_unlocked_stages:
  assumes "ptr \<noteq> 0" "chunksize h (ptr - 8) = Inr sz" "ok_address h ptr" "ok_inuse h (ptr - 8) = Inr True"
    "free_merge_prev h (ptr - 8) sz = Inr (b, k, h1)" "free_merge_next h1 b k (ptr - 8 + sz) = Some (Inr (k2, h2))"
  shows "free_unlocked h ptr = bindK (Some (free_trim h2 b k2)) insert_freed"
  using assms by (simp add: free_unlocked_def mem2chunk_def insert_freed_def)

lemma free_unlocked_ok:
  assumes h: "heap_ok h cs" and rel: "releasable h cs c" and ec: "c < endAddr h"
  shows "\<exists>h' cs' b n. free_unlocked h (c + 8) = Some (Inr h') \<and> heap_ok h' cs' \<and> b \<in> set cs' \<and> csize h' b = n \<and>
    b = (case free_prev h cs c of None \<Rightarrow> c | Some p \<Rightarrow> p) \<and>
    unat b + unat n = unat c + unat (csize h c) + (case free_next h cs c of None \<Rightarrow> 0 | Some d \<Rightarrow> unat (csize h d)) \<and>
    set cs' = insert b (set cs - set_option (free_prev h cs c) - set_option (free_next h cs c)) \<and>
    (\<forall>d \<in> set cs' - {b}. csize h' d = csize h d) \<and> hm h' (b + n) = Some n \<and>
    upd_only h (fields h (c # cs) \<union> {b + 4, c + csize h c + 4, b + n}) h' \<and> head_of h' b AND 1 \<noteq> 0"
proof -
  let ?s = "csize h c" and ?n = "c + csize h c"
  let ?u = "head_of h ?n AND 2 \<noteq> 0"
  let ?e = "?n + (if ?u then 0 else csize h ?n)"
  have r: "region h cs c (unat ?s)" and fl: "head_of h c AND 3 \<noteq> 1" and ok: "ok_address h (c + 8)"
    and p: "head_of h c AND 1 \<noteq> 0 \<or> (\<exists>p. free_prev h cs c = Some p \<and> startAddr h \<le> p)"
    and n: "hm h (?n + 4) \<noteq> None" "?n \<noteq> list_hd h" "ok_address h ?n" "head_of h ?n AND 1 \<noteq> 0" "?u \<or> ?n \<in> set cs"
    and e: "hm h ?e \<noteq> None" "?e \<noteq> list_hd h" "?e < endAddr h"
    using rel unfolding releasable_def Let_def by blast+
  have ca: "chunk_at h c (unat ?s)" using r by (simp add: region_def)
  have c8: "c + 8 \<noteq> 0" "c + 8 - 8 = c" using chunk_addrs(2,5) [OF ca] by (auto simp: node_def chunk_node_def)
  note rd = head_reads [OF chunk_fields_mapped(2) [OF ca]]
  obtain b k h1 cs1 where s1: "free_merge_prev h c ?s = Inr (b, k, h1)" "heap_ok h1 cs1" "region h1 cs1 b (unat k)"
      and bk: "unat b + unat k = unat c + unat ?s" and b: "b = (case free_prev h cs c of None \<Rightarrow> c | Some p \<Rightarrow> p)"
      and cs1: "set cs1 = set cs - set_option (free_prev h cs c)" "\<forall>d \<in> set cs1. csize h1 d = csize h d"
      and u1: "upd_only h (fields h cs1) h1"
    using free_merge_prev_ok [OF h r p ec] by (elim exE conjE) (rule that)
  have f1: "fields h cs1 \<subseteq> fields h cs" using cs1(1) by (intro fields_mono) auto
  have n4: "?n + 4 \<notin> fields h cs1" using region_next_header [OF h r n(2)] f1 by blast
  have nn: "?n = b + k"
  proof -
    have "unat ?n = unat c + unat ?s" using ca by (simp add: chunk_at_def unat_add_u32)
    moreover have "unat (b + k) = unat b + unat k" using bk ca by (simp add: chunk_at_def unat_add_u32)
    ultimately show ?thesis using bk by (simp add: word_unat_eq_iff)
  qed
  have h1n: "head_of h1 ?n = head_of h ?n" "csize h1 ?n = csize h ?n"
    using upd_only_same(7,8) [OF u1 n4] by auto
  have okn: "ok_address h1 ?n" using n(3) upd_only_same(2,3) [OF u1] by (simp add: ok_address_def)
  have m1: "hm h1 (?n + 4) \<noteq> None" "?n \<noteq> list_hd h1" "head_of h1 ?n AND 1 \<noteq> 0"
    using upd_only_same(6) [OF u1 n(1)] upd_only_same(1) [OF u1] n(2,4) h1n(1) by auto
  have pn: "free_prev h cs c \<noteq> Some ?n"
  proof
    assume "free_prev h cs c = Some ?n"
    then have "unat ?n + unat (csize h ?n) = unat c" by (auto simp: free_prev_def find_Some_iff split: if_splits)
    then show False using ca by (simp add: chunk_at_def unat_add_u32)
  qed
  have d1: "head_of h1 ?n AND 2 \<noteq> 0 \<or> ?n \<in> set cs1 \<and> ?n + csize h1 ?n \<le> endAddr h1"
    using n(5) e(3) h1n cs1(1) pn upd_only_same(3) [OF u1] by auto
  obtain k2 h2 cs2 where s2: "free_merge_next h1 b k ?n = Some (Inr (k2, h2))" "heap_ok h2 cs2" "region h2 cs2 b (unat k2)"
      and k2: "k2 = k + (if ?u then 0 else csize h ?n)"
      and cs2: "set cs2 = (if ?u then set cs1 else set cs1 - {?n})" "\<forall>d \<in> set cs2. csize h2 d = csize h1 d"
      and u2: "upd_only h1 (fields h1 cs2 \<union> {?n + 4}) h2"
    using free_merge_next_ok [OF s1(2,3) nn okn m1 d1] unfolding h1n by (elim exE conjE) (rule that)
  have be: "b + k2 = ?e" using k2 nn by (simp add: add.assoc [symmetric])
  have e2: "b + k2 \<noteq> endAddr h2" "hm h2 (b + k2) \<noteq> None" "b + k2 \<noteq> list_hd h2"
    using e be upd_only_same(1,3) [OF u1] upd_only_same(1,3) [OF u2] upd_only_same(6) [OF u2 upd_only_same(6) [OF u1 e(1)]]
    by auto
  obtain h3 cs3 where s3: "bindK (Some (free_trim h2 b k2)) insert_freed = Some (Inr h3)" "heap_ok h3 cs3"
      and cs3: "set cs3 = insert b (set cs2)" "csize h3 b = k2" "\<forall>d \<in> set cs2. csize h3 d = csize h2 d" "hm h3 (b + k2) = Some k2"
      "head_of h3 b AND 1 \<noteq> 0"
      and u3: "upd_only h2 (fields h2 (b # cs2) \<union> {b + 4, b + k2}) h3"
    using insert_freed_ok [OF s2(2,3) e2] by (elim exE conjE) (rule that)
  have run: "free_unlocked h (c + 8) = Some (Inr h3)"
    using free_unlocked_stages [OF c8(1), of h ?s b k h1 k2 h2] c8(2) rd(3,4) ok fl s1(1) s2(1) s3(1) by simp
  have fnx: "free_next h cs c = (if ?u then None else Some ?n)"
    using n(5) by (auto simp: free_next_def Let_def find_eq)
  have sets: "set cs3 = insert b (set cs - set_option (free_prev h cs c) - set_option (free_next h cs c))"
    using cs3(1) cs2(1) cs1(1) fnx by auto
  have tot: "unat b + unat k2 = unat c + unat ?s + (case free_next h cs c of None \<Rightarrow> 0 | Some d \<Rightarrow> unat (csize h d))"
  proof (cases ?u)
    case False
    then have "chunk_at h ?n (unat (csize h ?n))" using heap_ok_chunk [OF h] n(5) by blast
    moreover have "unat ?n = unat c + unat ?s" using ca by (simp add: chunk_at_def unat_add_u32)
    ultimately have "unat (k + csize h ?n) = unat k + unat (csize h ?n)"
      using bk by (simp add: chunk_at_def unat_add_u32)
    then show ?thesis using False k2 fnx bk by simp
  qed (use k2 fnx bk in simp)
  have keep: "\<forall>d \<in> set cs3 - {b}. csize h3 d = csize h d"
    using cs3(1,3) cs2 cs1(2) by (auto split: if_splits)
  have fe: "fields h1 ds = fields h ds" "fields h2 ds = fields h ds" for ds
    using upd_only_same(10) [OF u1] upd_only_same(10) [OF u2] by auto
  have bc: "b \<in> set (c # cs)" using b by (auto simp: free_prev_def find_Some_iff split: option.splits if_splits)
  have upd: "upd_only h (fields h (c # cs) \<union> {b + 4, ?n + 4, b + k2}) h3"
  proof (rule upd_only_mono [OF upd_only_trans [OF upd_only_trans [OF u1 u2] u3]])
    have "fields h cs1 \<subseteq> fields h (c # cs)" "fields h cs2 \<subseteq> fields h (c # cs)" "fields h (b # cs2) \<subseteq> fields h (c # cs)"
      using cs1(1) cs2(1) bc by (auto intro!: fields_mono split: if_splits)
    then show "fields h cs1 \<union> (fields h1 cs2 \<union> {?n + 4}) \<union> (fields h2 (b # cs2) \<union> {b + 4, b + k2})
        \<subseteq> fields h (c # cs) \<union> {b + 4, ?n + 4, b + k2}" unfolding fe by blast
  qed
  show ?thesis
    by (rule exI [of _ h3], rule exI [of _ cs3], rule exI [of _ b], rule exI [of _ k2])
      (use run s3(2) sets tot keep upd cs3(1,2,4,5) b in simp)
qed

text \<open>A heap of the minimal size does not shrink.\<close>

lemma free_trim_min:
  assumes e: "b + sz = endAddr h" "endAddr h - startAddr h = HEAP_MIN_SIZE"
    and b: "startAddr h \<le> b" "unat b + unat sz = unat (endAddr h)" "32 \<le> unat sz"
  shows "free_trim h b sz = Inr (b, sz, h)"
proof -
  let ?n = "b - startAddr h"
  have M: "unat HEAP_MIN_SIZE = 1048576" by (simp add: HEAP_MIN_SIZE_def KERNEL_HEAP_INITIAL_SIZE_def)
  have le: "startAddr h \<le> endAddr h" using b by (auto simp: u32_le_iff)
  have es: "unat (endAddr h) - unat (startAddr h) = 1048576" using e(2) M unat_sub [OF le] by simp
  have n: "unat ?n = unat b - unat (startAddr h)" using b(1) by (rule unat_sub)
  then have n32: "unat ?n + 32 \<le> 1048576" using es b by (auto simp: u32_le_iff)
  let ?m = "if ?n mod PAGE_SIZE \<noteq> 0 then ?n + MIN_CHUNK_SIZE else ?n"
  have m: "unat ?m + 16 \<le> 1048576" using n32 by (auto simp: unat_add_u32)
  have "unat (align_heap_size ?m) \<le> 1048576"
    unfolding align_heap_size_def by (subst unat_align_up_page) (use m in auto)
  then have "(if align_heap_size ?m < HEAP_MIN_SIZE then HEAP_MIN_SIZE else align_heap_size ?m) = HEAP_MIN_SIZE"
    using M by (auto simp: u32_less_iff u32_eq_iff)
  moreover have "?m < HEAP_MIN_SIZE" using m M by (simp add: u32_less_iff)
  moreover have "startAddr h + HEAP_MIN_SIZE = endAddr h" using e(2) by (simp add: diff_eq_eq add.commute)
  ultimately have "contract_unlocked h ?m = Inr (HEAP_MIN_SIZE, h)"
    using e(2) by (simp only: contract_unlocked_def Let_def if_True simp_thms) simp
  moreover have "sz \<noteq> 0" using b(3) by auto
  ultimately show ?thesis using e by (simp add: free_trim_def Let_def word_neq_0_conv del: MIN_CHUNK_SIZE_eq)
qed

lemma free_at_end_ok:
  assumes h: "heap_ok h cs" and r: "fits_apart h cs c" and fl: "head_of h c AND 3 \<noteq> 1" "head_of h c AND 1 \<noteq> 0"
    and st: "startAddr h \<le> c"
    and n: "n = c + csize h c" "n \<in> set cs" "head_of h n AND 2 = 0" "head_of h n AND 1 \<noteq> 0" "n \<noteq> list_hd h"
    and e: "unat n + unat (csize h n) = unat (endAddr h)" "endAddr h - startAddr h = HEAP_MIN_SIZE"
  shows "\<exists>h' cs'. free_unlocked h (c + 8) = Some (Inr h') \<and> heap_ok h' cs' \<and> set cs' = insert c (set cs - {n}) \<and>
    csize h' c = csize h c + csize h n \<and> (\<forall>d \<in> set cs - {n}. csize h' d = csize h d) \<and>
    upd_only h (fields h (c # cs) \<union> {c + 4, n + 4}) h' \<and> head_of h' c AND 1 \<noteq> 0"
proof -
  have ca: "chunk_at h c (unat (csize h c))" using r by (simp add: region_def)
  have un: "unat n = unat c + unat (csize h c)" using ca n(1) by (simp add: chunk_at_def unat_add_u32)
  have na: "chunk_at h n (unat (csize h n))" by (rule heap_ok_chunk [OF h n(2)])
  have c8: "c + 8 \<noteq> 0" "c + 8 - 8 = c" "unat (c + 8) = unat c + 8"
    using chunk_addrs(2,5) [OF ca] by (auto simp: node_def chunk_node_def)
  note rd = head_reads [OF chunk_fields_mapped(2) [OF ca]]
  have ok: "ok_address h (c + 8)" "ok_address h n"
    using st un c8(3) e(1) ca na by (auto simp: ok_address_def u32_le_iff u32_less_iff chunk_at_def)
  have en: "n + csize h n = endAddr h" using e(1) by (simp add: word_unat_eq_iff unat_add_u32)
  have fp: "free_merge_prev h c (csize h c) = Inr (c, csize h c, h)" using rd(1) fl(2) by (simp add: free_merge_prev_def)
  obtain k h1 cs1 where k: "free_merge_next h c (csize h c) n = Some (Inr (k, h1))" "heap_ok h1 cs1" "region h1 cs1 c (unat k)"
      "k = csize h c + csize h n" "set cs1 = set cs - {n}" "\<forall>d \<in> set cs1. csize h1 d = csize h d"
      and u1: "upd_only h (fields h cs1 \<union> {n + 4}) h1"
    using free_merge_next_ok [OF h r n(1) ok(2) chunk_fields_mapped(2) [OF na] n(5,4)] n(2,3) en by auto
  have ck: "c + k = endAddr h1" using k(4) n(1) en upd_only_same(3) [OF u1] by (simp add: add.assoc [symmetric])
  have uk: "unat k = unat (csize h c) + unat (csize h n)"
    unfolding k(4) by (rule unat_add_u32) (use na un in \<open>simp add: chunk_at_def\<close>)
  have tr: "free_trim h1 c k = Inr (c, k, h1)"
  proof (rule free_trim_min [OF ck])
    show "endAddr h1 - startAddr h1 = HEAP_MIN_SIZE" "startAddr h1 \<le> c"
      using e(2) st upd_only_same(2,3) [OF u1] by simp_all
    show "unat c + unat k = unat (endAddr h1)" using uk un e(1) upd_only_same(3) [OF u1] by simp
    show "32 \<le> unat k" using uk ca na by (simp add: chunk_at_def)
  qed
  obtain h2 cs2 where h2: "insert_freed (c, k, h1) = Some (Inr h2)" "heap_ok h2 cs2" "set cs2 = insert c (set cs1)" "csize h2 c = k"
      "\<forall>d \<in> set cs1. csize h2 d = csize h1 d" "head_of h2 c AND 1 \<noteq> 0" and u2: "upd_only h1 (fields h1 (c # cs1) \<union> {c + 4}) h2"
    using insert_freed_block [OF k(2,3)] by (elim exE conjE) (rule that)
  have "free_unlocked h (c + 8) = Some (Inr h2)"
    using free_unlocked_stages [OF c8(1), of h "csize h c" c "csize h c" h k h1] c8(2) rd(3,4) ok(1) fl(1) fp k(1) tr h2(1) n(1)
    by simp
  moreover have "upd_only h (fields h (c # cs) \<union> {c + 4, n + 4}) h2"
  proof (rule upd_only_mono [OF upd_only_trans [OF u1 u2]])
    have "set cs1 \<subseteq> set (c # cs)" "set (c # cs1) \<subseteq> set (c # cs)" unfolding list.set k(5) by auto
    from this [THEN fields_mono [of _ _ h]]
    show "fields h cs1 \<union> {n + 4} \<union> (fields h1 (c # cs1) \<union> {c + 4}) \<subseteq> fields h (c # cs) \<union> {c + 4, n + 4}"
      unfolding upd_only_same(10) [OF u1] by blast
  qed
  ultimately show ?thesis using h2 k by (intro exI [of _ h2] exI [of _ cs2]) auto
qed
section \<open>Properties\<close>

definition in_free :: "heap \<Rightarrow> u32 list \<Rightarrow> u32 \<Rightarrow> bool" where
  "in_free h cs a \<longleftrightarrow> (\<exists>d \<in> set cs. unat d \<le> unat a \<and> unat a < unat d + unat (csize h d))"

lemma fields_in_free:
  assumes h: "heap_ok h cs" and a: "a \<in> fields h cs"
  shows "a = list_hd h \<or> a = list_hd h + 4 \<or> in_free h cs a"
proof -
  consider "a = list_hd h \<or> a = list_hd h + 4"
    | d where "d \<in> set cs" "a = chunk_node d \<or> a = chunk_node d + 4" using a by (auto simp: fields_def)
  then show ?thesis
  proof cases
    case 2
    note d = heap_ok_chunk [OF h 2(1)]
    then have "unat d \<le> unat a" "unat a < unat d + unat (csize h d)"
      using 2(2) chunk_addrs [OF d] by (auto simp: chunk_at_def)
    then show ?thesis using 2(1) by (auto simp: in_free_def)
  qed auto
qed

lemma dropWhile_first:
  assumes "dropWhile P xs = y # ys"
  shows "xs = takeWhile P xs @ y # ys" "\<not> P y" "\<forall>x \<in> set (takeWhile P xs). P x"
  using assms takeWhile_dropWhile_id [of P xs] hd_dropWhile [of P xs] by (auto dest: set_takeWhileD)

lemma best_fit:
  assumes h: "heap_ok h cs" and d: "d \<in> set cs" "n \<le> csize h d"
  shows "\<exists>c ys zs. cs = ys @ c # zs \<and> findSmallestChunk h n = Some (Inr c) \<and> c \<noteq> 0 \<and> n \<le> csize h c \<and>
    (\<forall>d \<in> set cs. n \<le> csize h d \<longrightarrow> csize h c \<le> csize h d)"
proof -
  have "dropWhile (\<lambda>d. csize h d < n) cs \<noteq> []" using d by (auto simp: not_less)
  then obtain c zs where dw: "dropWhile (\<lambda>d. csize h d < n) cs = c # zs" by (meson neq_Nil_conv)
  note f = dropWhile_first [OF dw]
  have "c \<in> set cs" using f(1) by (metis in_set_conv_decomp)
  then have "c \<noteq> 0" using heap_ok_chunk [OF h, of c] by (auto simp: chunk_at_def)
  moreover have "csize h c \<le> csize h d'" if "d' \<in> set cs" "n \<le> csize h d'" for d'
  proof -
    have "d' \<in> set (c # zs)" using f(1,3) that
      by (metis (no_types, lifting) Un_iff leD set_append)
    moreover have "sorted (map (csize h) (takeWhile (\<lambda>d. csize h d < n) cs @ c # zs))"
      using h f(1) by (simp add: heap_ok_def)
    ultimately show ?thesis by (auto simp: sorted_append)
  qed
  ultimately show ?thesis using f(1,2) findSmallestChunk_eq [OF h, of n] dw
    by (intro exI [of _ c] exI [of _ "takeWhile (\<lambda>d. csize h d < n) cs"] exI [of _ zs]) auto
qed

lemma heap_alloc_found:
  assumes "findSmallestChunk h (request2size sz) = Some (Inr c)" "c \<noteq> 0"
  shows "heap_alloc h sz = alloc_take h c (request2size sz)"
  using assms by (simp add: heap_alloc_def alloc_unlocked.simps)

text \<open>
  What is left of the chunk \<open>c\<close> that served a request of \<open>nb\<close> bytes: a smaller free chunk
  behind the block, or nothing when the chunk was not worth splitting.
\<close>

definition remainder_ok :: "heap \<Rightarrow> heap \<Rightarrow> u32 \<Rightarrow> u32 \<Rightarrow> u32 list \<Rightarrow> u32 list \<Rightarrow> bool" where
  "remainder_ok h h' c nb rest cs' \<longleftrightarrow>
     (if unat nb + 16 \<le> unat (csize h c)
      then csize h' c = nb \<and> set cs' = insert (c + nb) (set rest) \<and> csize h' (c + nb) = csize h c - nb \<and>
        head_of h' (c + nb) = (csize h c - nb) OR 1
      else csize h' c = csize h c \<and> set cs' = set rest \<and> head_of h' (c + csize h c) = head_of h (c + csize h c) OR 1)"

lemma alloc_take_ok:
  assumes h: "heap_ok h (ys @ c # zs)" and nb: "unat nb mod 8 = 0" "16 \<le> unat nb" "nb \<le> csize h c"
    and room: "unat nb + 16 \<le> unat (csize h c) \<or> hm h (c + csize h c + 4) \<noteq> None \<and> c + csize h c \<noteq> list_hd h"
  shows "\<exists>h' cs'. alloc_take h c nb = Some (Inr (c + 8, h')) \<and> heap_ok h' cs' \<and> remainder_ok h h' c nb (ys @ zs) cs' \<and>
    head_of h' c = (head_of h c AND 1) OR 2 OR csize h' c \<and> nb \<le> csize h' c \<and> csize h' c \<le> csize h c \<and>
    (\<forall>d \<in> set (ys @ zs). csize h' d = csize h d) \<and>
    upd_only h (fields h ((if unat nb + 16 \<le> unat (csize h c) then [c + nb] else []) @ ys @ zs) \<union> {c + 4, c + csize h' c + 4}) h'"
proof (cases "unat nb + 16 \<le> unat (csize h c)")
  case True
  obtain h1 cs' where "alloc_take h c nb = Some (Inr (c + 8, h1))" "heap_ok h1 cs'"
      "set cs' = insert (c + nb) (set (ys @ zs))" "csize h1 (c + nb) = csize h c - nb" "csize h1 c = nb"
      "\<forall>d \<in> set (ys @ zs). csize h1 d = csize h d"
      "upd_only h (fields h ((c + nb) # ys @ zs) \<union> {c + 4, c + nb + 4}) h1"
      "head_of h1 c = (head_of h c AND 1) OR 2 OR nb" "head_of h1 (c + nb) = (csize h c - nb) OR 1"
    using alloc_take_split [OF h nb(1,2) True] by (elim exE conjE) (rule that)
  with True nb show ?thesis by (intro exI [of _ h1] exI [of _ cs']) (simp add: remainder_ok_def)
next
  case False
  then have "hm h (c + csize h c + 4) \<noteq> None" "c + csize h c \<noteq> list_hd h" using room by auto
  from alloc_take_whole [OF h nb(3) False this] obtain h1 where
      "alloc_take h c nb = Some (Inr (c + 8, h1))" "heap_ok h1 (ys @ zs)" "csize h1 c = csize h c"
      "\<forall>d \<in> set (ys @ zs). csize h1 d = csize h d"
      "upd_only h (fields h (ys @ zs) \<union> {c + 4, c + csize h c + 4}) h1"
      "head_of h1 c = (head_of h c AND 1) OR 2 OR csize h c" "head_of h1 (c + csize h c) = head_of h (c + csize h c) OR 1"
    by (elim exE conjE) (rule that)
  with False nb show ?thesis by (intro exI [of _ h1] exI [of _ "ys @ zs"]) (simp add: remainder_ok_def)
qed

lemma taken_region:
  assumes h: "heap_ok h (ys @ c # zs)" and h': "heap_ok h' cs'" and r: "remainder_ok h h' c nb (ys @ zs) cs'"
    and s: "16 \<le> unat nb" "nb \<le> csize h' c" "csize h' c \<le> csize h c" "\<forall>d \<in> set (ys @ zs). csize h' d = csize h d"
    and u: "upd_only h A h'"
  shows "region h' cs' c (unat (csize h' c))"
  unfolding region_def
proof (intro conjI ballI)
  have ca: "chunk_at h c (unat (csize h c))" using heap_ok_chunk [OF h, of c] by simp
  have le: "16 \<le> unat (csize h' c)" "unat (csize h' c) \<le> unat (csize h c)" using s by (auto simp: u32_le_iff)
  then have "chunk_at h c (unat (csize h' c))" using ca csize_aligned [of h' c] by (auto simp: chunk_at_def)
  then show "chunk_at h' c (unat (csize h' c))" by (rule upd_only_same(9) [OF u])
  show "apart (unat (list_hd h')) 8 (unat c) (unat (csize h' c))"
    using h le(2) upd_only_same(1) [OF u] by (auto simp: heap_ok_def apart_def)
  fix d assume d: "d \<in> set cs'"
  have old: "apart (unat e) (unat (csize h e)) (unat c) (unat (csize h c))" if "e \<in> set (ys @ zs)" for e
    using removed_apart(1) [OF h upd_only_refl] that by (simp add: region_def)
  show "apart (unat d) (unat (csize h' d)) (unat c) (unat (csize h' c))"
  proof (cases "d \<in> set (ys @ zs)")
    case True
    then show ?thesis using old [of d] s(4) le(2) by (auto simp: apart_def)
  next
    case False
    then have "unat nb + 16 \<le> unat (csize h c)" "d = c + nb" "csize h' c = nb"
      using r d by (auto simp: remainder_ok_def split: if_splits)
    then show ?thesis using ca by (simp add: apart_def chunk_at_def unat_add_u32)
  qed
qed

lemma alloc_frame:
  assumes h: "heap_ok h (ys @ c # zs)" and a: "\<not> in_free h (ys @ c # zs) a" "a \<notin> {list_hd h, list_hd h + 4, c + csize h c + 4}"
    and nb: "unat nb mod 8 = 0" "16 \<le> unat nb" "k = (if unat nb + 16 \<le> unat (csize h c) then nb else csize h c)"
  shows "a \<notin> fields h ((if unat nb + 16 \<le> unat (csize h c) then [c + nb] else []) @ ys @ zs) \<union> {c + 4, c + k + 4}"
proof -
  have ca: "chunk_at h c (unat (csize h c))" using heap_ok_chunk [OF h, of c] by simp
  have inc: "\<not> (unat c \<le> unat a \<and> unat a < unat c + unat (csize h c))" using a(1) by (auto simp: in_free_def)
  have f: "a \<notin> fields h (ys @ zs)"
    using fields_in_free [OF h, of a] fields_mono [of "ys @ zs" "ys @ c # zs" h] a by auto
  have c4: "a \<noteq> c + 4" using inc chunk_addrs(1) [OF ca] ca by (auto simp: chunk_at_def)
  show ?thesis
  proof (cases "unat nb + 16 \<le> unat (csize h c)")
    case True
    have un: "unat (c + nb) = unat c + unat nb" using ca True by (simp add: chunk_at_def unat_add_u32)
    have "chunk_at h (c + nb) (unat (csize h c) - unat nb)"
      using ca True un nb(1) unfolding chunk_at_def by (auto simp: mod_diff_eq [symmetric] mod_0_imp_dvd)
    note ad = chunk_addrs(1,2,3) [OF this]
    have "a \<notin> {c + nb + 4, chunk_node (c + nb), chunk_node (c + nb) + 4}" using inc ad un True by auto
    then show ?thesis using f c4 True nb(3) by (auto simp: fields_def)
  next
    case False
    then show ?thesis using f c4 a(2) nb(3) by auto
  qed
qed

lemma heap_alloc_taken:
  assumes h: "heap_ok h cs" and sz: "unat sz + 11 < 4294967296"
    and fit: "\<exists>d \<in> set cs. request2size sz \<le> csize h d"
    and room: "\<forall>d \<in> set cs. request2size sz \<le> csize h d \<longrightarrow> unat (request2size sz) + 16 \<le> unat (csize h d) \<or>
      hm h (d + csize h d + 4) \<noteq> None \<and> d + csize h d \<noteq> list_hd h"
  obtains c ys zs h' cs' where "cs = ys @ c # zs" "heap_alloc h sz = Some (Inr (c + 8, h'))"
    "request2size sz \<le> csize h c" "\<forall>d \<in> set cs. request2size sz \<le> csize h d \<longrightarrow> csize h c \<le> csize h d"
    "heap_ok h' cs'" "remainder_ok h h' c (request2size sz) (ys @ zs) cs'" "region h' cs' c (unat (csize h' c))"
    "head_of h' c = (head_of h c AND 1) OR 2 OR csize h' c" "request2size sz \<le> csize h' c" "csize h' c \<le> csize h c"
    "\<forall>d \<in> set (ys @ zs). csize h' d = csize h d"
    "upd_only h (fields h ((if unat (request2size sz) + 16 \<le> unat (csize h c) then [c + request2size sz] else []) @ ys @ zs) \<union>
      {c + 4, c + csize h' c + 4}) h'"
proof -
  note rq = request2size_ok [OF sz]
  obtain c ys zs where cs: "cs = ys @ c # zs" and f: "findSmallestChunk h (request2size sz) = Some (Inr c)" "c \<noteq> 0"
    and nb: "request2size sz \<le> csize h c" and best: "\<forall>d \<in> set cs. request2size sz \<le> csize h d \<longrightarrow> csize h c \<le> csize h d"
    using fit best_fit [OF h] by blast
  have hs: "heap_ok h (ys @ c # zs)" using h cs by simp
  have rm: "unat (request2size sz) + 16 \<le> unat (csize h c) \<or> hm h (c + csize h c + 4) \<noteq> None \<and> c + csize h c \<noteq> list_hd h"
    using room cs nb by simp
  from alloc_take_ok [OF hs rq(1,2) nb rm] obtain h1 cs1 where
      t: "alloc_take h c (request2size sz) = Some (Inr (c + 8, h1))" "heap_ok h1 cs1"
      "remainder_ok h h1 c (request2size sz) (ys @ zs) cs1"
      "head_of h1 c = (head_of h c AND 1) OR 2 OR csize h1 c" "request2size sz \<le> csize h1 c" "csize h1 c \<le> csize h c"
      "\<forall>d \<in> set (ys @ zs). csize h1 d = csize h d"
      "upd_only h (fields h ((if unat (request2size sz) + 16 \<le> unat (csize h c) then [c + request2size sz] else []) @ ys @ zs) \<union>
        {c + 4, c + csize h1 c + 4}) h1"
    by (elim exE conjE) (rule that)
  show thesis
    by (rule that [OF cs _ nb best t(2,3) taken_region [OF hs t(2,3) rq(2) t(5,6,7,8)] t(4-8)])
      (use heap_alloc_found [OF f] t(1) in simp)
qed

text \<open>
  Property C2 (functional): \<^verbatim>\<open>Heap::alloc\<close> on a well-formed free list with a large enough chunk
  (and a mapped header behind every free chunk that fits but is too small to be split) ends and returns a best fit: the smallest
  chunk that can hold the request. The block is aligned to eight bytes, is marked in use, has
  room for the request and its overhead, and stays apart from every chunk that is free
  afterwards; the free list stays well formed and sorted, the other chunks keep their sizes
  and stay free, and no dword outside of the free chunks changes but the list head and the
  flag in the header behind the block.
\<close>

theorem heap_alloc_best_fit:
  assumes h: "heap_ok h cs" and sz: "unat sz + 11 < 4294967296"
    and fit: "\<exists>d \<in> set cs. request2size sz \<le> csize h d"
    and room: "\<forall>d \<in> set cs. request2size sz \<le> csize h d \<longrightarrow> unat (request2size sz) + 16 \<le> unat (csize h d) \<or>
      hm h (d + csize h d + 4) \<noteq> None \<and> d + csize h d \<noteq> list_hd h"
  shows "\<exists>c h' cs'. heap_alloc h sz = Some (Inr (c + 8, h')) \<and> c \<in> set cs \<and>
    (\<forall>d \<in> set cs. request2size sz \<le> csize h d \<longrightarrow> csize h c \<le> csize h d) \<and>
    unat (c + 8) mod 8 = 0 \<and> unat sz + 4 \<le> unat (csize h' c) \<and> csize h' c \<le> csize h c \<and> cinuse h' c = Inr True \<and>
    heap_ok h' cs' \<and> (\<forall>d \<in> set cs'. apart (unat c) (unat (csize h' c)) (unat d) (unat (csize h' d))) \<and>
    (\<forall>d \<in> set cs - {c}. d \<in> set cs' \<and> csize h' d = csize h d) \<and>
    (\<forall>a. \<not> in_free h cs a \<longrightarrow> a \<notin> {list_hd h, list_hd h + 4, c + csize h c + 4} \<longrightarrow> hm h' a = hm h a)"
proof -
  note rq = request2size_ok [OF sz]
  obtain c ys zs h' cs' where cs: "cs = ys @ c # zs" and run: "heap_alloc h sz = Some (Inr (c + 8, h'))"
    and best: "\<forall>d \<in> set cs. request2size sz \<le> csize h d \<longrightarrow> csize h c \<le> csize h d"
    and ok: "heap_ok h' cs'" and rem: "remainder_ok h h' c (request2size sz) (ys @ zs) cs'" and reg: "region h' cs' c (unat (csize h' c))"
    and hd: "head_of h' c = (head_of h c AND 1) OR 2 OR csize h' c" and big: "request2size sz \<le> csize h' c" "csize h' c \<le> csize h c"
    and keep: "\<forall>d \<in> set (ys @ zs). csize h' d = csize h d"
    and u: "upd_only h (fields h ((if unat (request2size sz) + 16 \<le> unat (csize h c) then [c + request2size sz] else []) @ ys @ zs) \<union>
      {c + 4, c + csize h' c + 4}) h'"
    by (rule heap_alloc_taken [OF h sz fit room]) blast
  have hs: "heap_ok h (ys @ c # zs)" using h cs by simp
  have ca: "chunk_at h c (unat (csize h c))" "chunk_at h' c (unat (csize h' c))"
    using heap_ok_chunk [OF hs, of c] reg by (simp_all add: region_def)
  have "unat (c + 8) mod 8 = 0" using chunk_addrs(2,5) [OF ca(1)] by (simp add: node_def chunk_node_def)
  moreover have "unat sz + 4 \<le> unat (csize h' c)" using rq(3) big(1) by (simp add: u32_le_iff)
  moreover have "cinuse h' c = Inr True"
    using head_reads(2) [OF chunk_fields_mapped(2) [OF ca(2)]] hd or_flags_inuse [of "head_of h c" "csize h' c"] by simp
  moreover have "\<forall>d \<in> set cs'. apart (unat c) (unat (csize h' c)) (unat d) (unat (csize h' d))"
    using reg by (simp add: region_def apart_sym)
  moreover have "\<forall>d \<in> set cs - {c}. d \<in> set cs' \<and> csize h' d = csize h d"
    using rem keep cs by (auto simp: remainder_ok_def split: if_splits)
  moreover have "hm h' a = hm h a" if "\<not> in_free h cs a" "a \<notin> {list_hd h, list_hd h + 4, c + csize h c + 4}" for a
    by (rule upd_only_same(5) [OF u alloc_frame [OF hs _ that(2) rq(1,2)]])
      (use that(1) cs rem in \<open>auto simp: remainder_ok_def\<close>)
  ultimately show ?thesis using run cs best ok big(2)
    by (intro exI [of _ c] exI [of _ h'] exI [of _ cs'] conjI) auto
qed

text \<open>
  A heap of sixteen pages as the constructor leaves it, one free chunk, in a memory that is
  mapped everywhere (\<open>example_heap\<close>) or below the end of the heap only (\<open>example_heap_end\<close>).
\<close>

definition example_vm :: vmm where
  "example_vm = \<lparr>phys = (\<lambda>_. 0), cr3 = 0, paging = True,
     vpmm = \<lparr>mem_mngr = \<lparr>bitmap = [], allocated_units = 0\<rparr>, available_frames = 0, used_frames = 0\<rparr>, kernel_dir_phys = 0\<rparr>"

definition example_heap :: heap where
  "example_heap = \<lparr>startAddr = 0x10000, endAddr = 0x20000, maxAddr = 0x20000, hperms = 0, list_hd = 0x1000,
     hm = (\<lambda>_. Some 0)(0x1000 \<mapsto> 0x10008, 0x1004 \<mapsto> 0x10008, 0x10004 \<mapsto> 0x10001, 0x10008 \<mapsto> 0x1000, 0x1000C \<mapsto> 0x1000),
     hvmm = example_vm, fresh = (\<lambda>_. 0)\<rparr>"

definition example_heap_end :: heap where
  "example_heap_end = example_heap\<lparr>hm := (\<lambda>a. if a < 0x20000 then hm example_heap a else None)\<rparr>"

lemma example_heap_ok: "heap_ok example_heap [0x10000]" "heap_ok example_heap_end [0x10000]"
  by (simp_all add: heap_ok_def example_heap_def example_heap_end_def dlist_def node_def chunk_node_def link_def
      csize_def head_of_def chunk_at_def apart_def u32_less_iff)

theorem heap_alloc_best_fit_witness:
  "\<exists>c h' cs'. heap_alloc example_heap 100 = Some (Inr (c + 8, h')) \<and> heap_ok h' cs'"
proof -
  have "csize example_heap 0x10000 = 0x10000" by code_simp
  moreover have "request2size 100 = 104" by code_simp
  moreover have "hm example_heap a \<noteq> None" for a by (simp add: example_heap_def)
  moreover have "list_hd example_heap = 0x1000" by (simp add: example_heap_def)
  ultimately show ?thesis
    using heap_alloc_best_fit [OF example_heap_ok(1), of 100] by fastforce
qed

text \<open>
  Property C12 (functional): \<^verbatim>\<open>Heap::free\<close> on a block whose boundary data are right coalesces:
  it ends, the block and the free neighbours before and after it become one free chunk that
  covers exactly them, inserted by size, with its size in the foot of the chunk behind; the
  free list stays well formed and the other chunks keep their sizes.
\<close>

theorem heap_release_coalesces:
  assumes "heap_ok h cs" and "releasable h cs c" and "c < endAddr h"
  shows "\<exists>h' cs' b n. heap_release h (c + 8) = Some (Inr h') \<and> heap_ok h' cs' \<and> b \<in> set cs' \<and> csize h' b = n \<and>
    b = (case free_prev h cs c of None \<Rightarrow> c | Some p \<Rightarrow> p) \<and>
    unat b + unat n = unat c + unat (csize h c) + (case free_next h cs c of None \<Rightarrow> 0 | Some d \<Rightarrow> unat (csize h d)) \<and>
    set cs' = insert b (set cs - set_option (free_prev h cs c) - set_option (free_next h cs c)) \<and>
    (\<forall>d \<in> set cs' - {b}. csize h' d = csize h d) \<and> hm h' (b + n) = Some n"
  using free_unlocked_ok [OF assms] unfolding heap_release_def by (elim exE conjE) (intro exI conjI)

text \<open>
  A free chunk with the chunk before it in use, and behind it a used chunk or the end of a heap
  of the minimal size.
\<close>

definition closed_chunk :: "heap \<Rightarrow> u32 \<Rightarrow> bool" where
  "closed_chunk h d \<longleftrightarrow>
     (let e = d + csize h d in
      head_of h d AND 1 \<noteq> 0 \<and> startAddr h \<le> d \<and> e \<noteq> list_hd h \<and>
      (e < endAddr h \<and> hm h e \<noteq> None \<and> hm h (e + 4) \<noteq> None \<and> head_of h e AND 2 \<noteq> 0 \<or>
       e = endAddr h \<and> endAddr h - startAddr h = HEAP_MIN_SIZE))"

text \<open>
  The chunk behind a block: it says that its predecessor is in use, and it is either in use
  itself or a free chunk that something in use or the end of a heap of the minimal size follows.
\<close>

definition next_ok :: "heap \<Rightarrow> u32 list \<Rightarrow> u32 \<Rightarrow> bool" where
  "next_ok h cs n \<longleftrightarrow> n \<noteq> list_hd h \<and> n < endAddr h \<and> startAddr h \<le> n \<and> hm h n \<noteq> None \<and> hm h (n + 4) \<noteq> None \<and>
     head_of h n AND 1 \<noteq> 0 \<and>
     (head_of h n AND 2 \<noteq> 0 \<or> n \<in> set cs \<and> n + csize h n \<noteq> list_hd h \<and>
        (n + csize h n < endAddr h \<and> hm h (n + csize h n) \<noteq> None \<or>
         unat n + unat (csize h n) = unat (endAddr h) \<and> endAddr h - startAddr h = HEAP_MIN_SIZE))"

lemma free_block:
  assumes h: "heap_ok h cs" and r: "fits_apart h cs b" and fl: "head_of h b AND 3 \<noteq> 1" "head_of h b AND 1 \<noteq> 0"
    and st: "startAddr h \<le> b" and n: "n = b + csize h b" "next_ok h cs n"
  shows "\<exists>h' cs'. free_unlocked h (b + 8) = Some (Inr h') \<and> heap_ok h' cs' \<and>
    set cs' = insert b (if head_of h n AND 2 \<noteq> 0 then set cs else set cs - {n}) \<and>
    csize h' b = csize h b + (if head_of h n AND 2 \<noteq> 0 then 0 else csize h n) \<and> (\<forall>d \<in> set cs' - {b}. csize h' d = csize h d) \<and>
    upd_only h (fields h (b # cs) \<union> {b + 4, n + 4, b + csize h' b}) h' \<and> head_of h' b AND 1 \<noteq> 0"
proof -
  have ba: "chunk_at h b (unat (csize h b))" using r by (simp add: region_def)
  have un: "unat n = unat b + unat (csize h b)" using ba n(1) by (simp add: chunk_at_def unat_add_u32)
  have N: "n \<noteq> list_hd h" "n < endAddr h" "startAddr h \<le> n" "hm h n \<noteq> None" "hm h (n + 4) \<noteq> None" "head_of h n AND 1 \<noteq> 0"
    using n(2) by (simp_all add: next_ok_def)
  show ?thesis
  proof (cases "head_of h n AND 2 = 0 \<and> unat n + unat (csize h n) = unat (endAddr h)")
    case True
    then have e: "n \<in> set cs" "endAddr h - startAddr h = HEAP_MIN_SIZE"
      using n(2) unfolding next_ok_def by (auto simp: u32_less_iff unat_add_u32)
    obtain h' cs' where "free_unlocked h (b + 8) = Some (Inr h')" "heap_ok h' cs'" "set cs' = insert b (set cs - {n})"
        "csize h' b = csize h b + csize h n" "\<forall>d \<in> set cs - {n}. csize h' d = csize h d" "head_of h' b AND 1 \<noteq> 0"
        and u: "upd_only h (fields h (b # cs) \<union> {b + 4, n + 4}) h'"
      using free_at_end_ok [OF h r fl st n(1) e(1) conjunct1 [OF True] N(6,1) conjunct2 [OF True] e(2)]
      by (elim exE conjE) (rule that)
    moreover have "upd_only h (fields h (b # cs) \<union> {b + 4, n + 4, b + csize h' b}) h'"
      by (rule upd_only_mono [OF u]) auto
    ultimately show ?thesis using True by (intro exI [of _ h'] exI [of _ cs']) auto
  next
    case False
    then have d: "head_of h n AND 2 \<noteq> 0 \<or> n \<in> set cs \<and> n + csize h n \<noteq> list_hd h \<and> n + csize h n < endAddr h \<and> hm h (n + csize h n) \<noteq> None"
      using n(2) unfolding next_ok_def by blast
    have ok: "ok_address h (b + 8)" "ok_address h n" "b < endAddr h"
      using st N(2,3) un ba by (auto simp: ok_address_def u32_le_iff u32_less_iff unat_add_u32 chunk_at_def)
    have rel: "releasable h cs b"
      unfolding releasable_def Let_def n(1) [symmetric] using r fl ok N d by auto
    have fp: "free_prev h cs b = None" using fl(2) by (simp add: free_prev_def)
    have fn: "free_next h cs b = (if head_of h n AND 2 \<noteq> 0 then None else Some n)"
      using d by (auto simp: free_next_def Let_def n(1) [symmetric] find_eq)
    obtain h' cs' k where h': "free_unlocked h (b + 8) = Some (Inr h')" "heap_ok h' cs'" "csize h' b = k"
        "unat b + unat k = unat b + unat (csize h b) + (if head_of h n AND 2 \<noteq> 0 then 0 else unat (csize h n))"
        "set cs' = insert b (set cs - set_option (free_next h cs b))"
        "\<forall>d \<in> set cs' - {b}. csize h' d = csize h d" "head_of h' b AND 1 \<noteq> 0"
        "upd_only h (fields h (b # cs) \<union> {b + 4, n + 4, b + k}) h'"
      using free_unlocked_ok [OF h rel ok(3)] unfolding fp fn n(1) [symmetric] by (auto split: if_splits)
    have "csize h' b = csize h b + (if head_of h n AND 2 \<noteq> 0 then 0 else csize h n)"
    proof (cases "head_of h n AND 2 \<noteq> 0")
      case False
      have "unat k < 4294967296" by simp
      moreover have k: "unat k = unat (csize h b) + unat (csize h n)" using h'(4) False by simp
      ultimately have "unat (csize h b) + unat (csize h n) < 4294967296" by metis
      then have "unat (csize h b + csize h n) = unat k" unfolding k by (rule unat_add_u32)
      then show ?thesis using h'(3) False by (simp add: word_unat_eq_iff)
    qed (use h'(3,4) in \<open>simp add: word_unat_eq_iff\<close>)
    then show ?thesis using h' fn by (intro exI [of _ h'] exI [of _ cs']) auto
  qed
qed

lemma taken_next:
  assumes h: "heap_ok h (ys @ c # zs)" and cc: "closed_chunk h c" and nb: "unat nb mod 8 = 0" "16 \<le> unat nb" "nb \<le> csize h c"
    and whole: "unat nb + 16 \<le> unat (csize h c) \<or> c + csize h c \<noteq> endAddr h"
    and h1: "heap_ok h1 cs1" "remainder_ok h h1 c nb (ys @ zs) cs1" and u: "upd_only h A h1"
  shows "next_ok h1 cs1 (c + csize h1 c)"
proof -
  let ?e = "c + csize h c"
  have ca: "chunk_at h c (unat (csize h c))" using heap_ok_chunk [OF h, of c] by simp
  have ue: "unat ?e = unat c + unat (csize h c)" using ca by (simp add: chunk_at_def unat_add_u32)
  have same: "startAddr h1 = startAddr h" "endAddr h1 = endAddr h" "list_hd h1 = list_hd h" using upd_only_same(1-3) [OF u] by auto
  have c: "startAddr h \<le> c" "?e \<noteq> list_hd h" "?e \<le> endAddr h"
    "?e \<noteq> endAddr h \<Longrightarrow> hm h1 ?e \<noteq> None \<and> hm h1 (?e + 4) \<noteq> None \<and> head_of h ?e AND 2 \<noteq> 0"
    "?e = endAddr h \<Longrightarrow> endAddr h - startAddr h = HEAP_MIN_SIZE"
    using cc upd_only_same(6) [OF u] by (auto simp: closed_chunk_def Let_def)
  show ?thesis
  proof (cases "unat nb + 16 \<le> unat (csize h c)")
    case split: True
    let ?n = "c + nb"
    have r: "csize h1 c = nb" "set cs1 = insert ?n (set (ys @ zs))" "csize h1 ?n = csize h c - nb"
      "head_of h1 ?n = (csize h c - nb) OR 1" using h1(2) split by (simp_all add: remainder_ok_def)
    have us: "unat (csize h c - nb) = unat (csize h c) - unat nb" using nb(3) by (rule unat_sub)
    have "unat (csize h c - nb) mod 8 = 0" using us nb(1) csize_aligned [of h c] by (simp add: mod_0_imp_dvd)
    note nf = size_flags [OF this]
    have un: "unat ?n = unat c + unat nb" using ca split by (simp add: chunk_at_def unat_add_u32)
    have "apart (unat (list_hd h)) 8 (unat c) (unat (csize h c))" using h by (simp add: heap_ok_def)
    then have nl: "?n \<noteq> list_hd h" using un split by (auto simp: apart_def)
    have nin: "?n \<in> set cs1" using r(2) by simp
    have ne: "?n + csize h1 ?n = ?e" using r(3) by simp
    have en: "unat ?n + unat (csize h1 ?n) = unat ?e" using un us r(3) ue split by simp
    have b: "?n < endAddr h" "startAddr h \<le> ?n" using un ue split c(1,3) by (auto simp: u32_le_iff u32_less_iff)
    note nm = chunk_fields_mapped(1,2) [OF heap_ok_chunk [OF h1(1) nin]]
    show ?thesis
      unfolding next_ok_def r(1) same ne en using nl b nm nf(2) nin c(2,3,4,5) unfolding r(4)
      by (cases "?e = endAddr h") (auto simp: order_less_le)
  next
    case False
    then have r: "csize h1 c = csize h c" "head_of h1 ?e = head_of h ?e OR 1"
      using h1(2) by (simp_all add: remainder_ok_def)
    have ne: "?e \<noteq> endAddr h" using whole False by simp
    note fl = used_flags [OF c(4) [OF ne, THEN conjunct2, THEN conjunct2]]
    have "startAddr h \<le> ?e" using c(1) ue by (auto simp: u32_le_iff)
    then show ?thesis
      unfolding next_ok_def r(1) same using c(2,3) c(4) [OF ne] ne fl unfolding r(2) by (auto simp: order_less_le)
  qed
qed

lemma remainder_restored:
  assumes "remainder_ok h h1 c nb rest cs1" "unat nb + 16 \<le> unat (csize h c) \<Longrightarrow> c + nb \<notin> set rest" "unat nb mod 8 = 0" "nb \<le> csize h c"
    and "\<not> unat nb + 16 \<le> unat (csize h c) \<Longrightarrow> head_of h (c + csize h c) AND 2 \<noteq> 0" "n = c + csize h1 c"
  shows "csize h1 c + (if head_of h1 n AND 2 \<noteq> 0 then 0 else csize h1 n) = csize h c"
    "(if head_of h1 n AND 2 \<noteq> 0 then set cs1 else set cs1 - {n}) = set rest"
proof -
  have "unat (csize h c - nb) = unat (csize h c) - unat nb" using assms(4) by (rule unat_sub)
  then have "unat (csize h c - nb) mod 8 = 0" using assms(3) csize_aligned [of h c] by (simp add: mod_0_imp_dvd)
  note nf = size_flags(1) [OF this]
  show "csize h1 c + (if head_of h1 n AND 2 \<noteq> 0 then 0 else csize h1 n) = csize h c"
    "(if head_of h1 n AND 2 \<noteq> 0 then set cs1 else set cs1 - {n}) = set rest"
    using assms(1,2,5,6) nf used_flags(1) [of "head_of h (c + csize h c)"] by (auto simp: remainder_ok_def split: if_splits)
qed

lemma release_taken:
  assumes h: "heap_ok h (ys @ c # zs)" and cc: "closed_chunk h c" and nb: "unat nb mod 8 = 0" "16 \<le> unat nb" "nb \<le> csize h c"
    and whole: "unat nb + 16 \<le> unat (csize h c) \<or> c + csize h c \<noteq> endAddr h"
    and h1: "heap_ok h1 cs1" "remainder_ok h h1 c nb (ys @ zs) cs1" "region h1 cs1 c (unat (csize h1 c))"
      "head_of h1 c = (head_of h c AND 1) OR 2 OR csize h1 c" "\<forall>d \<in> set (ys @ zs). csize h1 d = csize h d"
    and u: "upd_only h A h1"
  shows "\<exists>h2 cs2. free_unlocked h1 (c + 8) = Some (Inr h2) \<and> heap_ok h2 cs2 \<and> set cs2 = set (ys @ c # zs) \<and>
    (\<forall>d \<in> set (ys @ c # zs). csize h2 d = csize h d) \<and>
    upd_only h1 (fields h1 (c # cs1) \<union> {c + 4, c + csize h1 c + 4, c + csize h c}) h2 \<and> head_of h2 c AND 1 \<noteq> 0"
proof -
  let ?n = "c + csize h1 c"
  have ca: "chunk_at h c (unat (csize h c))" using heap_ok_chunk [OF h, of c] by simp
  have cn: "c \<notin> set (ys @ zs)" using removed_apart(4) [OF h upd_only_refl] .
  have fl: "head_of h1 c AND 3 \<noteq> 1" "head_of h1 c AND 1 \<noteq> 0"
    using taken_flags cc unfolding h1(4) closed_chunk_def Let_def by blast+
  have st: "startAddr h1 \<le> c" using cc upd_only_same(2) [OF u] by (simp add: closed_chunk_def Let_def)
  have nz: "c + nb \<notin> set (ys @ zs)" if split: "unat nb + 16 \<le> unat (csize h c)"
  proof
    assume "c + nb \<in> set (ys @ zs)"
    then have "apart (unat (c + nb)) (unat (csize h (c + nb))) (unat c) (unat (csize h c))" "chunk_at h (c + nb) (unat (csize h (c + nb)))"
      using removed_apart(1) [OF h upd_only_refl] heap_ok_chunk [OF h, of "c + nb"] by (auto simp: region_def)
    moreover have "unat (c + nb) = unat c + unat nb" using ca split by (simp add: chunk_at_def unat_add_u32)
    ultimately show False using split nb(2) by (auto simp: apart_def chunk_at_def)
  qed
  have used: "head_of h (c + csize h c) AND 2 \<noteq> 0" if "\<not> unat nb + 16 \<le> unat (csize h c)"
    using that whole cc by (auto simp: closed_chunk_def Let_def)
  have rest: "csize h1 c + (if head_of h1 ?n AND 2 \<noteq> 0 then 0 else csize h1 ?n) = csize h c"
    "(if head_of h1 ?n AND 2 \<noteq> 0 then set cs1 else set cs1 - {?n}) = set (ys @ zs)"
    using remainder_restored [OF h1(2) _ nb(1,3) _ refl] nz used by blast+
  obtain h2 cs2 where h2: "free_unlocked h1 (c + 8) = Some (Inr h2)" "heap_ok h2 cs2" "set cs2 = insert c (set (ys @ zs))"
      "csize h2 c = csize h c" "\<forall>d \<in> set cs2 - {c}. csize h2 d = csize h1 d" "head_of h2 c AND 1 \<noteq> 0"
      and u2: "upd_only h1 (fields h1 (c # cs1) \<union> {c + 4, ?n + 4, c + csize h2 c}) h2"
    using free_block [OF h1(1,3) fl st refl taken_next [OF h cc nb whole h1(1,2) u]] unfolding rest by (elim exE conjE) (rule that)
  show ?thesis using h2 u2 [unfolded h2(4)] cn h1(5) by (intro exI [of _ h2] exI [of _ cs2]) auto
qed

lemma alloc_free_restores:
  assumes h: "heap_ok h cs" and sz: "unat sz + 11 < 4294967296"
    and fit: "\<exists>d \<in> set cs. request2size sz \<le> csize h d" and closed: "\<forall>d \<in> set cs. closed_chunk h d"
    and last: "\<forall>d \<in> set cs. request2size sz \<le> csize h d \<longrightarrow> d + csize h d = endAddr h \<longrightarrow>
      unat (request2size sz) + 16 \<le> unat (csize h d)"
  shows "\<exists>c h1 h2 cs2. c \<in> set cs \<and> heap_alloc h sz = Some (Inr (c + 8, h1)) \<and> free_unlocked h1 (c + 8) = Some (Inr h2) \<and>
    head_of h2 c AND 1 \<noteq> 0 \<and> heap_ok h2 cs2 \<and> set cs2 = set cs \<and> (\<forall>d \<in> set cs. csize h2 d = csize h d) \<and>
    startAddr h2 = startAddr h \<and> endAddr h2 = endAddr h \<and> list_hd h2 = list_hd h \<and> hvmm h2 = hvmm h \<and>
    (\<forall>a. \<not> in_free h cs a \<longrightarrow> a \<notin> {list_hd h, list_hd h + 4} \<longrightarrow>
       (\<forall>d \<in> set cs. a \<noteq> d + csize h d \<and> a \<noteq> d + csize h d + 4) \<longrightarrow> hm h2 a = hm h a)"
proof -
  note rq = request2size_ok [OF sz]
  have room: "\<forall>d \<in> set cs. request2size sz \<le> csize h d \<longrightarrow> unat (request2size sz) + 16 \<le> unat (csize h d) \<or>
      hm h (d + csize h d + 4) \<noteq> None \<and> d + csize h d \<noteq> list_hd h"
    using closed last by (auto simp: closed_chunk_def Let_def)
  obtain c ys zs h1 cs1 where cs: "cs = ys @ c # zs" and run: "heap_alloc h sz = Some (Inr (c + 8, h1))"
    and nb: "request2size sz \<le> csize h c" and ok: "heap_ok h1 cs1" and rem: "remainder_ok h h1 c (request2size sz) (ys @ zs) cs1"
    and reg: "region h1 cs1 c (unat (csize h1 c))" and hd: "head_of h1 c = (head_of h c AND 1) OR 2 OR csize h1 c"
    and keep: "\<forall>d \<in> set (ys @ zs). csize h1 d = csize h d"
    and u: "upd_only h (fields h ((if unat (request2size sz) + 16 \<le> unat (csize h c) then [c + request2size sz] else []) @ ys @ zs) \<union>
      {c + 4, c + csize h1 c + 4}) h1"
    by (rule heap_alloc_taken [OF h sz fit room]) blast
  have hs: "heap_ok h (ys @ c # zs)" using h cs by simp
  have cc: "closed_chunk h c" "unat (request2size sz) + 16 \<le> unat (csize h c) \<or> c + csize h c \<noteq> endAddr h"
    using closed last cs nb by auto
  obtain h2 cs2 where h2: "free_unlocked h1 (c + 8) = Some (Inr h2)" "heap_ok h2 cs2" "set cs2 = set (ys @ c # zs)"
      "\<forall>d \<in> set (ys @ c # zs). csize h2 d = csize h d"
      "head_of h2 c AND 1 \<noteq> 0"
      and u2: "upd_only h1 (fields h1 (c # cs1) \<union> {c + 4, c + csize h1 c + 4, c + csize h c}) h2"
    using release_taken [OF hs cc(1) rq(1,2) nb cc(2) ok rem reg hd keep u] by (elim exE conjE) (rule that)
  have frame: "hm h2 a = hm h a" if a: "\<not> in_free h cs a" "a \<notin> {list_hd h, list_hd h + 4}"
      "\<forall>d \<in> set cs. a \<noteq> d + csize h d \<and> a \<noteq> d + csize h d + 4" for a
  proof -
    have k: "csize h1 c = (if unat (request2size sz) + 16 \<le> unat (csize h c) then request2size sz else csize h c)"
      using rem by (simp add: remainder_ok_def)
    have 1: "a \<notin> fields h ((if unat (request2size sz) + 16 \<le> unat (csize h c) then [c + request2size sz] else []) @ ys @ zs) \<union>
        {c + 4, c + csize h1 c + 4}"
      by (rule alloc_frame [OF hs _ _ rq(1,2) k]) (use a cs in auto)
    have 2: "a \<notin> fields h cs" using fields_in_free [OF h, of a] a by blast
    have "set (c # cs1) \<subseteq> set ((if unat (request2size sz) + 16 \<le> unat (csize h c) then [c + request2size sz] else []) @ cs)"
      using rem cs by (auto simp: remainder_ok_def split: if_splits)
    from fields_mono [OF this, of h] have "a \<notin> fields h (c # cs1)" using 1 2 unfolding fields_append by blast
    then have "a \<notin> fields h1 (c # cs1) \<union> {c + 4, c + csize h1 c + 4, c + csize h c}"
      using 1 a(3) cs unfolding upd_only_same(10) [OF u] by auto
    then show ?thesis using upd_only_same(5) [OF u 1] upd_only_same(5) [OF u2] by simp
  qed
  show ?thesis
    by (intro exI [of _ c] exI [of _ h1] exI [of _ h2] exI [of _ cs2] conjI allI impI)
      (use run h2 cs frame upd_only_same(1-4) [OF u] upd_only_same(1-4) [OF u2] in auto)
qed

text \<open>The heap above with a used block of 48 bytes in front and one more behind it.\<close>

definition example_heap_used :: heap where
  "example_heap_used = example_heap\<lparr>hm := (\<lambda>_. Some 0)(0x1000 \<mapsto> 0x10068, 0x1004 \<mapsto> 0x10068,
     0x10004 \<mapsto> 0x33, 0x10034 \<mapsto> 0x33, 0x10064 \<mapsto> 0xFFA1, 0x10068 \<mapsto> 0x1000, 0x1006C \<mapsto> 0x1000)\<rparr>"

lemma example_heap_used_ok:
  "heap_ok example_heap_used [0x10060]" "releasable example_heap_used [0x10060] 0x10000"
  by (simp_all add: heap_ok_def example_heap_def example_heap_used_def dlist_def node_def chunk_node_def link_def
      csize_def head_of_def chunk_at_def apart_def u32_less_iff releasable_def region_def ok_address_def)

theorem heap_release_coalesces_witness:
  "\<exists>h' cs'. heap_release example_heap_used 0x10008 = Some (Inr h') \<and> heap_ok h' cs' \<and> 0x10000 \<in> set cs'"
proof -
  have "free_prev example_heap_used [0x10060] 0x10000 = None" "0x10000 < endAddr example_heap_used" by code_simp+
  then show ?thesis using heap_release_coalesces [OF example_heap_used_ok] by fastforce
qed

text \<open>
  Property C13 (roundtrip): allocating and releasing restores the free list. When the chunks
  around the free ones are in use and the one that serves the request is not taken whole at the
  end of the heap, \<^verbatim>\<open>Heap::alloc\<close> followed by \<^verbatim>\<open>Heap::free\<close> of the block ends with exactly the
  free chunks there were, of the same sizes, the list again well formed and sorted, the bounds
  of the heap and the page tables as before, and every dword outside of the free chunks
  unchanged but the list head and the foot and header behind a free chunk.
\<close>

theorem heap_alloc_free_roundtrip:
  assumes h: "heap_ok h cs" and sz: "unat sz + 11 < 4294967296"
    and fit: "\<exists>d \<in> set cs. request2size sz \<le> csize h d" and closed: "\<forall>d \<in> set cs. closed_chunk h d"
    and last: "\<forall>d \<in> set cs. request2size sz \<le> csize h d \<longrightarrow> d + csize h d = endAddr h \<longrightarrow>
      unat (request2size sz) + 16 \<le> unat (csize h d)"
  shows "\<exists>p h1 h2 cs2. heap_alloc h sz = Some (Inr (p, h1)) \<and> heap_release h1 p = Some (Inr h2) \<and>
    heap_ok h2 cs2 \<and> set cs2 = set cs \<and> (\<forall>d \<in> set cs. csize h2 d = csize h d) \<and>
    startAddr h2 = startAddr h \<and> endAddr h2 = endAddr h \<and> list_hd h2 = list_hd h \<and> hvmm h2 = hvmm h \<and>
    (\<forall>a. \<not> in_free h cs a \<longrightarrow> a \<notin> {list_hd h, list_hd h + 4} \<longrightarrow>
       (\<forall>d \<in> set cs. a \<noteq> d + csize h d \<and> a \<noteq> d + csize h d + 4) \<longrightarrow> hm h2 a = hm h a)"
  using alloc_free_restores [OF assms] unfolding heap_release_def by blast

text \<open>The same heap with a used block of sixteen pages behind the free chunk.\<close>

definition example_heap_mid :: heap where
  "example_heap_mid = example_heap_used\<lparr>endAddr := 0x30000, hm := (hm example_heap_used)(0x20004 \<mapsto> 0x10003)\<rparr>"

lemma example_heap_mid_ok: "heap_ok example_heap_mid [0x10060]" "\<forall>d \<in> set [0x10060]. closed_chunk example_heap_mid d"
  "csize example_heap_mid 0x10060 = 0xFFA0" "endAddr example_heap_mid = 0x30000"
  by (simp_all add: heap_ok_def example_heap_def example_heap_used_def example_heap_mid_def dlist_def node_def chunk_node_def
      link_def csize_def head_of_def chunk_at_def apart_def u32_less_iff closed_chunk_def)

theorem heap_alloc_free_roundtrip_witness:
  "\<exists>p h1 h2 cs2. heap_alloc example_heap_mid 100 = Some (Inr (p, h1)) \<and> heap_release h1 p = Some (Inr h2) \<and>
    heap_ok h2 cs2 \<and> set cs2 = {0x10060} \<and> csize h2 0x10060 = 0xFFA0"
proof -
  have "request2size 100 = 104" by code_simp
  then show ?thesis
    using heap_alloc_free_roundtrip [OF example_heap_mid_ok(1) _ _ example_heap_mid_ok(2), of 100] example_heap_mid_ok(3,4)
    by fastforce
qed

text \<open>
  The chunk size for a request is a multiple of eight; it is at least
  the minimum and leaves the four bytes of overhead exactly for the requests below
  0xFFFFFFF5. For the larger ones the padding wraps around and the size is zero or eight.
\<close>

theorem request2size_bounds:
  "unat (request2size sz) mod 8 = 0 \<and>
   (unat sz < 0xFFFFFFF5 \<longleftrightarrow> 16 \<le> unat (request2size sz) \<and> unat sz + 4 \<le> unat (request2size sz)) \<and>
   (unat sz < 0xFFFFFFF5 \<or> unat (request2size sz) \<le> 8)"
proof (cases "unat sz < 0xFFFFFFF5")
  case True
  then show ?thesis using request2size_ok [of sz] by auto
next
  case False
  have lt: "unat sz < 4294967296" by simp
  define k where "k = unat sz - 0xFFFFFFF5"
  have k: "unat sz + 11 = 4294967296 + k" "k < 11" using False lt unfolding k_def by linarith+
  then have "unat (request2size sz) = k div 8 * 8"
    using pad_request_unat [of sz] False by (simp add: request2size_def u32_less_iff)
  moreover have "k div 8 * 8 \<le> 8" using k(2) by simp
  ultimately show ?thesis using False by simp
qed

lemma fields_mapped:
  assumes h: "heap_ok h cs" and a: "a \<in> fields h cs"
  shows "hm h a \<noteq> None"
proof -
  have "link (hm h) (list_hd h) (hd (map chunk_node cs @ [list_hd h]))"
    "link (hm h) (last (list_hd h # map chunk_node cs)) (list_hd h)"
    using h dlist_split [of "hm h" "list_hd h" "[]" "map chunk_node cs"]
      dlist_split [of "hm h" "list_hd h" "map chunk_node cs" "[]"] by (simp_all add: heap_ok_def)
  then show ?thesis using a chunk_fields_mapped(3,4) [OF heap_ok_chunk [OF h]] by (auto simp: fields_def link_def)
qed

text \<open>
  A hole that is taken whole and ends the mapped memory cannot be
  allocated: \<^verbatim>\<open>set_inuse\<close> sets the flag in the header behind it, which at the end of the heap
  is an access to an unmapped page.
\<close>

theorem alloc_whole_end_faults:
  assumes "heap_ok h (ys @ c # zs)" and "\<forall>d \<in> set ys. csize h d < request2size sz"
    and "request2size sz \<le> csize h c" and "unat (csize h c) < unat (request2size sz) + 16"
    and "hm h (c + csize h c + 4) = None"
  shows "heap_alloc h sz = Some (Inl (Page_Fault (c + csize h c + 4)))"
proof -
  let ?nb = "request2size sz" and ?a = "c + csize h c + 4"
  have ca: "chunk_at h c (unat (csize h c))" using heap_ok_chunk [OF assms(1), of c] by simp
  obtain h1 where h1: "removeChunk h c = Inr h1" and u: "upd_only h (fields h (ys @ zs)) h1"
    using removeChunk_ok [OF assms(1)] by blast
  note ra = removed_apart [OF assms(1) u]
  have "?a \<notin> fields h (ys @ zs)"
    using fields_mapped [OF assms(1), of ?a] assms(5) fields_mono [of "ys @ zs" "ys @ c # zs" h] by auto
  then have a1: "hm h1 ?a = None" using upd_only_same(5) [OF u, of ?a] assms(5) by simp
  have cm: "hm h (c + 4) \<noteq> None" "hm h1 (c + 4) \<noteq> None"
    using chunk_fields_mapped(2) [OF ca] upd_only_same(6) [OF u] by blast+
  have lt: "\<not> ?nb + 16 \<le> csize h c"
    using assms(3,4) ca by (simp add: u32_le_iff chunk_at_def unat_add_u32)
  have "csize h c \<noteq> 0" using ca by (auto simp: chunk_at_def)
  then have "set_inuse h1 c (csize h c) = Inl (Page_Fault ?a)"
    using a1 cm(2) by (auto simp: set_inuse_def get_head_def put_head_def dload_def dstore_def)
  then have take: "alloc_take h c ?nb = Some (Inl (Page_Fault ?a))"
    using h1 head_reads(4) [OF cm(1)] head_reads(4) [OF cm(2)] assms(3) lt ra(2) by (simp add: alloc_take_def)
  have "dropWhile (\<lambda>d. csize h d < ?nb) (ys @ c # zs) = c # zs"
    using assms(2,3) by (subst dropWhile_append2) auto
  then have "findSmallestChunk h ?nb = Some (Inr c)" "c \<noteq> 0"
    using findSmallestChunk_eq [OF assms(1), of ?nb] ca by (auto simp: chunk_at_def)
  then show ?thesis using heap_alloc_found take by simp
qed

theorem alloc_whole_end_faults_witness:
  "heap_alloc example_heap_end 0xFFFC = Some (Inl (Page_Fault 0x20004))"
proof -
  have "csize example_heap_end 0x10000 = 0x10000" "request2size 0xFFFC = 0x10000" "hm example_heap_end 0x20004 = None"
    by code_simp+
  then show ?thesis using alloc_whole_end_faults [of example_heap_end "[]" "0x10000" "[]" "0xFFFC"] example_heap_ok(2) by simp
qed

text \<open>
  A history of the heap: four blocks are allocated, the second is released and its first bytes
  are allocated again, which leaves its old size in the foot of the third; then the third is
  released and one more block is allocated. The two blocks that are live at the end.
\<close>

definition reuse_history :: "heap \<Rightarrow> (u32 \<times> u32) krun" where
  "reuse_history h =
     bindK (heap_alloc h 40) (\<lambda>(a, h). bindK (heap_alloc h 100) (\<lambda>(b, h).
     bindK (heap_alloc h 40) (\<lambda>(c, h). bindK (heap_alloc h 40) (\<lambda>(d, h).
     bindK (heap_release h b) (\<lambda>h. bindK (heap_alloc h 20) (\<lambda>(e, h).
     bindK (heap_release h c) (\<lambda>h. bindK (heap_alloc h 100) (\<lambda>(f, h).
     retK (e, f)))))))))"


end
