(* ===== verification/CString.thy ===== *)
theory CString
  imports Machine
begin

text \<open>
  \<^verbatim>\<open>klibcpp/cstring.cpp\<close>: strings and blocks of memory through pointers, in the byte memory of
  theory Machine. A scan for a terminator that is nowhere runs forever (\<open>None\<close>). Characters
  are signed on i386, so a byte that becomes an integer is sign-extended. \<open>ftoa\<close>, in floating
  point, is not modelled.
\<close>

lemma unat_Suc_below:
  assumes "unat p < unat (q :: u32)"
  shows "unat (p + 1 :: u32) = unat p + 1"
proof -
  have "unat q < 4294967296" by simp
  then have "unat p + unat (1 :: u32) < 4294967296" unfolding unat_1 using assms by linarith
  then show ?thesis using unat_add_u32 [of p 1] by simp
qed

section \<open>Strings\<close>

partial_function (option) strlen_loop :: "mem \<Rightarrow> u32 \<Rightarrow> u32 \<Rightarrow> u32 option" where
  [code]: "strlen_loop m str len = (if m (str + len) \<noteq> 0 then strlen_loop m str (len + 1) else Some (len + 1))"

definition strlen :: "mem \<Rightarrow> u32 \<Rightarrow> u32 option" where
  "strlen m str = map_option (\<lambda>len. len - 1) (strlen_loop m str 0)"

text \<open>The counted loops that copy or fill bytes and dwords.\<close>

primrec copy_bytes :: "nat \<Rightarrow> u32 \<Rightarrow> u32 \<Rightarrow> mem \<Rightarrow> mem" where
  "copy_bytes 0 dst src m = m"
| "copy_bytes (Suc n) dst src m = copy_bytes n (dst + 1) (src + 1) (m(dst := m src))"

primrec copy_dwords :: "nat \<Rightarrow> u32 \<Rightarrow> u32 \<Rightarrow> mem \<Rightarrow> mem" where
  "copy_dwords 0 dst src m = m"
| "copy_dwords (Suc n) dst src m = copy_dwords n (dst + 4) (src + 4) (store32 m dst (load32 m src))"

primrec fill_bytes :: "nat \<Rightarrow> u32 \<Rightarrow> u8 \<Rightarrow> mem \<Rightarrow> mem" where
  "fill_bytes 0 dst d m = m"
| "fill_bytes (Suc n) dst d m = fill_bytes n (dst + 1) d (m(dst := d))"

primrec fill_dwords :: "nat \<Rightarrow> u32 \<Rightarrow> u32 \<Rightarrow> mem \<Rightarrow> mem" where
  "fill_dwords 0 dst d m = m"
| "fill_dwords (Suc n) dst d m = fill_dwords n (dst + 4) d (store32 m dst d)"

definition memcpy :: "mem \<Rightarrow> u32 \<Rightarrow> u32 \<Rightarrow> u32 \<Rightarrow> mem" where
  "memcpy m dst src count = copy_bytes (unat count) dst src m"

definition memcpy32 :: "mem \<Rightarrow> u32 \<Rightarrow> u32 \<Rightarrow> u32 \<Rightarrow> mem" where
  "memcpy32 m dst src count = copy_dwords (unat count) dst src m"

definition memset :: "mem \<Rightarrow> u32 \<Rightarrow> u8 \<Rightarrow> u32 \<Rightarrow> mem" where
  "memset m dst d count = fill_bytes (unat count) dst d m"

definition memset32 :: "mem \<Rightarrow> u32 \<Rightarrow> u32 \<Rightarrow> u32 \<Rightarrow> mem" where
  "memset32 m dst d count = fill_dwords (unat count) dst d m"

definition strcpy :: "mem \<Rightarrow> u32 \<Rightarrow> u32 \<Rightarrow> mem option" where
  "strcpy m dst src = map_option (\<lambda>len. (copy_bytes (unat len) dst src m)(dst + len := 0)) (strlen m src)"

text \<open>The two loops of \<^verbatim>\<open>strncpy\<close>: \<open>n\<close> bytes are left, the index is \<open>i\<close>.\<close>

primrec strncpy_loop :: "nat \<Rightarrow> mem \<Rightarrow> u32 \<Rightarrow> u32 \<Rightarrow> u32 \<Rightarrow> mem" where
  "strncpy_loop 0 m dst src i = m"
| "strncpy_loop (Suc n) m dst src i =
     (if m (src + i) \<noteq> 0 then strncpy_loop n (m(dst + i := m (src + i))) dst src (i + 1)
      else fill_bytes (Suc n) (dst + i) 0 m)"

definition strncpy :: "mem \<Rightarrow> u32 \<Rightarrow> u32 \<Rightarrow> u32 \<Rightarrow> mem" where
  "strncpy m dst src mx = strncpy_loop (unat mx) m dst src 0"

definition byte_diff :: "u8 \<Rightarrow> u8 \<Rightarrow> int" where
  "byte_diff a b = uint a - uint b"

partial_function (option) strcmp :: "mem \<Rightarrow> u32 \<Rightarrow> u32 \<Rightarrow> int option" where
  [code]: "strcmp m s1 s2 =
     (if m s1 \<noteq> 0 \<and> m s1 = m s2 then strcmp m (s1 + 1) (s2 + 1) else Some (byte_diff (m s1) (m s2)))"

primrec strncmp_loop :: "nat \<Rightarrow> mem \<Rightarrow> u32 \<Rightarrow> u32 \<Rightarrow> u32 \<Rightarrow> int" where
  "strncmp_loop 0 m s1 s2 i = 0"
| "strncmp_loop (Suc n) m s1 s2 i =
     (let c1 = m (s1 + i); c2 = m (s2 + i) in
      if c1 \<noteq> c2 then byte_diff c1 c2 else if c1 = 0 then 0 else strncmp_loop n m s1 s2 (i + 1))"

definition strncmp :: "mem \<Rightarrow> u32 \<Rightarrow> u32 \<Rightarrow> u32 \<Rightarrow> int" where
  "strncmp m s1 s2 len = strncmp_loop (unat len) m s1 s2 0"

partial_function (option) strrchr_loop :: "mem \<Rightarrow> u8 \<Rightarrow> u32 \<Rightarrow> u32 \<Rightarrow> (u32 \<times> u32) option" where
  [code]: "strrchr_loop m target str occ =
     (if m str \<noteq> 0 then strrchr_loop m target (str + 1) (if m str = target then str else occ)
      else Some (str, occ))"

definition strrchr :: "mem \<Rightarrow> u32 \<Rightarrow> u32 \<Rightarrow> u32 option" where
  "strrchr m str ch =
     (let target = ucast ch in
      map_option (\<lambda>(str, occ). if target = 0 then str else occ) (strrchr_loop m target str 0))"

partial_function (option) strchr_loop :: "mem \<Rightarrow> u8 \<Rightarrow> u32 \<Rightarrow> u32 option" where
  [code]: "strchr_loop m ch str =
     (if m str \<noteq> 0 then if m str = ch then Some str else strchr_loop m ch (str + 1)
      else Some (if ch = 0 then str else 0))"

definition strchr :: "mem \<Rightarrow> u32 \<Rightarrow> u32 \<Rightarrow> u32 option" where
  "strchr m str ch = strchr_loop m (ucast ch) str"

text \<open>The two scans of \<^verbatim>\<open>strtok\<close>: past delimiters, or up to one.\<close>

partial_function (option) strtok_scan :: "bool \<Rightarrow> mem \<Rightarrow> u32 \<Rightarrow> u32 \<Rightarrow> u32 option" where
  [code]: "strtok_scan delims m delim p =
     (if m p = 0 then Some p
      else case strchr m delim (scast (m p)) of
        None \<Rightarrow> None
      | Some q \<Rightarrow> if (q \<noteq> 0) = delims then strtok_scan delims m delim (p + 1) else Some p)"

text \<open>\<open>saved\<close> is the static variable \<^verbatim>\<open>last\<close>. The token, the memory and the new value of it.\<close>

definition strtok :: "mem \<Rightarrow> u32 \<Rightarrow> u32 \<Rightarrow> u32 \<Rightarrow> (u32 \<times> mem \<times> u32) option" where
  "strtok m saved str delim =
     (if str = 0 \<and> saved = 0 then Some (0, m, 0)
      else case strtok_scan True m delim (if str \<noteq> 0 then str else saved) of
        None \<Rightarrow> None
      | Some token \<Rightarrow>
          if m token = 0 then Some (0, m, 0)
          else case strtok_scan False m delim token of
            None \<Rightarrow> None
          | Some fin \<Rightarrow>
              if m fin \<noteq> 0 then Some (token, m(fin := 0), fin + 1) else Some (token, m, 0))"

partial_function (option) strcat_loop :: "mem \<Rightarrow> u32 \<Rightarrow> u32 \<Rightarrow> mem option" where
  [code]: "strcat_loop m fin src =
     (if m src \<noteq> 0 then strcat_loop (m(fin := m src)) (fin + 1) (src + 1) else Some (m(fin := 0)))"

definition strcat :: "mem \<Rightarrow> u32 \<Rightarrow> u32 \<Rightarrow> mem option" where
  "strcat m dst src = (case strlen m dst of None \<Rightarrow> None | Some len \<Rightarrow> strcat_loop m (dst + len) src)"

text \<open>Swapping the bytes from the two ends of a block inwards.\<close>

function swap_ends :: "mem \<Rightarrow> u32 \<Rightarrow> u32 \<Rightarrow> mem" where
  "swap_ends m ptr1 ptr =
     (if ptr1 < ptr then swap_ends (m(ptr := m ptr1, ptr1 := m ptr)) (ptr1 + 1) (ptr - 1) else m)"
  by auto
termination
proof (relation "measure (\<lambda>(m, ptr1, ptr). unat ptr - unat ptr1)", goal_cases)
  case (2 m ptr1 ptr)
  then have lt: "unat ptr1 < unat ptr" by (simp add: u32_less_iff)
  then have "unat (ptr - 1) = unat ptr - 1" by (intro unat_minus_one) auto
  then show ?case using lt unat_Suc_below [OF lt] by simp
qed simp

declare swap_ends.simps [simp del]

definition reverse :: "mem \<Rightarrow> u32 \<Rightarrow> mem option" where
  "reverse m str = map_option (\<lambda>len. swap_ends m (str + 0) (str + (if len > 0 then len - 1 else 0))) (strlen m str)"

section \<open>Numbers\<close>

definition byte_of :: "char \<Rightarrow> u8" where
  "byte_of c = of_char c"

definition udigits :: string where
  "udigits = ''0123456789abcdefghijklmnopqrstuvwxyz''"

definition sdigits :: string where
  "sdigits = ''zyxwvutsrqponmlkjihgfedcba9876543210123456789abcdefghijklmnopqrstuvwxyz''"

text \<open>The digit loop of \<^verbatim>\<open>_uvtoa\<close> for a base above one: the memory and the end of the digits.\<close>

function uvtoa_loop :: "mem \<Rightarrow> u32 \<Rightarrow> u32 \<Rightarrow> u32 \<Rightarrow> mem \<times> u32" where
  "uvtoa_loop m ptr base val =
     (if base \<le> 1 then (m, ptr)
      else
        let tmp_value = val; val = val div base;
            m = m(ptr := byte_of (udigits ! unat (tmp_value - val * base)))
        in if val \<noteq> 0 then uvtoa_loop m (ptr + 1) base val else (m, ptr + 1))"
  by pat_completeness auto
termination
proof (relation "measure (\<lambda>(m, ptr, base, val). unat val)", goal_cases)
  case (2 m ptr base val x y z)
  then have "1 < unat base" "0 < unat val" by (auto simp: u32_le_iff unat_gt_0)
  then have "unat val div unat base < unat val" by (intro div_less_dividend)
  then show ?case using 2 by (simp add: unat_div)
qed simp

declare uvtoa_loop.simps [simp del]

definition uvtoa :: "mem \<Rightarrow> u32 \<Rightarrow> u32 \<Rightarrow> u32 \<Rightarrow> mem" where
  "uvtoa m result base val =
     (if base < 2 \<or> base > 36 then m(result := 0)
      else let (m, ptr) = uvtoa_loop m result base val
           in swap_ends (m(ptr := 0)) result (ptr - 1))"

text \<open>
  \<^verbatim>\<open>_vtoa\<close>: the value is signed but the base is not, so that the division and the remainder
  are those of unsigned numbers. The loop also returns the last \<^verbatim>\<open>tmp_value\<close>.
\<close>

function vtoa_loop :: "mem \<Rightarrow> u32 \<Rightarrow> u32 \<Rightarrow> u32 \<Rightarrow> mem \<times> u32 \<times> u32" where
  "vtoa_loop m ptr base val =
     (if base \<le> 1 then (m, ptr, val)
      else
        let tmp_value = val; val = val div base;
            m = m(ptr := byte_of (sdigits ! unat (35 + (tmp_value - val * base))))
        in if val \<noteq> 0 then vtoa_loop m (ptr + 1) base val else (m, ptr + 1, tmp_value))"
  by pat_completeness auto
termination
proof (relation "measure (\<lambda>(m, ptr, base, val). unat val)", goal_cases)
  case (2 m ptr base val x y z)
  then have "1 < unat base" "0 < unat val" by (auto simp: u32_le_iff unat_gt_0)
  then have "unat val div unat base < unat val" by (intro div_less_dividend)
  then show ?case using 2 by (simp add: unat_div)
qed simp

declare vtoa_loop.simps [simp del]

definition vtoa :: "mem \<Rightarrow> u32 \<Rightarrow> u32 \<Rightarrow> u32 \<Rightarrow> mem" where
  "vtoa m result base val =
     (if base < 2 \<or> base > 36 then m(result := 0)
      else let (m, ptr, tmp_value) = vtoa_loop m result base val;
               (m, ptr) = (if sint tmp_value < 0 then (m(ptr := byte_of (CHR ''-'')), ptr + 1) else (m, ptr))
           in swap_ends (m(ptr := 0)) result (ptr - 1))"

definition itoa :: "mem \<Rightarrow> u32 \<Rightarrow> u32 \<Rightarrow> mem" where
  "itoa m n str = vtoa m str 10 n"

definition utoa :: "mem \<Rightarrow> u32 \<Rightarrow> u32 \<Rightarrow> mem" where
  "utoa m n str = uvtoa m str 10 n"

definition htoa :: "mem \<Rightarrow> u32 \<Rightarrow> u32 \<Rightarrow> mem" where
  "htoa m n str = uvtoa m str 16 n"

partial_function (option) atou_loop :: "mem \<Rightarrow> u32 \<Rightarrow> u32 \<Rightarrow> u32 option" where
  [code]: "atou_loop m str result =
     (if m str \<noteq> 0 then atou_loop m (str + 1) (result * 10 + (scast (m str) - 48)) else Some result)"

definition atou :: "mem \<Rightarrow> u32 \<Rightarrow> u32 option" where
  "atou m str = atou_loop m str 0"

section \<open>Bytes in memory\<close>

definition bytes_at :: "mem \<Rightarrow> u32 \<Rightarrow> u8 list \<Rightarrow> bool" where
  "bytes_at m p xs \<longleftrightarrow> (\<forall>i < length xs. m (p + word_of_nat i) = xs ! i)"

text \<open>A string of non-zero bytes with its terminator.\<close>

definition cstr :: "mem \<Rightarrow> u32 \<Rightarrow> u8 list \<Rightarrow> bool" where
  "cstr m p s \<longleftrightarrow> 0 \<notin> set s \<and> bytes_at m p (s @ [0])"

lemma bytes_at_Nil [simp]: "bytes_at m p []"
  by (simp add: bytes_at_def)

lemma bytes_at_Cons [simp]: "bytes_at m p (x # xs) \<longleftrightarrow> m p = x \<and> bytes_at m (p + 1) xs"
proof -
  have eq: "p + 1 + word_of_nat i = p + word_of_nat (Suc i)" for i by (simp add: add.assoc)
  show ?thesis unfolding bytes_at_def eq by (auto simp: less_Suc_eq_0_disj simp del: of_nat_Suc)
qed

lemma bytes_at_append: "bytes_at m p (xs @ ys) \<longleftrightarrow> bytes_at m p xs \<and> bytes_at m (p + word_of_nat (length xs)) ys"
  by (induction xs arbitrary: p) (simp_all add: add.assoc)

lemma cstr_Nil: "cstr m p [] \<longleftrightarrow> m p = 0"
  by (simp add: cstr_def)

lemma cstr_Cons: "cstr m p (c # s) \<longleftrightarrow> c \<noteq> 0 \<and> m p = c \<and> cstr m (p + 1) s"
  by (auto simp: cstr_def)

primrec write_bytes :: "mem \<Rightarrow> u32 \<Rightarrow> u8 list \<Rightarrow> mem" where
  "write_bytes m p [] = m"
| "write_bytes m p (x # xs) = write_bytes (m(p := x)) (p + 1) xs"

lemma offset_inj: "i < 4294967296 \<Longrightarrow> j < 4294967296 \<Longrightarrow> p + word_of_nat i = p + word_of_nat j \<longleftrightarrow> i = j" for p :: u32
  using unat_of_nat_u32 [of i] unat_of_nat_u32 [of j] by (metis add_left_cancel)

lemma write_bytes_other:
  "(\<And>i. i < length xs \<Longrightarrow> a \<noteq> p + word_of_nat i) \<Longrightarrow> write_bytes m p xs a = m a"
proof (induction xs arbitrary: m p)
  case (Cons x xs)
  have "write_bytes (m(p := x)) (p + 1) xs a = (m(p := x)) a"
    by (rule Cons.IH) (use Cons.prems [of "Suc i" for i] in \<open>auto simp: add.assoc\<close>)
  then show ?case using Cons.prems [of 0] by simp
qed simp

lemma write_bytes_at: "length xs < 4294967296 \<Longrightarrow> bytes_at (write_bytes m p xs) p xs"
proof (induction xs arbitrary: m p)
  case (Cons x xs)
  have "p \<noteq> p + 1 + word_of_nat i" if "i < length xs" for i
    using offset_inj [of 0 "Suc i" p] Cons.prems that by (simp add: add.assoc)
  then show ?case using Cons write_bytes_other [of xs p "p + 1" "m(p := x)"] by simp
qed simp

lemma swap_ends_eq:
  "unat p \<le> unat q + 1 \<Longrightarrow>
   swap_ends m p q a = (if unat p \<le> unat a \<and> unat a \<le> unat q then m (p + q - a) else m a)"
proof (induction m p q rule: swap_ends.induct)
  case (1 m p q)
  show ?case
  proof (cases "p < q")
    case True
    then have lt: "unat p < unat q" by (simp add: u32_less_iff)
    have uq: "unat (q - 1) = unat q - 1" using lt by (intro unat_minus_one) auto
    note up = unat_Suc_below [OF lt]
    let ?m = "m(q := m p, p := m q)"
    have IH: "swap_ends ?m (p + 1) (q - 1) a =
        (if unat (p + 1) \<le> unat a \<and> unat a \<le> unat (q - 1) then ?m (p + 1 + (q - 1) - a) else ?m a)"
      by (rule "1.IH" [OF True]) (use lt uq up in simp)
    have step: "swap_ends m p q a = swap_ends ?m (p + 1) (q - 1) a" using True by (subst swap_ends.simps) simp
    consider "a = p" | "a = q" "a \<noteq> p" | "a \<noteq> p" "a \<noteq> q" by blast
    then show ?thesis
    proof cases
      case 1
      then show ?thesis using step IH up lt by simp
    next
      case 2
      moreover have "\<not> unat q \<le> unat q - 1" using lt by linarith
      ultimately show ?thesis using step IH uq lt by simp
    next
      case 3
      then have "unat a \<noteq> unat p" "unat a \<noteq> unat q" by (simp_all add: u32_eq_iff)
      moreover have "p + q - a \<noteq> p" "p + q - a \<noteq> q" using 3 by (auto simp: algebra_simps)
      ultimately show ?thesis using step IH up uq lt 3 by auto
    qed
  next
    case False
    then have le: "unat q \<le> unat p" by (simp add: u32_less_iff)
    have "swap_ends m p q a = m a" using False by (subst swap_ends.simps) simp
    moreover have "p + q - a = a" if "unat p \<le> unat a" "unat a \<le> unat q"
    proof -
      have "p = a" "q = a" using that le by (simp_all add: u32_eq_iff)
      then show ?thesis by simp
    qed
    ultimately show ?thesis by simp
  qed
qed

section \<open>Digits\<close>

text \<open>The digits of a number, least significant first; there is always one.\<close>

function rdigits :: "nat \<Rightarrow> nat \<Rightarrow> nat list" where
  "rdigits b v = (if b \<le> 1 \<or> v < b then [v] else v mod b # rdigits b (v div b))"
  by pat_completeness auto
termination by (relation "measure snd") (auto intro: div_less_dividend)

declare rdigits.simps [simp del]

lemma rdigits_range: "1 < b \<Longrightarrow> d \<in> set (rdigits b v) \<Longrightarrow> d < b"
proof (induction b v rule: rdigits.induct)
  case (1 b v)
  then show ?case using rdigits.simps [of b v] by (auto split: if_splits)
qed

lemma rdigits_nonempty: "rdigits b v \<noteq> []"
  by (subst rdigits.simps) simp

lemma rdigits_length: "1 < b \<Longrightarrow> v < b ^ n \<Longrightarrow> 0 < n \<Longrightarrow> length (rdigits b v) \<le> n"
proof (induction n arbitrary: v)
  case (Suc n)
  show ?case
  proof (cases "v < b")
    case True
    then show ?thesis by (subst rdigits.simps) simp
  next
    case False
    have "0 < n" using False Suc.prems(2) by (cases n) auto
    moreover have "v div b < b ^ n" using Suc.prems by (simp add: less_mult_imp_div_less mult.commute)
    ultimately show ?thesis using Suc.IH [of "v div b"] False Suc.prems(1) by (subst rdigits.simps) simp
  qed
qed simp

definition digits_value :: "nat \<Rightarrow> nat list \<Rightarrow> nat" where
  "digits_value b ds = foldl (\<lambda>r d. r * b + d) 0 ds"

lemma digits_value_rdigits: "1 < b \<Longrightarrow> digits_value b (rev (rdigits b v)) = v"
proof (induction b v rule: rdigits.induct)
  case (1 b v)
  then show ?case by (subst rdigits.simps) (auto simp: digits_value_def)
qed

lemma udigits_nth: "sdigits ! (35 + d) = udigits ! d"
proof -
  define pre where "pre = ''zyxwvutsrqponmlkjihgfedcba987654321''"
  have "sdigits = pre @ udigits" by (simp add: pre_def sdigits_def udigits_def)
  moreover have "length pre = 35" by (simp add: pre_def)
  ultimately show ?thesis by (metis nth_append_length_plus)
qed

lemma udigits_nonzero: "d < 36 \<Longrightarrow> byte_of (udigits ! d) \<noteq> 0"
proof -
  have "\<forall>d \<in> {..<36}. byte_of (udigits ! d) \<noteq> 0" by code_simp
  then show "d < 36 \<Longrightarrow> ?thesis" by simp
qed

lemma udigits_decimal: "d < 10 \<Longrightarrow> scast (byte_of (udigits ! d)) - 48 = (word_of_nat d :: u32)"
proof -
  have "\<forall>d \<in> {..<10}. scast (byte_of (udigits ! d)) - 48 = (word_of_nat d :: u32)" by code_simp
  then show "d < 10 \<Longrightarrow> ?thesis" by simp
qed

abbreviation digit_bytes :: "nat \<Rightarrow> nat \<Rightarrow> u8 list" where
  "digit_bytes b v \<equiv> map (\<lambda>d. byte_of (udigits ! d)) (rdigits b v)"

lemma digit_word:
  assumes "1 < unat base"
  shows "unat (v - v div base * base) = unat v mod unat base"
proof -
  have "v - v div base * base = v mod base" by (simp add: minus_div_mult_eq_mod)
  then show ?thesis by (simp add: unat_mod)
qed

lemma uvtoa_loop_step:
  assumes "1 < unat base"
  shows "uvtoa_loop m p base v = (let m' = m(p := byte_of (udigits ! (unat v mod unat base))) in
    if unat v < unat base then (m', p + 1) else uvtoa_loop m' (p + 1) base (v div base))"
proof -
  have "v div base = 0 \<longleftrightarrow> unat v < unat base" using assms by (simp add: u32_eq_iff unat_div div_eq_0_iff)
  moreover have "\<not> base \<le> 1" using assms by (simp add: u32_le_iff)
  ultimately show ?thesis using digit_word [OF assms, of v] by (subst uvtoa_loop.simps) (simp add: Let_def)
qed

lemma uvtoa_loop_eq:
  assumes b: "1 < unat base"
  shows "uvtoa_loop m p base v =
    (write_bytes m p (digit_bytes (unat base) (unat v)), p + word_of_nat (length (rdigits (unat base) (unat v))))"
proof (induction "unat v" arbitrary: m p v rule: less_induct)
  case less
  show ?case
  proof (cases "unat v < unat base")
    case True
    then show ?thesis using b uvtoa_loop_step [OF b, of m p v] by (simp add: rdigits.simps [of "unat base" "unat v"] Let_def)
  next
    case False
    have "unat (v div base) < unat v" using False b by (simp add: unat_div)
    from less [OF this] show ?thesis
      using uvtoa_loop_step [OF b, of m p v] False b
      by (simp add: rdigits.simps [of "unat base" "unat v"] Let_def unat_div add.assoc)
  qed
qed

text \<open>The string that the conversion leaves, for a buffer that does not wrap around.\<close>

lemma uvtoa_string:
  assumes base: "2 \<le> base" "base \<le> 36" and room: "unat p + 33 < 4294967296"
  shows "cstr (uvtoa m p base v) p (rev (digit_bytes (unat base) (unat v)))"
    "\<And>a. unat a < unat p \<or> unat p + 33 \<le> unat a \<Longrightarrow> uvtoa m p base v a = m a"
proof -
  have b: "1 < unat base" "unat base \<le> 36" using base by (simp_all add: u32_le_iff)
  define ds where "ds = digit_bytes (unat base) (unat v)"
  let ?n = "length ds"
  have "unat v < 2 ^ 32" by simp
  moreover have "(2 :: nat) ^ 32 \<le> unat base ^ 32" using b(1) by (intro power_mono) auto
  ultimately have "unat v < unat base ^ 32" by linarith
  then have n: "0 < ?n" "?n \<le> 32"
    using rdigits_length [OF b(1), of "unat v" 32] rdigits_nonempty by (auto simp: ds_def)
  let ?m1 = "write_bytes m p (ds @ [0])" and ?q = "p + word_of_nat ?n - 1"
  have m1: "(write_bytes m p ds)(p + word_of_nat ?n := 0) = ?m1"
  proof -
    have "write_bytes m' p' (xs @ [0]) = (write_bytes m' p' xs)(p' + word_of_nat (length xs) := 0)" for m' p' and xs :: "u8 list"
      by (induction xs arbitrary: m' p') (simp_all add: add.assoc)
    then show ?thesis by simp
  qed
  have "\<not> (base < 2 \<or> 36 < base)" using base by (simp add: not_less)
  then have res: "uvtoa m p base v = swap_ends ?m1 p ?q"
    using uvtoa_loop_eq [OF b(1), of m p v] m1 by (simp add: uvtoa_def ds_def)
  have un: "unat (p + word_of_nat i) = unat p + i" if "i \<le> 33" for i
    using that room by (simp add: unat_add_u32 unat_of_nat_u32)
  have uq: "unat ?q = unat p + ?n - 1"
  proof -
    have "1 \<le> ?n" using n(1) by linarith
    from of_nat_diff [OF this, where ?'a = u32] have q: "?q = p + word_of_nat (?n - 1)" by simp
    have "unat (p + word_of_nat (?n - 1)) = unat p + (?n - 1)" using n by (intro un) linarith
    then show ?thesis unfolding q using n(1) by linarith
  qed
  have sw: "swap_ends ?m1 p ?q a = (if unat p \<le> unat a \<and> unat a \<le> unat ?q then ?m1 (p + ?q - a) else ?m1 a)" for a
    by (rule swap_ends_eq) (use uq n in simp)
  have at: "bytes_at ?m1 p (ds @ [0])" by (rule write_bytes_at) (use n in simp)
  have "swap_ends ?m1 p ?q (p + word_of_nat i) = (rev ds @ [0]) ! i" if "i < ?n + 1" for i
  proof (cases "i < ?n")
    case True
    have eq: "p + ?q - (p + word_of_nat i) = p + word_of_nat (?n - 1 - i)" using True n by (simp add: of_nat_diff)
    have "unat p \<le> unat (p + word_of_nat i) \<and> unat (p + word_of_nat i) \<le> unat ?q"
      using un [of i] uq True n by linarith
    then have "swap_ends ?m1 p ?q (p + word_of_nat i) = ?m1 (p + word_of_nat (?n - 1 - i))"
      using sw [of "p + word_of_nat i"] eq by presburger
    also have "\<dots> = (ds @ [0]) ! (?n - 1 - i)" by (rule at [unfolded bytes_at_def, rule_format]) simp
    also have "\<dots> = ds ! (?n - 1 - i)" using n(1) by (intro nth_append_left) linarith
    also have "\<dots> = (rev ds @ [0]) ! i" using True by (simp add: nth_append rev_nth)
    finally show ?thesis .
  next
    case False
    then have i: "i = ?n" using that by simp
    then have "\<not> unat (p + word_of_nat i) \<le> unat ?q" using un [of i] uq n by linarith
    then have "swap_ends ?m1 p ?q (p + word_of_nat i) = ?m1 (p + word_of_nat i)" using sw [of "p + word_of_nat i"] by simp
    then show ?thesis using at i by (simp add: bytes_at_def nth_append)
  qed
  then have "bytes_at (swap_ends ?m1 p ?q) p (rev ds @ [0])" by (simp add: bytes_at_def)
  moreover have "0 \<notin> set ds"
    using udigits_nonzero rdigits_range [OF b(1)] b(2) by (fastforce simp: ds_def)
  ultimately show "cstr (uvtoa m p base v) p (rev ds)" by (simp add: cstr_def res)
  fix a :: u32 assume a: "unat a < unat p \<or> unat p + 33 \<le> unat a"
  have "a \<noteq> p + word_of_nat i" if "i < length (ds @ [0])" for i using a un [of i] that n by auto
  then have "?m1 a = m a" by (rule write_bytes_other)
  then show "uvtoa m p base v a = m a" unfolding res using sw [of a] a uq n by force
qed

lemma atou_loop_eq:
  "cstr m p (map (\<lambda>d. byte_of (udigits ! d)) ds) \<Longrightarrow> (\<forall>d \<in> set ds. d < 10) \<Longrightarrow>
   atou_loop m p r = Some (foldl (\<lambda>r d. r * 10 + word_of_nat d) r ds)"
proof (induction ds arbitrary: p r)
  case Nil
  then show ?case by (subst atou_loop.simps) (simp add: cstr_Nil)
next
  case (Cons d ds)
  then show ?case using udigits_decimal [of d] by (subst atou_loop.simps) (auto simp: cstr_Cons)
qed

lemma foldl_word: "foldl (\<lambda>r d. r * 10 + word_of_nat d) (word_of_nat k) ds = (word_of_nat (foldl (\<lambda>r d. r * 10 + d) k ds) :: u32)"
proof (induction ds arbitrary: k)
  case (Cons d ds)
  show ?case using Cons [of "k * 10 + d"] by simp
qed simp

text \<open>
  Property C33 (roundtrip): \<^verbatim>\<open>utoa\<close> leaves the decimal digits of the number, most significant
  first and without leading zeros, as a terminated string that stays within 33 bytes, and
  \<^verbatim>\<open>atou\<close> of it ends and returns the number; nothing outside of the buffer changes.
\<close>

theorem utoa_atou_roundtrip:
  assumes "unat str + 33 < 4294967296"
  shows "cstr (utoa m n str) str (rev (digit_bytes 10 (unat n))) \<and> atou (utoa m n str) str = Some n \<and>
    (\<forall>a. unat a < unat str \<or> unat str + 33 \<le> unat a \<longrightarrow> utoa m n str a = m a)"
proof -
  have s: "cstr (utoa m n str) str (map (\<lambda>d. byte_of (udigits ! d)) (rev (rdigits 10 (unat n))))"
    "\<And>a. unat a < unat str \<or> unat str + 33 \<le> unat a \<Longrightarrow> utoa m n str a = m a"
    using uvtoa_string(1) [of 10 str m n] uvtoa_string(2) [of 10 str _ m n] assms by (simp_all add: utoa_def rev_map)
  have "\<forall>d \<in> set (rev (rdigits 10 (unat n))). d < 10" using rdigits_range [of 10] by auto
  from atou_loop_eq [OF s(1) this, of 0] have "atou (utoa m n str) str =
      Some (foldl (\<lambda>r d. r * 10 + word_of_nat d) (word_of_nat 0) (rev (rdigits 10 (unat n))))"
    by (simp add: atou_def)
  also have "\<dots> = Some n"
    unfolding foldl_word using digits_value_rdigits [of 10 "unat n"] by (simp add: digits_value_def)
  finally show ?thesis using s by (simp add: rev_map)
qed

theorem utoa_atou_roundtrip_witness: "atou (utoa (\<lambda>_. 0) 4096 0x1000) 0x1000 = Some 4096"
  using utoa_atou_roundtrip [of "0x1000" "\<lambda>_. 0" 4096] by simp

lemma vtoa_loop_step:
  assumes "1 < unat base" "unat base \<le> 36"
  shows "vtoa_loop m p base v = (let m' = m(p := byte_of (udigits ! (unat v mod unat base))) in
    if unat v < unat base then (m', p + 1, v) else vtoa_loop m' (p + 1) base (v div base))"
proof -
  have z: "v div base = 0 \<longleftrightarrow> unat v < unat base" using assms by (simp add: u32_eq_iff unat_div div_eq_0_iff)
  have lt: "unat v mod unat base < 36" using assms mod_less_divisor [of "unat base" "unat v"] by linarith
  then have "unat (35 + (v - v div base * base)) = 35 + unat v mod unat base"
    using digit_word [OF assms(1), of v] by (simp add: unat_add_u32)
  then have "sdigits ! unat (35 + (v - v div base * base)) = udigits ! (unat v mod unat base)"
    using udigits_nth by simp
  moreover have "\<not> base \<le> 1" using assms by (simp add: u32_le_iff)
  ultimately show ?thesis using z by (subst vtoa_loop.simps) (simp add: Let_def)
qed

lemma vtoa_loop_eq:
  assumes b: "1 < unat base" "unat base \<le> 36"
  shows "\<exists>t. vtoa_loop m p base v = (fst (uvtoa_loop m p base v), snd (uvtoa_loop m p base v), t) \<and> unat t < unat base"
proof (induction "unat v" arbitrary: m p v rule: less_induct)
  case less
  show ?case
  proof (cases "unat v < unat base")
    case True
    then show ?thesis using uvtoa_loop_step [OF b(1), of m p v] vtoa_loop_step [OF b, of m p v] by (simp add: Let_def)
  next
    case False
    have "unat (v div base) < unat v" using False b by (simp add: unat_div)
    from less [OF this] show ?thesis
      using uvtoa_loop_step [OF b(1), of m p v] vtoa_loop_step [OF b, of m p v] False by (simp add: Let_def)
  qed
qed

text \<open>
  \<^verbatim>\<open>_vtoa\<close>, which takes a signed value, does the same as \<^verbatim>\<open>_uvtoa\<close> for
  every value and base: the quotient by the unsigned base is the unsigned one, the last
  value it looks at is never negative, and so \<^verbatim>\<open>itoa\<close> prints -1 as 4294967295 and never
  prints a sign.
\<close>

theorem vtoa_is_uvtoa: "vtoa m result base val = uvtoa m result base val"
proof (cases "base < 2 \<or> base > 36")
  case True
  then show ?thesis by (simp add: vtoa_def uvtoa_def)
next
  case False
  then have b: "1 < unat base" "unat base \<le> 36" by (simp_all add: u32_less_iff not_less)
  obtain t where t: "vtoa_loop m result base val = (fst (uvtoa_loop m result base val), snd (uvtoa_loop m result base val), t)"
    "unat t < unat base" using vtoa_loop_eq [OF b] by blast
  have "sint t = int (unat t)" using t(2) b(2) by (intro sint_small) linarith
  then show ?thesis using False t(1) by (simp add: vtoa_def uvtoa_def split_def)
qed

section \<open>Length and comparison\<close>

lemma strlen_loop_eq:
  "cstr m (p + word_of_nat k) s \<Longrightarrow> strlen_loop m p (word_of_nat k) = Some (word_of_nat (k + length s + 1))"
proof (induction s arbitrary: k)
  case Nil
  then show ?case by (subst strlen_loop.simps) (simp add: cstr_Nil)
next
  case (Cons c s)
  then have "strlen_loop m p (word_of_nat (Suc k)) = Some (word_of_nat (Suc k + length s + 1))"
    by (intro Cons.IH) (simp add: cstr_Cons add_ac)
  then show ?case using Cons.prems by (subst strlen_loop.simps) (simp add: cstr_Cons add.commute)
qed

lemma strlen_cstr: "cstr m p s \<Longrightarrow> strlen m p = Some (word_of_nat (length s))"
  using strlen_loop_eq [of m p 0 s] by (simp add: strlen_def)

lemma byte_diff_zero: "byte_diff a b = 0 \<longleftrightarrow> a = b"
  by (simp add: byte_diff_def uint_word_ariths word_uint_eq_iff)

lemma strcmp_cstr: "cstr m p s \<Longrightarrow> cstr m q t \<Longrightarrow> \<exists>r. strcmp m p q = Some r \<and> (r = 0 \<longleftrightarrow> s = t)"
proof (induction s arbitrary: p q t)
  case Nil
  then show ?case by (subst strcmp.simps, cases t) (auto simp: cstr_Nil cstr_Cons byte_diff_zero)
next
  case (Cons c s)
  show ?case
  proof (cases t)
    case Nil
    then show ?thesis using Cons.prems by (subst strcmp.simps) (auto simp: cstr_Nil cstr_Cons byte_diff_zero)
  next
    case t: (Cons d t')
    then show ?thesis using Cons.prems Cons.IH [of "p + 1" "q + 1" t']
      by (subst strcmp.simps) (auto simp: cstr_Cons byte_diff_zero)
  qed
qed

end
