(* ===== verification/Runtime.thy ===== *)
theory Runtime
  imports CString
begin

text \<open>
  Small parts of the run-time library: the 64-bit division of \<^verbatim>\<open>cstdlib.cpp\<close>, its \<^verbatim>\<open>new\<close> and \<^verbatim>\<open>delete\<close>
  through the kernel interface, the exit handlers and the guards of static variables of
  \<^verbatim>\<open>icxxabi.cpp\<close>, \<^verbatim>\<open>crc32.hpp\<close>, \<^verbatim>\<open>hash.hpp\<close> and \<^verbatim>\<open>abs\<close> of \<^verbatim>\<open>cmath.cpp\<close>.
\<close>

section \<open>Division\<close>

text \<open>The loop from bit \<open>n - 1\<close> down to bit 0; the quotient and the remainder.\<close>

primrec udivmod_loop :: "nat \<Rightarrow> u64 \<Rightarrow> u64 \<Rightarrow> u64 \<times> u64 \<Rightarrow> u64 \<times> u64" where
  "udivmod_loop 0 a b s = s"
| "udivmod_loop (Suc i) a b s =
     (let (quotient, rem) = s; rem = push_bit 1 rem OR (drop_bit i a AND 1) in
      udivmod_loop i a b (if rem \<ge> b then (quotient OR push_bit i 1, rem - b) else (quotient, rem)))"

definition udivmod_64 :: "u64 \<Rightarrow> u64 \<Rightarrow> (u64 \<times> u64) kres" where
  "udivmod_64 a b =
     (if b = 0 then Inl (Panic ''Division by zero in udivmod_64'') else Inr (udivmod_loop 64 a b (0, 0)))"

definition udivdi3 :: "u64 \<Rightarrow> u64 \<Rightarrow> u64 kres" where
  "udivdi3 a b = bindR (udivmod_64 a b) (\<lambda>(q, r). Inr q)"

definition umoddi3 :: "u64 \<Rightarrow> u64 \<Rightarrow> u64 kres" where
  "umoddi3 a b = bindR (udivmod_64 a b) (\<lambda>(q, r). Inr r)"

lemma u64_bound: "unat (x :: u64) < 18446744073709551616"
  using unsigned_less [of x, where ?'a = nat] by simp

lemma shift_in_bit:
  assumes "unat (r :: u64) < 2 ^ 63"
  shows "unat (push_bit 1 r OR (x AND 1)) = 2 * unat r + unat (x AND 1)"
proof -
  have z: "push_bit 1 r AND (x AND 1) = 0"
    by (rule bit_word_eqI) (auto simp: bit_simps bit_0 intro!: gr0I)
  have "push_bit 1 r OR (x AND 1) = push_bit 1 r + (x AND 1)" using disjunctive_add_eq_or [OF z] by simp
  moreover have "unat (push_bit 1 r) = 2 * unat r"
    using assms by (simp add: push_bit_eq_mult unat_word_ariths)
  moreover have "unat (x AND 1) \<le> 1" by (simp add: and_one_eq unat_mod)
  ultimately show ?thesis using assms by (simp add: unat_word_ariths)
qed

lemma low_bit: "unat (drop_bit i a AND 1 :: u64) = unat a div 2 ^ i mod 2"
  by (simp only: and_one_eq unat_mod unat_drop_bit_eq) (simp add: drop_bit_eq_div)

lemma set_low_bit:
  assumes "unat (q :: u64) mod 2 ^ Suc i = 0" "i < 64"
  shows "unat (q OR push_bit i 1) = unat q + 2 ^ i"
proof -
  have "\<not> bit q i"
  proof
    assume "bit q i"
    then have "bit (unat q) i" by (simp add: bit_unsigned_iff)
    then have "odd (unat q div 2 ^ i)" by (simp add: bit_iff_odd)
    moreover obtain k where "unat q = 2 ^ Suc i * k" using assms(1) by auto
    ultimately show False by simp
  qed
  then have z: "q AND push_bit i 1 = 0" by (intro bit_word_eqI) (auto simp: bit_simps)
  have "q OR push_bit i 1 = q + push_bit i 1" using disjunctive_add_eq_or [OF z] by simp
  moreover have "unat (push_bit i 1 :: u64) = 2 ^ i" using assms(2) by (simp only: unsigned_push_bit_eq) (simp add: push_bit_eq_mult take_bit_nat_eq_self)
  moreover have "unat q + 2 ^ i < 2 ^ 64"
  proof -
    obtain k where k: "unat q = 2 ^ Suc i * k" using assms(1) by auto
    have "unat q < 2 ^ 64" using u64_bound [of q] by simp
    moreover have "(2 :: nat) ^ 64 = 2 ^ Suc i * 2 ^ (63 - i)" using assms(2) by (simp flip: power_add)
    ultimately have "2 ^ Suc i * k < 2 ^ Suc i * (2 :: nat) ^ (63 - i)" using k by metis
    then have "k < 2 ^ (63 - i)" by (simp only: mult_less_cancel1)
    then have "2 ^ Suc i * (k + 1) \<le> 2 ^ Suc i * (2 :: nat) ^ (63 - i)" by (intro mult_left_mono) auto
    then have "unat q + 2 ^ Suc i \<le> 2 ^ 64" using k \<open>(2 :: nat) ^ 64 = 2 ^ Suc i * 2 ^ (63 - i)\<close> by (simp add: algebra_simps)
    moreover have "(2 :: nat) ^ i < 2 ^ Suc i" by simp
    ultimately show ?thesis by linarith
  qed
  ultimately show ?thesis by (simp add: unat_word_ariths)
qed

lemma div_mod_eqI: "n = b * q + r \<Longrightarrow> r < b \<Longrightarrow> n div b = q" "n = b * q + r \<Longrightarrow> r < b \<Longrightarrow> n mod b = r" for n :: nat
  by simp_all

lemma double_step: "x = b * q + r \<Longrightarrow> 2 * x + d = b * (2 * q) + (2 * r + d)" for x :: nat
  by simp

lemma udivmod_loop_eq:
  fixes a b q r :: u64
  assumes b: "b \<noteq> 0"
  shows "n \<le> 64 \<Longrightarrow> unat r = unat a div 2 ^ n mod unat b \<Longrightarrow> unat q = unat a div 2 ^ n div unat b * 2 ^ n \<Longrightarrow>
    udivmod_loop n a b (q, r) = (a div b, a mod b)"
proof (induction n arbitrary: q r)
  case 0
  then show ?case by (simp add: word_unat_eq_iff unat_div unat_mod)
next
  case (Suc i)
  let ?x = "unat a div 2 ^ Suc i" and ?d = "unat a div 2 ^ i mod 2" and ?b = "unat b"
  let ?r = "push_bit 1 r OR (drop_bit i a AND 1)"
  have bp: "0 < ?b" using b by (simp add: unat_gt_0)
  have x: "unat a div 2 ^ i = 2 * ?x + ?d"
    unfolding power_Suc2 div_mult2_eq by (rule mult_div_mod_eq [symmetric])
  have "?x < 2 ^ 63"
  proof -
    have "unat a < 2 ^ 64" using u64_bound [of a] by simp
    also have "(2 :: nat) ^ 64 \<le> 2 ^ 63 * 2 ^ Suc i" by simp
    finally show ?thesis by (rule less_mult_imp_div_less)
  qed
  then have rl: "unat r < 2 ^ 63" using Suc.prems(2) mod_less_eq_dividend [of ?x ?b] by linarith
  have ur: "unat ?r = 2 * unat r + ?d" using shift_in_bit [OF rl, of "drop_bit i a"] low_bit [of i a] by simp
  have dl: "?d \<le> 1" by simp
  have rb: "unat r < ?b" using Suc.prems(2) bp by simp
  have "?x = ?b * (?x div ?b) + unat r" unfolding Suc.prems(2) by (rule mult_div_mod_eq [symmetric])
  from double_step [OF this, of ?d] x have eq: "unat a div 2 ^ i = ?b * (2 * (?x div ?b)) + (2 * unat r + ?d)"
    by (rule trans [rotated])
  show ?case
  proof (cases "?r \<ge> b")
    case True
    then have ge: "?b \<le> 2 * unat r + ?d" using ur by (simp add: word_le_nat_alt)
    have uq: "unat (q OR push_bit i 1) = unat q + 2 ^ i"
      using Suc.prems(1,3) by (intro set_low_bit) auto
    have sub: "unat (?r - b) = 2 * unat r + ?d - ?b" using True ur by (simp add: unat_sub)
    have lt: "2 * unat r + ?d - ?b < ?b" using rb dl by linarith
    have "unat a div 2 ^ i = ?b * (2 * (?x div ?b) + 1) + (2 * unat r + ?d - ?b)"
      using eq ge by (simp add: algebra_simps)
    then have "unat a div 2 ^ i div ?b = 2 * (?x div ?b) + 1" "unat a div 2 ^ i mod ?b = 2 * unat r + ?d - ?b"
      using lt by (rule div_mod_eqI)+
    then show ?thesis using True sub uq Suc.prems by (simp add: Suc.IH algebra_simps)
  next
    case False
    then have lt: "2 * unat r + ?d < ?b" using ur by (simp add: word_le_nat_alt)
    then have "unat a div 2 ^ i div ?b = 2 * (?x div ?b)" "unat a div 2 ^ i mod ?b = 2 * unat r + ?d"
      using div_mod_eqI [OF eq lt] by blast+
    then show ?thesis using False ur Suc.prems by (simp add: Suc.IH algebra_simps)
  qed
qed

text \<open>
  Property C34 (equivalence): the shift-and-subtract division that the compiler calls for 64-bit
  operands computes the quotient and the remainder for every dividend and every divisor but
  zero, for which it panics.
\<close>

theorem udivmod_64_correct:
  "udivmod_64 a b = (if b = 0 then Inl (Panic ''Division by zero in udivmod_64'') else Inr (a div b, a mod b))"
proof (cases "b = 0")
  case False
  have "unat a div 2 ^ 64 = 0" using u64_bound [of a] by simp
  then have "udivmod_loop 64 a b (0, 0) = (a div b, a mod b)" by (intro udivmod_loop_eq [OF False]) simp_all
  then show ?thesis unfolding udivmod_64_def using False by (simp only: if_False)
qed (simp add: udivmod_64_def)


section \<open>Operators new and delete, and the console\<close>

text \<open>
  The table of kernel entry points, each of which may be missing; \<open>'s\<close> is the state of the
  kernel behind them.
\<close>

record 's kernel_api =
  api_kmalloc :: "(u32 \<Rightarrow> bool \<Rightarrow> 's \<Rightarrow> (u32 \<times> 's) krun) option"
  api_kfree :: "(u32 \<Rightarrow> 's \<Rightarrow> 's krun) option"
  api_get_ticks :: "('s \<Rightarrow> u32) option"
  api_panic :: "(u32 \<Rightarrow> 's \<Rightarrow> 's kres) option"
  api_putc :: "(u8 \<Rightarrow> 's \<Rightarrow> 's) option"
  api_getc :: "('s \<Rightarrow> u8 \<times> 's) option"

definition operator_new :: "'s kernel_api \<Rightarrow> u32 \<Rightarrow> 's \<Rightarrow> (u32 \<times> 's) krun" where
  "operator_new api n s =
     (case api_kmalloc api of Some kmalloc \<Rightarrow> kmalloc n False s | None \<Rightarrow> Some (Inl (Panic ''kmalloc not found'')))"

definition operator_new_aligned :: "'s kernel_api \<Rightarrow> u32 \<Rightarrow> u32 \<Rightarrow> 's \<Rightarrow> (u32 \<times> 's) krun" where
  "operator_new_aligned api n alignment s =
     (case api_kmalloc api of Some kmalloc \<Rightarrow> kmalloc n (alignment > 0) s
      | None \<Rightarrow> Some (Inl (Panic ''kmalloc not found'')))"

definition operator_delete :: "'s kernel_api \<Rightarrow> u32 \<Rightarrow> 's \<Rightarrow> 's krun" where
  "operator_delete api p s = (case api_kfree api of Some kfree \<Rightarrow> kfree p s | None \<Rightarrow> retK s)"

definition cxa_pure_virtual :: "'a kres" where
  "cxa_pure_virtual = Inl (Panic ''pure virtual call'')"

definition putc :: "'s kernel_api \<Rightarrow> u8 \<Rightarrow> 's \<Rightarrow> 's" where
  "putc api c s = (case api_putc api of Some f \<Rightarrow> f c s | None \<Rightarrow> s)"

partial_function (option) puts_loop :: "(u8 \<Rightarrow> 's \<Rightarrow> 's) \<Rightarrow> mem \<Rightarrow> u32 \<Rightarrow> 's \<Rightarrow> 's option" where
  [code]: "puts_loop f m p s = (if m p \<noteq> 0 then puts_loop f m (p + 1) (f (m p) s) else Some s)"

definition puts :: "'s kernel_api \<Rightarrow> mem \<Rightarrow> u32 \<Rightarrow> 's \<Rightarrow> 's option" where
  "puts api m p s = (case api_putc api of None \<Rightarrow> Some s | Some f \<Rightarrow> puts_loop f m p s)"

definition getc :: "'s kernel_api \<Rightarrow> 's \<Rightarrow> u8 \<times> 's" where
  "getc api s = (case api_getc api of Some f \<Rightarrow> f s | None \<Rightarrow> (0, s))"

lemma puts_cstr: "cstr m p bs \<Longrightarrow> puts_loop f m p s = Some (fold f bs s)"
proof (induction bs arbitrary: p s)
  case Nil
  then show ?case by (subst puts_loop.simps) (simp add: cstr_Nil cstr_Cons)
next
  case (Cons b bs)
  then show ?case by (subst puts_loop.simps) (simp add: cstr_Nil cstr_Cons)
qed

text \<open>\<^verbatim>\<open>abs\<close>; the smallest integer is its own absolute value.\<close>

definition abs32 :: "u32 \<Rightarrow> u32" where
  "abs32 n = (if sint n < 0 then - n else n)"

section \<open>Checksums and hashes\<close>

definition crc_polynomial :: u32 where
  "crc_polynomial = 0xEDB88320"

definition crc_bit :: "u32 \<Rightarrow> u32" where
  "crc_bit c = (if c AND 1 \<noteq> 0 then crc_polynomial XOR drop_bit 1 c else drop_bit 1 c)"

definition generate_crc32_table :: "u32 list" where
  "generate_crc32_table = map (\<lambda>i. (crc_bit ^^ 8) (word_of_nat i)) [0..<256]"

definition crc32_table :: "u32 list" where
  "crc32_table = generate_crc32_table"

primrec crc_loop :: "nat \<Rightarrow> mem \<Rightarrow> u32 \<Rightarrow> u32 \<Rightarrow> u32" where
  "crc_loop 0 m u c = c"
| "crc_loop (Suc n) m u c =
     crc_loop n m (u + 1) (crc32_table ! unat ((c XOR ucast (m u)) AND 0xFF) XOR drop_bit 8 c)"

definition crc32_calc :: "mem \<Rightarrow> u32 \<Rightarrow> u32 \<Rightarrow> u32 \<Rightarrow> u32" where
  "crc32_calc m buf len initial = crc_loop (unat len) m buf (initial XOR 0xFFFFFFFF) XOR 0xFFFFFFFF"

text \<open>The bytes of a block of memory.\<close>

primrec block :: "mem \<Rightarrow> u32 \<Rightarrow> nat \<Rightarrow> u8 list" where
  "block m p 0 = []"
| "block m p (Suc n) = m p # block m (p + 1) n"

text \<open>The reference: each bit of each byte goes through the shift register on its own.\<close>

definition crc_byte :: "u8 \<Rightarrow> u32 \<Rightarrow> u32" where
  "crc_byte b c = (crc_bit ^^ 8) (c XOR ucast b)"

definition crc32_bitwise :: "u8 list \<Rightarrow> u32 \<Rightarrow> u32" where
  "crc32_bitwise bs initial = fold crc_byte bs (initial XOR 0xFFFFFFFF) XOR 0xFFFFFFFF"

text \<open>The 64-bit FNV-1a hash, folded to 32 bits.\<close>

definition hash_byte :: "u8 \<Rightarrow> u64 \<Rightarrow> u64" where
  "hash_byte b h = (h XOR ucast b) * 1099511628211"

definition hash_fold :: "u64 \<Rightarrow> u32" where
  "hash_fold h = ucast (h XOR drop_bit 32 h)"

partial_function (option) hash_cstr_loop :: "mem \<Rightarrow> u32 \<Rightarrow> u64 \<Rightarrow> u64 option" where
  [code]: "hash_cstr_loop m s h = (if m s \<noteq> 0 then hash_cstr_loop m (s + 1) (hash_byte (m s) h) else Some h)"

definition hash_fold32_cstr :: "mem \<Rightarrow> u32 \<Rightarrow> u32 option" where
  "hash_fold32_cstr m s = map_option hash_fold (hash_cstr_loop m s 1469598103934665603)"

definition hash_fold32_trivial :: "u8 list \<Rightarrow> u32" where
  "hash_fold32_trivial bs = hash_fold (fold hash_byte bs 1469598103934665603)"

lemma hash_cstr_loop_cstr: "cstr m p bs \<Longrightarrow> hash_cstr_loop m p h = Some (fold hash_byte bs h)"
proof (induction bs arbitrary: p h)
  case Nil
  then show ?case by (subst hash_cstr_loop.simps) (simp add: cstr_Nil cstr_Cons)
next
  case (Cons b bs)
  then show ?case by (subst hash_cstr_loop.simps) (simp add: cstr_Nil cstr_Cons)
qed

lemma hash_fold32_cstr_bytes: "cstr m p bs \<Longrightarrow> hash_fold32_cstr m p = Some (hash_fold32_trivial bs)"
  by (simp add: hash_fold32_cstr_def hash_fold32_trivial_def hash_cstr_loop_cstr)

text \<open>The shift register is linear, so a byte's eight steps split into a table entry and a shift.\<close>

lemma crc_bit_odd: "crc_bit c = (if bit c 0 then crc_polynomial XOR drop_bit 1 c else drop_bit 1 c)"
  by (simp add: crc_bit_def and_one_eq bit_0 odd_iff_mod_2_eq_one)

lemma crc_bit_xor: "crc_bit (a XOR b) = crc_bit a XOR crc_bit b"
  by (rule bit_word_eqI) (auto simp: crc_bit_odd bit_simps)

lemma crc_bits_xor: "(crc_bit ^^ n) (a XOR b) = (crc_bit ^^ n) a XOR (crc_bit ^^ n) b"
  by (induction n) (simp_all add: crc_bit_xor)

lemma crc_bits_high:
  assumes "\<And>i. i < n \<Longrightarrow> \<not> bit c i"
  shows "(crc_bit ^^ n) c = drop_bit n c"
  using assms
proof (induction n)
  case (Suc n)
  then have "(crc_bit ^^ n) c = drop_bit n c" "\<not> bit c n" by simp_all
  moreover have "crc_bit (drop_bit n c) = drop_bit (Suc n) c" if "\<not> bit c n"
    using that by (simp add: crc_bit_odd bit_drop_bit_eq drop_bit_drop_bit)
  ultimately show ?case by simp
qed simp

lemma crc_table_step: "(crc_bit ^^ 8) x = crc32_table ! unat (x AND 0xFF) XOR drop_bit 8 x"
proof -
  have m: "(0xFF :: u32) = mask 8" by (simp add: mask_eq_decr_exp)
  have "unat (x AND 0xFF) < 256" unfolding m unat_and_mask by simp
  then have t: "crc32_table ! unat (x AND 0xFF) = (crc_bit ^^ 8) (x AND 0xFF)"
    by (simp add: crc32_table_def generate_crc32_table_def del: upt_Suc)
  have "x = (x AND 0xFF) XOR (x AND NOT 0xFF)"
    by (rule bit_word_eqI) (auto simp: bit_simps)
  then have "(crc_bit ^^ 8) x = (crc_bit ^^ 8) (x AND 0xFF) XOR (crc_bit ^^ 8) (x AND NOT 0xFF)"
    using crc_bits_xor by metis
  moreover have "(crc_bit ^^ 8) (x AND NOT 0xFF) = drop_bit 8 (x AND NOT 0xFF)"
    unfolding m by (rule crc_bits_high) (simp add: bit_simps)
  moreover have "drop_bit 8 (x AND NOT 0xFF) = drop_bit 8 x"
    unfolding m by (rule bit_word_eqI) (auto simp: bit_simps dest: bit_imp_le_length)
  ultimately show ?thesis using t by simp
qed

lemma crc_loop_bytes: "crc_loop n m u c = fold crc_byte (block m u n) c"
proof (induction n arbitrary: u c)
  case (Suc n)
  have "drop_bit 8 (c XOR ucast (m u)) = drop_bit 8 c"
    by (rule bit_word_eqI) (auto simp: bit_simps dest: bit_imp_le_length)
  then show ?case using Suc by (simp add: crc_byte_def crc_table_step)
qed simp


section \<open>Exit handlers\<close>

text \<open>
  \<^verbatim>\<open>icxxabi.cpp\<close>: the table of destructors. Functions are addresses; what calling one does to
  the table and to the rest of the kernel is the function \<open>call\<close>.
\<close>

record atexit_func_entry_t =
  destructor_func :: u32
  obj_ptr :: u32
  dso_handle :: u32

record atexit =
  atexit_funcs :: "atexit_func_entry_t list"
  atexit_func_count :: u32

definition ATEXIT_MAX_FUNCS :: u32 where
  "ATEXIT_MAX_FUNCS = 128"

definition atexit_wf :: "atexit \<Rightarrow> bool" where
  "atexit_wf t \<longleftrightarrow> length (atexit_funcs t) = 128 \<and> unat (atexit_func_count t) \<le> 128"

definition cxa_atexit :: "u32 \<Rightarrow> u32 \<Rightarrow> u32 \<Rightarrow> atexit \<Rightarrow> int \<times> atexit" where
  "cxa_atexit f objptr dso t =
     (if atexit_func_count t \<ge> ATEXIT_MAX_FUNCS then (-1, t)
      else (0, t\<lparr>atexit_funcs := (atexit_funcs t)[unat (atexit_func_count t) :=
              \<lparr>destructor_func = f, obj_ptr = objptr, dso_handle = dso\<rparr>],
            atexit_func_count := atexit_func_count t + 1\<rparr>))"

type_synonym 's destructor_call = "u32 \<Rightarrow> u32 \<Rightarrow> atexit \<times> 's \<Rightarrow> (atexit \<times> 's) kres"

definition clear_entry :: "nat \<Rightarrow> atexit \<Rightarrow> atexit" where
  "clear_entry i t =
     t\<lparr>atexit_funcs := (atexit_funcs t)[i := (atexit_funcs t ! i)\<lparr>destructor_func := 0, obj_ptr := 0\<rparr>]\<rparr>"

text \<open>\<open>finalize_all call n\<close> is \<^verbatim>\<open>while (i--)\<close> from \<open>i = n\<close>; \<open>finalize_fn\<close> the loop for one function.\<close>

primrec finalize_all :: "'s destructor_call \<Rightarrow> nat \<Rightarrow> atexit \<times> 's \<Rightarrow> (atexit \<times> 's) kres" where
  "finalize_all call 0 w = Inr w"
| "finalize_all call (Suc i) w =
     (let (t, s) = w in
      if i \<ge> length (atexit_funcs t) then Inl Undefined
      else let fn = destructor_func (atexit_funcs t ! i); obj = obj_ptr (atexit_funcs t ! i) in
           bindR (if fn \<noteq> 0 then call fn obj (clear_entry i t, s) else Inr (clear_entry i t, s))
             (finalize_all call i))"

primrec finalize_fn :: "'s destructor_call \<Rightarrow> u32 \<Rightarrow> nat \<Rightarrow> atexit \<times> 's \<Rightarrow> (atexit \<times> 's) kres" where
  "finalize_fn call f 0 w = Inr w"
| "finalize_fn call f (Suc j) w =
     (let (t, s) = w in
      if j \<ge> length (atexit_funcs t) then Inl Undefined
      else bindR (if destructor_func (atexit_funcs t ! j) = f
                  then call f (obj_ptr (atexit_funcs t ! j)) (clear_entry j t, s) else Inr w)
             (finalize_fn call f j))"

definition compact_entry :: "u32 \<Rightarrow> nat \<times> atexit \<Rightarrow> (nat \<times> atexit) kres" where
  "compact_entry r wt =
     (let (w, t) = wt in
      if unat r \<ge> length (atexit_funcs t) then Inl Undefined
      else if destructor_func (atexit_funcs t ! unat r) \<noteq> 0
      then Inr (Suc w, if w \<noteq> unat r
                       then t\<lparr>atexit_funcs := (atexit_funcs t)[w := atexit_funcs t ! unat r]\<rparr> else t)
      else Inr wt)"

definition cxa_finalize :: "'s destructor_call \<Rightarrow> u32 \<Rightarrow> atexit \<times> 's \<Rightarrow> (atexit \<times> 's) kres" where
  "cxa_finalize call f w =
     (let i = unat (atexit_func_count (fst w)) in
      if f = 0
      then bindR (finalize_all call i w) (\<lambda>(t, s). Inr (t\<lparr>atexit_func_count := 0\<rparr>, s))
      else bindR (finalize_fn call f i w) (\<lambda>(t, s).
           bindR (for_u32 0 (atexit_func_count t) compact_entry (0, t)) (\<lambda>(w, t).
           Inr (t\<lparr>atexit_func_count := word_of_nat w\<rparr>, s))))"

definition cxa_guard_acquire :: "mem \<Rightarrow> u32 \<Rightarrow> bool" where
  "cxa_guard_acquire m g \<longleftrightarrow> load8 m g = 0"

definition cxa_guard_release :: "mem \<Rightarrow> u32 \<Rightarrow> mem" where
  "cxa_guard_release m g = store8 m g 1"

lemma guard_runs_once: "\<not> cxa_guard_acquire (cxa_guard_release m g) g"
  by (simp add: cxa_guard_acquire_def cxa_guard_release_def load8_def store8_def)

lemma cxa_atexit_wf: "atexit_wf t \<Longrightarrow> atexit_wf (snd (cxa_atexit f obj dso t))"
  unfolding atexit_wf_def cxa_atexit_def ATEXIT_MAX_FUNCS_def
  using unat_Suc_u32 [of "atexit_func_count t" 128] by (auto simp: u32_le_iff u32_less_iff)

lemma clear_entry_sel [simp]:
  "length (atexit_funcs (clear_entry i t)) = length (atexit_funcs t)"
  "atexit_func_count (clear_entry i t) = atexit_func_count t"
  "j \<noteq> i \<Longrightarrow> atexit_funcs (clear_entry i t) ! j = atexit_funcs t ! j"
  by (simp_all add: clear_entry_def)

text \<open>The destructors of the first \<open>n\<close> entries, newest first, on the state of the kernel.\<close>

definition run_entry :: "(u32 \<Rightarrow> u32 \<Rightarrow> 's \<Rightarrow> 's kres) \<Rightarrow> atexit_func_entry_t \<Rightarrow> 's \<Rightarrow> 's kres" where
  "run_entry act e s = (if destructor_func e \<noteq> 0 then act (destructor_func e) (obj_ptr e) s else Inr s)"

primrec run_entries :: "(u32 \<Rightarrow> u32 \<Rightarrow> 's \<Rightarrow> 's kres) \<Rightarrow> atexit_func_entry_t list \<Rightarrow> 's \<Rightarrow> 's kres" where
  "run_entries act [] s = Inr s"
| "run_entries act (e # es) s = bindR (run_entry act e s) (run_entries act es)"

definition lift_act :: "(u32 \<Rightarrow> u32 \<Rightarrow> 's \<Rightarrow> 's kres) \<Rightarrow> 's destructor_call" where
  "lift_act act f obj w = bindR (act f obj (snd w)) (\<lambda>s. Inr (fst w, s))"

lemma lift_act_app [simp]: "lift_act act f obj (t, s) = bindR (act f obj s) (\<lambda>s. Inr (t, s))"
  by (simp add: lift_act_def)

lemma finalize_all_runs:
  "n \<le> length (atexit_funcs t) \<Longrightarrow>
   (\<exists>t'. atexit_func_count t' = atexit_func_count t \<and> length (atexit_funcs t') = length (atexit_funcs t) \<and>
     finalize_all (lift_act act) n (t, s) =
       bindR (run_entries act (rev (take n (atexit_funcs t))) s) (\<lambda>s. Inr (t', s)))"
proof (induction n arbitrary: t s)
  case (Suc n)
  let ?e = "atexit_funcs t ! n"
  have tk: "take n (atexit_funcs (clear_entry n t)) = take n (atexit_funcs t)" by (simp add: clear_entry_def)
  have rv: "rev (take (Suc n) (atexit_funcs t)) = ?e # rev (take n (atexit_funcs t))"
    using Suc.prems by (simp add: take_Suc_conv_app_nth)
  have IH: "\<exists>t'. atexit_func_count t' = atexit_func_count t \<and> length (atexit_funcs t') = length (atexit_funcs t) \<and>
     finalize_all (lift_act act) n (clear_entry n t, s) =
       bindR (run_entries act (rev (take n (atexit_funcs t))) s) (\<lambda>s. Inr (t', s))" for s
    using Suc.IH [of "clear_entry n t" s] Suc.prems by (simp add: tk)
  show ?case
  proof (cases "run_entry act ?e s")
    case (Inl x)
    then show ?thesis using Suc.prems
      by (auto simp: rv run_entry_def Let_def split: if_splits)
  next
    case (Inr s1)
    then show ?thesis using Suc.prems IH [of s1]
      by (auto simp: rv run_entry_def Let_def split: if_splits)
  qed
qed auto

text \<open>
  Finalising everything runs the destructor of every registered entry
  with its object, the last registered first, and leaves the table empty; a destructor that
  stops the kernel stops the finalisation there. Stated for destructors that do not register
  or finalise in turn.
\<close>

lemma finalize_runs_lifo:
  assumes "atexit_wf t"
  shows "\<exists>t'. atexit_wf t' \<and> atexit_func_count t' = 0 \<and>
    cxa_finalize (lift_act act) 0 (t, s) =
      bindR (run_entries act (rev (take (unat (atexit_func_count t)) (atexit_funcs t))) s) (\<lambda>s. Inr (t', s))"
proof -
  let ?n = "unat (atexit_func_count t)"
  have "?n \<le> length (atexit_funcs t)" using assms by (simp add: atexit_wf_def)
  from finalize_all_runs [OF this, of act s] obtain t' where
    t': "length (atexit_funcs t') = length (atexit_funcs t)"
    and run: "finalize_all (lift_act act) ?n (t, s) =
      bindR (run_entries act (rev (take ?n (atexit_funcs t))) s) (\<lambda>s. Inr (t', s))"
    by blast
  have "atexit_wf (t'\<lparr>atexit_func_count := 0\<rparr>)" using assms t' by (simp add: atexit_wf_def)
  moreover have "cxa_finalize (lift_act act) 0 (t, s) =
      bindR (run_entries act (rev (take ?n (atexit_funcs t))) s) (\<lambda>s. Inr (t'\<lparr>atexit_func_count := 0\<rparr>, s))"
    by (simp add: cxa_finalize_def run bindR_assoc)
  ultimately show ?thesis by (intro exI conjI) simp_all
qed

end
