(* ===== verification/ELF.thy ===== *)
theory ELF
  imports VMM Runtime
begin

text \<open>
  \<^verbatim>\<open>klibcpp/elf.hpp\<close> and \<^verbatim>\<open>sys/kexp.cpp\<close>: the view of a relocatable object in memory and the
  table of symbols the kernel exports. Every field is read through the page tables, byte by
  byte, so a header that points at unmapped memory is a page fault. A name in the image is
  the address of its first character; a literal of the code is the list of its bytes.
\<close>

section \<open>Reading through the page tables\<close>

definition vload8 :: "vmm \<Rightarrow> u32 \<Rightarrow> u8 kres" where
  "vload8 s va = (case translate s va of None \<Rightarrow> Inl (Page_Fault va) | Some pa \<Rightarrow> Inr (phys s pa))"

definition vread16 :: "vmm \<Rightarrow> u32 \<Rightarrow> u16 kres" where
  "vread16 s va =
     bindR (vload8 s va) (\<lambda>b0. bindR (vload8 s (va + 1)) (\<lambda>b1. Inr (ucast b0 OR push_bit 8 (ucast b1))))"

definition vread32 :: "vmm \<Rightarrow> u32 \<Rightarrow> u32 kres" where
  "vread32 s va =
     bindR (vload8 s va) (\<lambda>b0. bindR (vload8 s (va + 1)) (\<lambda>b1.
     bindR (vload8 s (va + 2)) (\<lambda>b2. bindR (vload8 s (va + 3)) (\<lambda>b3.
     Inr (ucast b0 OR push_bit 8 (ucast b1) OR push_bit 16 (ucast b2) OR push_bit 24 (ucast b3))))))"

definition vwrite32 :: "vmm \<Rightarrow> u32 \<Rightarrow> u32 \<Rightarrow> vmm kres" where
  "vwrite32 s va v =
     bindR (vstore8 s va (ucast v)) (\<lambda>s. bindR (vstore8 s (va + 1) (ucast (drop_bit 8 v))) (\<lambda>s.
     bindR (vstore8 s (va + 2) (ucast (drop_bit 16 v))) (\<lambda>s. vstore8 s (va + 3) (ucast (drop_bit 24 v)))))"

definition memcpy_virt :: "vmm \<Rightarrow> u32 \<Rightarrow> u32 \<Rightarrow> u32 \<Rightarrow> vmm kres" where
  "memcpy_virt s dst src count =
     for_u32 0 count (\<lambda>i s. bindR (vload8 s (src + i)) (vstore8 s (dst + i))) s"

text \<open>\<^verbatim>\<open>strcmp\<close> of a string in memory with a literal: whether they are equal.\<close>

primrec vstr_eq :: "vmm \<Rightarrow> u32 \<Rightarrow> u8 list \<Rightarrow> bool kres" where
  "vstr_eq s p [] = bindR (vload8 s p) (\<lambda>c. Inr (c = 0))"
| "vstr_eq s p (b # bs) = bindR (vload8 s p) (\<lambda>c. if c \<noteq> 0 \<and> c = b then vstr_eq s (p + 1) bs else Inr False)"

definition lit :: "string \<Rightarrow> u8 list" where
  "lit cs = map (\<lambda>c. of_char c) cs"

section \<open>Structures\<close>

definition EM_386 :: u16 where "EM_386 = 3"
definition SHT_NULL :: u32 where "SHT_NULL = 0"
definition SHT_PROGBITS :: u32 where "SHT_PROGBITS = 1"
definition SHT_NOBITS :: u32 where "SHT_NOBITS = 8"
definition SHT_REL :: u32 where "SHT_REL = 9"
definition SHF_WRITE :: u32 where "SHF_WRITE = 1"
definition SHF_ALLOC :: u32 where "SHF_ALLOC = 2"
definition SHF_EXECINSTR :: u32 where "SHF_EXECINSTR = 4"
definition R_386_32 :: u32 where "R_386_32 = 1"
definition R_386_PC32 :: u32 where "R_386_PC32 = 2"

record elf_header =
  e_magic :: "u8 list"
  e_machine :: u16
  e_phoff :: u32
  e_shoff :: u32
  e_phnum :: u16
  e_shnum :: u16
  e_shstrndx :: u16

record section_header =
  sh_name :: u32
  sh_type :: u32
  sh_flags :: u32
  sh_addr :: u32
  sh_offset :: u32
  sh_size :: u32
  sh_link :: u32
  sh_info :: u32
  sh_addralign :: u32
  sh_entsize :: u32

record elf_symbol =
  st_name :: u32
  st_value :: u32
  st_size :: u32
  st_info :: u8
  st_other :: u8
  st_shndx :: u16

record elf_rel =
  r_offset :: u32
  r_info :: u32

definition REL_SYM :: "u32 \<Rightarrow> u32" where "REL_SYM i = drop_bit 8 i"
definition REL_TYPE :: "u32 \<Rightarrow> u32" where "REL_TYPE i = i AND 0xFF"

definition read_header :: "vmm \<Rightarrow> u32 \<Rightarrow> elf_header kres" where
  "read_header s p =
     bindR (vload8 s p) (\<lambda>m0. bindR (vload8 s (p + 1)) (\<lambda>m1. bindR (vload8 s (p + 2)) (\<lambda>m2.
     bindR (vload8 s (p + 3)) (\<lambda>m3. bindR (vread16 s (p + 18)) (\<lambda>mach. bindR (vread32 s (p + 28)) (\<lambda>ph.
     bindR (vread32 s (p + 32)) (\<lambda>sh. bindR (vread16 s (p + 44)) (\<lambda>pn. bindR (vread16 s (p + 48)) (\<lambda>sn.
     bindR (vread16 s (p + 50)) (\<lambda>sx.
     Inr \<lparr>e_magic = [m0, m1, m2, m3], e_machine = mach, e_phoff = ph, e_shoff = sh, e_phnum = pn,
       e_shnum = sn, e_shstrndx = sx\<rparr>))))))))))"

definition read_section_header :: "vmm \<Rightarrow> u32 \<Rightarrow> section_header kres" where
  "read_section_header s p =
     bindR (vread32 s p) (\<lambda>nm. bindR (vread32 s (p + 4)) (\<lambda>ty. bindR (vread32 s (p + 8)) (\<lambda>fl.
     bindR (vread32 s (p + 12)) (\<lambda>ad. bindR (vread32 s (p + 16)) (\<lambda>off. bindR (vread32 s (p + 20)) (\<lambda>sz.
     bindR (vread32 s (p + 24)) (\<lambda>li. bindR (vread32 s (p + 28)) (\<lambda>inf. bindR (vread32 s (p + 32)) (\<lambda>al.
     bindR (vread32 s (p + 36)) (\<lambda>es.
     Inr \<lparr>sh_name = nm, sh_type = ty, sh_flags = fl, sh_addr = ad, sh_offset = off, sh_size = sz,
       sh_link = li, sh_info = inf, sh_addralign = al, sh_entsize = es\<rparr>))))))))))"

definition read_symbol :: "vmm \<Rightarrow> u32 \<Rightarrow> elf_symbol kres" where
  "read_symbol s p =
     bindR (vread32 s p) (\<lambda>nm. bindR (vread32 s (p + 4)) (\<lambda>v. bindR (vread32 s (p + 8)) (\<lambda>sz.
     bindR (vload8 s (p + 12)) (\<lambda>inf. bindR (vload8 s (p + 13)) (\<lambda>oth. bindR (vread16 s (p + 14)) (\<lambda>ndx.
     Inr \<lparr>st_name = nm, st_value = v, st_size = sz, st_info = inf, st_other = oth, st_shndx = ndx\<rparr>))))))"

definition read_rel :: "vmm \<Rightarrow> u32 \<Rightarrow> elf_rel kres" where
  "read_rel s p = bindR (vread32 s p) (\<lambda>off. bindR (vread32 s (p + 4)) (\<lambda>inf. Inr \<lparr>r_offset = off, r_info = inf\<rparr>))"

section \<open>Objects\<close>

text \<open>The pointers to section headers are addresses, zero for \<^verbatim>\<open>nullptr\<close>.\<close>

record elf_object =
  obj_hdr :: u32
  prog_hdrs :: u32
  sec_hdrs :: u32
  prog_hdrs_num :: u16
  sec_hdrs_num :: u16
  obj_symtab :: u32
  obj_strtab :: u32
  obj_dynsym :: u32
  obj_dynstr :: u32

definition header_offset :: "elf_object \<Rightarrow> u32 \<Rightarrow> u32" where
  "header_offset obj offset = obj_hdr obj + offset"

definition sec_hdr_at :: "elf_object \<Rightarrow> nat \<Rightarrow> u32" where
  "sec_hdr_at obj i = sec_hdrs obj + 40 * word_of_nat i"

definition section_name :: "vmm \<Rightarrow> elf_object \<Rightarrow> nat \<Rightarrow> u32 kres" where
  "section_name s obj i =
     (if i \<ge> unat (sec_hdrs_num obj) then Inr 0
      else bindR (read_header s (obj_hdr obj)) (\<lambda>h.
           bindR (read_section_header s (sec_hdr_at obj (unat (e_shstrndx h)))) (\<lambda>str.
           bindR (read_section_header s (sec_hdr_at obj i)) (\<lambda>sh.
           Inr (header_offset obj (sh_offset str) + sh_name sh)))))"

primrec find_section_from :: "vmm \<Rightarrow> elf_object \<Rightarrow> u8 list \<Rightarrow> nat list \<Rightarrow> u32 kres" where
  "find_section_from s obj name [] = Inr 0"
| "find_section_from s obj name (i # is) =
     bindR (section_name s obj i) (\<lambda>secname.
     bindR (if secname \<noteq> 0 then vstr_eq s secname name else Inr False) (\<lambda>eq.
     if eq then Inr (sec_hdr_at obj i) else find_section_from s obj name is))"

definition find_section :: "vmm \<Rightarrow> elf_object \<Rightarrow> u8 list \<Rightarrow> u32 kres" where
  "find_section s obj name = find_section_from s obj name [0..<unat (sec_hdrs_num obj)]"

text \<open>The constructor initialises the members in the order of their declarations.\<close>

definition object_ctor :: "vmm \<Rightarrow> u32 \<Rightarrow> elf_object kres" where
  "object_ctor s h =
     bindR (read_header s h) (\<lambda>hd.
     let obj = \<lparr>obj_hdr = h, prog_hdrs = h + e_phoff hd, sec_hdrs = h + e_shoff hd, prog_hdrs_num = e_phnum hd,
       sec_hdrs_num = e_shnum hd, obj_symtab = 0, obj_strtab = 0, obj_dynsym = 0, obj_dynstr = 0\<rparr> in
     bindR (find_section s obj (lit ''.symtab'')) (\<lambda>a. bindR (find_section s obj (lit ''.strtab'')) (\<lambda>b.
     bindR (find_section s obj (lit ''.dynsym'')) (\<lambda>c. bindR (find_section s obj (lit ''.dynstr'')) (\<lambda>d.
     Inr (obj\<lparr>obj_symtab := a, obj_strtab := b, obj_dynsym := c, obj_dynstr := d\<rparr>))))))"

definition object_create :: "vmm \<Rightarrow> u32 \<Rightarrow> elf_object option kres" where
  "object_create s ptr =
     bindR (read_header s ptr) (\<lambda>h.
     if e_magic h \<noteq> [0x7F, 0x45, 0x4C, 0x46] then Inr None
     else if e_machine h \<noteq> EM_386 then Inr None
     else bindR (object_ctor s ptr) (\<lambda>obj. Inr (Some obj)))"

text \<open>The symbol found, none for \<^verbatim>\<open>nullptr\<close>.\<close>

primrec find_symbol_from :: "vmm \<Rightarrow> u8 list \<Rightarrow> u32 \<Rightarrow> u32 \<Rightarrow> nat list \<Rightarrow> elf_symbol option kres" where
  "find_symbol_from s name symtab strtab [] = Inr None"
| "find_symbol_from s name symtab strtab (i # is) =
     bindR (read_symbol s (symtab + 16 * word_of_nat i)) (\<lambda>sym.
     bindR (if st_name sym \<noteq> 0 then vstr_eq s (strtab + st_name sym) name else Inr False) (\<lambda>eq.
     if eq then Inr (Some sym) else find_symbol_from s name symtab strtab is))"

definition find_symbol_in :: "vmm \<Rightarrow> elf_object \<Rightarrow> u8 list \<Rightarrow> u32 \<Rightarrow> u32 \<Rightarrow> elf_symbol option kres" where
  "find_symbol_in s obj name symh strh =
     (if symh = 0 \<or> strh = 0 then Inr None
      else bindR (read_section_header s strh) (\<lambda>str. bindR (read_section_header s symh) (\<lambda>sym.
           find_symbol_from s name (header_offset obj (sh_offset sym)) (header_offset obj (sh_offset str))
             [0..<unat (sh_size sym div 16)])))"

definition find_symbol :: "vmm \<Rightarrow> elf_object \<Rightarrow> u8 list \<Rightarrow> elf_symbol option kres" where
  "find_symbol s obj name =
     bindR (find_symbol_in s obj name (obj_dynsym obj) (obj_dynstr obj)) (\<lambda>sym.
     case sym of Some y \<Rightarrow> Inr (Some y)
     | None \<Rightarrow> find_symbol_in s obj name (obj_symtab obj) (obj_strtab obj))"

text \<open>The address of the symbol of an index, which is not checked against the table.\<close>

definition symbol_by_index :: "vmm \<Rightarrow> elf_object \<Rightarrow> u32 \<Rightarrow> u32 kres" where
  "symbol_by_index s obj i =
     (if obj_symtab obj = 0 then Inr 0
      else bindR (read_section_header s (obj_symtab obj)) (\<lambda>sh. Inr (header_offset obj (sh_offset sh) + 16 * i)))"

section \<open>Exported symbols\<close>

record kexp_entry =
  name_hash :: u64
  kexp_addr :: u32

partial_function (option) vhash_loop :: "vmm \<Rightarrow> u32 \<Rightarrow> u64 \<Rightarrow> u64 kres option" where
  [code]: "vhash_loop s p h =
     (case vload8 s p of Inl e \<Rightarrow> Some (Inl e)
      | Inr c \<Rightarrow> if c \<noteq> 0 then vhash_loop s (p + 1) (hash_byte c h) else Some (Inr h))"

definition vhash_cstr :: "vmm \<Rightarrow> u32 \<Rightarrow> u32 krun" where
  "vhash_cstr s p = bindK (vhash_loop s p 1469598103934665603) (\<lambda>h. retK (hash_fold h))"

text \<open>The entries between \<^verbatim>\<open>__kexp_start\<close> and \<^verbatim>\<open>__kexp_end\<close> are the list \<open>tab\<close>.\<close>

definition kexp_lookup :: "kexp_entry list \<Rightarrow> vmm \<Rightarrow> u32 \<Rightarrow> kexp_entry option krun" where
  "kexp_lookup tab s name =
     (if name = 0 then retK None
      else bindK (vhash_cstr s name) (\<lambda>nh. retK (find (\<lambda>e. name_hash e = ucast nh) tab)))"

section \<open>Properties\<close>

definition vcstr :: "vmm \<Rightarrow> u32 \<Rightarrow> u8 list \<Rightarrow> bool" where
  "vcstr s p bs \<longleftrightarrow> 0 \<notin> set bs \<and> (\<forall>i < length (bs @ [0]). vload8 s (p + word_of_nat i) = Inr ((bs @ [0]) ! i))"

lemma vcstr_Nil: "vcstr s p [] \<longleftrightarrow> vload8 s p = Inr 0"
  by (simp add: vcstr_def)

lemma vcstr_Cons: "vcstr s p (b # bs) \<longleftrightarrow> b \<noteq> 0 \<and> vload8 s p = Inr b \<and> vcstr s (p + 1) bs"
proof -
  have eq: "p + word_of_nat (Suc i) = p + 1 + word_of_nat i" for i by (simp add: algebra_simps)
  show ?thesis unfolding vcstr_def append_Cons length_Cons All_less_Suc2 nth_Cons_Suc eq by (auto simp: nth_Cons_0)
qed

lemma vstr_eq_vcstr: "vcstr s p bs \<Longrightarrow> 0 \<notin> set name \<Longrightarrow> vstr_eq s p name = Inr (bs = name)"
proof (induction name arbitrary: p bs)
  case Nil
  then show ?case by (cases bs) (simp_all add: vcstr_Nil vcstr_Cons)
next
  case (Cons b name)
  then show ?case by (cases bs) (auto simp: vcstr_Nil vcstr_Cons)
qed

lemma vhash_loop_vcstr: "vcstr s p bs \<Longrightarrow> vhash_loop s p h = Some (Inr (fold hash_byte bs h))"
proof (induction bs arbitrary: p h)
  case Nil
  then show ?case by (subst vhash_loop.simps) (simp add: vcstr_Nil)
next
  case (Cons b bs)
  then show ?case by (subst vhash_loop.simps) (simp add: vcstr_Cons)
qed

lemma vhash_cstr_vcstr: "vcstr s p bs \<Longrightarrow> vhash_cstr s p = retK (hash_fold32_trivial bs)"
  by (simp add: vhash_cstr_def vhash_loop_vcstr hash_fold32_trivial_def retK_def)

text \<open>The entries that \<^verbatim>\<open>EXPORT_SYMBOL\<close> lays down for names and addresses.\<close>

definition export_symbol :: "u8 list \<times> u32 \<Rightarrow> kexp_entry" where
  "export_symbol e = \<lparr>name_hash = ucast (hash_fold32_trivial (fst e)), kexp_addr = snd e\<rparr>"

lemma ucast_u64_eq: "(ucast (a :: u32) :: u64) = ucast b \<longleftrightarrow> a = b"
  by (rule iffI, rule bit_word_eqI, drule arg_cong [of _ _ bit], drule fun_cong, auto simp: bit_simps)

lemma find_unique: "x \<in> set xs \<Longrightarrow> P x \<Longrightarrow> (\<And>y. y \<in> set xs \<Longrightarrow> P y \<Longrightarrow> y = x) \<Longrightarrow> find P xs = Some x"
proof (induction xs)
  case (Cons z xs)
  show ?case
  proof (cases "P z")
    case True
    then have "z = x" by (intro Cons.prems(3)) simp_all
    then show ?thesis using True by simp
  next
    case False
    then have "x \<in> set xs" using Cons.prems(1,2) by auto
    from Cons.IH [OF this Cons.prems(2)] have "find P xs = Some x" using Cons.prems(3) by simp
    then show ?thesis using False by simp
  qed
qed simp

lemma kexp_lookup_first:
  assumes "vcstr s p bs" "p \<noteq> 0"
  shows "kexp_lookup (map export_symbol es) s p =
    retK (map_option export_symbol (find (\<lambda>e. hash_fold32_trivial (fst e) = hash_fold32_trivial bs) es))"
proof -
  have "find (\<lambda>e. name_hash e = ucast (hash_fold32_trivial bs)) (map export_symbol es) =
    map_option export_symbol (find (\<lambda>e. hash_fold32_trivial (fst e) = hash_fold32_trivial bs) es)"
    by (induction es) (simp_all add: export_symbol_def ucast_u64_eq)
  then show ?thesis using assms by (simp add: kexp_lookup_def vhash_cstr_vcstr)
qed

text \<open>
  A symbol that is exported is found by its name when no symbol before it in the table has the
  same 32-bit hash; the name itself is never compared, so with a collision the wrong symbol is
  linked without a diagnostic.
\<close>

lemma kexp_lookup_export:
  assumes "vcstr s p bs" "p \<noteq> 0" "(bs, a) \<in> set es"
    and "\<forall>e \<in> set es. hash_fold32_trivial (fst e) = hash_fold32_trivial bs \<longrightarrow> e = (bs, a)"
  shows "kexp_lookup (map export_symbol es) s p = retK (Some (export_symbol (bs, a)))"
proof -
  have "find (\<lambda>e. hash_fold32_trivial (fst e) = hash_fold32_trivial bs) es = Some (bs, a)"
  proof (rule find_unique [OF assms(3)])
    show "y = (bs, a)" if "y \<in> set es" "hash_fold32_trivial (fst y) = hash_fold32_trivial bs" for y
      using assms(4) that by blast
  qed simp
  then show ?thesis using kexp_lookup_first [OF assms(1,2), of es] by simp
qed

text \<open>\<^verbatim>\<open>find_section\<close> returns the first section of the name.\<close>

lemma find_section_from_first:
  assumes "\<forall>i \<in> set is. \<exists>p. section_name s obj i = Inr p \<and> p \<noteq> 0 \<and> vcstr s p (nm i)"
    and "0 \<notin> set name"
  shows "find_section_from s obj name is =
    Inr (case find (\<lambda>i. nm i = name) is of None \<Rightarrow> 0 | Some i \<Rightarrow> sec_hdr_at obj i)"
  using assms(1)
proof (induction "is")
  case (Cons i "is")
  then obtain p where p: "section_name s obj i = Inr p" "p \<noteq> 0" "vcstr s p (nm i)" by auto
  from p(3) assms(2) have "vstr_eq s p name = Inr (nm i = name)" by (rule vstr_eq_vcstr)
  then show ?case using p(1,2) Cons by simp
qed simp

end
