(* ===== verification/ACPI.thy ===== *)
theory ACPI
  imports ELF
begin

text \<open>
  \<^verbatim>\<open>sys/acpi.hpp\<close>: the search for the root pointer, the checksums, and the lookup of a table by
  its signature. Everything is read through the page tables: a table whose page is not
  mapped is a page fault.
\<close>

section \<open>State and operations\<close>

record acpi =
  acpi_rsdp :: u32
  acpi_rsdt :: u32

definition acpi_boot :: acpi where
  "acpi_boot = \<lparr>acpi_rsdp = 0, acpi_rsdt = 0\<rparr>"

definition SDT_HEADER_SIZE :: u32 where "SDT_HEADER_SIZE = 36"
definition RSDP1_SIZE :: u32 where "RSDP1_SIZE = 20"
definition RSDP2_SIZE :: u32 where "RSDP2_SIZE = 36"

text \<open>The fields of the packed structures the code reads.\<close>

definition rsdp_revision :: "vmm \<Rightarrow> u32 \<Rightarrow> u8 kres" where
  "rsdp_revision s p = vload8 s (p + 15)"

definition rsdp_rsdt_address :: "vmm \<Rightarrow> u32 \<Rightarrow> u32 kres" where
  "rsdp_rsdt_address s p = vread32 s (p + 16)"

text \<open>The low half of the 64-bit field, to which the code casts it.\<close>

definition rsdp_xsdt_address :: "vmm \<Rightarrow> u32 \<Rightarrow> u32 kres" where
  "rsdp_xsdt_address s p = vread32 s (p + 24)"

definition sdt_signature :: "vmm \<Rightarrow> u32 \<Rightarrow> u32 kres" where
  "sdt_signature s p = vread32 s p"

definition sdt_length :: "vmm \<Rightarrow> u32 \<Rightarrow> u32 kres" where
  "sdt_length s p = vread32 s (p + 4)"

definition checksum :: "vmm \<Rightarrow> u32 \<Rightarrow> u32 \<Rightarrow> u8 kres" where
  "checksum s data len = for_u32 0 len (\<lambda>i sum. bindR (vload8 s (data + i)) (\<lambda>b. Inr (sum + b))) 0"

definition validate_checksum :: "vmm \<Rightarrow> u32 \<Rightarrow> u32 \<Rightarrow> bool kres" where
  "validate_checksum s data len = bindR (checksum s data len) (\<lambda>sum. Inr (sum = 0))"

definition validate_sdt :: "vmm \<Rightarrow> u32 \<Rightarrow> bool kres" where
  "validate_sdt s hdr = bindR (sdt_length s hdr) (validate_checksum s hdr)"

text \<open>\<^verbatim>\<open>strncmp\<close> with the eight characters of the signature; a zero byte differs from all of them.\<close>

primrec vprefix_eq :: "vmm \<Rightarrow> u32 \<Rightarrow> u8 list \<Rightarrow> bool kres" where
  "vprefix_eq s p [] = Inr True"
| "vprefix_eq s p (b # bs) = bindR (vload8 s p) (\<lambda>c. if c = b then vprefix_eq s (p + 1) bs else Inr False)"

primrec find_rsdp_from :: "vmm \<Rightarrow> nat \<Rightarrow> u32 \<Rightarrow> u32 kres" where
  "find_rsdp_from s 0 ptr = Inr 0"
| "find_rsdp_from s (Suc n) ptr =
     bindR (vprefix_eq s ptr (lit ''RSD PTR '')) (\<lambda>eq. if eq then Inr ptr else find_rsdp_from s n (ptr + 4))"

definition find_rsdp :: "vmm \<Rightarrow> u32 kres" where
  "find_rsdp s = find_rsdp_from s (unat ((ACPI_SCAN_END - ACPI_SCAN_BASE) div 4)) ACPI_SCAN_BASE"

definition acpi_init :: "acpi \<Rightarrow> vmm \<Rightarrow> (acpi \<times> vmm) kres" where
  "acpi_init a s =
     bindR (find_rsdp s) (\<lambda>rsdp.
     let a = a\<lparr>acpi_rsdp := rsdp\<rparr> in
     if rsdp = 0 then Inr (a, s)
     else
       bindR (rsdp_revision s rsdp) (\<lambda>rev.
       bindR (validate_checksum s rsdp (if rev = 0 then RSDP1_SIZE else RSDP2_SIZE)) (\<lambda>ok.
       if \<not> ok then Inr (a, s)
       else
         bindR (if rev = 0 then rsdp_rsdt_address s rsdp else rsdp_xsdt_address s rsdp) (\<lambda>rsdt.
         let a = a\<lparr>acpi_rsdt := rsdt\<rparr> in
         if rsdt = 0 then Inr (a, s)
         else
           bindR (map_identity_page s rsdt (PG_Present OR PG_Writable)) (\<lambda>s.
           bindR (validate_sdt s rsdt) (\<lambda>ok.
           if \<not> ok then bindR (unmap_page s rsdt) (\<lambda>s. Inr (a, s))
           else
             bindR (sdt_length s rsdt) (\<lambda>len.
             bindR (map_identity_span s rsdt len (PG_Present OR PG_Writable)) (\<lambda>s. Inr (a, s)))))))))"

text \<open>The loops of \<^verbatim>\<open>find_sdth\<close>: the entries are 64-bit addresses, cut to 32 bits, or 32-bit ones.\<close>

primrec find_sdth_from :: "vmm \<Rightarrow> u32 \<Rightarrow> u32 \<Rightarrow> nat \<Rightarrow> u32 \<Rightarrow> u32 kres" where
  "find_sdth_from s signature step 0 p = Inr 0"
| "find_sdth_from s signature step (Suc n) p =
     bindR (vread32 s p) (\<lambda>header.
     bindR (sdt_signature s header) (\<lambda>sg.
     bindR (if sg = signature then validate_sdt s header else Inr False) (\<lambda>ok.
     if ok then Inr header else find_sdth_from s signature step n (p + step))))"

definition find_sdth :: "acpi \<Rightarrow> vmm \<Rightarrow> u32 \<Rightarrow> u32 kres" where
  "find_sdth a s signature =
     (if acpi_rsdp a = 0 then Inr 0
      else
        bindR (rsdp_revision s (acpi_rsdp a)) (\<lambda>rev.
        bindR (sdt_length s (acpi_rsdt a)) (\<lambda>len.
        let step = (if rev \<ge> 2 then 8 else 4) in
        find_sdth_from s signature step (unat ((len - SDT_HEADER_SIZE) div step)) (acpi_rsdt a + SDT_HEADER_SIZE))))"

section \<open>Checksums and lookups\<close>

lemma checksum_sum:
  assumes "\<And>i. i < len \<Longrightarrow> vload8 s (data + i) = Inr (b (unat i))"
  shows "checksum s data len = Inr (\<Sum>i<unat len. b i)"
proof -
  have "\<exists>s'. for_u32 0 len (\<lambda>i sum. bindR (vload8 s (data + i)) (\<lambda>b. Inr (sum + b))) 0 = Inr s' \<and>
    s' = (\<Sum>i<unat len. b i)"
    by (rule for_u32_total [where I = "\<lambda>k sum. sum = (\<Sum>i<k. b i)"]) (auto simp: assms)
  then show ?thesis by (simp add: checksum_def)
qed

text \<open>
  The table that \<^verbatim>\<open>find_sdth\<close> returns is an entry of the root table, carries the signature and has
  a valid checksum; it is the first such entry.
\<close>

lemma find_sdth_from_sound:
  assumes "find_sdth_from s signature step n p = Inr h" "h \<noteq> 0"
  shows "\<exists>k < n. vread32 s (p + word_of_nat k * step) = Inr h \<and> sdt_signature s h = Inr signature \<and>
    validate_sdt s h = Inr True \<and>
    (\<forall>j < k. \<exists>g sg. vread32 s (p + word_of_nat j * step) = Inr g \<and> sdt_signature s g = Inr sg \<and>
       (sg \<noteq> signature \<or> validate_sdt s g = Inr False))"
  using assms(1)
proof (induction n arbitrary: p)
  case 0
  then show ?case using assms(2) by simp
next
  case (Suc n)
  then obtain g sg ok where g: "vread32 s p = Inr g" "sdt_signature s g = Inr sg"
    "(if sg = signature then validate_sdt s g else Inr False) = Inr ok"
    "(if ok then Inr g else find_sdth_from s signature step n (p + step)) = Inr h"
    by (auto simp: kres_iffs)
  show ?case
  proof (cases ok)
    case True
    then show ?thesis using g by (intro exI [of _ 0]) (auto split: if_splits)
  next
    case False
    then obtain k where k: "k < n" "vread32 s (p + step + word_of_nat k * step) = Inr h"
      "sdt_signature s h = Inr signature" "validate_sdt s h = Inr True"
      "\<forall>j < k. \<exists>g sg. vread32 s (p + step + word_of_nat j * step) = Inr g \<and> sdt_signature s g = Inr sg \<and>
         (sg \<noteq> signature \<or> validate_sdt s g = Inr False)"
      using Suc.IH [of "p + step"] g(4) by auto
    have eq: "p + word_of_nat (Suc j) * step = p + step + word_of_nat j * step" for j
      by (simp add: algebra_simps)
    have "\<exists>g sg. vread32 s (p + word_of_nat j * step) = Inr g \<and> sdt_signature s g = Inr sg \<and>
         (sg \<noteq> signature \<or> validate_sdt s g = Inr False)" if "j < Suc k" for j
    proof (cases j)
      case 0
      then show ?thesis using g False by (auto split: if_splits)
    next
      case (Suc i)
      then show ?thesis using k(5) that unfolding Suc eq by auto
    qed
    then show ?thesis using k by (intro exI [of _ "Suc k"] conjI) (simp_all only: eq Suc_less_eq simp_thms, blast)
  qed
qed

text \<open>
  The lookup reads the header of each table before any of their pages is
  mapped: when an entry of the root table points at a page that is not mapped, the lookup is a
  page fault, unless an entry before it already matched.
\<close>

theorem find_sdth_unmapped_faults:
  assumes "acpi_rsdp a \<noteq> 0" "rsdp_revision s (acpi_rsdp a) = Inr 0" "sdt_length s (acpi_rsdt a) = Inr len"
    and "k < unat ((len - SDT_HEADER_SIZE) div 4)"
    and "\<forall>j < k. \<exists>g sg. vread32 s (acpi_rsdt a + SDT_HEADER_SIZE + word_of_nat j * 4) = Inr g \<and>
      sdt_signature s g = Inr sg \<and> sg \<noteq> signature"
    and "vread32 s (acpi_rsdt a + SDT_HEADER_SIZE + word_of_nat k * 4) = Inr h" "translate s h = None"
  shows "find_sdth a s signature = Inl (Page_Fault h)"
proof -
  have "find_sdth_from s signature 4 n p = Inl (Page_Fault h)"
    if "k < n" "\<forall>j < k. \<exists>g sg. vread32 s (p + word_of_nat j * 4) = Inr g \<and> sdt_signature s g = Inr sg \<and> sg \<noteq> signature"
      "vread32 s (p + word_of_nat k * 4) = Inr h" for k n p
    using that
  proof (induction k arbitrary: n p)
    case 0
    then obtain m where "n = Suc m" by (cases n) auto
    moreover have "sdt_signature s h = Inl (Page_Fault h)"
      using assms(7) by (simp add: sdt_signature_def vread32_def vload8_def)
    ultimately show ?case using 0 by simp
  next
    case (Suc k)
    then obtain m where m: "n = Suc m" "k < m" by (cases n) auto
    obtain g sg where g: "vread32 s p = Inr g" "sdt_signature s g = Inr sg" "sg \<noteq> signature"
      using Suc.prems(2) by (metis add_0_right mult_zero_left of_nat_0 zero_less_Suc)
    have eq: "p + word_of_nat (Suc j) * 4 = p + 4 + word_of_nat j * 4" for j by (simp add: algebra_simps)
    have "find_sdth_from s signature 4 m (p + 4) = Inl (Page_Fault h)"
    proof (rule Suc.IH [OF m(2)])
      show "\<forall>j<k. \<exists>g sg. vread32 s (p + 4 + word_of_nat j * 4) = Inr g \<and> sdt_signature s g = Inr sg \<and> sg \<noteq> signature"
        using Suc.prems(2) eq by (metis Suc_mono)
      show "vread32 s (p + 4 + word_of_nat k * 4) = Inr h" using Suc.prems(3) unfolding eq .
    qed
    then show ?case using m(1) g by simp
  qed
  from this [OF assms(4-6)] show ?thesis using assms(1-3) by (simp add: find_sdth_def Let_def)
qed

text \<open>An example: the root pointer and the root table share a mapped page, the one table is elsewhere.\<close>

definition acpi_vmm :: vmm where
  "acpi_vmm = \<lparr>phys = (\<lambda>a. 0)(0x1000 := 0x01, 0x1001 := 0x20, 0x2380 := 0x01, 0x2382 := 0x0E,
       0xE0104 := 0x28, 0xE0126 := 0xFE, 0xE0127 := 0x07),
     cr3 = 0x1000, paging = True,
     vpmm = \<lparr>mem_mngr = bm_init PMM_params, available_frames = 0, used_frames = 0\<rparr>, kernel_dir_phys = 0x1000\<rparr>"

lemma acpi_vmm_dir: "load32 (phys acpi_vmm) 0x1000 = 0x2001" "load32 (phys acpi_vmm) 0x2380 = 0xE0001"
  by (simp_all add: load32_def acpi_vmm_def)

lemma acpi_vmm_page:
  "pde_index a = 0 \<Longrightarrow> pte_index a = 0xE0 \<Longrightarrow> translate acpi_vmm a = Some (0xE0000 + (a AND 0xFFF))"
  using acpi_vmm_dir by (simp add: translate_def ADDRESS_MASK_def acpi_vmm_def)

theorem find_sdth_unmapped_faults_witness:
  "find_sdth \<lparr>acpi_rsdp = 0xE0000, acpi_rsdt = 0xE0100\<rparr> acpi_vmm 0x43495041 = Inl (Page_Fault 0x7FE0000)"
proof (rule find_sdth_unmapped_faults [where len = 40 and k = 0])
  note ld = vread32_def vload8_def acpi_vmm_page pde_index_def pte_index_def
  show "rsdp_revision acpi_vmm (acpi_rsdp \<lparr>acpi_rsdp = 0xE0000, acpi_rsdt = 0xE0100\<rparr>) = Inr 0"
    by (simp add: rsdp_revision_def ld) (simp add: acpi_vmm_def)
  show "sdt_length acpi_vmm (acpi_rsdt \<lparr>acpi_rsdp = 0xE0000, acpi_rsdt = 0xE0100\<rparr>) = Inr 40"
    by (simp add: sdt_length_def ld) (simp add: acpi_vmm_def)
  show "vread32 acpi_vmm (acpi_rsdt \<lparr>acpi_rsdp = 0xE0000, acpi_rsdt = 0xE0100\<rparr> + SDT_HEADER_SIZE + word_of_nat 0 * 4) = Inr 0x7FE0000"
    by (simp add: ld SDT_HEADER_SIZE_def) (simp add: acpi_vmm_def)
  show "translate acpi_vmm 0x7FE0000 = None"
    by (simp add: translate_def acpi_vmm_def load32_def pde_index_def ADDRESS_MASK_def)
qed (simp_all add: SDT_HEADER_SIZE_def)

end
