(* ===== verification/Boot.thy ===== *)
theory Boot
  imports Heap ACPI
begin

text \<open>
  \<^verbatim>\<open>kernel.cpp\<close>, the part of \<^verbatim>\<open>Kernel::init\<close> that brings up memory: the physical memory manager from
  the map of the boot loader, then paging, the firmware tables and the kernel heap
  (\<open>init_memory\<close>, the calls in the order of the source, each on the state the one before left).
  The lemmas follow the frames through these steps: what the constructor of the heap does, that
  a run of free frames survives the allocation of the page directory and its first table, that
  the scan for firmware tables reads mapped memory only, and that the heap's pages get frames
  nobody else has.
\<close>

unbundle bit_operations_syntax

section \<open>Bringing up memory\<close>

definition init_memory :: "u32 \<Rightarrow> u32 \<Rightarrow> multiboot_info \<Rightarrow>
    (u32 \<Rightarrow> u32 \<Rightarrow> ('s, 'f) isr_env \<Rightarrow> ('s, 'f) isr_env kres) \<Rightarrow> (u32 \<Rightarrow> u32 \<Rightarrow> ('s, 'f) isr_env \<Rightarrow> ('s, 'f) isr_env kres) \<Rightarrow>
    vmm \<times> ('s, 'f) idt \<times> acpi \<times> heap \<Rightarrow> (('s, 'f) idt \<times> acpi \<times> heap) krun" where
  "init_memory kernel_start kernel_end mboot page_fault_handler tlb_handler w =
     (let (v, t, a, h) = w in
      bindK (pmm_init (phys v) mboot kernel_start kernel_end (vpmm v)) (\<lambda>p.
      bindK (Some (vmm_init (v\<lparr>vpmm := p\<rparr>) t page_fault_handler tlb_handler)) (\<lambda>(v, t).
      bindK (Some (acpi_init a v)) (\<lambda>(a, v).
      let heap_region = Layout.region KernelHeap in
      bindK (heap_ctor (h\<lparr>hvmm := v\<rparr>) (rbase heap_region) HEAP_MIN_SIZE (ucast (region_end heap_region))
          (ucast (PG_Present OR PG_Writable))) (\<lambda>h.
      retK (t, a, h))))))"

section \<open>The constructor of the heap\<close>

lemma align_heap_size_id:
  assumes "unat sz mod 4096 = 0" "unat sz + 4095 < 4294967296"
  shows "align_heap_size sz = sz"
  using assms unat_align_up_page [OF assms(2)] by (auto simp: align_heap_size_def u32_eq_iff)

lemma mod_PAGE_SIZE: "a mod PAGE_SIZE = 0 \<longleftrightarrow> unat a mod 4096 = 0"
  by (simp add: PAGE_SIZE_def u32_eq_iff unat_mod)

lemma heap_ctor_ok:
  assumes st: "unat start mod 4096 = 0" "4096 \<le> unat start" and sz: "unat sz mod 4096 = 0" "0 < unat sz"
    and bound: "unat start + unat sz + 8 \<le> 4294967296"
    and lh: "node (list_hd h)" "hm h (list_hd h) \<noteq> None" "hm h (list_hd h + 4) \<noteq> None"
      "apart (unat (list_hd h)) 8 (unat start) (unat sz)"
    and fr: "alloc_frames (vpmm (hvmm h)) (sz div PAGE_SIZE) = Inr (pa, p)"
    and mp: "map_pages ((hvmm h)\<lparr>vpmm := p\<rparr>) start pa (sz div PAGE_SIZE) (ucast perms OR PG_Present) = Inr v"
  shows "\<exists>h'. heap_ctor h start sz mx perms = Some (Inr h') \<and> heap_ok h' [start] \<and> csize h' start = sz \<and> hvmm h' = v \<and>
    startAddr h' = start \<and> endAddr h' = start + sz \<and> list_hd h' = list_hd h \<and> head_of h' start = sz OR 1"
proof -
  let ?l = "list_hd h"
  have ln: "?l \<noteq> ?l + 4" by simp
  have l4: "unat (?l + 4) = unat ?l + 4" by (rule node_plus_4 [OF lh(1)])
  define h1 where "h1 = h\<lparr>startAddr := start, endAddr := start + sz, maxAddr := mx, hperms := perms,
    hm := (hm h)(?l \<mapsto> ?l, ?l + 4 \<mapsto> ?l)\<rparr>"
  define m2 where "m2 = back_with (hm h1) (fresh h) start sz"
  define h2 where "h2 = h1\<lparr>hvmm := v, hm := m2\<rparr>"
  define h3 where "h3 = h2\<lparr>hm := m2(start \<mapsto> 0)\<rparr>"
  define h4 where "h4 = h3\<lparr>hm := (hm h3)(start + 4 \<mapsto> sz OR 1)\<rparr>"
  have s4: "unat (start + 4) = unat start + 4" "unat (start + sz) = unat start + unat sz"
    using bound by (simp_all add: unat_add_u32)
  have sz16: "4096 \<le> unat sz" using sz by auto
  have in2: "m2 a \<noteq> None" if "unat start \<le> unat a" "unat a < unat start + unat sz" for a
    using that by (simp add: m2_def back_with_def)
  have out: "m2 a = hm h1 a" if "\<not> (unat start \<le> unat a \<and> unat a < unat start + unat sz)" for a
    using that by (auto simp: m2_def back_with_def)
  have lout: "\<not> (unat start \<le> unat ?l \<and> unat ?l < unat start + unat sz)"
    "\<not> (unat start \<le> unat (?l + 4) \<and> unat (?l + 4) < unat start + unat sz)"
    using lh(4) l4 by (auto simp: apart_def)
  have ne: "?l \<noteq> start" "?l + 4 \<noteq> start" "?l \<noteq> start + 4" "?l + 4 \<noteq> start + 4"
    using lout s4(1) sz16 by (auto simp: u32_eq_iff)
  have "heap_ok h4 []"
    using out [OF lout(1)] out [OF lout(2)] ne lh(1) ln
    by (simp add: heap_ok_def dlist_def link_def h4_def h3_def h2_def h1_def)
  moreover have cs: "csize h4 start = sz"
  proof -
    have "unat sz mod 8 = 0" using sz(1) mod_mod_cancel [of 8 4096 "unat sz"] by simp
    then have "sz AND - 8 = sz" by (rule and_m8_aligned)
    then show ?thesis unfolding h4_def using or_flags_size(1) [of sz] put_head_facts(2) [of h3 start "sz OR 1" start] by simp
  qed
  moreover have "chunk_at h4 start (unat sz)"
    using st sz sz16 bound in2 s4 by (auto simp: chunk_at_def h4_def h3_def h2_def)
  moreover have "list_hd h4 = ?l" by (simp add: h4_def h3_def h2_def h1_def)
  ultimately obtain h5 where h5: "insertChunk h4 start = Some (Inr h5)" "heap_ok h5 [start]"
    and u5: "upd_only h4 (Heap.fields h4 [start]) h5"
    using insertChunk_ok [of h4 "[]" start] lh(4) by (auto simp: region_def insert_by_size_def)
  have "start + 4 \<notin> Heap.fields h4 [start]"
    using ne \<open>list_hd h4 = ?l\<close> by (auto simp: Heap.fields_def chunk_node_def)
  then have c5: "csize h5 start = sz" "head_of h5 start = sz OR 1"
    using upd_only_same(7,8) [OF u5] cs by (simp_all add: h4_def put_head_facts(1))
  have al: "align_heap_size sz = sz" by (rule align_heap_size_id) (use sz bound st in auto)
  have "heap_ctor h start sz mx perms = insertChunk h4 start"
  proof -
    have "INIT_LIST_HEAD (hm h) ?l = Inr ((hm h)(?l \<mapsto> ?l, ?l + 4 \<mapsto> ?l))"
      using lh(2,3) by (simp add: INIT_LIST_HEAD_def set_next_def set_prev_def dstore_eq)
    moreover have "map_heap_backing h1 start sz = Inr h2"
      using sz(2) fr mp by (auto simp: map_heap_backing_def h1_def h2_def m2_def Let_def)
    moreover have "put_prevFoot h2 start 0 = Inr h3"
      using in2 [of start] sz(2) by (simp add: put_prevFoot_def dstore_eq h2_def h3_def)
    moreover have "set_size_and_pinuse h3 start sz = Inr h4"
      using in2 [of "start + 4"] s4 sz16
      by (simp add: set_size_and_pinuse_def put_head_eq h4_def h3_def h2_def heap_consts)
    ultimately show ?thesis
      using st(1) sz(1) s4(2) mod_add_eq [of "unat start" 4096 "unat sz"]
      by (simp add: heap_ctor_def al Let_def mod_PAGE_SIZE h1_def [symmetric])
  qed
  then show ?thesis using h5 c5 upd_only_same(1-4) [OF u5] by (simp add: h4_def h3_def h2_def h1_def)
qed

section \<open>Frames\<close>

text \<open>A free run of frames from which a few frames and then a shorter run are taken.\<close>

lemma alloc_frames_facts:
  assumes "bm_wf PMM_params (mem_mngr p)" "0 < n" "alloc_frames p n = Inr (a, p')"
  shows "\<exists>i. i + unat n \<le> 1048576 \<and> unat a = 4096 * i \<and> {i..<i + unat n} \<inter> pmm_used p = {} \<and>
    pmm_used p' = pmm_used p \<union> {i..<i + unat n} \<and> bm_wf PMM_params (mem_mngr p')"
proof -
  obtain b where b: "alloc_units PMM_params (mem_mngr p) n = Inr (a, b)" "mem_mngr p' = b"
    using assms(3) by (auto simp: alloc_frames_def bindR_eq_Inr)
  from frame_bitmap.alloc_ok [OF assms(1,2) b(1)] obtain i where i: "i + unat n \<le> 1048576"
    "a = unit_addr PMM_params i" "{i..<i + unat n} \<inter> bm_used PMM_params (mem_mngr p) = {}"
    "bm_used PMM_params b = bm_used PMM_params (mem_mngr p) \<union> {i..<i + unat n}" "bm_wf PMM_params b"
    by auto
  have "i < 1048576" using i(1) assms(2) by (simp add: u32_less_iff)
  then have "unat a = 4096 * i" using unit_addr_unat [OF PMM_geometry, of i] i(2) by (simp add: mult.commute)
  with i b(2) show ?thesis by (auto simp: pmm_used_def)
qed

lemma alloc_frames_available:
  assumes "bm_wf PMM_params (mem_mngr p)" "0 < n" "i + unat n \<le> 1048576" "{i..<i + unat n} \<inter> pmm_used p = {}"
  shows "\<exists>a p'. alloc_frames p n = Inr (a, p')"
proof -
  have "{i..<i + unat n} \<inter> bm_used PMM_params (mem_mngr p) = {}" using assms(4) by (simp add: pmm_used_def)
  then show ?thesis using frame_bitmap.alloc_available [OF assms(1,2), of i] assms(3) by (auto simp: alloc_frames_def)
qed

lemma run_after_two:
  fixes f x y :: nat
  assumes "{f..<f + 1024} \<inter> U = {}"
  shows "\<exists>i. f \<le> i \<and> i + 256 \<le> f + 1024 \<and> {i..<i + 256} \<inter> insert x (insert y U) = {}"
proof -
  have d: "{i..<i + 256} \<inter> U = {}" if "f \<le> i" "i + 256 \<le> f + 1024" for i using assms that by (auto simp: disjoint_iff)
  consider "x \<notin> {f..<f + 256}" "y \<notin> {f..<f + 256}" | "x \<notin> {f + 256..<f + 512}" "y \<notin> {f + 256..<f + 512}"
    | "x \<notin> {f + 512..<f + 768}" "y \<notin> {f + 512..<f + 768}" by fastforce
  then show ?thesis
  proof cases
    case 1
    then show ?thesis using d [of f] by (intro exI [of _ f]) auto
  next
    case 2
    then show ?thesis using d [of "f + 256"] by (intro exI [of _ "f + 256"]) auto
  next
    case 3
    then show ?thesis using d [of "f + 512"] by (intro exI [of _ "f + 512"]) auto
  qed
qed

lemma frame_left:
  fixes f x y i :: nat
  assumes "{f..<f + 1024} \<inter> U = {}"
  shows "\<exists>k. f \<le> k \<and> k < f + 1024 \<and> k \<notin> insert x (insert y U) \<union> {i..<i + 256}"
proof (rule ccontr)
  assume "\<not> ?thesis"
  then have "{f..<f + 1024} \<subseteq> {x, y} \<union> {i..<i + 256}" using assms by auto
  then have "card {f..<f + 1024} \<le> card ({x, y} \<union> {i..<i + 256})" by (intro card_mono) auto
  also have "\<dots> \<le> card {x, y} + card {i..<i + 256}" by (rule card_Un_le)
  also have "\<dots> \<le> 2 + 256" by (simp add: card_insert_if)
  finally show False by simp
qed

section \<open>No firmware tables\<close>

lemma load32_eq_byte:
  assumes "load32 m a = load32 m' a" "i < 4"
  shows "m (a + word_of_nat i) = m' (a + word_of_nat i)"
proof -
  have b: "m x = m' x" if e: "\<And>n. n < 8 \<Longrightarrow> bit (m x) n = bit (m' x) n" for x
    by (rule bit_word_eqI) (use e in simp)
  have bits: "bit (load32 m a) n = bit (load32 m' a) n" for n using assms(1) by simp
  have bit32: "n < 8 \<Longrightarrow> bit (load32 mm a) n = bit (mm a) n"
    "n < 8 \<Longrightarrow> bit (load32 mm a) (n + 8) = bit (mm (a + 1)) n"
    "n < 8 \<Longrightarrow> bit (load32 mm a) (n + 16) = bit (mm (a + 2)) n"
    "n < 8 \<Longrightarrow> bit (load32 mm a) (n + 24) = bit (mm (a + 3)) n" for mm n
    by (auto simp: load32_def bit_simps dest: bit_imp_le_length)
  have bytes: "m a = m' a" "m (a + 1) = m' (a + 1)" "m (a + 2) = m' (a + 2)" "m (a + 3) = m' (a + 3)"
    by (rule b, simp add: bit32(1) [symmetric] bits bit32(2) [symmetric] bit32(3) [symmetric] bit32(4) [symmetric])+
  consider "i = 0" | "i = 1" | "i = 2" | "i = 3" using assms(2) by linarith
  then show ?thesis using bytes by cases simp_all
qed

text \<open>The first characters of the firmware's root pointer are nowhere in the area that is searched for it.\<close>

definition no_rsdp :: "mem \<Rightarrow> bool" where
  "no_rsdp m \<longleftrightarrow> list_all (\<lambda>k. map (\<lambda>i. m (ACPI_SCAN_BASE + word_of_nat k * 4 + word_of_nat i)) [0..<4] \<noteq> lit ''RSD '')
     [0..<0x8000]"

lemma vprefix_eq_flat:
  assumes "\<And>i. i < length bs \<Longrightarrow> translate s (p + word_of_nat i) = Some (p + word_of_nat i)"
  shows "vprefix_eq s p bs = Inr (map (\<lambda>i. phys s (p + word_of_nat i)) [0..<length bs] = bs)"
  using assms
proof (induction bs arbitrary: p)
  case (Cons b bs)
  have s: "[0..<length (b # bs)] = 0 # map Suc [0..<length bs]"
    by (simp add: upt_conv_Cons map_Suc_upt del: upt_Suc)
  have "translate s p = Some p" using Cons.prems [of 0] by simp
  moreover have "translate s (p + 1 + word_of_nat i) = Some (p + 1 + word_of_nat i)" if "i < length bs" for i
    using Cons.prems [of "Suc i"] that by (simp add: add.assoc)
  ultimately show ?case unfolding s using Cons.IH [of "p + 1"]
    by (auto simp: vload8_def add.assoc comp_def)
qed simp

lemma find_rsdp_none:
  assumes "\<And>va. unat va < 0x400000 \<Longrightarrow> translate s va = Some va" "no_rsdp (phys s)"
  shows "find_rsdp s = Inr 0"
proof -
  have len: "length (lit ''RSD PTR '') = 8" by (simp add: lit_def)
  have "find_rsdp_from s n (ACPI_SCAN_BASE + word_of_nat k * 4) = Inr 0" if "n + k = 0x8000" for n k
    using that
  proof (induction n arbitrary: k)
    case (Suc n)
    let ?p = "ACPI_SCAN_BASE + word_of_nat k * 4"
    have k4: "unat (word_of_nat k * 4 :: u32) = k * 4"
      using Suc.prems by (simp add: unat_mult_u32 unat_of_nat_u32 del: unsigned_of_nat)
    have p: "unat ?p = 0xE0000 + k * 4"
      using Suc.prems k4 by (simp add: ACPI_SCAN_BASE_def unat_add_u32)
    have "unat (?p + word_of_nat i) < 0x400000" if "i < 8" for i
      using p that Suc.prems by (subst unat_add_u32) (simp_all add: unat_of_nat_u32 del: unsigned_of_nat)
    then have "vprefix_eq s ?p (lit ''RSD PTR '') =
        Inr (map (\<lambda>i. phys s (?p + word_of_nat i)) [0..<8] = lit ''RSD PTR '')"
      using vprefix_eq_flat [of "lit ''RSD PTR ''" s ?p] assms(1) unfolding len by blast
    moreover have "map (\<lambda>i. phys s (?p + word_of_nat i)) [0..<8] \<noteq> lit ''RSD PTR ''"
    proof
      assume "map (\<lambda>i. phys s (?p + word_of_nat i)) [0..<8] = lit ''RSD PTR ''"
      then have "take 4 (map (\<lambda>i. phys s (?p + word_of_nat i)) [0..<8]) = take 4 (lit ''RSD PTR '')" by (rule arg_cong)
      then have "map (\<lambda>i. phys s (?p + word_of_nat i)) [0..<4] = lit ''RSD ''"
        by (simp add: take_map lit_def numeral_eq_Suc)
      then show False using assms(2) Suc.prems by (auto simp: no_rsdp_def list_all_iff)
    qed
    ultimately show ?case using Suc.IH [of "Suc k"] Suc.prems by (simp add: distrib_right ac_simps)
  qed simp
  from this [of "0x8000" 0] show ?thesis by (simp add: find_rsdp_def ACPI_SCAN_BASE_def ACPI_SCAN_END_def)
qed

section \<open>Memory after boot\<close>

lemma heap_region_base: "rbase (Layout.region KernelHeap) = KERNEL_HEAP_BASE"
  by (simp add: Layout.region_def REGIONS_def)

lemma vmm_wf_more_used:
  assumes "vmm_wf s" "bm_wf PMM_params (mem_mngr p)" "pmm_used (vpmm s) \<subseteq> pmm_used p"
  shows "vmm_wf (s\<lparr>vpmm := p\<rparr>)"
  using assms unfolding vmm_wf_def self_mapped_def pde_def by auto

lemma translate_range:
  assumes "vmm_wf s" "range_mapped s va pa flags k s'" "present flags" "below_window va'"
  shows "translate s' va' =
    (if unat va div 4096 \<le> unat va' div 4096 \<and> unat va' div 4096 < unat va div 4096 + k
     then Some (entry_address (fst (align_address pa) + word_of_nat (unat va' div 4096 - unat va div 4096) * PAGE_SIZE)
       + (va' AND 0xFFF))
     else translate s va')"
proof -
  have wf: "vmm_wf s'" using assms(2) by (simp add: range_mapped_def)
  show ?thesis using assms unfolding translate_mapping [OF wf] translate_mapping [OF assms(1)]
    by (simp add: range_mapped_def mapped_entry_def)
qed

lemma page_offset: "4096 \<le> q \<Longrightarrow> q * 4096 + r - 0x1000000 + 4096 * j = 4096 * (j + (q - 4096)) + (r :: nat)"
  by (auto simp: le_iff_add algebra_simps)

text \<open>The heap on any well-formed address space with a run of free frames and one more frame.\<close>

lemma heap_construct_ready:
  assumes v: "vmm_wf v" "hvmm h = v" "0 \<in> pmm_used (vpmm v)"
    and run: "i + 256 \<le> 1048576" "{i..<i + 256} \<inter> pmm_used (vpmm v) = {}"
    and more: "\<And>j. \<exists>k < 1048576. k \<notin> pmm_used (vpmm v) \<union> {j..<j + 256}"
    and lh: "node (list_hd h)" "hm h (list_hd h) \<noteq> None" "hm h (list_hd h + 4) \<noteq> None" "unat (list_hd h) + 8 \<le> 0x1000000"
  shows "\<exists>h' j. heap_ctor h KERNEL_HEAP_BASE HEAP_MIN_SIZE mx (ucast (PG_Present OR PG_Writable)) = Some (Inr h') \<and>
    heap_ok h' [KERNEL_HEAP_BASE] \<and> csize h' KERNEL_HEAP_BASE = HEAP_MIN_SIZE \<and> vmm_wf (hvmm h') \<and>
    startAddr h' = KERNEL_HEAP_BASE \<and> endAddr h' = KERNEL_HEAP_BASE + HEAP_MIN_SIZE \<and> list_hd h' = list_hd h \<and>
    head_of h' KERNEL_HEAP_BASE = HEAP_MIN_SIZE OR 1 \<and>
    j + 256 \<le> 1048576 \<and> {j..<j + 256} \<inter> pmm_used (vpmm v) = {} \<and>
    (\<forall>va. below_window va \<longrightarrow> translate (hvmm h') va =
      (if 0x1000000 \<le> unat va \<and> unat va < 0x1100000 then Some (word_of_nat (unat va - 0x1000000 + 4096 * j))
       else translate v va))"
proof -
  let ?B = "KERNEL_HEAP_BASE" and ?fl = "ucast (ucast (PG_Present OR PG_Writable) :: u16) OR PG_Present :: u32"
  have n: "HEAP_MIN_SIZE div PAGE_SIZE = 256"
    by (simp add: HEAP_MIN_SIZE_def KERNEL_HEAP_INITIAL_SIZE_def PAGE_SIZE_def)
  have B: "unat ?B = 0x1000000" "unat HEAP_MIN_SIZE = 0x100000"
    by (simp_all add: KERNEL_HEAP_BASE_def HEAP_MIN_SIZE_def KERNEL_HEAP_INITIAL_SIZE_def)
  have bm: "bm_wf PMM_params (mem_mngr (vpmm v))" using v(1) by (simp add: vmm_wf_def)
  obtain pa p where fr: "alloc_frames (vpmm v) 256 = Inr (pa, p)"
    using alloc_frames_available [OF bm, of 256 i] run by (auto simp: u32_less_iff)
  obtain j where j: "j + 256 \<le> 1048576" "unat pa = 4096 * j" "{j..<j + 256} \<inter> pmm_used (vpmm v) = {}"
    "pmm_used p = pmm_used (vpmm v) \<union> {j..<j + 256}" "bm_wf PMM_params (mem_mngr p)"
    using alloc_frames_facts [OF bm _ fr] by (auto simp: u32_less_iff)
  let ?v1 = "v\<lparr>vpmm := p\<rparr>"
  have wf1: "vmm_wf ?v1" by (rule vmm_wf_more_used [OF v(1) j(5)]) (use j(4) in blast)
  obtain k where "k < 1048576" "k \<notin> pmm_used p" using more [of j] j(4) by auto
  then have av: "table_available ?v1 ?B"
    using alloc_frame_nonzero [OF j(5), of k] v(3) j(4) by (auto simp: table_available_def)
  have fl: "present ?fl" by (simp add: present_def PG_Present_def PG_Writable_def)
  obtain v2 where v2: "map_pages ?v1 ?B pa 256 ?fl = Inr v2" "range_mapped ?v1 ?B pa ?fl 256 v2"
    using map_pages_one_table [OF wf1 fl av, of 256 pa] B by auto
  have tr1: "translate ?v1 va = translate v va" for va by (simp add: translate_def Let_def)
  have pal: "fst (align_address pa) = pa"
    using j(2) by (simp add: align_address_def PAGE_MASK_def u32_eq_iff unat_and_page)
  have "translate v2 va = (if 0x1000000 \<le> unat va \<and> unat va < 0x1100000
      then Some (word_of_nat (unat va - 0x1000000 + 4096 * j)) else translate v va)" if bw: "below_window va" for va
  proof -
    have c: "(unat ?B div 4096 \<le> unat va div 4096 \<and> unat va div 4096 < unat ?B div 4096 + 256) \<longleftrightarrow>
        (0x1000000 \<le> unat va \<and> unat va < 0x1100000)" using B(1) by auto
    show ?thesis
    proof (cases "0x1000000 \<le> unat va \<and> unat va < 0x1100000")
      case True
      let ?d = "unat va div 4096 - 4096"
      have d: "?d < 256" using True by auto
      let ?a = "pa + word_of_nat ?d * PAGE_SIZE"
      have "unat (word_of_nat ?d * 4096 :: u32) = ?d * 4096"
        using d by (simp add: unat_mult_u32 unat_of_nat_u32 del: unsigned_of_nat)
      then have a: "unat ?a = 4096 * (j + ?d)"
        using j(1,2) d by (simp add: PAGE_SIZE_def unat_add_u32)
      then have ea: "entry_address ?a = ?a" by (intro entry_address_aligned) (simp add: page_aligned_def)
      have sum: "unat va - 0x1000000 + 4096 * j = 4096 * (j + ?d) + unat va mod 4096"
      proof -
        have "4096 \<le> unat va div 4096" using True by auto
        from page_offset [OF this, of "unat va mod 4096" j] show ?thesis unfolding div_mult_mod_eq .
      qed
      have lt: "4096 * (j + ?d) + unat va mod 4096 < 4294967296" using j(1) d by auto
      have "unat (?a + (va AND 0xFFF)) = 4096 * (j + ?d) + unat va mod 4096"
        using a lt by (simp add: unat_add_u32 unat_and_FFF)
      also have "\<dots> = unat (word_of_nat (unat va - 0x1000000 + 4096 * j) :: u32)"
        unfolding sum by (rule unat_of_nat_u32 [OF lt, symmetric])
      finally have "?a + (va AND 0xFFF) = word_of_nat (unat va - 0x1000000 + 4096 * j)" by (simp only: u32_eq_iff)
      moreover have "translate v2 va = Some (?a + (va AND 0xFFF))"
        using translate_range [OF wf1 v2(2) fl bw] c True B(1) pal ea by simp
      ultimately show ?thesis using True by (simp only: simp_thms if_True)
    next
      case False
      have "translate v2 va = translate ?v1 va"
        unfolding translate_range [OF wf1 v2(2) fl bw] c by (simp only: False if_False)
      then show ?thesis unfolding tr1 by (simp only: False if_False)
    qed
  qed
  moreover have "vmm_wf v2" using v2(2) by (simp add: range_mapped_def)
  ultimately show ?thesis
    using heap_ctor_ok [of ?B HEAP_MIN_SIZE h pa p "ucast (PG_Present OR PG_Writable)" v2 mx] B lh v(2) fr v2(1) j
    by (auto simp: n apart_def)
qed

lemma byte_kept:
  assumes "\<And>Q j. page_aligned Q \<Longrightarrow> Q \<noteq> pd \<Longrightarrow> Q \<noteq> pt \<Longrightarrow> unat j < 1024 \<Longrightarrow>
      load32 m' (Q + 4 * j) = load32 m (Q + 4 * j)"
    and "unat pd div 4096 \<noteq> unat a div 4096" "unat pt div 4096 \<noteq> unat a div 4096"
  shows "m' a = m (a :: u32)"
proof -
  let ?Q = "a AND 0xFFFFF000" and ?j = "word_of_nat (unat a mod 4096 div 4) :: u32"
  have Q: "unat ?Q = unat a div 4096 * 4096" by (rule unat_and_page)
  have j: "unat ?j = unat a mod 4096 div 4" by (rule unat_of_nat_u32) simp
  have j4: "unat (4 * ?j) = 4 * (unat a mod 4096 div 4)" using j by (subst unat_mult_u32) simp_all
  have lt: "unat a < 4294967296" by simp
  have "unat (?Q + 4 * ?j) = unat a div 4096 * 4096 + 4 * (unat a mod 4096 div 4)"
    unfolding Q [symmetric] j4 [symmetric]
  proof (rule unat_add_u32)
    have "4 * (unat a mod 4096 div 4) \<le> unat a mod 4096" by simp
    then have "unat a div 4096 * 4096 + 4 * (unat a mod 4096 div 4) \<le> unat a"
      using div_mult_mod_eq [of "unat a" 4096] by linarith
    with lt show "unat ?Q + unat (4 * ?j) < 4294967296" unfolding Q j4 by (rule le_less_trans [rotated])
  qed
  moreover have "unat (word_of_nat (unat a mod 4) :: u32) = unat a mod 4" by (rule unat_of_nat_u32) simp
  moreover have "unat a div 4096 * 4096 + 4 * (unat a mod 4096 div 4) + unat a mod 4 = unat a"
    using div_mult_mod_eq [of "unat a" 4096] mult_div_mod_eq [of 4 "unat a mod 4096"] mod_mod_cancel [of 4 4096 "unat a"]
    by (metis add.assoc dvd_triv_left numeral_eq_Suc numeral_times_numeral semiring_norm(12,13))
  ultimately have a: "?Q + 4 * ?j + word_of_nat (unat a mod 4) = a"
    using lt by (simp add: u32_eq_iff unat_add_u32 del: unsigned_of_nat)
  have "load32 m' (?Q + 4 * ?j) = load32 m (?Q + 4 * ?j)"
  proof (rule assms(1))
    show "page_aligned ?Q" using Q by (simp add: page_aligned_def)
    have "unat ?Q div 4096 = unat a div 4096" using Q by simp
    then show "?Q \<noteq> pd" "?Q \<noteq> pt" using assms(2,3) by auto
    show "unat ?j < 1024" using j by simp
  qed
  from load32_eq_byte [OF this, of "unat a mod 4"] show ?thesis using a by simp
qed

lemma scan_address:
  assumes "k < 0x8000" "i < 4"
  shows "unat (ACPI_SCAN_BASE + word_of_nat k * 4 + word_of_nat i) = 0xE0000 + k * 4 + i"
proof -
  have "unat (word_of_nat k * 4 :: u32) = k * 4"
    using assms by (simp add: unat_mult_u32 unat_of_nat_u32 del: unsigned_of_nat)
  then have "unat (ACPI_SCAN_BASE + word_of_nat k * 4) = 0xE0000 + k * 4"
    using assms by (simp add: ACPI_SCAN_BASE_def unat_add_u32)
  then show ?thesis using assms by (subst unat_add_u32) (simp_all add: unat_of_nat_u32 del: unsigned_of_nat)
qed

lemma no_rsdp_cong:
  assumes kept: "\<And>x. unat x < 0x100000 \<Longrightarrow> m' x = m x" and nr: "no_rsdp m"
  shows "no_rsdp m'"
proof -
  have "unat (ACPI_SCAN_BASE + word_of_nat k * 4 + word_of_nat i) < 0x100000" if "k < 0x8000" "i < 4" for k i
    using scan_address [OF that] that by simp
  then have same: "map (\<lambda>i. m' (ACPI_SCAN_BASE + word_of_nat k * 4 + word_of_nat i)) [0..<4] =
      map (\<lambda>i. m (ACPI_SCAN_BASE + word_of_nat k * 4 + word_of_nat i)) [0..<4]" if "k < 0x8000" for k
    using that kept by (intro map_cong refl) auto
  show ?thesis unfolding no_rsdp_def list_all_iff
  proof
    fix k assume k: "k \<in> set [0..<0x8000]"
    then have "k < 0x8000" by (simp only: set_upt atLeastLessThan_iff)
    from bspec [OF nr [unfolded no_rsdp_def list_all_iff] k] same [OF this]
    show "map (\<lambda>i. m' (ACPI_SCAN_BASE + word_of_nat k * 4 + word_of_nat i)) [0..<4] \<noteq> lit ''RSD ''"
      by (simp only: not_False_eq_True)
  qed
qed

lemma vmm_init_keeps_low:
  fixes v :: vmm and t pf tlb
  defines "t' \<equiv> register_isr (register_isr t 14 pf) TLB_SHOOTDOWN_VECTOR tlb"
  assumes bm: "bm_wf PMM_params (mem_mngr (vpmm v))" and np: "\<not> paging v"
    and free: "{f..<f + 1024} \<inter> pmm_used (vpmm v) = {}" and fb: "f + 1024 \<le> 1048576"
    and z: "\<And>k. k < 256 \<Longrightarrow> k \<in> pmm_used (vpmm v)"
  obtains v1 a b where "vmm_init v t pf tlb = Inr (v1, t')" "vmm_wf v1"
    "\<And>va. below_window va \<Longrightarrow> translate v1 va = (if unat va < 0x400000 then Some va else None)"
    "pmm_used (vpmm v1) = insert a (insert b (pmm_used (vpmm v)))"
    "\<And>x. unat x < 0x100000 \<Longrightarrow> phys v1 x = phys v x"
proof -
  let ?p = "vpmm v"
  have "f \<notin> pmm_used ?p" using free by (auto simp: disjoint_iff)
  then obtain pd p1 where a1: "alloc_frame ?p = Inr (pd, p1)" "pd \<noteq> 0"
    using alloc_frame_nonzero [OF bm, of f] z [of 0] fb by auto
  note f1 = alloc_frame_result [OF bm a1(1)]
  obtain k where k: "f \<le> k" "k < f + 1024" "k \<notin> insert (unat pd div 4096) (pmm_used ?p)"
    using frame_left [OF free, of "unat pd div 4096" "unat pd div 4096" 0] by auto
  obtain pt p2 where a2: "alloc_frame p1 = Inr (pt, p2)" "pt \<noteq> 0"
    using alloc_frame_nonzero [OF f1(4), of k] k z [of 0] fb f1(3) by auto
  note f2 = alloc_frame_result [OF f1(4) a2(1)]
  obtain v1 where v1: "vmm_init v t pf tlb = Inr (v1, t')" "vmm_wf v1"
    "\<forall>va. below_window va \<longrightarrow> translate v1 va = (if va < IDENTITY_WINDOW_SIZE then Some va else None)" "vpmm v1 = p2"
    "\<And>Q j. page_aligned Q \<Longrightarrow> Q \<noteq> pd \<Longrightarrow> Q \<noteq> pt \<Longrightarrow> unat j < 1024 \<Longrightarrow>
       load32 (phys v1) (Q + 4 * j) = load32 (phys v) (Q + 4 * j)"
    using vmm_init_translates [of v pd p1 pt p2 t pf tlb] np bm a1 a2 unfolding t'_def by auto
  have kept: "phys v1 x = phys v x" if "unat x < 0x100000" for x
  proof (rule byte_kept [of pd pt])
    have "unat x div 4096 < 256" using that by auto
    then have "unat x div 4096 \<in> pmm_used ?p" by (rule z)
    then have "unat x div 4096 \<in> pmm_used ?p" "unat x div 4096 \<in> pmm_used p1" using f1(3) by simp_all
    then show "unat pd div 4096 \<noteq> unat x div 4096" "unat pt div 4096 \<noteq> unat x div 4096"
      using f1(2) f2(2) by metis+
  qed (use v1(5) in auto)
  show thesis
    by (rule that [OF v1(1,2) _ _ kept]) (use v1(3,4) f1(3) f2(3) in \<open>auto simp: u32_less_iff IDENTITY_WINDOW_SIZE_def\<close>)
qed

section \<open>Memory after boot\<close>

text \<open>
  The machines the boot theorems speak of: paging is off, the boot loader passed a memory map
  that leaves the 1024 frames from \<open>f\<close> on free, there are no firmware tables, and the list head
  of the heap object stands in mapped memory below the heap.
\<close>

definition bootable :: "u32 \<Rightarrow> u32 \<Rightarrow> multiboot_info \<Rightarrow> mmap_entry list \<Rightarrow> u32 \<Rightarrow> nat \<Rightarrow> vmm \<Rightarrow> heap \<Rightarrow> bool" where
  "bootable kernel_start kernel_end mboot es low f v h \<longleftrightarrow>
     TEST_MASK (mb_flags mboot) MULTIBOOT_INFO_MEM_MAP \<and> bm_wf PMM_params (mem_mngr (vpmm v)) \<and>
     mmap_visits (phys v) (mmap_addr mboot) (mmap_addr mboot + mmap_length mboot) es \<and> (\<forall>e \<in> set es. me_type e \<le> 5) \<and>
     low_boot_reserved_end (phys v) mboot kernel_end = Inr low \<and>
     {f..<f + 1024} \<subseteq> (\<Union>e \<in> set es. entry_frames e) - boot_reserved (phys v) mboot kernel_start kernel_end low \<and>
     \<not> paging v \<and> no_rsdp (phys v) \<and>
     node (list_hd h) \<and> hm h (list_hd h) \<noteq> None \<and> hm h (list_hd h + 4) \<noteq> None \<and> unat (list_hd h) + 8 \<le> 0x1000000"

text \<open>The frames the boot loader left for the kernel to use.\<close>

definition boot_frames :: "u32 \<Rightarrow> u32 \<Rightarrow> multiboot_info \<Rightarrow> mmap_entry list \<Rightarrow> u32 \<Rightarrow> mem \<Rightarrow> nat set" where
  "boot_frames kernel_start kernel_end mboot es low m =
     (\<Union>e \<in> set es. entry_frames e) - boot_reserved m mboot kernel_start kernel_end low"

text \<open>A fresh heap of one free chunk, backed by the 256 frames from \<open>j\<close> on, and nothing else mapped above 4 MiB.\<close>

definition memory_up :: "nat \<Rightarrow> heap \<Rightarrow> bool" where
  "memory_up j h \<longleftrightarrow>
     heap_ok h [KERNEL_HEAP_BASE] \<and> csize h KERNEL_HEAP_BASE = HEAP_MIN_SIZE \<and> head_of h KERNEL_HEAP_BASE AND 1 \<noteq> 0 \<and>
     startAddr h = KERNEL_HEAP_BASE \<and> endAddr h = KERNEL_HEAP_BASE + HEAP_MIN_SIZE \<and> unat (list_hd h) + 8 \<le> 0x1000000 \<and>
     vmm_wf (hvmm h) \<and> j + 256 \<le> 1048576 \<and>
     (\<forall>va. below_window va \<longrightarrow> translate (hvmm h) va =
       (if unat va < 0x400000 then Some va
        else if 0x1000000 \<le> unat va \<and> unat va < 0x1100000 then Some (word_of_nat (unat va - 0x1000000 + 4096 * j))
        else None))"

lemma init_memory_up:
  assumes b: "bootable kernel_start kernel_end mboot es low f v h"
  shows "\<exists>a' h' j. init_memory kernel_start kernel_end mboot pf tlb (v, t, a, h) =
      Some (Inr (register_isr (register_isr t 14 pf) TLB_SHOOTDOWN_VECTOR tlb, a', h')) \<and>
    memory_up j h' \<and> {j..<j + 256} \<subseteq> boot_frames kernel_start kernel_end mboot es low (phys v)"
proof -
  have mb: "TEST_MASK (mb_flags mboot) MULTIBOOT_INFO_MEM_MAP" "bm_wf PMM_params (mem_mngr (vpmm v))"
    "mmap_visits (phys v) (mmap_addr mboot) (mmap_addr mboot + mmap_length mboot) es" "\<forall>e \<in> set es. me_type e \<le> 5"
    using b unfolding bootable_def by blast+
  have low: "low_boot_reserved_end (phys v) mboot kernel_end = Inr low"
    and run: "{f..<f + 1024} \<subseteq> (\<Union>e \<in> set es. entry_frames e) - boot_reserved (phys v) mboot kernel_start kernel_end low"
    and np: "\<not> paging v" and nr: "no_rsdp (phys v)"
    and lh: "node (list_hd h)" "hm h (list_hd h) \<noteq> None" "hm h (list_hd h + 4) \<noteq> None" "unat (list_hd h) + 8 \<le> 0x1000000"
    using b by (simp_all add: bootable_def)
  let ?E = "\<Union>e \<in> set es. entry_frames e" and ?R = "boot_reserved (phys v) mboot kernel_start kernel_end low"
  let ?t = "register_isr (register_isr t 14 pf) TLB_SHOOTDOWN_VECTOR tlb"
  obtain s1 p where p: "pmm_init (phys v) mboot kernel_start kernel_end (vpmm v) = Some (Inr p)"
    "pmm_used s1 = {..<1048576} - ?E" "reserved_from s1 ?R p"
    using pmm_init_result [OF mb, of kernel_end kernel_start] low by auto
  have bm: "bm_wf PMM_params (mem_mngr p)" and used: "pmm_used p = ({..<1048576} - ?E) \<union> ?R"
    using p(2,3) by (simp_all add: reserved_from_def)
  have E: "?E \<subseteq> {256..<1048576}" by (auto simp: entry_frames_def split: if_splits)
  have z: "k \<in> pmm_used p" if "k < 256" for k using that E used by auto
  have free: "{f..<f + 1024} \<inter> pmm_used p = {}" using run used by auto
  have fb: "f + 1024 \<le> 1048576"
  proof -
    have "f + 1023 \<in> {f..<f + 1024}" by simp
    then have "f + 1023 \<in> ?E" using run by blast
    then show ?thesis using E by auto
  qed
  obtain v1 x y where v1: "vmm_init (v\<lparr>vpmm := p\<rparr>) t pf tlb = Inr (v1, ?t)" "vmm_wf v1"
    "\<And>va. below_window va \<Longrightarrow> translate v1 va = (if unat va < 0x400000 then Some va else None)"
    "pmm_used (vpmm v1) = insert x (insert y (pmm_used p))" "\<And>x. unat x < 0x100000 \<Longrightarrow> phys v1 x = phys v x"
    by (rule vmm_init_keeps_low [of "v\<lparr>vpmm := p\<rparr>" f t pf tlb]) (use bm np free fb z in auto)
  have low1: "translate v1 va = Some va" if "unat va < 0x400000" for va
    using v1(3) that by (simp add: below_window_def PT_BASE_def RECURSIVE_PT_BASE_def u32_less_iff)
  have "no_rsdp (phys v1)" by (rule no_rsdp_cong [OF v1(5) nr])
  then have ac: "acpi_init a v1 = Inr (a\<lparr>acpi_rsdp := 0\<rparr>, v1)"
    using find_rsdp_none [of v1] low1 by (simp add: acpi_init_def Let_def)
  obtain i where i: "f \<le> i" "i + 256 \<le> f + 1024" "{i..<i + 256} \<inter> pmm_used (vpmm v1) = {}"
    using run_after_two [OF free, of x y] v1(4) by auto
  moreover have "\<exists>k < 1048576. k \<notin> pmm_used (vpmm v1) \<union> {j..<j + 256}" for j
  proof -
    obtain k where "k < f + 1024" "k \<notin> pmm_used (vpmm v1) \<union> {j..<j + 256}"
      using frame_left [OF free, of x y j] v1(4) by auto
    then show ?thesis using fb by (intro exI [of _ k]) auto
  qed
  moreover have "0 \<in> pmm_used (vpmm v1)" using z [of 0] v1(4) by simp
  ultimately obtain h' j where h': "heap_ctor (h\<lparr>hvmm := v1\<rparr>) KERNEL_HEAP_BASE HEAP_MIN_SIZE
      (ucast (region_end (Layout.region KernelHeap))) (ucast (PG_Present OR PG_Writable)) = Some (Inr h')"
    "heap_ok h' [KERNEL_HEAP_BASE]" "csize h' KERNEL_HEAP_BASE = HEAP_MIN_SIZE" "vmm_wf (hvmm h')"
    "startAddr h' = KERNEL_HEAP_BASE" "endAddr h' = KERNEL_HEAP_BASE + HEAP_MIN_SIZE" "list_hd h' = list_hd h"
    "head_of h' KERNEL_HEAP_BASE = HEAP_MIN_SIZE OR 1"
    and j: "j + 256 \<le> 1048576" "{j..<j + 256} \<inter> pmm_used (vpmm v1) = {}"
    and tr: "\<forall>va. below_window va \<longrightarrow> translate (hvmm h') va =
      (if 0x1000000 \<le> unat va \<and> unat va < 0x1100000 then Some (word_of_nat (unat va - 0x1000000 + 4096 * j))
       else translate v1 va)"
    using heap_construct_ready [OF v1(2), of "h\<lparr>hvmm := v1\<rparr>" i "ucast (region_end (Layout.region KernelHeap))"] fb lh by auto
  have run': "init_memory kernel_start kernel_end mboot pf tlb (v, t, a, h) = Some (Inr (?t, a\<lparr>acpi_rsdp := 0\<rparr>, h'))"
    using p(1) v1(1) ac h'(1) by (simp add: init_memory_def Let_def retK_def heap_region_base)
  have "{j..<j + 256} \<subseteq> ?E - ?R" using j used v1(4) by auto
  moreover have "translate (hvmm h') va = (if unat va < 0x400000 then Some va
       else if 0x1000000 \<le> unat va \<and> unat va < 0x1100000 then Some (word_of_nat (unat va - 0x1000000 + 4096 * j))
       else None)" if "below_window va" for va
    using tr that v1(3) by auto
  ultimately have "memory_up j h'" "{j..<j + 256} \<subseteq> boot_frames kernel_start kernel_end mboot es low (phys v)"
    using h' lh(4) j(1) size_flags(2) [of HEAP_MIN_SIZE]
    by (simp_all add: memory_up_def boot_frames_def HEAP_MIN_SIZE_def KERNEL_HEAP_INITIAL_SIZE_def)
  with run' show ?thesis by blast
qed


text \<open>The machine with 16 MiB above the first megabyte, with the heap object at 0x1000.\<close>

definition example_boot_vmm :: vmm where
  "example_boot_vmm = \<lparr>phys = example_mem, cr3 = 0, paging = False, vpmm = example_pmm, kernel_dir_phys = 0\<rparr>"

definition example_boot_heap :: heap where
  "example_boot_heap = \<lparr>startAddr = 0, endAddr = 0, maxAddr = 0, hperms = 0, list_hd = 0x1000,
     hm = [0x1000 \<mapsto> 0, 0x1004 \<mapsto> 0], hvmm = example_boot_vmm, fresh = (\<lambda>_. 0)\<rparr>"

lemma no_rsdp_example: "no_rsdp example_mem"
  unfolding no_rsdp_def list_all_iff
proof
  fix k :: nat assume "k \<in> set [0..<0x8000]"
  then have "k < 0x8000" by (simp only: set_upt atLeastLessThan_iff)
  from scan_address [OF this, of 0] have u: "unat (ACPI_SCAN_BASE + word_of_nat k * 4) = 0xE0000 + k * 4" by simp
  have "unat (ACPI_SCAN_BASE + word_of_nat k * 4 - 0x9000) = 0xE0000 + k * 4 - 0x9000"
    by (subst unat_sub) (use u in \<open>simp_all add: u32_le_iff\<close>)
  then have "example_mem (ACPI_SCAN_BASE + word_of_nat k * 4) = 0" by (simp add: example_mem_def)
  then show "map (\<lambda>i. example_mem (ACPI_SCAN_BASE + word_of_nat k * 4 + word_of_nat i)) [0..<4] \<noteq> lit ''RSD ''"
    by (simp add: lit_def upt_rec)
qed

lemma example_bootable: "bootable 0x100000 0x180000 example_mboot [example_entry] 0x180000 384 example_boot_vmm example_boot_heap"
  unfolding bootable_def
  using example_mboot_ok no_rsdp_example example_pmm_bm
  by (simp add: example_boot_vmm_def example_boot_heap_def example_boot_reserved example_entry_frames node_def)


end
