(* ===== verification/Heap_Aligned.thy ===== *)
theory Heap_Aligned
  imports Heap
begin

text \<open>
  Page-aligned allocation, \<^verbatim>\<open>Heap::palignedAlloc\<close> of \<^verbatim>\<open>mm/heap.cpp\<close>, which serves every aligned
  \<^verbatim>\<open>operator new\<close> and so the stacks of cores and tasks. The definitions are in theory Heap; here
  is what they do: the front of an oversized block is given back so that the rest starts in front
  of a page boundary, then the tail behind the request is given back too.
\<close>

unbundle bit_operations_syntax

section \<open>Flags and neighbours\<close>

lemma or_one: "(x OR 1 :: u32) AND 1 \<noteq> 0" "(x OR 1 :: u32) AND 2 = x AND 2"
proof -
  have "bit ((x OR 1) AND 1) 0" by (simp add: bit_simps)
  then show "(x OR 1) AND 1 \<noteq> 0" by auto
  show "(x OR 1) AND 2 = x AND 2" by (simp add: bit.conj_disj_distrib2)
qed

lemma next_ok_upd:
  assumes n: "next_ok h cs n" and u: "upd_only h A h'"
    and hd: "head_of h' n = head_of h n \<or> head_of h' n = head_of h n OR 1" and sub: "n \<in> set cs \<Longrightarrow> n \<in> set cs'"
  shows "next_ok h' cs' n"
proof -
  have c: "csize h' n = csize h n" using hd by (auto simp: csize_def or_flags_size)
  have f: "head_of h' n AND 1 \<noteq> 0" "head_of h' n AND 2 = head_of h n AND 2"
    using hd or_one n by (auto simp: next_ok_def)
  show ?thesis
    using n f sub upd_only_same(6) [OF u] unfolding next_ok_def c upd_only_same(1-3) [OF u] by auto
qed

lemma chunk_suffix:
  assumes c: "chunk_at h c n" and k: "unat k mod 8 = 0" "unat k + 16 \<le> n"
  shows "chunk_at h (c + k) (n - unat k)"
proof -
  have "unat (c + k) = unat c + unat k" using c k(2) by (simp add: chunk_at_def unat_add_u32)
  then show ?thesis
    using c k unfolding chunk_at_def by (auto simp: mod_diff_eq [symmetric] mod_0_imp_dvd)
qed

section \<open>Giving the front back\<close>

text \<open>What \<open>paligned_lead\<close> does when the block does not start in front of a page boundary.\<close>

definition cut_lead :: "heap \<Rightarrow> u32 \<Rightarrow> u32 \<Rightarrow> heap krun" where
  "cut_lead h c L =
     bindK (Some (set_inuse h (c + L) (csize h c - L))) (\<lambda>h.
     bindK (Some (set_size_and_pinuse h c L)) (\<lambda>h.
     bindK (Some (put_prevFoot h (c + L) L)) (\<lambda>h. insertChunk h c)))"

lemma cut_lead_ok:
  assumes h: "heap_ok h cs" and r: "fits_apart h cs c"
    and L: "unat L mod 8 = 0" "16 \<le> unat L" "unat L + 16 \<le> unat (csize h c)"
    and n: "n = c + csize h c" "hm h (n + 4) \<noteq> None" "n \<noteq> list_hd h"
  shows "\<exists>h' cs'. cut_lead h c L = Some (Inr h') \<and> heap_ok h' cs' \<and> set cs' = insert c (set cs) \<and> fits_apart h' cs' (c + L) \<and>
    csize h' (c + L) = csize h c - L \<and> head_of h' (c + L) AND 2 \<noteq> 0 \<and> head_of h' n = head_of h n OR 1 \<and>
    upd_only h (fields h (c # cs) \<union> {c + 4, c + L, c + L + 4, n + 4}) h' \<and>
    head_of h' (c + L) = (head_of h (c + L) AND 1) OR 2 OR (csize h c - L)"
proof -
  let ?p = "c + L" and ?s = "csize h c"
  have ca: "chunk_at h c (unat ?s)" using r by (simp add: region_def)
  have up: "unat ?p = unat c + unat L" "unat (?p + 4) = unat c + unat L + 4" "unat n = unat c + unat ?s" "unat (n + 4) = unat c + unat ?s + 4"
    using ca L(3) n(1) by (simp_all add: chunk_at_def unat_add_u32)
  have us: "unat (?s - L) = unat ?s - unat L" using L(3) by (simp add: unat_sub u32_le_iff)
  have s8: "unat (?s - L) mod 8 = 0" using us L(1) csize_aligned [of h c] by (simp add: mod_0_imp_dvd)
  have pn: "?p + (?s - L) = n" using n(1) by simp
  note pa = chunk_suffix [OF ca L(1,3)]
  note p4 = chunk_fields_mapped(2,1) [OF pa]
  have f: "?p + 4 \<notin> fields h cs" "n + 4 \<notin> fields h cs"
    using inside_not_field [OF h r, of "?p + 4"] region_next_header [OF h r] up L n by auto
  have pin: "?p \<notin> set cs"
  proof
    assume p: "?p \<in> set cs"
    then have "apart (unat ?p) (unat (csize h ?p)) (unat c) (unat ?s)" using r by (simp add: region_def)
    then show False using up L heap_ok_chunk [OF h p] by (auto simp: apart_def chunk_at_def)
  qed
  have s0: "?s - L \<noteq> 0" using us L(3) by (auto simp: u32_eq_iff)
  obtain h2 where h2: "set_inuse h ?p (?s - L) = Inr h2" "heap_ok h2 cs" "csize h2 ?p = ?s - L" "head_of h2 ?p AND 2 \<noteq> 0"
      "head_of h2 n = head_of h n OR 1" "head_of h2 ?p = (head_of h ?p AND 1) OR 2 OR (?s - L)"
      and u2: "upd_only h {?p + 4, n + 4} h2"
    using set_inuse_ok [OF h p4(1) _ s0 s8 f(1) _ pin] n(2) f(2) unfolding pn by blast
  have k2: "csize h2 d = csize h d" if "d \<in> set cs" for d
    using that pin upd_only_same(7) [OF u2, of d] h2(5) by (cases "d = n") (auto simp: csize_def or_flags_size)
  have r2: "region h2 cs c (unat L)"
    unfolding region_def
  proof (intro conjI ballI)
    have "chunk_at h c (unat L)" using ca L by (auto simp: chunk_at_def)
    then show "chunk_at h2 c (unat L)" by (rule upd_only_same(9) [OF u2])
    show "apart (unat (list_hd h2)) 8 (unat c) (unat L)"
      using r L upd_only_same(1) [OF u2] by (auto simp: region_def apart_def)
    show "apart (unat d) (unat (csize h2 d)) (unat c) (unat L)" if "d \<in> set cs" for d
      using r L k2 [OF that] that by (auto simp: region_def apart_def)
  qed
  have pl: "?p \<noteq> list_hd h2" using r up L upd_only_same(1) [OF u2] by (auto simp: region_def apart_def)
  obtain h3 cs' where h3: "insert_freed (c, L, h2\<lparr>hm := (hm h2)(?p \<mapsto> L)\<rparr>) = Some (Inr h3)" "heap_ok h3 cs'"
      "set cs' = insert c (set cs)" "csize h3 c = L" "\<forall>d \<in> set cs. csize h3 d = csize h2 d"
      and u3: "upd_only h2 (fields h2 (c # cs) \<union> {c + 4, ?p}) h3"
    using insert_with_foot [OF h2(2) r2 upd_only_same(6) [OF u2 p4(2)] pl] by (elim exE conjE) (rule that)
  have cz: "c \<noteq> 0" "L \<noteq> 0" "c + 4 \<noteq> ?p" using ca L up by (auto simp: chunk_at_def u32_eq_iff unat_add_u32)
  have run: "cut_lead h c L = Some (Inr h3)"
  proof -
    let ?h = "h2\<lparr>hm := (hm h2)(c + 4 \<mapsto> L OR 1)\<rparr>"
    have c4: "hm h2 (c + 4) \<noteq> None" by (rule upd_only_same(6) [OF u2 chunk_fields_mapped(2) [OF ca]])
    have "set_size_and_pinuse h2 c L = Inr ?h" using put_head_eq [OF c4] by (simp add: set_size_and_pinuse_def PINUSE_BIT_def)
    moreover have "put_prevFoot ?h ?p L = Inr (?h\<lparr>hm := (hm ?h)(?p \<mapsto> L)\<rparr>)"
      using upd_only_same(6) [OF u2 p4(2)] by (simp add: put_prevFoot_def dstore_eq)
    moreover have "set_size_and_pinuse (h2\<lparr>hm := (hm h2)(?p \<mapsto> L)\<rparr>) c L =
        Inr (h2\<lparr>hm := (hm h2)(?p \<mapsto> L, c + 4 \<mapsto> L OR 1)\<rparr>)"
      using put_head_eq [of "h2\<lparr>hm := (hm h2)(?p \<mapsto> L)\<rparr>" c] c4 by (simp add: set_size_and_pinuse_def PINUSE_BIT_def)
    ultimately show ?thesis
      using h2(1) h3(1) cz by (simp add: cut_lead_def insert_freed_def fun_upd_twist [OF cz(3)])
  qed
  have fe: "fields h2 (c # cs) = fields h (c # cs)" by (rule upd_only_same(10) [OF u2])
  have cn: "unat (chunk_node c) = unat c + 8" "unat (chunk_node c + 4) = unat c + 12" using chunk_addrs(2,3) [OF ca] .
  have out: "?p + 4 \<notin> fields h (c # cs) \<union> {c + 4, ?p}" "n + 4 \<notin> fields h (c # cs) \<union> {c + 4, ?p}"
    using f up L cn chunk_addrs(1) [OF ca] by (auto simp: fields_def u32_eq_iff)
  have P: "csize h3 ?p = ?s - L" "head_of h3 ?p AND 2 \<noteq> 0" "head_of h3 n = head_of h n OR 1"
    "head_of h3 ?p = (head_of h ?p AND 1) OR 2 OR (?s - L)"
    using upd_only_same(7,8) [OF u3] out h2(3,4,5,6) unfolding fe by auto
  have u: "upd_only h (fields h (c # cs) \<union> {c + 4, ?p, ?p + 4, n + 4}) h3"
    by (rule upd_only_mono [OF upd_only_trans [OF u2 u3]]) (auto simp: fe)
  have "fits_apart h3 cs' ?p"
    unfolding region_def P(1)
  proof (intro conjI ballI)
    show "chunk_at h3 ?p (unat (?s - L))" using upd_only_same(9) [OF u pa] us by simp
    show "apart (unat (list_hd h3)) 8 (unat ?p) (unat (?s - L))"
      using r up us L upd_only_same(1) [OF u] by (auto simp: region_def apart_def)
    fix d assume "d \<in> set cs'"
    then consider "d = c" | "d \<in> set cs" using h3(3) by auto
    then show "apart (unat d) (unat (csize h3 d)) (unat ?p) (unat (?s - L))"
    proof cases
      case 1
      then show ?thesis using h3(4) up by (simp add: apart_def)
    next
      case 2
      then have "csize h3 d = csize h d" using h3(5) k2 by simp
      then show ?thesis using r 2 up us L by (auto simp: region_def apart_def)
    qed
  qed
  then show ?thesis using run h3 P u by (intro exI [of _ h3] exI [of _ cs']) simp
qed

section \<open>Giving the tail back\<close>

lemma set_inuse_region:
  assumes h: "heap_ok h cs" and r: "region h cs q (unat s)" and nb: "unat nb mod 8 = 0" "16 \<le> unat nb"
    and n: "nb = s \<or> s = csize h q \<and> unat nb + 16 \<le> unat s" "hm h (q + s + 4) \<noteq> None" "q + s \<noteq> list_hd h"
  shows "\<exists>h'. set_inuse h q nb = Inr h' \<and> heap_ok h' cs \<and> upd_only h {q + 4, q + nb + 4} h' \<and> csize h' q = nb \<and>
    head_of h' q = (head_of h q AND 1) OR 2 OR nb \<and> head_of h' (q + nb) = head_of h (q + nb) OR 1 \<and>
    (\<forall>d \<in> set cs. csize h' d = csize h d)"
proof -
  have qa: "chunk_at h q (unat s)" using r by (simp add: region_def)
  have nz: "nb \<noteq> 0" using nb(2) by auto
  have "hm h (q + nb + 4) \<noteq> None \<and> q + nb + 4 \<notin> fields h cs"
  proof (cases "nb = s")
    case True
    then show ?thesis using n(2,3) region_next_header [OF h r] by simp
  next
    case False
    then have l: "unat nb + 16 \<le> unat s" and s: "s = csize h q" using n(1) by blast+
    have "unat (q + nb + 4) = unat q + unat nb + 4" using qa l by (simp add: chunk_at_def unat_add_u32)
    then show ?thesis
      using chunk_fields_mapped(2) [OF chunk_suffix [OF qa nb(1) l]] inside_not_field [OF h r [unfolded s], of "q + nb + 4"] l s by auto
  qed
  then obtain h' where h': "set_inuse h q nb = Inr h'" "heap_ok h' cs" "upd_only h {q + 4, q + nb + 4} h'" "csize h' q = nb"
      "head_of h' q = (head_of h q AND 1) OR 2 OR nb" "head_of h' (q + nb) = head_of h (q + nb) OR 1"
    using set_inuse_ok [OF h chunk_fields_mapped(2) [OF qa] _ nz nb(1) region_header(1) [OF h r] _ region_header(3) [OF h r]] by blast
  have "csize h' d = csize h d" if "d \<in> set cs" for d
    using that region_header(3) [OF h r] upd_only_same(7) [OF h'(3), of d] h'(6)
    by (cases "d = q + nb") (auto simp: csize_def or_flags_size)
  then show ?thesis using h' by blast
qed

lemma region_suffix:
  assumes r: "fits_apart h cs q" and nb: "unat nb mod 8 = 0" "unat nb + 16 \<le> unat (csize h q)"
    and u: "upd_only h A h'" and k: "\<forall>d \<in> set cs. csize h' d = csize h d"
  shows "region h' cs (q + nb) (unat (csize h q - nb))"
  unfolding region_def
proof (intro conjI ballI)
  have qa: "chunk_at h q (unat (csize h q))" using r by (simp add: region_def)
  have us: "unat (csize h q - nb) = unat (csize h q) - unat nb" using nb(2) by (simp add: unat_sub u32_le_iff)
  have un: "unat (q + nb) = unat q + unat nb" using qa nb(2) by (simp add: chunk_at_def unat_add_u32)
  show "chunk_at h' (q + nb) (unat (csize h q - nb))"
    using upd_only_same(9) [OF u chunk_suffix [OF qa nb]] us by simp
  show "apart (unat (list_hd h')) 8 (unat (q + nb)) (unat (csize h q - nb))"
    using r un us nb(2) upd_only_same(1) [OF u] by (auto simp: region_def apart_def)
  fix d assume d: "d \<in> set cs"
  then have "apart (unat d) (unat (csize h d)) (unat q) (unat (csize h q))" using r by (simp add: region_def)
  then show "apart (unat d) (unat (csize h' d)) (unat (q + nb)) (unat (csize h q - nb))"
    using un us nb(2) k d by (auto simp: apart_def)
qed

lemma paligned_tail_ok:
  assumes h: "heap_ok h cs" and r: "fits_apart h cs q" and fl: "head_of h q AND 2 \<noteq> 0" and st: "startAddr h \<le> q"
    and n: "n = q + csize h q" "next_ok h cs n" and nb: "unat nb mod 8 = 0" "16 \<le> unat nb" "nb \<le> csize h q"
  shows "\<exists>h' cs'. paligned_tail h q nb = Some (Inr h') \<and> heap_ok h' cs' \<and> fits_apart h' cs' q \<and> nb \<le> csize h' q \<and>
    csize h' q \<le> csize h q \<and> head_of h' q AND 2 \<noteq> 0 \<and>
    upd_only h (fields h ((if csize h q > nb + 16 then [q + nb] else []) @ cs) \<union>
      {q + 4, (if csize h q > nb + 16 then q + nb else q) + 4, n + 4, if head_of h n AND 2 \<noteq> 0 then n else n + csize h n}) h'"
proof -
  have qa: "chunk_at h q (unat (csize h q))" using r by (simp add: region_def)
  have cs: "chunksize h q = Inr (csize h q)" using chunksize_eq [OF chunk_fields_mapped(2) [OF qa]] .
  have nb16: "unat (nb + 16) = unat nb + 16" using nb(3) qa by (simp add: unat_add_u32 u32_le_iff chunk_at_def)
  show ?thesis
  proof (cases "csize h q > nb + 16")
    case False
    then have "paligned_tail h q nb = Some (Inr h)" using cs by (simp add: paligned_tail_def retK_def)
    then show ?thesis using h r fl nb(3) upd_only_refl by (intro exI [of _ h] exI [of _ cs]) auto
  next
    case True
    let ?r = "q + nb" and ?rs = "csize h q - nb"
    have l: "unat nb + 16 \<le> unat (csize h q)" using True nb16 by (simp add: u32_less_iff)
    have us: "unat ?rs = unat (csize h q) - unat nb" using nb(3) by (rule unat_sub)
    have un: "unat ?r = unat q + unat nb" "unat n = unat q + unat (csize h q)"
      using qa l n(1) by (simp_all add: chunk_at_def unat_add_u32)
    have rn: "?r + ?rs = n" using n(1) by simp
    have nm: "hm h (q + csize h q + 4) \<noteq> None" "q + csize h q \<noteq> list_hd h" using n by (simp_all add: next_ok_def)
    have rs: "unat ?rs mod 8 = 0" "16 \<le> unat ?rs" using us nb(1) l csize_aligned [of h q] by (auto simp: mod_0_imp_dvd)
    obtain h1 where h1: "set_inuse h q nb = Inr h1" "heap_ok h1 cs" and u1: "upd_only h {q + 4, ?r + 4} h1"
        and c1: "csize h1 q = nb" "head_of h1 q = (head_of h q AND 1) OR 2 OR nb" "head_of h1 ?r = head_of h ?r OR 1"
          "\<forall>d \<in> set cs. csize h1 d = csize h d"
      using set_inuse_region [OF h r nb(1,2) disjI2 [OF conjI [OF refl l]] nm] by blast
    have r1: "region h1 cs ?r (unat ?rs)" by (rule region_suffix [OF r nb(1) l u1 c1(4)])
    have n1: "hm h1 (?r + ?rs + 4) \<noteq> None" "?r + ?rs \<noteq> list_hd h1"
      using upd_only_same(6) [OF u1] upd_only_same(1) [OF u1] n(2) unfolding rn by (simp_all add: next_ok_def)
    obtain h2 where h2: "set_inuse h1 ?r ?rs = Inr h2" "heap_ok h2 cs" and u2: "upd_only h1 {?r + 4, n + 4} h2"
        and c2: "csize h2 ?r = ?rs" "head_of h2 ?r = (head_of h1 ?r AND 1) OR 2 OR ?rs" "head_of h2 n = head_of h1 n OR 1"
          "\<forall>d \<in> set cs. csize h2 d = csize h1 d"
      using set_inuse_region [OF h1(2) r1 rs disjI1 [OF refl] n1] unfolding rn by blast
    have ad: "unat (q + 4) = unat q + 4" "unat (?r + 4) = unat q + unat nb + 4" "unat (n + 4) = unat q + unat (csize h q) + 4"
      using qa l un n(1) by (simp_all add: chunk_at_def unat_add_u32)
    have hn: "head_of h1 n = head_of h n" using upd_only_same(8) [OF u1, of n] ad l by (auto simp: u32_eq_iff)
    have fl2: "head_of h2 ?r AND 3 \<noteq> 1" "head_of h2 ?r AND 1 \<noteq> 0"
      using taken_flags or_one(1) unfolding c2(2) c1(3) by blast+
    have u12: "upd_only h ({q + 4, ?r + 4} \<union> {?r + 4, n + 4}) h2" by (rule upd_only_trans [OF u1 u2])
    have nx: "next_ok h2 cs n" by (rule next_ok_upd [OF n(2) u12]) (use c2(3) hn in auto)
    have r2: "fits_apart h2 cs ?r" unfolding c2(1) by (rule region_suffix [OF r nb(1) l u12]) (use c1(4) c2(4) in auto)
    have st2: "startAddr h2 \<le> ?r" using st un upd_only_same(2) [OF u12] by (auto simp: u32_le_iff)
    let ?used = "head_of h2 n AND 2 \<noteq> 0"
    have nr: "n = ?r + csize h2 ?r" using c2(1) rn by simp
    obtain h3 cs3 where h3: "free_unlocked h2 (?r + 8) = Some (Inr h3)" "heap_ok h3 cs3"
        "set cs3 = insert ?r (if ?used then set cs else set cs - {n})"
        "csize h3 ?r = csize h2 ?r + (if ?used then 0 else csize h2 n)" "\<forall>d \<in> set cs3 - {?r}. csize h3 d = csize h2 d"
        and u3: "upd_only h2 (fields h2 (?r # cs) \<union> {?r + 4, n + 4, ?r + csize h3 ?r}) h3"
      using free_block [OF h2(2) r2 fl2 st2 nr nx] by (elim exE conjE) (rule that)
    have run: "paligned_tail h q nb = Some (Inr h3)"
      using cs True h1(1) h2(1) h3(1) by (simp add: paligned_tail_def chunk2mem_def)
    have end_r: "unat q + unat nb \<le> unat (?r + csize h3 ?r)"
    proof (cases ?used)
      case True
      then show ?thesis using h3(4) nr [symmetric] un l by simp
    next
      case False
      then have "chunk_at h2 n (unat (csize h2 n))" using nx heap_ok_chunk [OF h2(2), of n] by (auto simp: next_ok_def)
      then have "unat (n + csize h2 n) = unat n + unat (csize h2 n)" by (simp add: chunk_at_def unat_add_u32)
      moreover have "?r + csize h3 ?r = n + csize h2 n" using False h3(4) nr by (simp add: add.assoc [symmetric])
      ultimately show ?thesis using un l by simp
    qed
    note ra = chunk_addrs(2,3) [OF r2 [unfolded region_def, THEN conjunct1]]
    have q4: "q + 4 \<notin> fields h2 (?r # cs) \<union> {?r + 4, n + 4, ?r + csize h3 ?r}"
    proof -
      have "q + 4 \<notin> fields h2 cs" using region_header(1) [OF h r] upd_only_same(10) [OF u12] by simp
      moreover have "q + 4 \<notin> {chunk_node ?r, chunk_node ?r + 4, ?r + 4, n + 4, ?r + csize h3 ?r}"
        using ra ad un nb(2) l end_r by (auto simp: u32_eq_iff)
      ultimately show ?thesis by (auto simp: fields_def)
    qed
    have q12: "q + 4 \<notin> {?r + 4, n + 4}" using ad nb(2) l by (auto simp: u32_eq_iff)
    have sq: "csize h3 q = nb" "head_of h3 q = (head_of h q AND 1) OR 2 OR nb"
      using upd_only_same(7,8) [OF u3 q4] upd_only_same(7,8) [OF u2 q12] c1(1,2) by simp_all
    have "fits_apart h3 cs3 q"
      unfolding region_def sq(1)
    proof (intro conjI ballI)
      have "chunk_at h q (unat nb)" using qa nb l by (auto simp: chunk_at_def)
      then show "chunk_at h3 q (unat nb)" using upd_only_same(9) [OF upd_only_trans [OF u12 u3]] by blast
      show "apart (unat (list_hd h3)) 8 (unat q) (unat nb)"
        using r l upd_only_same(1) [OF u12] upd_only_same(1) [OF u3] by (auto simp: region_def apart_def)
      fix d assume d: "d \<in> set cs3"
      show "apart (unat d) (unat (csize h3 d)) (unat q) (unat nb)"
      proof (cases "d = ?r")
        case True
        then show ?thesis using un by (simp add: apart_def)
      next
        case False
        then have "d \<in> set cs" "csize h3 d = csize h d" using d h3(3,5) c1(4) c2(4) by (auto split: if_splits)
        then show ?thesis using r l by (auto simp: region_def apart_def)
      qed
    qed
    moreover have "head_of h3 q AND 2 \<noteq> 0" unfolding sq(2) by (rule or_flags_inuse)
    moreover have "upd_only h (fields h ((q + nb) # cs) \<union> {q + 4, ?r + 4, n + 4, if head_of h n AND 2 \<noteq> 0 then n else n + csize h n}) h3"
    proof (rule upd_only_mono [OF upd_only_trans [OF u12 u3]])
      have "csize h2 n = csize h n" "head_of h2 n AND 2 = head_of h n AND 2"
        using c2(3) hn or_one(2) by (simp_all add: csize_def or_flags_size)
      then have "?r + csize h3 ?r = (if head_of h n AND 2 \<noteq> 0 then n else n + csize h n)"
        using h3(4) nr by (simp add: add.assoc [symmetric])
      then show "{q + 4, ?r + 4} \<union> {?r + 4, n + 4} \<union> (fields h2 (?r # cs) \<union> {?r + 4, n + 4, ?r + csize h3 ?r})
          \<subseteq> fields h (?r # cs) \<union> {q + 4, ?r + 4, n + 4, if head_of h n AND 2 \<noteq> 0 then n else n + csize h n}"
        unfolding upd_only_same(10) [OF u12] by blast
    qed
    ultimately show ?thesis using run h3(2) sq(1) True nb(3) by (intro exI [of _ h3] exI [of _ cs3]) simp
  qed
qed

section \<open>The whole allocation\<close>

lemma lead_position:
  assumes c: "unat c mod 8 = 0" "unat c + 4128 \<le> 4294967296" and m: "(c + 8) mod PAGE_SIZE \<noteq> 0"
  defines "br \<equiv> mem2chunk (((c + 8) AND - PAGE_SIZE) + PAGE_SIZE)"
  defines "pos \<equiv> if br - c \<ge> MIN_CHUNK_SIZE then br else br + PAGE_SIZE"
  shows "unat (pos - c) mod 8 = 0" "16 \<le> unat (pos - c)" "unat (pos - c) \<le> 4104" "(pos + 8) mod PAGE_SIZE = 0"
    "unat pos = unat c + unat (pos - c)"
proof -
  define D m where "D = unat (c + 8) div 4096" and "m = unat (c + 8) mod 4096"
  have c8: "unat (c + 8) = unat c + 8" using c(2) by (simp add: unat_add_u32)
  have e: "unat c + 8 = D * 4096 + m" unfolding D_def m_def c8 [symmetric] by (simp only: div_mult_mod_eq)
  have "m mod 8 = (unat c + 8) mod 8" unfolding m_def c8 by (rule mod_mod_cancel) simp
  then have m8: "m mod 8 = 0" using c(1) by simp
  have m0: "m \<noteq> 0" using m by (simp add: m_def PAGE_SIZE_def u32_eq_iff unat_mod)
  have mb: "8 \<le> m" "m \<le> 4088"
  proof -
    have "m < 4096" by (simp add: m_def)
    then show "8 \<le> m" "m \<le> 4088" using m8 m0 by presburger+
  qed
  have neg: "- PAGE_SIZE = 0xFFFFF000" and P: "unat PAGE_SIZE = 4096" by (simp_all add: PAGE_SIZE_def)
  have b: "unat ((c + 8) AND - PAGE_SIZE) = D * 4096" unfolding neg unat_and_page D_def ..
  have X: "unat (((c + 8) AND - PAGE_SIZE) + PAGE_SIZE) = D * 4096 + 4096"
    using b P e mb c(2) by (subst unat_add_u32) simp_all
  have br: "unat br = D * 4096 + 4088"
    unfolding br_def mem2chunk_def by (subst unat_sub) (unfold u32_le_iff X, simp_all)
  have le: "c \<le> br" using br e mb by (simp add: u32_le_iff)
  have d: "unat (br - c) = 4096 - m" unfolding unat_sub [OF le] using br e mb by simp
  have "unat pos = unat c + unat (pos - c) \<and> unat (pos - c) mod 8 = 0 \<and> 16 \<le> unat (pos - c) \<and> unat (pos - c) \<le> 4104 \<and>
    unat (pos + 8) mod 4096 = 0"
  proof (cases "16 \<le> 4096 - m")
    case True
    then have p: "pos = br" using d by (simp add: pos_def u32_le_iff)
    have "unat (br + 8) = (D + 1) * 4096" using br e mb c(2) by (subst unat_add_u32) simp_all
    moreover have "(4096 - m) mod 8 = 0" using m8 mb by (simp add: mod_0_imp_dvd)
    moreover have "D * 4096 + 4088 = unat c + (4096 - m)" "4096 - m \<le> 4104" using e mb by linarith+
    ultimately show ?thesis unfolding p d br using True by simp
  next
    case False
    then have m: "m = 4088" using mb m8 by presburger
    have p: "pos = br + 4096" using d False by (simp add: pos_def u32_le_iff PAGE_SIZE_def)
    have up: "unat pos = unat c + 4104" unfolding p using br e m c(2) by (subst unat_add_u32) simp_all
    have "c \<le> pos" using up by (simp add: u32_le_iff)
    then have "unat (pos - c) = 4104" using up by (simp add: unat_sub)
    moreover have "unat (pos + 8) = (D + 2) * 4096" using up e m c(2) by (subst unat_add_u32) simp_all
    ultimately show ?thesis using up by simp
  qed
  then show "unat (pos - c) mod 8 = 0" "16 \<le> unat (pos - c)" "unat (pos - c) \<le> 4104" "(pos + 8) mod PAGE_SIZE = 0"
    "unat pos = unat c + unat (pos - c)" by (simp_all add: PAGE_SIZE_def u32_eq_iff unat_mod)
qed

lemma paligned_lead_cut:
  assumes m: "mem mod PAGE_SIZE \<noteq> 0" and s: "chunksize h c = Inr (csize h c)"
    and p: "p = (let br = mem2chunk ((mem AND - PAGE_SIZE) + PAGE_SIZE) in if br - c \<ge> MIN_CHUNK_SIZE then br else br + PAGE_SIZE)"
  shows "paligned_lead h mem c = bindK (cut_lead h c (p - c)) (\<lambda>h. retK (p, h))"
proof -
  have "paligned_lead h mem c = bindK (Some (set_inuse h p (csize h c - (p - c)))) (\<lambda>h.
      bindK (Some (set_size_and_pinuse h c (p - c))) (\<lambda>h. bindK (Some (put_prevFoot h p (p - c))) (\<lambda>h.
      bindK (insertChunk h c) (\<lambda>h. retK (p, h)))))"
    using m s unfolding paligned_lead_def p Let_def by simp
  also have "\<dots> = bindK (cut_lead h c (p - c)) (\<lambda>h. retK (p, h))"
  proof -
    have "c + (p - c) = p" by simp
    then show ?thesis unfolding cut_lead_def by (auto simp: bindK_def split: option.splits sum.splits)
  qed
  finally show ?thesis .
qed

lemma paligned_lead_ok:
  assumes h: "heap_ok h cs" and r: "fits_apart h cs c" and fl: "head_of h c AND 2 \<noteq> 0" and st: "startAddr h \<le> c"
    and n: "n = c + csize h c" "next_ok h cs n" and nb: "16 \<le> unat nb" "unat nb + 4112 \<le> unat (csize h c)"
  shows "\<exists>q h' cs'. paligned_lead h (c + 8) c = Some (Inr (q, h')) \<and> heap_ok h' cs' \<and> fits_apart h' cs' q \<and>
    head_of h' q AND 2 \<noteq> 0 \<and> (q + 8) mod PAGE_SIZE = 0 \<and> c \<le> q \<and> n = q + csize h' q \<and> next_ok h' cs' n \<and> nb \<le> csize h' q \<and>
    unat q + unat (csize h' q) = unat c + unat (csize h c) \<and> set cs' \<subseteq> insert c (set cs) \<and>
    upd_only h (fields h (c # cs) \<union> {c + 4, q, q + 4, n + 4}) h' \<and> (head_of h' n AND 2 = head_of h n AND 2) \<and> csize h' n = csize h n"
proof (cases "(c + 8) mod PAGE_SIZE \<noteq> 0")
  case False
  have "nb \<le> csize h c" using nb(2) by (simp add: u32_le_iff)
  then show ?thesis using False h r fl n upd_only_refl
    by (intro exI [of _ c] exI [of _ h] exI [of _ cs]) (auto simp: paligned_lead_def retK_def)
next
  case True
  define br where "br = mem2chunk (((c + 8) AND - PAGE_SIZE) + PAGE_SIZE)"
  define p where "p = (if br - c \<ge> MIN_CHUNK_SIZE then br else br + PAGE_SIZE)"
  let ?s = "csize h c" and ?L = "p - c"
  have ca: "chunk_at h c (unat ?s)" using r by (simp add: region_def)
  have c8: "unat c mod 8 = 0" "unat c + 4128 \<le> 4294967296" using ca nb by (auto simp: chunk_at_def)
  note L = lead_position [OF c8 True, folded br_def, folded p_def]
  have cL: "c + ?L = p" by simp
  have Ls: "unat ?L + 16 \<le> unat ?s" using L(3) nb by linarith
  have nx: "hm h (n + 4) \<noteq> None" "n \<noteq> list_hd h" using n(2) by (simp_all add: next_ok_def)
  obtain h1 cs1 where h1: "cut_lead h c ?L = Some (Inr h1)" "heap_ok h1 cs1" "set cs1 = insert c (set cs)" "fits_apart h1 cs1 p"
      "csize h1 p = ?s - ?L" "head_of h1 p AND 2 \<noteq> 0" "head_of h1 n = head_of h n OR 1"
      and u: "upd_only h (fields h (c # cs) \<union> {c + 4, p, p + 4, n + 4}) h1"
    using cut_lead_ok [OF h r L(1,2) Ls n(1) nx] unfolding cL by blast
  have us: "unat (?s - ?L) = unat ?s - unat ?L" using Ls by (simp add: unat_sub u32_le_iff)
  have run: "paligned_lead h (c + 8) c = Some (Inr (p, h1))"
  proof -
    have "p = (let br = mem2chunk (((c + 8) AND - PAGE_SIZE) + PAGE_SIZE) in if br - c \<ge> MIN_CHUNK_SIZE then br else br + PAGE_SIZE)"
      by (simp only: Let_def p_def br_def)
    from paligned_lead_cut [OF True chunksize_eq [OF chunk_fields_mapped(2) [OF ca]] this] h1(1)
    show ?thesis by (simp add: retK_def)
  qed
  have "n = p + csize h1 p" unfolding h1(5) n(1) by simp
  moreover have "next_ok h1 cs1 n" by (rule next_ok_upd [OF n(2) u]) (use h1(3,7) in auto)
  moreover have "nb \<le> csize h1 p" "unat p + unat (csize h1 p) = unat c + unat ?s" "c \<le> p"
    unfolding h1(5) u32_le_iff us using L(3,5) nb Ls by auto
  moreover have "head_of h1 n AND 2 = head_of h n AND 2" "csize h1 n = csize h n"
    using h1(7) or_one(2) by (simp_all add: csize_def or_flags_size)
  ultimately show ?thesis using run h1 L(4) u by (intro exI [of _ p] exI [of _ h1] exI [of _ cs1]) blast
qed

definition paligned_request :: "u32 \<Rightarrow> u32" where
  "paligned_request sz = request2size sz + PAGE_SIZE + MIN_CHUNK_SIZE - CHUNK_OVERHEAD"

lemma paligned_request_ok:
  assumes "unat sz + 8192 < 4294967296"
  shows "unat (paligned_request sz) + 11 < 4294967296" "unat (request2size sz) + 4112 \<le> unat (request2size (paligned_request sz))"
    "unat (paligned_request sz) = unat (request2size sz) + 4108"
proof -
  have s: "unat sz + 11 < 4294967296" using assms by simp
  have b: "unat (request2size sz) \<le> max 16 (unat sz + 11)" by (rule request2size_ok(4) [OF s])
  have "paligned_request sz = request2size sz + 4108"
    by (simp add: paligned_request_def PAGE_SIZE_def CHUNK_OVERHEAD_def)
  then show u: "unat (paligned_request sz) = unat (request2size sz) + 4108"
    using b assms by (simp add: unat_add_u32)
  show r: "unat (paligned_request sz) + 11 < 4294967296" using u b assms by simp
  show "unat (request2size sz) + 4112 \<le> unat (request2size (paligned_request sz))"
    using request2size_ok(3) [OF r] u by simp
qed

lemma palignedAlloc_stages:
  assumes "heap_alloc h (paligned_request sz) = Some (Inr (c + 8, h1))" "c + 8 \<noteq> 0"
    and "paligned_lead h1 (c + 8) c = Some (Inr (q, h2))" "paligned_tail h2 q (request2size sz) = Some (Inr h3)"
    and "hm h3 (q + 4) \<noteq> None" "request2size sz \<le> csize h3 q" "(q + 8) mod PAGE_SIZE = 0" "head_of h3 q AND 2 \<noteq> 0"
  shows "palignedAlloc h sz = Some (Inr (q + 8, h3))"
  using assms(1-4,6,7,8) head_reads(2,4) [OF assms(5)]
  by (simp add: palignedAlloc_def palignedAlloc_unlocked_def paligned_request_def heap_alloc_def mem2chunk_def chunk2mem_def
      Let_def retK_def)

text \<open>The dwords behind a free chunk, and those of the free chunks and the list head.\<close>

definition heap_dword :: "heap \<Rightarrow> u32 list \<Rightarrow> u32 \<Rightarrow> bool" where
  "heap_dword h cs a \<longleftrightarrow> in_free h cs a \<or> a \<in> {list_hd h, list_hd h + 4} \<or>
     (\<exists>d \<in> set cs. a = d + csize h d \<or> a = d + csize h d + 4)"

lemma aligned_frame:
  assumes h: "heap_ok h (ys @ c # zs)" and a: "\<not> heap_dword h (ys @ c # zs) a"
    and n: "(unat c \<le> unat n \<and> unat n + 16 \<le> unat c + unat (csize h c)) \<and> e = c + csize h c \<or> n = c + csize h c \<and> e = n"
    and ps: "set ps \<subseteq> {p. unat c \<le> unat p \<and> unat p + 16 \<le> unat c + unat (csize h c)} \<union> set (ys @ zs)"
  shows "a \<notin> fields h ps \<union> {n + 4, e}"
    "unat c \<le> unat p \<and> unat p + 16 \<le> unat c + unat (csize h c) \<Longrightarrow> a \<noteq> p \<and> a \<noteq> p + 4"
proof -
  have ca: "chunk_at h c (unat (csize h c))" using heap_ok_chunk [OF h, of c] by simp
  have out: "\<not> (unat c \<le> unat a \<and> unat a < unat c + unat (csize h c))" "a \<noteq> list_hd h" "a \<noteq> list_hd h + 4"
    "a \<noteq> c + csize h c" "a \<noteq> c + csize h c + 4"
    using a by (auto simp: heap_dword_def in_free_def)
  have in_p: "a \<noteq> p + k" if "unat c \<le> unat p \<and> unat p + 16 \<le> unat c + unat (csize h c)" "unat k < 16" for p k
    using that out(1) ca unat_add_u32 [of p k] by (auto simp: chunk_at_def)
  show "unat c \<le> unat p \<and> unat p + 16 \<le> unat c + unat (csize h c) \<Longrightarrow> a \<noteq> p \<and> a \<noteq> p + 4"
    using in_p [of p 0] in_p [of p 4] by simp
  have "a \<notin> fields h (ys @ c # zs)" using fields_in_free [OF h, of a] a by (auto simp: heap_dword_def)
  then have fs: "a \<noteq> chunk_node d \<and> a \<noteq> chunk_node d + 4" if "d \<in> set (ys @ zs)" for d using that by (auto simp: fields_def)
  have "a \<noteq> chunk_node d \<and> a \<noteq> chunk_node d + 4" if "d \<in> set ps" for d
    using that ps fs [of d] in_p [of d 8] in_p [of d 12] by (auto simp: chunk_node_def add.assoc)
  then have "a \<notin> fields h ps" using out(2,3) by (auto simp: fields_def)
  then show "a \<notin> fields h ps \<union> {n + 4, e}" using n out(4,5) in_p [of n 4] by auto
qed

lemma taken_end:
  assumes h: "heap_ok h (ys @ c # zs)" and cc: "closed_chunk h c" and nb: "unat nb mod 8 = 0" "nb \<le> csize h c"
    and whole: "unat nb + 16 \<le> unat (csize h c) \<or> c + csize h c \<noteq> endAddr h"
    and rem: "remainder_ok h h1 c nb (ys @ zs) cs1" and n: "n = c + csize h1 c"
  shows "(unat c \<le> unat n \<and> unat n + 16 \<le> unat c + unat (csize h c)) \<and>
      (if head_of h1 n AND 2 \<noteq> 0 then n else n + csize h1 n) = c + csize h c \<and> set cs1 = insert n (set (ys @ zs)) \<or>
    n = c + csize h c \<and> (if head_of h1 n AND 2 \<noteq> 0 then n else n + csize h1 n) = n \<and> set cs1 = set (ys @ zs)"
proof (cases "unat nb + 16 \<le> unat (csize h c)")
  case True
  have ca: "chunk_at h c (unat (csize h c))" using heap_ok_chunk [OF h, of c] by simp
  have "unat (csize h c - nb) = unat (csize h c) - unat nb" using nb(2) by (rule unat_sub)
  then have "unat (csize h c - nb) mod 8 = 0" using nb(1) csize_aligned [of h c] by (simp add: mod_0_imp_dvd)
  note size_flags(1) [OF this]
  moreover have "csize h1 c = nb" "set cs1 = insert n (set (ys @ zs))" "csize h1 n = csize h c - nb" "head_of h1 n = (csize h c - nb) OR 1"
    using rem True n by (simp_all add: remainder_ok_def)
  moreover have "unat (c + nb) = unat c + unat nb" using ca True by (simp add: chunk_at_def unat_add_u32)
  ultimately show ?thesis using n True by simp
next
  case False
  then have "head_of h (c + csize h c) AND 2 \<noteq> 0" using whole cc by (auto simp: closed_chunk_def Let_def)
  from used_flags(1) [OF this] show ?thesis using rem False n by (simp add: remainder_ok_def)
qed

lemma palignedAlloc_ok:
  assumes h: "heap_ok h cs" and sz: "unat sz + 8192 < 4294967296"
    and fit: "\<exists>d \<in> set cs. request2size (paligned_request sz) \<le> csize h d" and closed: "\<forall>d \<in> set cs. closed_chunk h d"
    and last: "\<forall>d \<in> set cs. request2size (paligned_request sz) \<le> csize h d \<longrightarrow> d + csize h d = endAddr h \<longrightarrow>
      unat (request2size (paligned_request sz)) + 16 \<le> unat (csize h d)"
  shows "\<exists>q h' cs'. palignedAlloc h sz = Some (Inr (q + 8, h')) \<and> (q + 8) mod PAGE_SIZE = 0 \<and> heap_ok h' cs' \<and>
    fits_apart h' cs' q \<and> request2size sz \<le> csize h' q \<and> head_of h' q AND 2 \<noteq> 0 \<and>
    (\<exists>d \<in> set cs. unat d \<le> unat q \<and> unat q + unat (csize h' q) \<le> unat d + unat (csize h d)) \<and>
    startAddr h' = startAddr h \<and> endAddr h' = endAddr h \<and> list_hd h' = list_hd h \<and> hvmm h' = hvmm h \<and>
    (\<forall>a. \<not> heap_dword h cs a \<longrightarrow> hm h' a = hm h a)"
proof -
  let ?nb = "request2size sz" and ?r = "request2size (paligned_request sz)"
  note pr = paligned_request_ok [OF sz]
  note rq = request2size_ok [OF pr(1)]
  have nb: "unat ?nb mod 8 = 0" "16 \<le> unat ?nb" using request2size_ok(1,2) [of sz] sz by auto
  have room: "\<forall>d \<in> set cs. ?r \<le> csize h d \<longrightarrow> unat ?r + 16 \<le> unat (csize h d) \<or>
      hm h (d + csize h d + 4) \<noteq> None \<and> d + csize h d \<noteq> list_hd h"
    using closed last by (auto simp: closed_chunk_def Let_def)
  obtain c ys zs h1 cs1 where cs: "cs = ys @ c # zs" and al: "heap_alloc h (paligned_request sz) = Some (Inr (c + 8, h1))"
    and rc: "?r \<le> csize h c" and ok: "heap_ok h1 cs1" and rem: "remainder_ok h h1 c ?r (ys @ zs) cs1"
    and reg: "fits_apart h1 cs1 c" and hd: "head_of h1 c = (head_of h c AND 1) OR 2 OR csize h1 c"
    and big: "?r \<le> csize h1 c" "csize h1 c \<le> csize h c"
    and u1: "upd_only h (fields h ((if unat ?r + 16 \<le> unat (csize h c) then [c + ?r] else []) @ ys @ zs) \<union>
      {c + 4, c + csize h1 c + 4}) h1"
    by (rule heap_alloc_taken [OF h pr(1) fit room]) blast
  have hs: "heap_ok h (ys @ c # zs)" using h cs by simp
  have cc: "closed_chunk h c" "unat ?r + 16 \<le> unat (csize h c) \<or> c + csize h c \<noteq> endAddr h"
    using closed last cs rc by auto
  define n where "n = c + csize h1 c"
  have nx: "next_ok h1 cs1 n" unfolding n_def by (rule taken_next [OF hs cc(1) rq(1,2) rc cc(2) ok rem u1])
  have fl: "head_of h1 c AND 2 \<noteq> 0" unfolding hd by (rule or_flags_inuse)
  have st: "startAddr h1 \<le> c" using cc(1) upd_only_same(2) [OF u1] by (simp add: closed_chunk_def Let_def)
  have lead_room: "unat ?nb + 4112 \<le> unat (csize h1 c)" using pr(2) big(1) by (simp add: u32_le_iff)
  obtain q h2 cs2 where q: "paligned_lead h1 (c + 8) c = Some (Inr (q, h2))" "heap_ok h2 cs2" "fits_apart h2 cs2 q"
      "head_of h2 q AND 2 \<noteq> 0" "(q + 8) mod PAGE_SIZE = 0" "c \<le> q" "n = q + csize h2 q" "next_ok h2 cs2 n" "?nb \<le> csize h2 q"
      "unat q + unat (csize h2 q) = unat c + unat (csize h1 c)" "set cs2 \<subseteq> insert c (set cs1)"
      and u2: "upd_only h1 (fields h1 (c # cs1) \<union> {c + 4, q, q + 4, n + 4}) h2"
      and hn: "head_of h2 n AND 2 = head_of h1 n AND 2" "csize h2 n = csize h1 n"
    using paligned_lead_ok [OF ok reg fl st n_def nx nb(2) lead_room] by (elim exE conjE) (rule that)
  have stq: "startAddr h2 \<le> q" using st q(6) upd_only_same(2) [OF u2] by simp
  obtain h3 cs3 where t: "paligned_tail h2 q ?nb = Some (Inr h3)" "heap_ok h3 cs3" "fits_apart h3 cs3 q" "?nb \<le> csize h3 q"
      "csize h3 q \<le> csize h2 q" "head_of h3 q AND 2 \<noteq> 0"
      and u3: "upd_only h2 (fields h2 ((if csize h2 q > ?nb + 16 then [q + ?nb] else []) @ cs2) \<union>
        {q + 4, (if csize h2 q > ?nb + 16 then q + ?nb else q) + 4, n + 4, if head_of h2 n AND 2 \<noteq> 0 then n else n + csize h2 n}) h3"
    using paligned_tail_ok [OF q(2,3,4) stq q(7,8) nb q(9)] by (elim exE conjE) (rule that)
  have ca: "chunk_at h c (unat (csize h c))" using heap_ok_chunk [OF hs, of c] by simp
  have c8: "c + 8 \<noteq> 0" using chunk_addrs(2,5) [OF ca] by (auto simp: node_def chunk_node_def)
  have run: "palignedAlloc h sz = Some (Inr (q + 8, h3))"
    by (rule palignedAlloc_stages [OF al c8 q(1) t(1) _ t(4) q(5) t(6)])
      (use chunk_fields_mapped(2) t(3) in \<open>auto simp: region_def\<close>)
  have le: "unat (csize h1 c) \<le> unat (csize h c)" "unat (csize h3 q) \<le> unat (csize h2 q)" "unat c \<le> unat q"
    using big(2) t(5) q(6) by (simp_all add: u32_le_iff)
  let ?in = "\<lambda>p. unat c \<le> unat p \<and> unat p + 16 \<le> unat c + unat (csize h c)"
  let ?e = "if head_of h2 n AND 2 \<noteq> 0 then n else n + csize h2 n"
  have n_cases: "?in n \<and> ?e = c + csize h c \<and> set cs1 = insert n (set (ys @ zs)) \<or>
      n = c + csize h c \<and> ?e = n \<and> set cs1 = set (ys @ zs)"
    unfolding hn by (rule taken_end [OF hs cc(1) rq(1) rc cc(2) rem n_def])
  have qin: "?in q" using q(9,10) nb(2) le(1,3) by (auto simp: u32_le_iff)
  have rin: "?in (q + ?nb)" if "csize h2 q > ?nb + 16"
  proof -
    have b: "unat c + unat (csize h c) + 8 \<le> 4294967296" using ca by (simp add: chunk_at_def)
    have "unat ?nb \<le> unat (csize h2 q)" using q(9) by (simp add: u32_le_iff)
    then have "unat ?nb + 16 < 4294967296" using le(1) lead_room b by linarith
    then have "unat ?nb + 16 < unat (csize h2 q)" using that by (simp add: u32_less_iff unat_add_u32)
    moreover from this have "unat (q + ?nb) = unat q + unat ?nb" using q(10) le(1) b by (intro unat_add_u32) linarith
    ultimately show ?thesis using q(10) le(1,3) by linarith
  qed
  have cin: "?in c" using ca by (simp add: chunk_at_def)
  have ne: "?in n \<and> ?e = c + csize h c \<or> n = c + csize h c \<and> ?e = n" using n_cases by blast
  have ps1: "set (c # cs1) \<subseteq> {p. ?in p} \<union> set (ys @ zs)" using n_cases cin by auto
  have ps2: "set ((if csize h2 q > ?nb + 16 then [q + ?nb] else []) @ cs2) \<subseteq> {p. ?in p} \<union> set (ys @ zs)"
    using ps1 q(11) rin by (auto split: if_splits)
  have frame: "hm h3 a = hm h a" if a: "\<not> heap_dword h cs a" for a
  proof -
    have a': "\<not> heap_dword h (ys @ c # zs) a" "\<not> in_free h (ys @ c # zs) a" "a \<notin> {list_hd h, list_hd h + 4, c + csize h c + 4}"
      using a cs by (auto simp: heap_dword_def)
    have k: "csize h1 c = (if unat ?r + 16 \<le> unat (csize h c) then ?r else csize h c)" using rem by (simp add: remainder_ok_def)
    have 1: "hm h1 a = hm h a" by (rule upd_only_same(5) [OF u1 alloc_frame [OF hs a'(2,3) rq(1,2) k]])
    note fr = aligned_frame [OF hs a'(1) ne]
    have "a \<notin> fields h1 (c # cs1) \<union> {c + 4, q, q + 4, n + 4}"
      unfolding upd_only_same(10) [OF u1] using fr(1) [OF ps1] fr(2) [OF ps1 cin] fr(2) [OF ps1 qin] by blast
    then have 2: "hm h2 a = hm h1 a" by (rule upd_only_same(5) [OF u2])
    have "a \<notin> fields h2 ((if csize h2 q > ?nb + 16 then [q + ?nb] else []) @ cs2) \<union>
        {q + 4, (if csize h2 q > ?nb + 16 then q + ?nb else q) + 4, n + 4, ?e}"
      unfolding upd_only_same(10) [OF u2] upd_only_same(10) [OF u1]
      using fr(1) [OF ps2] fr(2) [OF ps1 qin] fr(2) [OF ps1 rin] by (cases "csize h2 q > ?nb + 16") auto
    then have "hm h3 a = hm h2 a" by (rule upd_only_same(5) [OF u3])
    then show ?thesis using 1 2 by simp
  qed
  show ?thesis
    using run q(5) t frame le q(10) cs upd_only_same(1-4) [OF u1] upd_only_same(1-4) [OF u2] upd_only_same(1-4) [OF u3]
    by (intro exI [of _ q] exI [of _ h3] exI [of _ cs3] conjI bexI [of _ c]) auto
qed

text \<open>
  Property C14 (functional): \<^verbatim>\<open>Heap::palignedAlloc\<close> on a free list with a chunk for the request and a
  page (and the chunks around the free ones in use) ends without tripping an assertion and
  returns a page-aligned block inside one of the free chunks, marked in use, with room for the
  request and its overhead and apart from every chunk that is free afterwards; the free list is
  well formed again, the bounds and the page tables stay, and every dword that belongs to
  neither a free chunk, the list head nor the header behind a free chunk keeps its value.
\<close>

theorem palignedAlloc_page_aligned:
  assumes "heap_ok h cs" and sz: "unat sz + 8192 < 4294967296"
    and "\<exists>d \<in> set cs. request2size (paligned_request sz) \<le> csize h d" and "\<forall>d \<in> set cs. closed_chunk h d"
    and "\<forall>d \<in> set cs. request2size (paligned_request sz) \<le> csize h d \<longrightarrow> d + csize h d = endAddr h \<longrightarrow>
      unat (request2size (paligned_request sz)) + 16 \<le> unat (csize h d)"
  shows "\<exists>q h' cs'. palignedAlloc h sz = Some (Inr (q + 8, h')) \<and> unat (q + 8) mod 4096 = 0 \<and>
    unat sz + 4 \<le> unat (csize h' q) \<and> cinuse h' q = Inr True \<and>
    (\<exists>d \<in> set cs. unat d \<le> unat q \<and> unat q + unat (csize h' q) \<le> unat d + unat (csize h d)) \<and>
    heap_ok h' cs' \<and> (\<forall>d \<in> set cs'. apart (unat q) (unat (csize h' q)) (unat d) (unat (csize h' d))) \<and>
    startAddr h' = startAddr h \<and> endAddr h' = endAddr h \<and> hvmm h' = hvmm h \<and>
    (\<forall>a. \<not> heap_dword h cs a \<longrightarrow> hm h' a = hm h a)"
proof -
  obtain q h' cs' where r: "palignedAlloc h sz = Some (Inr (q + 8, h'))" "(q + 8) mod PAGE_SIZE = 0" "heap_ok h' cs'"
      "fits_apart h' cs' q" "request2size sz \<le> csize h' q" "head_of h' q AND 2 \<noteq> 0"
      "\<exists>d \<in> set cs. unat d \<le> unat q \<and> unat q + unat (csize h' q) \<le> unat d + unat (csize h d)"
      "startAddr h' = startAddr h" "endAddr h' = endAddr h" "hvmm h' = hvmm h" "\<forall>a. \<not> heap_dword h cs a \<longrightarrow> hm h' a = hm h a"
    using palignedAlloc_ok [OF assms] by (elim exE conjE) (rule that)
  have "chunk_at h' q (unat (csize h' q))" using r(4) by (simp add: region_def)
  then have "cinuse h' q = Inr True" using head_reads(2) chunk_fields_mapped(2) r(6) by simp
  moreover have "unat (q + 8) mod 4096 = 0" using r(2) by (simp add: PAGE_SIZE_def u32_eq_iff unat_mod)
  moreover have "unat sz + 4 \<le> unat (csize h' q)" using request2size_ok(3) [of sz] sz r(5) by (auto simp: u32_le_iff)
  moreover have "\<forall>d \<in> set cs'. apart (unat q) (unat (csize h' q)) (unat d) (unat (csize h' d))"
    using r(4) by (simp add: region_def apart_sym)
  ultimately show ?thesis using r by (intro exI [of _ q] exI [of _ h'] exI [of _ cs']) simp
qed

text \<open>A stack of one page from the heap with sixteen free pages.\<close>

theorem palignedAlloc_page_aligned_witness:
  "\<exists>q h' cs'. palignedAlloc example_heap_mid 4096 = Some (Inr (q + 8, h')) \<and> unat (q + 8) mod 4096 = 0 \<and> heap_ok h' cs'"
proof -
  have "request2size (paligned_request 4096) = 8216" by code_simp
  then show ?thesis
    using palignedAlloc_page_aligned [OF example_heap_mid_ok(1) _ _ example_heap_mid_ok(2), of 4096] example_heap_mid_ok(3,4)
    by fastforce
qed

text \<open>
  The flag of the aligned block that tells whether its predecessor is in use is not written: it
  is whatever the memory held, although the chunk before it has just become free.
\<close>

theorem lead_flag_is_stale:
  assumes "heap_ok h cs" "fits_apart h cs c" "unat L mod 8 = 0" "16 \<le> unat L" "unat L + 16 \<le> unat (csize h c)"
    and "hm h (c + csize h c + 4) \<noteq> None" "c + csize h c \<noteq> list_hd h"
  shows "\<exists>h' cs'. cut_lead h c L = Some (Inr h') \<and> c \<in> set cs' \<and> heap_ok h' cs' \<and>
    (head_of h' (c + L) AND 1 = head_of h (c + L) AND 1)"
proof -
  obtain h' cs' where r: "cut_lead h c L = Some (Inr h')" "heap_ok h' cs'" "set cs' = insert c (set cs)"
      "head_of h' (c + L) = (head_of h (c + L) AND 1) OR 2 OR (csize h c - L)"
    using cut_lead_ok [OF assms(1-5) refl assms(6,7)] by blast
  have "unat (csize h c - L) = unat (csize h c) - unat L" using assms(5) by (simp add: unat_sub u32_le_iff)
  then have "unat (csize h c - L) mod 8 = 0" using assms(3) csize_aligned [of h c] by (simp add: mod_0_imp_dvd)
  then have "(csize h c - L) AND - 8 = csize h c - L" by (rule and_m8_aligned)
  moreover have "((csize h c - L) AND - 8) AND 1 = 0" by (simp add: and.assoc)
  ultimately have "(csize h c - L) AND 1 = 0" by simp
  then have "head_of h' (c + L) AND 1 = head_of h (c + L) AND 1" unfolding r(4) by (simp add: bit.conj_disj_distrib2 and.assoc)
  then show ?thesis using r by auto
qed

end
