(* ===== verification/Static_Array.thy ===== *)
theory Static_Array
  imports Kernel_Prelude
begin

text \<open>
  \<^verbatim>\<open>klibcpp/static_slot.hpp\<close>, \<^verbatim>\<open>klibcpp/static_array.hpp\<close> and \<^verbatim>\<open>klibcpp/slot_iterator.hpp\<close>: one
  object in embedded storage, a fixed array of such slots with a cached count of live
  objects, and the iterator that skips the empty slots. The scheduler keeps its tasks, the
  linker its layouts, the module manager its modules and the APIC code its tables in them.

  A slot's \<^verbatim>\<open>ptr_\<close> is \<open>slot_ptr\<close>: nothing for \<^verbatim>\<open>nullptr\<close>, otherwise the object that lives in the
  slot's storage. \<^verbatim>\<open>N\<close> is the number of slots. A reference or pointer to an element is the
  number of its slot. Destructors run where the code runs them: an operation that destroys
  an object returns it, so that its owner can run what the destructor does.
\<close>

section \<open>StaticSlot\<close>

record 'a static_slot =
  slot_ptr :: "'a option"
  constructed :: bool

definition empty_slot :: "'a static_slot" where
  "empty_slot = \<lparr>slot_ptr = None, constructed = False\<rparr>"

definition slot_construct :: "'a static_slot \<Rightarrow> 'a \<Rightarrow> 'a static_slot kres" where
  "slot_construct s x =
     (if constructed s then Inl (Panic ''StaticSlot::construct(): already constructed'')
      else Inr (s\<lparr>slot_ptr := Some x, constructed := True\<rparr>))"

definition slot_destruct :: "'a static_slot \<Rightarrow> ('a \<times> 'a static_slot) kres" where
  "slot_destruct s =
     (if \<not> constructed s then Inl (Panic ''StaticSlot::destruct(): not constructed'')
      else case slot_ptr s of
        None \<Rightarrow> Inl Undefined
      | Some x \<Rightarrow> Inr (x, s\<lparr>slot_ptr := None, constructed := False\<rparr>))"

definition slot_reconstruct :: "'a static_slot \<Rightarrow> 'a \<Rightarrow> ('a option \<times> 'a static_slot) kres" where
  "slot_reconstruct s x =
     (if constructed s
      then bindR (slot_destruct s) (\<lambda>(old, s'). bindR (slot_construct s' x) (\<lambda>s''. Inr (Some old, s'')))
      else bindR (slot_construct s x) (\<lambda>s'. Inr (None, s')))"

definition slot_try_destruct :: "'a static_slot \<Rightarrow> (bool \<times> 'a option \<times> 'a static_slot) kres" where
  "slot_try_destruct s =
     (if \<not> constructed s then Inr (False, None, s)
      else case slot_ptr s of
        None \<Rightarrow> Inl Undefined
      | Some x \<Rightarrow> Inr (True, Some x, s\<lparr>slot_ptr := None, constructed := False\<rparr>))"

definition slot_get :: "'a static_slot \<Rightarrow> 'a kres" where
  "slot_get s =
     (if \<not> constructed s then Inl (Panic ''StaticSlot::get(): not constructed'')
      else case slot_ptr s of None \<Rightarrow> Inl Undefined | Some x \<Rightarrow> Inr x)"

definition ptr_if_constructed :: "'a static_slot \<Rightarrow> 'a option" where
  "ptr_if_constructed s = (if constructed s then slot_ptr s else None)"

definition slot_wf :: "'a static_slot \<Rightarrow> bool" where
  "slot_wf s \<longleftrightarrow> (constructed s \<longleftrightarrow> slot_ptr s \<noteq> None)"

section \<open>StaticArray\<close>

record 'a static_array =
  slots :: "'a static_slot list"
  live_count :: u32

definition npos :: u32 where
  "npos = 0xFFFFFFFF"

definition sa_init :: "nat \<Rightarrow> 'a static_array" where
  "sa_init n = \<lparr>slots = replicate n empty_slot, live_count = 0\<rparr>"

definition sa_capacity :: "'a static_array \<Rightarrow> u32" where
  "sa_capacity a = word_of_nat (length (slots a))"

definition sa_empty :: "'a static_array \<Rightarrow> bool" where
  "sa_empty a \<longleftrightarrow> live_count a = 0"

definition sa_full :: "'a static_array \<Rightarrow> bool" where
  "sa_full a \<longleftrightarrow> live_count a = sa_capacity a"

definition sa_occupied :: "'a static_array \<Rightarrow> u32 \<Rightarrow> bool" where
  "sa_occupied a i = (if i \<ge> sa_capacity a then False else constructed (slots a ! unat i))"

definition sa_ptr :: "'a static_array \<Rightarrow> u32 \<Rightarrow> 'a option" where
  "sa_ptr a i = (if i \<ge> sa_capacity a then None else ptr_if_constructed (slots a ! unat i))"

definition sa_get :: "'a static_array \<Rightarrow> u32 \<Rightarrow> 'a kres" where
  "sa_get a i =
     (case sa_ptr a i of None \<Rightarrow> Inl (Panic ''StaticArray::get: invalid slot'') | Some x \<Rightarrow> Inr x)"

text \<open>A write through the reference that \<^verbatim>\<open>get\<close> or \<^verbatim>\<open>operator[]\<close> returns.\<close>

definition sa_put :: "'a static_array \<Rightarrow> u32 \<Rightarrow> 'a \<Rightarrow> 'a static_array kres" where
  "sa_put a i x = bindR (sa_get a i) (\<lambda>_.
     Inr (a\<lparr>slots := (slots a)[unat i := (slots a ! unat i)\<lparr>slot_ptr := Some x\<rparr>]\<rparr>))"

text \<open>The loop of \<^verbatim>\<open>find_free_slot\<close> and \<^verbatim>\<open>first_free_slot\<close>, which have the same body.\<close>

primrec scan_free_slot :: "'a static_slot list \<Rightarrow> u32 \<Rightarrow> u32" where
  "scan_free_slot [] i = npos"
| "scan_free_slot (s # ss) i = (if \<not> constructed s then i else scan_free_slot ss (i + 1))"

definition find_free_slot :: "'a static_array \<Rightarrow> u32" where
  "find_free_slot a = scan_free_slot (slots a) 0"

definition first_free_slot :: "'a static_array \<Rightarrow> u32" where
  "first_free_slot a = scan_free_slot (slots a) 0"

definition sa_emplace :: "'a static_array \<Rightarrow> 'a \<Rightarrow> (u32 \<times> 'a static_array) kres" where
  "sa_emplace a x =
     (let idx = find_free_slot a in
      if idx \<ge> sa_capacity a then Inl (Panic ''StaticArray full'')
      else bindR (slot_construct (slots a ! unat idx) x)
        (\<lambda>s. Inr (idx, a\<lparr>slots := (slots a)[unat idx := s], live_count := live_count a + 1\<rparr>)))"

definition sa_emplace_at :: "'a static_array \<Rightarrow> u32 \<Rightarrow> 'a \<Rightarrow> 'a static_array kres" where
  "sa_emplace_at a i x =
     (if i \<ge> sa_capacity a then Inl (Panic ''StaticArray::emplace_at: index out of range'')
      else if constructed (slots a ! unat i)
      then Inl (Panic ''StaticArray::emplace_at: slot already occupied'')
      else bindR (slot_construct (slots a ! unat i) x)
        (\<lambda>s. Inr (a\<lparr>slots := (slots a)[unat i := s], live_count := live_count a + 1\<rparr>)))"

definition sa_erase :: "'a static_array \<Rightarrow> u32 \<Rightarrow> (bool \<times> 'a option \<times> 'a static_array) kres" where
  "sa_erase a i =
     (if i \<ge> sa_capacity a then Inr (False, None, a)
      else if \<not> constructed (slots a ! unat i) then Inr (False, None, a)
      else bindR (slot_destruct (slots a ! unat i))
        (\<lambda>(x, s). Inr (True, Some x,
           a\<lparr>slots := (slots a)[unat i := s], live_count := live_count a - 1\<rparr>)))"

primrec clear_slots :: "'a static_slot list \<Rightarrow> ('a list \<times> 'a static_slot list) kres" where
  "clear_slots [] = Inr ([], [])"
| "clear_slots (s # ss) =
     (if constructed s
      then bindR (slot_destruct s) (\<lambda>(x, s').
        bindR (clear_slots ss) (\<lambda>(xs, ss'). Inr (x # xs, s' # ss')))
      else bindR (clear_slots ss) (\<lambda>(xs, ss'). Inr (xs, s # ss')))"

definition sa_clear :: "'a static_array \<Rightarrow> ('a list \<times> 'a static_array) kres" where
  "sa_clear a = bindR (clear_slots (slots a)) (\<lambda>(xs, ss). Inr (xs, a\<lparr>slots := ss, live_count := 0\<rparr>))"

text \<open>
  \<^verbatim>\<open>index_of\<close> compares addresses. A non-null pointer is the number of the slot whose storage
  it is the address of; a number that is no slot stands for a foreign object.
\<close>

primrec scan_index_of :: "'a static_slot list \<Rightarrow> nat \<Rightarrow> u32 \<Rightarrow> u32" where
  "scan_index_of [] k i = npos"
| "scan_index_of (s # ss) k i =
     (if ptr_if_constructed s \<noteq> None \<and> unat i = k then i else scan_index_of ss k (i + 1))"

definition sa_index_of :: "'a static_array \<Rightarrow> nat option \<Rightarrow> u32" where
  "sa_index_of a obj = (case obj of None \<Rightarrow> npos | Some k \<Rightarrow> scan_index_of (slots a) k 0)"

definition sa_contains :: "'a static_array \<Rightarrow> nat option \<Rightarrow> bool" where
  "sa_contains a obj \<longleftrightarrow> sa_index_of a obj \<noteq> npos"

section \<open>SlotIterator\<close>

text \<open>An iterator is its index. \<open>skip_invalid\<close> moves it to the next occupied slot or to \<^verbatim>\<open>N\<close>.\<close>

function skip_invalid :: "'a static_array \<Rightarrow> u32 \<Rightarrow> u32" where
  "skip_invalid a i =
     (if i < sa_capacity a \<and> \<not> sa_occupied a i then skip_invalid a (i + 1) else i)"
  by pat_completeness auto
termination
proof (relation "measure (\<lambda>(a, i). unat (sa_capacity a) - unat i)", goal_cases)
  case (2 a i)
  then show ?case using unat_Suc_u32 [of i "sa_capacity a"] by (auto simp: u32_less_iff)
qed simp

declare skip_invalid.simps [simp del]

definition sa_begin :: "'a static_array \<Rightarrow> u32" where
  "sa_begin a = skip_invalid a 0"

definition sa_end :: "'a static_array \<Rightarrow> u32" where
  "sa_end a = skip_invalid a (sa_capacity a)"

definition it_next :: "'a static_array \<Rightarrow> u32 \<Rightarrow> u32" where
  "it_next a i = skip_invalid a (i + 1)"

lemma skip_invalid_ge:
  "i \<le> sa_capacity a \<Longrightarrow> i \<le> skip_invalid a i \<and> skip_invalid a i \<le> sa_capacity a"
proof (induction a i rule: skip_invalid.induct)
  case (1 a i)
  show ?case
  proof (cases "i < sa_capacity a \<and> \<not> sa_occupied a i")
    case True
    then have suc: "unat (i + 1) = Suc (unat i)" using unat_Suc_u32 by blast
    then have "i + 1 \<le> sa_capacity a" using True by (simp add: u32_le_iff u32_less_iff)
    from "1.IH" [OF True this] show ?thesis
      using True suc by (subst (1 2) skip_invalid.simps) (simp add: u32_le_iff)
  next
    case False
    with "1.prems" show ?thesis by (subst (1 2) skip_invalid.simps) auto
  qed
qed

text \<open>
  The range-based \<^verbatim>\<open>for\<close> loop: the slots visited from iterator position \<open>i\<close> on. Its guard
  \<^verbatim>\<open>it != end()\<close> is \<open>i < N\<close>: \<open>skip_invalid_ge\<close> shows that positions never pass \<^verbatim>\<open>N\<close>, and
  \<open>sa_end_capacity\<close> that \<^verbatim>\<open>end()\<close> is \<^verbatim>\<open>N\<close>.
\<close>

lemma sa_end_capacity: "sa_end a = sa_capacity a"
  by (simp add: sa_end_def skip_invalid.simps)

function sa_visit :: "'a static_array \<Rightarrow> u32 \<Rightarrow> u32 list" where
  "sa_visit a i = (if i < sa_capacity a then i # sa_visit a (it_next a i) else [])"
  by pat_completeness auto
termination
proof (relation "measure (\<lambda>(a, i). unat (sa_capacity a) - unat i)", goal_cases)
  case (2 a i)
  have suc: "unat (i + 1) = Suc (unat i)" using 2 by (rule unat_Suc_u32)
  then have "i + 1 \<le> sa_capacity a" using 2 by (simp add: u32_le_iff u32_less_iff)
  then have "i + 1 \<le> it_next a i" using skip_invalid_ge by (auto simp: it_next_def)
  with suc 2 show ?case by (simp add: u32_le_iff u32_less_iff)
qed simp

declare sa_visit.simps [simp del]

section \<open>Abstraction: a table of numbered objects\<close>

definition sa_map :: "'a static_array \<Rightarrow> nat \<rightharpoonup> 'a" where
  "sa_map a k = (if k < length (slots a) then slot_ptr (slots a ! k) else None)"

definition sa_wf :: "'a static_array \<Rightarrow> bool" where
  "sa_wf a \<longleftrightarrow> length (slots a) < 4294967295 \<and> (\<forall>s \<in> set (slots a). slot_wf s) \<and>
     unat (live_count a) = card (dom (sa_map a))"

lemma sa_map_dom: "dom (sa_map a) \<subseteq> {..<length (slots a)}"
  by (auto simp: sa_map_def split: if_splits)

lemma sa_map_finite [simp]: "finite (dom (sa_map a))"
  by (rule finite_subset [OF sa_map_dom]) simp

lemma sa_wf_length: "sa_wf a \<Longrightarrow> length (slots a) < 4294967295"
  by (simp add: sa_wf_def)

lemma unat_sa_capacity: "sa_wf a \<Longrightarrow> unat (sa_capacity a) = length (slots a)"
  unfolding sa_capacity_def by (rule unat_of_nat_u32) (auto dest: sa_wf_length)

lemma sa_wf_slot: "sa_wf a \<Longrightarrow> k < length (slots a) \<Longrightarrow> constructed (slots a ! k) \<longleftrightarrow> k \<in> dom (sa_map a)"
  by (auto simp: sa_wf_def slot_wf_def sa_map_def dom_def)

lemma sa_occupied_map: "sa_wf a \<Longrightarrow> sa_occupied a i \<longleftrightarrow> unat i \<in> dom (sa_map a)"
  using sa_map_dom [of a]
  by (auto simp: sa_occupied_def u32_le_iff unat_sa_capacity sa_wf_slot)

lemma sa_ptr_map: "sa_wf a \<Longrightarrow> sa_ptr a i = sa_map a (unat i)"
  using sa_wf_slot [of a "unat i"]
  by (auto simp: sa_ptr_def u32_le_iff unat_sa_capacity ptr_if_constructed_def sa_map_def not_less
      split: if_splits)

lemma sa_get_map: "sa_wf a \<Longrightarrow> sa_get a i =
  (case sa_map a (unat i) of None \<Rightarrow> Inl (Panic ''StaticArray::get: invalid slot'') | Some x \<Rightarrow> Inr x)"
  by (simp add: sa_get_def sa_ptr_map)

lemma sa_map_update:
  "k < length (slots a) \<Longrightarrow>
   sa_map (a\<lparr>slots := (slots a)[k := s], live_count := n\<rparr>) = (sa_map a)(k := slot_ptr s)"
  by (auto simp: sa_map_def fun_eq_iff)

lemma scan_free_slot_spec:
  assumes "unat i + length ss < 4294967295"
  shows "(scan_free_slot ss i = npos \<and> (\<forall>s \<in> set ss. constructed s)) \<or>
    (\<exists>k < length ss. unat (scan_free_slot ss i) = unat i + k \<and> \<not> constructed (ss ! k) \<and>
       (\<forall>j < k. constructed (ss ! j)))"
  using assms
proof (induction ss arbitrary: i)
  case Nil
  then show ?case by simp
next
  case (Cons s ss)
  show ?case
  proof (cases "constructed s")
    case False
    then show ?thesis by (intro disjI2 exI [of _ 0]) simp
  next
    case True
    have suc: "unat (i + 1) = Suc (unat i)"
      using Cons.prems unat_add_u32 [of i 1] by simp
    with Cons.prems have le: "unat (i + 1) + length ss < 4294967295" by simp
    from Cons.IH [OF this] show ?thesis
    proof
      assume "scan_free_slot ss (i + 1) = npos \<and> (\<forall>s \<in> set ss. constructed s)"
      with True show ?thesis by simp
    next
      assume "\<exists>k < length ss. unat (scan_free_slot ss (i + 1)) = unat (i + 1) + k \<and>
        \<not> constructed (ss ! k) \<and> (\<forall>j < k. constructed (ss ! j))"
      then obtain k where "k < length ss" "unat (scan_free_slot ss (i + 1)) = unat (i + 1) + k"
        "\<not> constructed (ss ! k)" "\<forall>j < k. constructed (ss ! j)" by blast
      with True suc show ?thesis
        by (intro disjI2 exI [of _ "Suc k"]) (auto simp: nth_Cons split: nat.splits)
    qed
  qed
qed

lemma unat_npos: "unat npos = 4294967295"
  by (simp add: npos_def)

lemma find_free_slot_spec:
  assumes "sa_wf a"
  shows "if dom (sa_map a) = {..<length (slots a)} then sa_capacity a \<le> find_free_slot a
    else unat (find_free_slot a) < length (slots a) \<and> unat (find_free_slot a) \<notin> dom (sa_map a) \<and>
      (\<forall>j < unat (find_free_slot a). j \<in> dom (sa_map a))"
proof -
  have "unat (0 :: u32) + length (slots a) < 4294967295" using assms by (simp add: sa_wf_def)
  from scan_free_slot_spec [OF this] show ?thesis
  proof
    assume *: "scan_free_slot (slots a) 0 = npos \<and> (\<forall>s \<in> set (slots a). constructed s)"
    then have "{..<length (slots a)} \<subseteq> dom (sa_map a)"
      using sa_wf_slot [OF assms] by auto
    with sa_map_dom [of a] have "dom (sa_map a) = {..<length (slots a)}" by blast
    with * assms show ?thesis
      using sa_wf_length [OF assms] by (simp add: find_free_slot_def u32_le_iff unat_sa_capacity unat_npos)
  next
    assume "\<exists>k < length (slots a). unat (scan_free_slot (slots a) 0) = unat (0 :: u32) + k \<and>
      \<not> constructed (slots a ! k) \<and> (\<forall>j < k. constructed (slots a ! j))"
    then obtain k where k: "k < length (slots a)" "unat (find_free_slot a) = k"
      "\<not> constructed (slots a ! k)" "\<forall>j < k. constructed (slots a ! j)"
      by (auto simp: find_free_slot_def)
    then have "k \<notin> dom (sa_map a)" "\<forall>j < k. j \<in> dom (sa_map a)" using sa_wf_slot [OF assms] by auto
    moreover from this(1) k(1) have "dom (sa_map a) \<noteq> {..<length (slots a)}" by auto
    ultimately show ?thesis using k by simp
  qed
qed

lemma sa_wf_insert:
  assumes "sa_wf a" and "k < length (slots a)" and "k \<notin> dom (sa_map a)"
  shows "sa_wf (a\<lparr>slots := (slots a)[k := \<lparr>slot_ptr = Some x, constructed = True\<rparr>],
    live_count := live_count a + 1\<rparr>)"
proof -
  have "card (insert k (dom (sa_map a))) \<le> length (slots a)"
    using card_mono [of "{..<length (slots a)}" "insert k (dom (sa_map a))"] assms(2) sa_map_dom [of a]
    by simp
  then have "unat (live_count a + 1) = card (insert k (dom (sa_map a)))"
    using assms unat_add_u32 [of "live_count a" 1] by (simp add: sa_wf_def)
  moreover have "slot_wf \<lparr>slot_ptr = Some x, constructed = True\<rparr>" by (simp add: slot_wf_def)
  ultimately show ?thesis using assms
    by (auto simp: sa_wf_def sa_map_update dest!: set_update_subset_insert [THEN subsetD])
qed

lemma sa_wf_remove:
  assumes "sa_wf a" and "k \<in> dom (sa_map a)"
  shows "sa_wf (a\<lparr>slots := (slots a)[k := \<lparr>slot_ptr = None, constructed = False\<rparr>],
    live_count := live_count a - 1\<rparr>)"
proof -
  have k: "k < length (slots a)" using assms(2) sa_map_dom [of a] by auto
  have pos: "0 < card (dom (sa_map a))" using assms(2) by (auto simp: card_gt_0_iff)
  then have "1 \<le> live_count a" using assms(1) by (simp add: sa_wf_def u32_le_iff)
  then have "unat (live_count a - 1) = card (dom (sa_map a) - {k})"
    using assms by (simp add: sa_wf_def unat_sub_u32)
  moreover have "dom ((sa_map a)(k := None)) = dom (sa_map a) - {k}" by auto
  moreover have "slot_wf \<lparr>slot_ptr = None, constructed = False\<rparr>" by (simp add: slot_wf_def)
  ultimately show ?thesis using assms k
    by (auto simp: sa_wf_def sa_map_update dest!: set_update_subset_insert [THEN subsetD])
qed

lemma slot_cleared:
  "s\<lparr>slot_ptr := None, constructed := False\<rparr> = \<lparr>slot_ptr = None, constructed = False\<rparr>"
  by (cases s) simp

lemma slot_construct_empty:
  "\<not> constructed s \<Longrightarrow> slot_construct s x = Inr \<lparr>slot_ptr = Some x, constructed = True\<rparr>"
  by (simp add: slot_construct_def)

lemma sa_emplace_result:
  assumes "sa_wf a"
  shows "if dom (sa_map a) = {..<length (slots a)} then sa_emplace a x = Inl (Panic ''StaticArray full'')
    else \<exists>i a'. sa_emplace a x = Inr (i, a') \<and> unat i < length (slots a) \<and> unat i \<notin> dom (sa_map a) \<and>
      (\<forall>j < unat i. j \<in> dom (sa_map a)) \<and> sa_map a' = (sa_map a)(unat i \<mapsto> x) \<and>
      sa_wf a' \<and> length (slots a') = length (slots a) \<and> live_count a' = live_count a + 1"
proof (cases "dom (sa_map a) = {..<length (slots a)}")
  case True
  with find_free_slot_spec [OF assms] show ?thesis by (simp add: sa_emplace_def)
next
  case False
  let ?i = "find_free_slot a"
  from False find_free_slot_spec [OF assms]
  have i: "unat ?i < length (slots a)" "unat ?i \<notin> dom (sa_map a)" "\<forall>j < unat ?i. j \<in> dom (sa_map a)"
    by simp_all
  have "\<not> sa_capacity a \<le> ?i" using i(1) by (simp add: u32_le_iff unat_sa_capacity [OF assms])
  moreover have "\<not> constructed (slots a ! unat ?i)" using i sa_wf_slot [OF assms] by blast
  ultimately have "sa_emplace a x = Inr (?i, a\<lparr>slots := (slots a)[unat ?i :=
      \<lparr>slot_ptr = Some x, constructed = True\<rparr>], live_count := live_count a + 1\<rparr>)"
    by (simp add: sa_emplace_def slot_construct_empty Let_def)
  with False i sa_wf_insert [OF assms i(1,2)] show ?thesis by (simp add: sa_map_update)
qed

lemma sa_emplace_at_result:
  assumes "sa_wf a" and "unat i < length (slots a)" and "unat i \<notin> dom (sa_map a)"
  shows "\<exists>a'. sa_emplace_at a i x = Inr a' \<and> sa_map a' = (sa_map a)(unat i \<mapsto> x) \<and> sa_wf a' \<and>
    length (slots a') = length (slots a)"
proof -
  have "\<not> sa_capacity a \<le> i" using assms(2) by (simp add: u32_le_iff unat_sa_capacity [OF assms(1)])
  moreover have "\<not> constructed (slots a ! unat i)" using assms sa_wf_slot [OF assms(1)] by blast
  ultimately show ?thesis using sa_wf_insert [OF assms, of x] assms(2)
    by (simp add: sa_emplace_at_def slot_construct_empty sa_map_update)
qed

lemma sa_erase_result:
  assumes "sa_wf a"
  shows "\<exists>a'. sa_erase a i = Inr (unat i \<in> dom (sa_map a), sa_map a (unat i), a') \<and>
    sa_map a' = (sa_map a)(unat i := None) \<and> sa_wf a' \<and> length (slots a') = length (slots a)"
proof (cases "unat i \<in> dom (sa_map a)")
  case True
  then have k: "unat i < length (slots a)" using sa_map_dom [of a] by auto
  then have le: "\<not> sa_capacity a \<le> i" by (simp add: u32_le_iff unat_sa_capacity [OF assms])
  have c: "constructed (slots a ! unat i)" using True k sa_wf_slot [OF assms] by blast
  obtain x where x: "sa_map a (unat i) = Some x" using True by auto
  then have p: "slot_ptr (slots a ! unat i) = Some x" using k by (simp add: sa_map_def)
  show ?thesis using sa_wf_remove [OF assms True] True le c p x k
    by (simp add: sa_erase_def slot_destruct_def sa_map_update slot_cleared)
next
  case False
  then have "sa_erase a i = Inr (False, None, a)"
    using sa_wf_slot [OF assms, of "unat i"] unat_sa_capacity [OF assms]
    by (simp add: sa_erase_def u32_le_iff not_le)
  moreover have "sa_map a (unat i) = None" using False by auto
  ultimately show ?thesis using False assms by (simp add: fun_upd_idem)
qed

lemma sa_put_result:
  assumes "sa_wf a" and "unat i \<in> dom (sa_map a)"
  shows "\<exists>a'. sa_put a i x = Inr a' \<and> sa_map a' = (sa_map a)(unat i \<mapsto> x) \<and> sa_wf a' \<and>
    length (slots a') = length (slots a) \<and> live_count a' = live_count a"
proof -
  let ?s = "(slots a ! unat i)\<lparr>slot_ptr := Some x\<rparr>"
  let ?a = "a\<lparr>slots := (slots a)[unat i := ?s]\<rparr>"
  have k: "unat i < length (slots a)" using assms(2) sa_map_dom [of a] by auto
  obtain y where y: "sa_map a (unat i) = Some y" using assms(2) by auto
  have map: "sa_map ?a = (sa_map a)(unat i \<mapsto> x)"
    using sa_map_update [OF k, where s = ?s and n = "live_count a"] by simp
  have "constructed (slots a ! unat i)" using assms k sa_wf_slot by blast
  then have "slot_wf ?s" by (simp add: slot_wf_def)
  moreover have "dom (sa_map ?a) = dom (sa_map a)" unfolding map using assms(2) by auto
  ultimately have "sa_wf ?a" using assms(1)
    by (auto simp: sa_wf_def dest!: set_update_subset_insert [THEN subsetD])
  with map y show ?thesis by (simp add: sa_put_def sa_get_map [OF assms(1)])
qed

lemma clear_slots_result:
  assumes "\<forall>s \<in> set ss. slot_wf s"
  shows "\<exists>ss'. clear_slots ss = Inr (map (the \<circ> slot_ptr) (filter constructed ss), ss') \<and>
    length ss' = length ss \<and> (\<forall>s \<in> set ss'. slot_wf s \<and> slot_ptr s = None)"
  using assms
proof (induction ss)
  case (Cons s ss)
  then obtain ss' where "clear_slots ss = Inr (map (the \<circ> slot_ptr) (filter constructed ss), ss')"
    "length ss' = length ss" "\<forall>s \<in> set ss'. slot_wf s \<and> slot_ptr s = None" by auto
  with Cons.prems show ?case
    by (cases "constructed s") (auto simp: slot_wf_def slot_destruct_def)
qed simp

lemma sa_clear_result:
  assumes "sa_wf a"
  shows "\<exists>a'. sa_clear a = Inr (map (the \<circ> slot_ptr) (filter constructed (slots a)), a') \<and>
    sa_wf a' \<and> sa_map a' = Map.empty \<and> length (slots a') = length (slots a)"
proof -
  obtain ss' where ss': "clear_slots (slots a) =
      Inr (map (the \<circ> slot_ptr) (filter constructed (slots a)), ss')"
    "length ss' = length (slots a)" "\<forall>s \<in> set ss'. slot_wf s \<and> slot_ptr s = None"
    using clear_slots_result [of "slots a"] assms by (auto simp: sa_wf_def)
  let ?a = "a\<lparr>slots := ss', live_count := 0\<rparr>"
  have "sa_map ?a = Map.empty" using ss'(2,3) by (auto simp: sa_map_def fun_eq_iff)
  moreover from this have "sa_wf ?a" using ss'(2,3) assms by (simp add: sa_wf_def)
  ultimately show ?thesis using ss' by (simp add: sa_clear_def)
qed


lemma sa_visit_skip:
  assumes "sa_wf a" and "i \<le> sa_capacity a"
  shows "map unat (sa_visit a (skip_invalid a i)) =
    filter (\<lambda>k. k \<in> dom (sa_map a)) [unat i..<length (slots a)]"
  using assms(2)
proof (induction "length (slots a) - unat i" arbitrary: i rule: less_induct)
  case less
  note cap = unat_sa_capacity [OF assms(1)]
  show ?case
  proof (cases "i < sa_capacity a")
    case True
    have suc: "unat (i + 1) = Suc (unat i)" using True by (rule unat_Suc_u32)
    have lt: "unat i < length (slots a)" using True cap by (simp add: u32_less_iff)
    have le: "i + 1 \<le> sa_capacity a" using True suc by (simp add: u32_le_iff u32_less_iff)
    have dec: "length (slots a) - unat (i + 1) < length (slots a) - unat i" using lt suc by simp
    note IH = less.hyps [OF dec le, unfolded suc]
    show ?thesis
    proof (cases "sa_occupied a i")
      case True
      then have "skip_invalid a i = i" by (simp add: skip_invalid.simps)
      moreover have "sa_visit a i = i # sa_visit a (skip_invalid a (i + 1))"
        using \<open>i < sa_capacity a\<close> by (subst sa_visit.simps) (simp add: it_next_def)
      ultimately show ?thesis using IH lt True
        by (simp add: upt_conv_Cons sa_occupied_map [OF assms(1)])
    next
      case False
      then have "skip_invalid a i = skip_invalid a (i + 1)"
        using \<open>i < sa_capacity a\<close> by (subst skip_invalid.simps) simp
      with IH lt False show ?thesis by (simp add: upt_conv_Cons sa_occupied_map [OF assms(1)])
    qed
  next
    case False
    with less.prems have "i = sa_capacity a" by simp
    then show ?thesis using cap by (simp add: skip_invalid.simps sa_visit.simps)
  qed
qed

lemma scan_index_of_spec:
  assumes "unat i + length ss < 4294967295"
  shows "scan_index_of ss k i =
    (if unat i \<le> k \<and> k < unat i + length ss \<and> ptr_if_constructed (ss ! (k - unat i)) \<noteq> None
     then word_of_nat k else npos)"
  using assms
proof (induction ss arbitrary: i)
  case (Cons s ss)
  have suc: "unat (i + 1) = Suc (unat i)"
    using Cons.prems unat_add_u32 [of i 1] by simp
  with Cons.prems have "unat (i + 1) + length ss < 4294967295" by simp
  note IH = Cons.IH [OF this, unfolded suc]
  show ?case
  proof (cases "unat i = k")
    case True
    then show ?thesis using IH by auto
  next
    case False
    then have "unat i \<le> k \<Longrightarrow> k - unat i = Suc (k - Suc (unat i))" by simp
    then show ?thesis using IH False by auto
  qed
qed auto

lemma sa_index_of_map:
  assumes "sa_wf a"
  shows "sa_index_of a (Some k) = (if k \<in> dom (sa_map a) then word_of_nat k else npos)"
proof -
  have "unat (0 :: u32) + length (slots a) < 4294967295" using sa_wf_length [OF assms] by simp
  from scan_index_of_spec [OF this, of k] show ?thesis
    using sa_wf_slot [OF assms, of k] sa_map_dom [of a]
    by (auto simp: sa_index_of_def ptr_if_constructed_def sa_map_def split: if_splits)
qed

lemma sa_init_wf: "n < 4294967295 \<Longrightarrow> sa_wf (sa_init n) \<and> sa_map (sa_init n) = Map.empty"
proof -
  assume n: "n < 4294967295"
  have m: "sa_map (sa_init n) = Map.empty"
    by (simp add: sa_map_def sa_init_def empty_slot_def fun_eq_iff)
  have "sa_wf (sa_init n)"
    unfolding sa_wf_def m using n by (simp add: sa_init_def slot_wf_def empty_slot_def)
  with m show ?thesis by simp
qed

section \<open>The contract of a slot table\<close>

text \<open>
  What the scheduler, the linker and the module manager rely on: a finite table of numbered
  objects, whose insertion takes the least free number and whose removal hands the object
  back. \<open>get\<close> reads and \<open>put\<close> writes through a reference.
\<close>

locale slot_table =
  fixes inv :: "'t \<Rightarrow> bool"
    and tab :: "'t \<Rightarrow> nat \<rightharpoonup> 'a"
    and cap :: "'t \<Rightarrow> nat"
    and emplace :: "'t \<Rightarrow> 'a \<Rightarrow> (u32 \<times> 't) kres"
    and get :: "'t \<Rightarrow> u32 \<Rightarrow> 'a kres"
    and put :: "'t \<Rightarrow> u32 \<Rightarrow> 'a \<Rightarrow> 't kres"
    and erase :: "'t \<Rightarrow> u32 \<Rightarrow> (bool \<times> 'a option \<times> 't) kres"
  assumes dom_cap: "inv t \<Longrightarrow> dom (tab t) \<subseteq> {..<cap t}"
    and emplace_free: "inv t \<Longrightarrow> dom (tab t) \<noteq> {..<cap t} \<Longrightarrow>
      \<exists>i t'. emplace t x = Inr (i, t') \<and> unat i < cap t \<and> unat i \<notin> dom (tab t) \<and>
        (\<forall>j < unat i. j \<in> dom (tab t)) \<and> tab t' = (tab t)(unat i \<mapsto> x) \<and> inv t' \<and> cap t' = cap t"
    and emplace_full: "inv t \<Longrightarrow> dom (tab t) = {..<cap t} \<Longrightarrow>
      emplace t x = Inl (Panic ''StaticArray full'')"
    and get_tab: "inv t \<Longrightarrow> get t i = (case tab t (unat i) of
      None \<Rightarrow> Inl (Panic ''StaticArray::get: invalid slot'') | Some x \<Rightarrow> Inr x)"
    and put_tab: "inv t \<Longrightarrow> unat i \<in> dom (tab t) \<Longrightarrow>
      \<exists>t'. put t i x = Inr t' \<and> tab t' = (tab t)(unat i \<mapsto> x) \<and> inv t' \<and> cap t' = cap t"
    and erase_tab: "inv t \<Longrightarrow> \<exists>t'. erase t i = Inr (unat i \<in> dom (tab t), tab t (unat i), t') \<and>
      tab t' = (tab t)(unat i := None) \<and> inv t' \<and> cap t' = cap t"
begin

lemma emplace_Inr:
  assumes "inv t" and "emplace t x = Inr (i, t')"
  shows "unat i < cap t" "unat i \<notin> dom (tab t)" "\<forall>j < unat i. j \<in> dom (tab t)"
    "tab t' = (tab t)(unat i \<mapsto> x)" "inv t'" "cap t' = cap t"
  using emplace_free [OF assms(1), of x] emplace_full [OF assms(1), of x] assms(2) by force+

lemma get_emplaced: "inv t \<Longrightarrow> emplace t x = Inr (i, t') \<Longrightarrow> get t' i = Inr x"
  using emplace_Inr [of t x i t'] by (simp add: get_tab)

lemma emplace_erase:
  assumes "inv t" and "emplace t x = Inr (i, t')"
  shows "\<exists>t''. erase t' i = Inr (True, Some x, t'') \<and> tab t'' = tab t \<and> inv t''"
proof -
  note e = emplace_Inr [OF assms]
  obtain t'' where t'': "erase t' i = Inr (unat i \<in> dom (tab t'), tab t' (unat i), t'')"
    "tab t'' = (tab t')(unat i := None)" "inv t''"
    using erase_tab [OF e(5), of i] by blast
  have "tab t (unat i) = None" using e(2) by auto
  then have "tab t'' = tab t" unfolding t''(2) e(4) by (simp add: fun_upd_idem)
  with t'' e(4) show ?thesis by simp
qed

text \<open>A number that was freed and is below every other free one is handed out again.\<close>

lemma erase_reuse:
  assumes "inv t" and "erase t i = Inr (True, Some x, t')" and "\<forall>j < unat i. j \<in> dom (tab t)"
  shows "\<exists>t''. emplace t' y = Inr (i, t'') \<and> tab t'' = (tab t)(unat i \<mapsto> y)"
proof -
  have i: "unat i \<in> dom (tab t)" and tab': "tab t' = (tab t)(unat i := None)" and inv': "inv t'"
    and cap': "cap t' = cap t"
    using erase_tab [OF assms(1), of i] assms(2) by auto
  have "unat i < cap t" using i dom_cap [OF assms(1)] by auto
  then have "dom (tab t') \<noteq> {..<cap t'}" using tab' cap' by auto
  then obtain k t'' where k: "emplace t' y = Inr (k, t'')" "unat k \<notin> dom (tab t')"
    "\<forall>j < unat k. j \<in> dom (tab t')" "tab t'' = (tab t')(unat k \<mapsto> y)"
    using emplace_free [OF inv', of y] by blast
  have "unat k = unat i"
  proof (rule ccontr)
    assume "unat k \<noteq> unat i"
    then consider "unat k < unat i" | "unat i < unat k" by linarith
    then show False using k(2,3) tab' assms(3) by cases auto
  qed
  then have "k = i" by (simp add: u32_eq_iff)
  with k tab' show ?thesis by simp
qed

end

interpretation sa: slot_table sa_wf sa_map "\<lambda>a. length (slots a)" sa_emplace sa_get sa_put sa_erase
proof (unfold_locales, goal_cases)
  case (1 t)
  show ?case by (rule sa_map_dom)
next
  case (2 t x)
  then show ?case using sa_emplace_result [of t x] by auto
next
  case (3 t x)
  then show ?case using sa_emplace_result [of t x] by auto
next
  case (4 t i)
  then show ?case by (rule sa_get_map)
next
  case (5 t i x)
  then show ?case using sa_put_result [of t i x] by blast
next
  case (6 t i)
  then show ?case by (rule sa_erase_result)
qed

section \<open>Properties\<close>

definition example_sa :: "string static_array" where
  "example_sa = \<lparr>slots = [\<lparr>slot_ptr = Some ''idle'', constructed = True\<rparr>, empty_slot,
     \<lparr>slot_ptr = Some ''ktest'', constructed = True\<rparr>, empty_slot], live_count = 2\<rparr>"

lemma example_sa_slot: "slots example_sa ! Suc 0 = empty_slot" "\<not> constructed empty_slot"
  by (simp_all add: example_sa_def empty_slot_def)

lemma example_sa_map: "sa_map example_sa = [0 \<mapsto> ''idle'', 2 \<mapsto> ''ktest'']"
  by (auto simp: sa_map_def example_sa_def empty_slot_def fun_eq_iff nth_Cons split: nat.splits)

lemma example_sa_wf: "sa_wf example_sa"
  unfolding sa_wf_def example_sa_map
  by (simp add: example_sa_def empty_slot_def slot_wf_def)

lemma example_sa_emplace: "\<exists>a'. sa_emplace example_sa ''test'' = Inr (1, a')"
proof -
  have "find_free_slot example_sa = 1" "sa_capacity example_sa = 4"
    by (simp_all add: find_free_slot_def example_sa_def empty_slot_def sa_capacity_def)
  then show ?thesis by (simp add: sa_emplace_def slot_construct_def example_sa_slot u32_le_iff)
qed

text \<open>
  \<^verbatim>\<open>emplace\<close> puts the object in the free slot with the least index,
  leaves every other slot alone, raises the cached count by one and keeps the array
  well formed; on a full array, and only there, it panics with ``StaticArray full''.
\<close>

theorem sa_emplace_least_free:
  assumes "sa_wf a"
  shows "case sa_emplace a x of
      Inl e \<Rightarrow> e = Panic ''StaticArray full'' \<and> sa_full a
    | Inr (i, a') \<Rightarrow> \<not> sa_full a \<and> unat i = (LEAST k. k \<notin> dom (sa_map a)) \<and>
        sa_map a' = (sa_map a)(unat i \<mapsto> x) \<and> live_count a' = live_count a + 1 \<and> sa_wf a' \<and>
        sa_get a' i = Inr x"
proof (cases "dom (sa_map a) = {..<length (slots a)}")
  case True
  then have "sa_emplace a x = Inl (Panic ''StaticArray full'')"
    using sa_emplace_result [OF assms, of x] by simp
  moreover have "sa_full a" using True assms
    by (simp add: sa_full_def u32_eq_iff unat_sa_capacity sa_wf_def)
  ultimately show ?thesis by simp
next
  case False
  then obtain i a' where e: "sa_emplace a x = Inr (i, a')" "unat i \<notin> dom (sa_map a)"
    "\<forall>j < unat i. j \<in> dom (sa_map a)" "sa_map a' = (sa_map a)(unat i \<mapsto> x)" "sa_wf a'"
    "live_count a' = live_count a + 1"
    using sa_emplace_result [OF assms, of x] by auto
  have "card (dom (sa_map a)) < length (slots a)"
    using psubset_card_mono [of "{..<length (slots a)}" "dom (sa_map a)"] False sa_map_dom [of a]
    by (simp add: psubset_eq)
  then have "\<not> sa_full a" using assms
    by (simp add: sa_full_def u32_eq_iff unat_sa_capacity sa_wf_def)
  moreover have "(LEAST k. k \<notin> dom (sa_map a)) = unat i"
    using e(2,3) by (intro Least_equality) (auto simp: not_less [symmetric])
  ultimately show ?thesis using e sa.get_emplaced [OF assms e(1)] by simp
qed

theorem sa_emplace_least_free_witness:
  "sa_wf example_sa \<and> (\<exists>a'. sa_emplace example_sa ''test'' = Inr (1, a') \<and>
     sa_get a' 1 = Inr ''test'' \<and> live_count a' = 3)"
proof -
  obtain a' where e: "sa_emplace example_sa ''test'' = Inr (1, a')" using example_sa_emplace by blast
  with sa_emplace_least_free [OF example_sa_wf, of "''test''"] e show ?thesis
    using example_sa_wf by (simp add: example_sa_def)
qed


text \<open>The operations of the array that change it, and the effect of a sequence of calls.\<close>

datatype 'a sa_op = Emplace 'a | Emplace_At u32 'a | Erase u32 | Clear | Put u32 'a

fun sa_step :: "'a sa_op \<Rightarrow> 'a static_array \<Rightarrow> 'a static_array kres" where
  "sa_step (Emplace x) a = bindR (sa_emplace a x) (\<lambda>(_, a'). Inr a')"
| "sa_step (Emplace_At i x) a = sa_emplace_at a i x"
| "sa_step (Erase i) a = bindR (sa_erase a i) (\<lambda>(_, _, a'). Inr a')"
| "sa_step Clear a = bindR (sa_clear a) (\<lambda>(_, a'). Inr a')"
| "sa_step (Put i x) a = sa_put a i x"

primrec sa_run :: "'a sa_op list \<Rightarrow> 'a static_array \<Rightarrow> 'a static_array kres" where
  "sa_run [] a = Inr a"
| "sa_run (c # cs) a = bindR (sa_step c a) (sa_run cs)"

lemma sa_step_wf:
  assumes "sa_wf a" and "sa_step c a = Inr a'"
  shows "sa_wf a' \<and> length (slots a') = length (slots a)"
proof (cases c)
  case (Emplace x)
  then show ?thesis using assms(2) sa.emplace_Inr(5,6) [OF assms(1), of x]
    by (auto simp: bindR_eq_Inr)
next
  case (Emplace_At i x)
  then have "\<not> sa_capacity a \<le> i" "\<not> constructed (slots a ! unat i)"
    using assms(2) by (auto simp: sa_emplace_at_def split: if_splits)
  then have "unat i < length (slots a)" "unat i \<notin> dom (sa_map a)"
    using sa_wf_slot [OF assms(1)] by (auto simp: u32_le_iff unat_sa_capacity [OF assms(1)])
  then show ?thesis using sa_emplace_at_result [OF assms(1), of i x] assms(2) Emplace_At by auto
next
  case (Erase i)
  then show ?thesis using sa_erase_result [OF assms(1), of i] assms(2) by (auto simp: bindR_eq_Inr)
next
  case Clear
  then show ?thesis using sa_clear_result [OF assms(1)] assms(2) by (auto simp: bindR_eq_Inr)
next
  case (Put i x)
  then have "unat i \<in> dom (sa_map a)"
    using assms(2) by (auto simp: sa_put_def sa_get_map [OF assms(1)] split: option.splits)
  then show ?thesis using sa_put_result [OF assms(1), of i x] assms(2) Put by auto
qed

lemma sa_run_wf:
  "sa_wf a \<Longrightarrow> sa_run cs a = Inr a' \<Longrightarrow> sa_wf a' \<and> length (slots a') = length (slots a)"
proof (induction cs arbitrary: a)
  case (Cons c cs)
  then obtain b where b: "sa_step c a = Inr b" "sa_run cs b = Inr a'" by (auto simp: bindR_eq_Inr)
  with Cons sa_step_wf [OF Cons.prems(1) b(1)] show ?case by auto
qed simp

text \<open>
  Property C32 (invariant): after any sequence of calls of the array's operations from the
  constructor on that did not panic, the cached \<^verbatim>\<open>live_count_\<close> is the number of occupied
  slots, and a range-based \<^verbatim>\<open>for\<close> loop over the array visits exactly those slots, each
  once, in ascending order.
\<close>

theorem sa_iteration_complete:
  assumes "n < 4294967295" and "sa_run cs (sa_init n) = Inr a"
  shows "unat (live_count a) = card {k. k < n \<and> sa_occupied a (word_of_nat k)} \<and>
    map unat (sa_visit a (sa_begin a)) = filter (\<lambda>k. sa_occupied a (word_of_nat k)) [0..<n]"
proof -
  have wf: "sa_wf a" and len: "length (slots a) = n"
    using sa_run_wf [of "sa_init n" cs a] sa_init_wf [OF assms(1)] assms(2) by (auto simp: sa_init_def)
  have occ: "k < n \<Longrightarrow> sa_occupied a (word_of_nat k) \<longleftrightarrow> k \<in> dom (sa_map a)" for k
    using sa_occupied_map [OF wf] unat_of_nat_u32 [of k] assms(1) by simp
  have "{k. k < n \<and> sa_occupied a (word_of_nat k)} = dom (sa_map a)"
    using occ sa_map_dom [of a] len by auto
  moreover have "filter (\<lambda>k. sa_occupied a (word_of_nat k)) [0..<n] =
      filter (\<lambda>k. k \<in> dom (sa_map a)) [0..<n]"
    using occ by (intro filter_cong) auto
  moreover have "map unat (sa_visit a (sa_begin a)) = filter (\<lambda>k. k \<in> dom (sa_map a)) [0..<n]"
    using sa_visit_skip [OF wf, of 0] len by (simp add: sa_begin_def u32_le_iff)
  ultimately show ?thesis using wf by (simp add: sa_wf_def)
qed

lemma example_run:
  "\<exists>a. sa_run [Emplace ''a'', Emplace ''b'', Emplace ''c'', Erase 1] (sa_init 4) = Inr a"
proof -
  have "\<not> isl (sa_run [Emplace ''a'', Emplace ''b'', Emplace ''c'', Erase 1] (sa_init 4))" by code_simp
  then show ?thesis by (rule not_isl_Inr)
qed

theorem sa_iteration_complete_witness:
  "(4::nat) < 4294967295 \<and>
   (\<exists>a. sa_run [Emplace ''a'', Emplace ''b'', Emplace ''c'', Erase 1] (sa_init 4) = Inr a \<and>
     unat (live_count a) = card {k. k < 4 \<and> sa_occupied a (word_of_nat k)})"
proof -
  obtain a where "sa_run [Emplace ''a'', Emplace ''b'', Emplace ''c'', Erase 1] (sa_init 4) = Inr a"
    using example_run by blast
  with sa_iteration_complete [OF _ this] show ?thesis by auto
qed

text \<open>
  Erasing the slot that \<^verbatim>\<open>emplace\<close> chose hands back the object and
  restores the table; \<^verbatim>\<open>index_of\<close> of an object's address is the object's slot, and \<^verbatim>\<open>npos\<close>
  for a slot that holds no object.
\<close>

theorem sa_emplace_erase_index:
  assumes "sa_wf a" and "sa_emplace a x = Inr (i, a')"
  shows "\<exists>a''. sa_erase a' i = Inr (True, Some x, a'') \<and> sa_map a'' = sa_map a \<and>
    sa_index_of a' (Some (unat i)) = i \<and> sa_index_of a'' (Some (unat i)) = npos"
proof -
  note e = sa.emplace_Inr [OF assms]
  obtain a'' where a'': "sa_erase a' i = Inr (True, Some x, a'')" "sa_map a'' = sa_map a" "sa_wf a''"
    using sa.emplace_erase [OF assms] by blast
  have "sa_index_of a' (Some (unat i)) = i" using e(4) by (simp add: sa_index_of_map [OF e(5)])
  moreover have "sa_index_of a'' (Some (unat i)) = npos"
    using e(2) a''(2) by (simp add: sa_index_of_map [OF a''(3)])
  ultimately show ?thesis using a'' by blast
qed

theorem sa_emplace_erase_index_witness:
  "sa_wf example_sa \<and> (\<exists>a' a''. sa_emplace example_sa ''test'' = Inr (1, a') \<and>
     sa_erase a' 1 = Inr (True, Some ''test'', a'') \<and> sa_map a'' = [0 \<mapsto> ''idle'', 2 \<mapsto> ''ktest''])"
proof -
  obtain a' where e: "sa_emplace example_sa ''test'' = Inr (1, a')" using example_sa_emplace by blast
  from sa_emplace_erase_index [OF example_sa_wf e] e show ?thesis
    using example_sa_wf example_sa_map by auto
qed

end
