(* ===== verification/APIC.thy ===== *)
theory APIC
  imports ACPI Static_Array
begin

text \<open>
  \<^verbatim>\<open>sys/apic.hpp\<close>: the local interrupt controller, the I/O interrupt controllers, the table the
  firmware describes them with, and the routing of the legacy interrupt lines. Registers are
  cells that keep what is written; a write of the low command register sends an interrupt,
  which is recorded.
\<close>

section \<open>Registers\<close>

record apic_hw =
  lapic_reg :: "u32 \<Rightarrow> u32"
  ioapic_reg :: "u32 \<Rightarrow> u32 \<Rightarrow> u32"
  msrs :: "u32 \<Rightarrow> u64"
  ipis :: "(u8 \<times> u32) list"

definition LAPIC_ID :: u32 where "LAPIC_ID = 0x20"
definition LAPIC_EOI :: u32 where "LAPIC_EOI = 0xB0"
definition LAPIC_SIVR :: u32 where "LAPIC_SIVR = 0xF0"
definition LAPIC_ICR0 :: u32 where "LAPIC_ICR0 = 0x300"
definition LAPIC_ICR1 :: u32 where "LAPIC_ICR1 = 0x310"

definition lapic_read :: "apic_hw \<Rightarrow> u32 \<Rightarrow> u32" where
  "lapic_read hw offset = lapic_reg hw (offset AND 0xFFFF)"

definition lapic_write :: "apic_hw \<Rightarrow> u32 \<Rightarrow> u32 \<Rightarrow> apic_hw" where
  "lapic_write hw offset v =
     (let r = offset AND 0xFFFF; hw = hw\<lparr>lapic_reg := (lapic_reg hw)(r := v)\<rparr> in
      if r = LAPIC_ICR0 then hw\<lparr>ipis := ipis hw @ [(ucast (drop_bit 24 (lapic_reg hw LAPIC_ICR1)), v)]\<rparr> else hw)"

definition read_msr :: "apic_hw \<Rightarrow> u32 \<Rightarrow> u64" where
  "read_msr hw m = msrs hw m"

definition write_msr :: "apic_hw \<Rightarrow> u32 \<Rightarrow> u64 \<Rightarrow> apic_hw" where
  "write_msr hw m v = hw\<lparr>msrs := (msrs hw)(m := v)\<rparr>"

definition lapic_eoi :: "apic_hw \<Rightarrow> apic_hw" where
  "lapic_eoi hw = lapic_write hw LAPIC_EOI 0"

definition lapic_enable :: "apic_hw \<Rightarrow> apic_hw" where
  "lapic_enable hw =
     (let hw = write_msr hw 0x1B ((read_msr hw 0x1B OR 0x800) AND NOT (push_bit 10 1)) in
      lapic_write hw LAPIC_SIVR (lapic_read hw LAPIC_SIVR OR 0x1FF))"

definition send_ipi :: "apic_hw \<Rightarrow> u8 \<Rightarrow> u32 \<Rightarrow> apic_hw" where
  "send_ipi hw ap ipi_number = lapic_write (lapic_write hw LAPIC_ICR1 (push_bit 24 (ucast ap))) LAPIC_ICR0 ipi_number"

definition send_init_ipi :: "apic_hw \<Rightarrow> u8 \<Rightarrow> apic_hw" where
  "send_init_ipi hw ap = send_ipi hw ap 0x500"

definition send_startup_ipi :: "apic_hw \<Rightarrow> u8 \<Rightarrow> u32 \<Rightarrow> apic_hw" where
  "send_startup_ipi hw ap entry = send_ipi hw ap (0x600 OR entry)"

definition lapic_id :: "apic_hw \<Rightarrow> u8" where
  "lapic_id hw = ucast (drop_bit 24 (lapic_read hw LAPIC_ID) AND 0xFF)"

definition ioapic_read :: "apic_hw \<Rightarrow> u32 \<Rightarrow> u32 \<Rightarrow> u32" where
  "ioapic_read hw base reg = ioapic_reg hw base reg"

definition ioapic_write :: "apic_hw \<Rightarrow> u32 \<Rightarrow> u32 \<Rightarrow> u32 \<Rightarrow> apic_hw" where
  "ioapic_write hw base reg v = hw\<lparr>ioapic_reg := (ioapic_reg hw)(base := (ioapic_reg hw base)(reg := v))\<rparr>"

section \<open>The table of the firmware\<close>

record ent0 =
  acpi_processor_id :: u8
  apic_id :: u8
  cpu_flags :: u32

record ent1 =
  ioapic_id :: u8
  ioapic_base :: u32
  gsi_base :: u32

record ent2 =
  bus_src :: u8
  irq_src :: u8
  ovr_gsi :: u32
  ovr_flags :: u16

record ent3 =
  nmi_src :: u8
  nmi_flags :: u32
  nmi_gsi :: u32

record ent4 =
  lint_processor_id :: u8
  lint_flags :: u16
  lint :: u8

record apic =
  lapics :: "ent0 static_array"
  ioapics :: "ent1 static_array"
  irq_overrides :: "ent2 static_array"
  nmi_sources :: "ent3 static_array"
  lint_sources :: "ent4 static_array"
  lapic_base :: u32

definition MADT_SIZE :: u32 where "MADT_SIZE = 44"

definition sa_objs :: "'a static_array \<Rightarrow> 'a list" where
  "sa_objs a = map (\<lambda>i. the (sa_ptr a i)) (sa_visit a (sa_begin a))"

text \<open>The body of the loop of \<^verbatim>\<open>init\<close>: the length of the entry and the state after it.\<close>

definition madt_step :: "u32 \<Rightarrow> apic \<times> vmm \<Rightarrow> (u8 \<times> apic \<times> vmm) kres" where
  "madt_step ent w =
     (let (a, s) = w in
      bindR (vload8 s (ent + 1)) (\<lambda>len.
      bindR (vload8 s ent) (\<lambda>ty.
      if ty = 0 then
        bindR (vload8 s (ent + 2)) (\<lambda>x. bindR (vload8 s (ent + 3)) (\<lambda>y. bindR (vread32 s (ent + 4)) (\<lambda>z.
        bindR (sa_emplace (lapics a) \<lparr>acpi_processor_id = x, apic_id = y, cpu_flags = z\<rparr>) (\<lambda>(_, t).
        Inr (len, a\<lparr>lapics := t\<rparr>, s)))))
      else if ty = 1 then
        bindR (vload8 s (ent + 2)) (\<lambda>x. bindR (vread32 s (ent + 4)) (\<lambda>y. bindR (vread32 s (ent + 8)) (\<lambda>z.
        bindR (sa_emplace (ioapics a) \<lparr>ioapic_id = x, ioapic_base = y, gsi_base = z\<rparr>) (\<lambda>(_, t).
        bindR (map_identity_page s y (PG_Present OR PG_Writable)) (\<lambda>s.
        Inr (len, a\<lparr>ioapics := t\<rparr>, s))))))
      else if ty = 2 then
        bindR (vload8 s (ent + 2)) (\<lambda>x. bindR (vload8 s (ent + 3)) (\<lambda>y. bindR (vread32 s (ent + 4)) (\<lambda>z.
        bindR (vread16 s (ent + 8)) (\<lambda>f.
        bindR (sa_emplace (irq_overrides a) \<lparr>bus_src = x, irq_src = y, ovr_gsi = z, ovr_flags = f\<rparr>) (\<lambda>(_, t).
        Inr (len, a\<lparr>irq_overrides := t\<rparr>, s))))))
      else if ty = 3 then
        bindR (vload8 s (ent + 2)) (\<lambda>x. bindR (vread32 s (ent + 4)) (\<lambda>y. bindR (vread32 s (ent + 8)) (\<lambda>z.
        bindR (sa_emplace (nmi_sources a) \<lparr>nmi_src = x, nmi_flags = y, nmi_gsi = z\<rparr>) (\<lambda>(_, t).
        Inr (len, a\<lparr>nmi_sources := t\<rparr>, s)))))
      else if ty = 4 then
        bindR (vload8 s (ent + 2)) (\<lambda>x. bindR (vread16 s (ent + 3)) (\<lambda>y. bindR (vload8 s (ent + 5)) (\<lambda>z.
        bindR (sa_emplace (lint_sources a) \<lparr>lint_processor_id = x, lint_flags = y, lint = z\<rparr>) (\<lambda>(_, t).
        Inr (len, a\<lparr>lint_sources := t\<rparr>, s)))))
      else if ty = 5 then
        bindR (vread32 s (ent + 4)) (\<lambda>b. Inr (len, a\<lparr>lapic_base := b\<rparr>, s))
      else Inr (len, a, s))))"

partial_function (option) madt_walk :: "u32 \<Rightarrow> u32 \<Rightarrow> apic \<times> vmm \<Rightarrow> (apic \<times> vmm) kres option" where
  [code]: "madt_walk ent size_bytes w =
     (if sint size_bytes > 0
      then (case madt_step ent w of Inl e \<Rightarrow> Some (Inl e)
            | Inr (len, w) \<Rightarrow> madt_walk (ent + ucast len) (size_bytes - ucast len) w)
      else Some (Inr w))"

definition apic_signature :: u32 where "apic_signature = 0x43495041"

definition apic_init :: "acpi \<Rightarrow> apic \<times> vmm \<Rightarrow> (apic \<times> vmm) krun" where
  "apic_init ac w =
     (let (a, s) = w in
      bindK (Some (find_sdth ac s apic_signature)) (\<lambda>madt.
      if madt = 0 then retK (a, s)
      else
        bindK (Some (vread32 s (madt + 36))) (\<lambda>b.
        bindK (Some (map_identity_page s madt (PG_Present OR PG_Writable))) (\<lambda>s.
        bindK (Some (sdt_length s madt)) (\<lambda>len.
        bindK (madt_walk (madt + MADT_SIZE) (len - MADT_SIZE) (a\<lparr>lapic_base := b\<rparr>, s)) (\<lambda>(a, s).
        bindK (Some (unmap_page s madt)) (\<lambda>s.
        bindK (Some (map_identity_page s (lapic_base a) (PG_Present OR PG_Writable))) (\<lambda>s.
        retK (a, s)))))))))"

section \<open>Routing\<close>

definition REDIRECT_TABLE_BAD_READ :: u64 where "REDIRECT_TABLE_BAD_READ = 0xFFFFFFFFFFFFFFFF"

definition get_gsi_max :: "apic_hw \<Rightarrow> ent1 \<Rightarrow> u8" where
  "get_gsi_max hw io = ucast (drop_bit 16 (ioapic_read hw (ioapic_base io) 1) AND 0xFF) AND NOT (push_bit 7 1)"

definition gsi_limit :: "apic_hw \<Rightarrow> ent1 \<Rightarrow> u32" where
  "gsi_limit hw io = ucast (get_gsi_max hw io) + gsi_base io"

definition find_valid_ioapic :: "apic \<Rightarrow> apic_hw \<Rightarrow> u32 \<Rightarrow> ent1 option" where
  "find_valid_ioapic a hw gsi = find (\<lambda>io. gsi_base io \<le> gsi \<and> gsi_limit hw io \<ge> gsi) (sa_objs (ioapics a))"

definition redir_reg :: "ent1 \<Rightarrow> u32 \<Rightarrow> u32" where
  "redir_reg io gsi = (gsi - gsi_base io) * 2 + 16"

definition write_redirection_table :: "apic_hw \<Rightarrow> ent1 option \<Rightarrow> u32 \<Rightarrow> u64 \<Rightarrow> bool \<times> apic_hw" where
  "write_redirection_table hw ioapic gsi data =
     (case ioapic of None \<Rightarrow> (False, hw)
      | Some io \<Rightarrow>
          let reg = redir_reg io gsi;
              hw = ioapic_write hw (ioapic_base io) reg (ucast (data AND 0xFFFFFFFF));
              hw = ioapic_write hw (ioapic_base io) (reg + 1) (ucast (drop_bit 32 data))
          in (True, hw))"

definition read_redirection_table :: "apic_hw \<Rightarrow> ent1 option \<Rightarrow> u32 \<Rightarrow> u64" where
  "read_redirection_table hw ioapic gsi =
     (case ioapic of None \<Rightarrow> REDIRECT_TABLE_BAD_READ
      | Some io \<Rightarrow>
          let reg = redir_reg io gsi in
          ucast (ioapic_read hw (ioapic_base io) reg) OR push_bit 32 (ucast (ioapic_read hw (ioapic_base io) (reg + 1))))"

definition mask_gsi :: "apic_hw \<Rightarrow> ent1 option \<Rightarrow> u32 \<Rightarrow> bool \<times> apic_hw" where
  "mask_gsi hw ioapic gsi =
     (let current_data = read_redirection_table hw ioapic gsi in
      if current_data = REDIRECT_TABLE_BAD_READ then (False, hw)
      else write_redirection_table hw ioapic gsi (current_data OR push_bit 16 1))"

definition redirect_value :: "u8 \<Rightarrow> u16 \<Rightarrow> u8 \<Rightarrow> u64" where
  "redirect_value irq flags ap =
     (let redirect = ucast irq + 32;
          redirect = (if flags AND push_bit 1 1 \<noteq> 0 then redirect OR push_bit 13 1 else redirect);
          redirect = (if flags AND push_bit 3 1 \<noteq> 0 then redirect OR push_bit 15 1 else redirect)
      in redirect OR push_bit 56 (ucast ap))"

definition redirect_gsi :: "apic_hw \<Rightarrow> ent1 option \<Rightarrow> u8 \<Rightarrow> u32 \<Rightarrow> u16 \<Rightarrow> u8 \<Rightarrow> bool \<times> apic_hw" where
  "redirect_gsi hw ioapic irq gsi flags ap = write_redirection_table hw ioapic gsi (redirect_value irq flags ap)"

text \<open>
  \<^verbatim>\<open>configure\<close>, with \<open>legacy\<close> the array \<^verbatim>\<open>legacy_mapped_irqs\<close> of 16 flags, whose index is not
  checked when it is read.
\<close>

definition apply_override :: "u8 \<Rightarrow> u32 \<Rightarrow> ent1 \<Rightarrow> ent2 \<Rightarrow> bool list \<times> apic_hw \<Rightarrow> (bool list \<times> apic_hw) kres" where
  "apply_override lid gsi_max io irq w =
     (let (legacy, hw) = w in
      if ovr_gsi irq \<ge> gsi_base io \<and> ovr_gsi irq < gsi_max
      then (if unat (ovr_gsi irq) \<ge> 16 then Inl Undefined
            else if \<not> legacy ! unat (ovr_gsi irq)
            then (let hw = snd (redirect_gsi hw (Some io) (irq_src irq) (ovr_gsi irq) (ovr_flags irq) lid) in
                  Inr (if ovr_gsi irq < 16 then legacy[unat (ovr_gsi irq) := True] else legacy, hw))
            else Inr w)
      else Inr w)"

primrec apply_overrides :: "u8 \<Rightarrow> u32 \<Rightarrow> ent1 \<Rightarrow> ent2 list \<Rightarrow> bool list \<times> apic_hw \<Rightarrow> (bool list \<times> apic_hw) kres" where
  "apply_overrides lid gsi_max io [] w = Inr w"
| "apply_overrides lid gsi_max io (irq # irqs) w =
     bindR (apply_override lid gsi_max io irq w) (apply_overrides lid gsi_max io irqs)"

primrec configure_ioapics :: "u8 \<Rightarrow> ent2 list \<Rightarrow> ent1 list \<Rightarrow> bool list \<times> apic_hw \<Rightarrow> (bool list \<times> apic_hw) kres" where
  "configure_ioapics lid irqs [] w = Inr w"
| "configure_ioapics lid irqs (io # ios) w =
     (let (legacy, hw) = w; gsi_max = gsi_limit hw io in
      bindR (for_u32 (gsi_base io) gsi_max (\<lambda>gsi hw. Inr (snd (mask_gsi hw (Some io) gsi))) hw) (\<lambda>hw.
      bindR (apply_overrides lid gsi_max io irqs (legacy, hw)) (configure_ioapics lid irqs ios)))"

primrec remap_legacy :: "apic \<Rightarrow> u8 \<Rightarrow> nat list \<Rightarrow> bool list \<times> apic_hw \<Rightarrow> apic_hw" where
  "remap_legacy a lid [] w = snd w"
| "remap_legacy a lid (i # is) w =
     (let (legacy, hw) = w in
      remap_legacy a lid is (legacy,
        if \<not> legacy ! i
        then snd (redirect_gsi hw (find_valid_ioapic a hw (word_of_nat i)) (word_of_nat i) (word_of_nat i) 0 lid)
        else hw))"

definition apic_configure :: "apic \<Rightarrow> apic_hw \<Rightarrow> apic_hw kres" where
  "apic_configure a hw =
     (let lid = lapic_id hw in
      bindR (configure_ioapics lid (sa_objs (irq_overrides a)) (sa_objs (ioapics a)) (replicate 16 False, hw)) (\<lambda>w.
      Inr (remap_legacy a lid [0..<16] w)))"

section \<open>The walk over the table\<close>

lemma sint_pos_small:
  assumes "0 < sint (n :: u32)"
  shows "unat n < 2147483648" "sint n = int (unat n)"
proof -
  show "unat n < 2147483648"
  proof (rule ccontr)
    assume "\<not> unat n < 2147483648"
    then have "2147483648 \<le> uint n" using unat_eq_nat_uint [of n] by linarith
    moreover have "uint n < 4294967296" using uint_lt2p [of n] by simp
    ultimately have "uint n div 2147483648 = 1" by simp
    then have b: "bit (uint n) 31" by (simp add: bit_iff_odd)
    have "sint n = take_bit 32 (uint n) - 2 ^ 32"
      using b by (simp add: sint_uint signed_take_bit_eq_take_bit_minus)
    then show False using assms uint_lt2p [of n] by (simp add: take_bit_int_eq_self)
  qed
  then show "sint n = int (unat n)" by (rule sint_small)
qed

lemma madt_size_decreases:
  assumes "0 < sint (n :: u32)" "0 < unat (l :: u8)"
  shows "nat (sint (n - ucast l)) < nat (sint n)"
proof (cases "0 < sint (n - ucast l)")
  case True
  note a = sint_pos_small [OF assms(1)] and b = sint_pos_small [OF True]
  have l: "unat (ucast l :: u32) = unat l" by (simp add: unsigned_ucast_eq take_bit_nat_eq_self_iff order.strict_trans [OF unsigned_less])
  have "ucast l \<le> n"
  proof (rule ccontr)
    assume "\<not> ucast l \<le> n"
    then have "unat (n - ucast l) = 4294967296 + unat n - unat l"
      by (simp add: unat_sub_if_size word_size u32_le_iff l)
    moreover have "unat l < 256" using unsigned_less [of l, where ?'a = nat] by simp
    ultimately show False using b(1) by linarith
  qed
  then have "unat (n - ucast l) = unat n - unat l" "unat l \<le> unat n" using l by (simp_all add: unat_sub u32_le_iff)
  then show ?thesis unfolding a(2) b(2) nat_int using assms(2) by linarith
next
  case False
  then show ?thesis using assms(1) by simp
qed

text \<open>The entries that a walk reaches.\<close>

inductive madt_at :: "u32 \<Rightarrow> u32 \<Rightarrow> apic \<times> vmm \<Rightarrow> u32 \<Rightarrow> u32 \<Rightarrow> apic \<times> vmm \<Rightarrow> bool" where
  ma_start: "madt_at e n w e n w"
| ma_next: "madt_at e0 n0 w0 e n w \<Longrightarrow> 0 < sint n \<Longrightarrow> madt_step e w = Inr (len, w') \<Longrightarrow>
     madt_at e0 n0 w0 (e + ucast len) (n - ucast len) w'"

lemma madt_walk_ends:
  assumes pos: "\<And>e n w len w'. madt_at e0 n0 w0 e n w \<Longrightarrow> 0 < sint n \<Longrightarrow> madt_step e w = Inr (len, w') \<Longrightarrow> len \<noteq> 0"
  shows "madt_at e0 n0 w0 e n w \<Longrightarrow> \<exists>r. madt_walk e n w = Some r"
proof (induction "nat (sint n)" arbitrary: e n w rule: less_induct)
  case less
  show ?case
  proof (cases "0 < sint n")
    case True
    show ?thesis
    proof (cases "madt_step e w")
      case (Inl x)
      then show ?thesis by (subst madt_walk.simps) simp
    next
      case (Inr y)
      obtain len w' where y: "y = (len, w')" by (rule prod.exhaust)
      have at: "madt_at e0 n0 w0 (e + ucast len) (n - ucast len) w'"
        using ma_next [OF less.prems True] Inr y by blast
      have "len \<noteq> 0" using pos [OF less.prems True] Inr y by blast
      then have "nat (sint (n - ucast len)) < nat (sint n)"
        by (intro madt_size_decreases [OF True]) (simp add: unat_gt_0)
      from less.hyps [OF this at] show ?thesis using True Inr y by (subst madt_walk.simps) simp
    qed
  next
    case False
    then show ?thesis by (subst madt_walk.simps) simp
  qed
qed

text \<open>
  Property C38 (termination): the walk over the entries of the table ends whenever every entry it
  reaches with bytes left has a length other than zero, whatever the entries are and even if the
  lengths do not add up to the length of the table.
\<close>

theorem madt_walk_terminates:
  assumes "\<forall>e n w len w'. madt_at e0 n0 w0 e n w \<and> 0 < sint n \<and> madt_step e w = Inr (len, w') \<longrightarrow> len \<noteq> 0"
  shows "\<exists>r. madt_walk e0 n0 w0 = Some r"
  using madt_walk_ends [OF _ ma_start] assms by blast

text \<open>An entry of length zero and of a type the kernel does not know holds the walk forever.\<close>

lemma madt_zero_length_hangs:
  assumes "madt_step e w = Inr (0, w)" "0 < sint n"
  shows "madt_walk e n w = None"
proof -
  have "madt_walk e' n' w' = Some r \<longrightarrow> \<not> (madt_step e' w' = Inr (0, w') \<and> 0 < sint n')" for e' n' w' r
  proof (rule impI, erule madt_walk.raw_induct [rotated])
    fix f e n w r
    assume IH: "\<And>e n w r. f e n w = Some r \<Longrightarrow> \<not> (madt_step e w = Inr (0, w) \<and> 0 < sint n)"
      and body: "(if 0 < sint n then case madt_step e w of Inl x \<Rightarrow> Some (Inl x)
           | Inr (len, w) \<Rightarrow> f (e + ucast len) (n - ucast len) w else Some (Inr w)) = Some r"
    show "\<not> (madt_step e w = Inr (0, w) \<and> 0 < sint n)"
    proof
      assume h: "madt_step e w = Inr (0, w) \<and> 0 < sint n"
      then have "f e n w = Some r" using body by simp
      then show False using IH h by blast
    qed
  qed
  then show ?thesis using assms by (cases "madt_walk e n w") auto
qed

section \<open>The redirection tables\<close>

lemma split_u64:
  "ucast (ucast (d AND 0xFFFFFFFF) :: u32) OR push_bit 32 (ucast (ucast (drop_bit 32 d) :: u32)) = (d :: u64)"
proof (rule bit_word_eqI)
  fix n assume "n < LENGTH(64)"
  have m: "(0xFFFFFFFF :: u64) = mask 32" by (simp add: mask_eq_decr_exp)
  show "bit (ucast (ucast (d AND 0xFFFFFFFF) :: u32) OR push_bit 32 (ucast (ucast (drop_bit 32 d) :: u32)) :: u64) n = bit d n"
    unfolding m using \<open>n < LENGTH(64)\<close> by (cases "n < 32") (auto simp: bit_simps)
qed

lemma redir_reg_inj:
  assumes "gsi_base io \<le> g" "gsi_base io \<le> h" "unat (g - gsi_base io) < 256" "unat (h - gsi_base io) < 256"
    and "redir_reg io g = redir_reg io h + d" "d = 0 \<or> d = 1 \<or> d = - 1"
  shows "g = h \<and> d = 0"
proof -
  have r: "unat (redir_reg io x) = 2 * unat (x - gsi_base io) + 16" if "unat (x - gsi_base io) < 256" for x
  proof -
    have m: "unat ((x - gsi_base io) * 2) = 2 * unat (x - gsi_base io)"
      using that by (subst unat_mult_u32) simp_all
    show ?thesis unfolding redir_reg_def by (subst unat_add_u32) (use m that in simp_all)
  qed
  have e: "unat (redir_reg io h + d) = 2 * unat (g - gsi_base io) + 16" using r [OF assms(3)] assms(5) by simp
  from assms(6) show ?thesis
  proof (elim disjE)
    assume d: "d = 0"
    then have "unat (g - gsi_base io) = unat (h - gsi_base io)" using e r [OF assms(4)] by simp
    then have "g - gsi_base io = h - gsi_base io" by (simp add: u32_eq_iff)
    then show ?thesis using d by simp
  next
    assume d: "d = 1"
    have "unat (redir_reg io h + 1) = unat (redir_reg io h) + 1"
      using r [OF assms(4)] assms(4) by (subst unat_add_u32) simp_all
    then have "2 * unat (h - gsi_base io) + 17 = 2 * unat (g - gsi_base io) + 16" using e d r [OF assms(4)] by simp
    then have False by presburger
    then show ?thesis ..
  next
    assume d: "d = - 1"
    have "unat (redir_reg io h - 1) = unat (redir_reg io h) - 1"
      using r [OF assms(4)] by (subst unat_sub_u32) (simp_all add: u32_le_iff)
    then have "2 * unat (h - gsi_base io) + 15 = 2 * unat (g - gsi_base io) + 16" using e d r [OF assms(4)] by simp
    then have False by presburger
    then show ?thesis ..
  qed
qed

lemma read_write_redirection:
  assumes "unat (g - gsi_base io) < 256" "unat (h - gsi_base io) < 256" "gsi_base io \<le> g" "gsi_base io \<le> h"
  shows "read_redirection_table (snd (write_redirection_table hw (Some io) g d)) (Some io) h =
    (if h = g then d else read_redirection_table hw (Some io) h)"
proof (cases "h = g")
  case True
  have "redir_reg io g \<noteq> redir_reg io g + 1" by simp
  then show ?thesis using True split_u64 [of d]
    by (simp add: read_redirection_table_def write_redirection_table_def Let_def ioapic_read_def ioapic_write_def)
next
  case False
  have "redir_reg io h \<noteq> redir_reg io g" "redir_reg io h \<noteq> redir_reg io g + 1" "redir_reg io g \<noteq> redir_reg io h + 1"
    using redir_reg_inj [OF assms(4,3,2,1), of 0] redir_reg_inj [OF assms(4,3,2,1), of 1]
      redir_reg_inj [OF assms(3,4,1,2), of 1] False by auto
  then show ?thesis using False
    by (simp add: read_redirection_table_def write_redirection_table_def Let_def ioapic_read_def ioapic_write_def)
qed


section \<open>Routing the legacy lines\<close>

text \<open>The lines of a controller: the number of its last line is at most 127.\<close>

lemma gsi_max_le: "unat (get_gsi_max hw io) < 128"
proof -
  have m: "NOT (push_bit 7 1 :: u8) = mask 7" by (simp add: mask_eq_decr_exp)
  show ?thesis unfolding get_gsi_max_def m unat_and_mask by simp
qed

lemma unat_gsi_limit:
  assumes "unat (gsi_base io) + 128 \<le> 4294967296"
  shows "unat (gsi_limit hw io) = unat (gsi_base io) + unat (get_gsi_max hw io)"
proof -
  have "unat (ucast (get_gsi_max hw io) :: u32) = unat (get_gsi_max hw io)"
    by (simp add: unsigned_ucast_eq take_bit_nat_eq_self_iff order.strict_trans [OF unsigned_less])
  then show ?thesis unfolding gsi_limit_def using gsi_max_le [of hw io] assms by (subst unat_add_u32) simp_all
qed

definition on_ioapic :: "ent1 \<Rightarrow> u32 \<Rightarrow> bool" where
  "on_ioapic io g \<longleftrightarrow> gsi_base io \<le> g \<and> unat (g - gsi_base io) < 256"

definition entry :: "apic_hw \<Rightarrow> ent1 \<Rightarrow> u32 \<Rightarrow> u64" where
  "entry hw io g = read_redirection_table hw (Some io) g"

lemma entry_write:
  "on_ioapic io g \<Longrightarrow> on_ioapic io h \<Longrightarrow>
   entry (snd (write_redirection_table hw (Some io) g d)) io h = (if h = g then d else entry hw io h)"
  by (simp add: entry_def on_ioapic_def read_write_redirection)

lemma entry_redirect:
  "on_ioapic io g \<Longrightarrow> on_ioapic io h \<Longrightarrow>
   entry (snd (redirect_gsi hw (Some io) irq g flags ap)) io h = (if h = g then redirect_value irq flags ap else entry hw io h)"
  by (simp add: redirect_gsi_def entry_write)

text \<open>No write to a redirection table touches the register with the number of lines.\<close>

lemma write_keeps_version:
  assumes "on_ioapic io g"
  shows "ioapic_read (snd (write_redirection_table hw (Some io) g d)) (ioapic_base io) 1 = ioapic_read hw (ioapic_base io) 1"
proof -
  have m: "unat ((g - gsi_base io) * 2) = 2 * unat (g - gsi_base io)"
    using assms by (subst unat_mult_u32) (simp_all add: on_ioapic_def)
  have "unat (redir_reg io g) = 2 * unat (g - gsi_base io) + 16"
    unfolding redir_reg_def using assms m by (subst unat_add_u32) (simp_all add: on_ioapic_def)
  moreover from this have "unat (redir_reg io g + 1) = 2 * unat (g - gsi_base io) + 17"
    using assms by (subst unat_add_u32) (simp_all add: on_ioapic_def)
  ultimately have "redir_reg io g \<noteq> 1" "redir_reg io g + 1 \<noteq> 1" by auto
  then show ?thesis by (simp add: write_redirection_table_def Let_def ioapic_read_def ioapic_write_def)
qed

lemma gsi_limit_write:
  "on_ioapic io g \<Longrightarrow> gsi_limit (snd (write_redirection_table hw (Some io) g d)) io = gsi_limit hw io"
  using write_keeps_version by (simp add: gsi_limit_def get_gsi_max_def)

lemma gsi_limit_mask: "on_ioapic io g \<Longrightarrow> gsi_limit (snd (mask_gsi hw (Some io) g)) io = gsi_limit hw io"
  by (simp add: mask_gsi_def Let_def gsi_limit_write)

text \<open>
  The masking loop: every line below the last one is masked (but a table entry of all ones,
  which reads as a failure), and the last line of the controller is not touched.
\<close>

lemma mask_lines:
  assumes b: "unat (gsi_base io) + 128 \<le> 4294967296"
  shows "\<exists>hw'. for_u32 (gsi_base io) (gsi_limit hw io) (\<lambda>gsi hw. Inr (snd (mask_gsi hw (Some io) gsi))) hw = Inr hw' \<and>
    gsi_limit hw' io = gsi_limit hw io \<and>
    (\<forall>h. on_ioapic io h \<longrightarrow> entry hw' io h =
       (if h < gsi_limit hw io \<and> entry hw io h \<noteq> REDIRECT_TABLE_BAD_READ then entry hw io h OR push_bit 16 1 else entry hw io h))"
proof -
  let ?I = "\<lambda>k hw'. gsi_limit hw' io = gsi_limit hw io \<and>
    (\<forall>h. on_ioapic io h \<longrightarrow> entry hw' io h =
       (if unat h < k \<and> entry hw io h \<noteq> REDIRECT_TABLE_BAD_READ then entry hw io h OR push_bit 16 1 else entry hw io h))"
  note lim = unat_gsi_limit [OF b, of hw] and mx = gsi_max_le [of hw io]
  have "\<exists>hw'. for_u32 (gsi_base io) (gsi_limit hw io) (\<lambda>gsi hw. Inr (snd (mask_gsi hw (Some io) gsi))) hw = Inr hw' \<and>
    ?I (unat (gsi_limit hw io)) hw'"
  proof (rule for_u32_total)
    show "?I (unat (gsi_base io)) hw" by (auto simp: on_ioapic_def u32_le_iff)
    show "gsi_base io \<le> gsi_limit hw io" using lim by (simp add: u32_le_iff)
  next
    fix k hw1 assume k: "gsi_base io \<le> k" "k < gsi_limit hw io" and I: "?I (unat k) hw1"
    have "unat (k - gsi_base io) = unat k - unat (gsi_base io)" using k(1) by (simp add: unat_sub)
    then have on: "on_ioapic io k" using k lim mx by (simp add: on_ioapic_def u32_less_iff)
    have e: "entry (snd (mask_gsi hw1 (Some io) k)) io h =
      (if h = k \<and> entry hw1 io k \<noteq> REDIRECT_TABLE_BAD_READ then entry hw1 io k OR push_bit 16 1 else entry hw1 io h)"
      if "on_ioapic io h" for h
      using entry_write [OF on that] by (auto simp: mask_gsi_def Let_def entry_def [symmetric])
    have suc: "unat h < Suc (unat k) \<longleftrightarrow> unat h < unat k \<or> h = k" for h
      by (auto simp: less_Suc_eq word_unat_eq_iff)
    have "?I (Suc (unat k)) (snd (mask_gsi hw1 (Some io) k))"
      using I e on by (auto simp: gsi_limit_mask suc)
    then show "\<exists>s'. Inr (snd (mask_gsi hw1 (Some io) k)) = Inr s' \<and> ?I (Suc (unat k)) s'" by blast
  qed
  then show ?thesis by (simp add: u32_less_iff)
qed


definition override_for :: "ent2 list \<Rightarrow> u32 \<Rightarrow> ent2 option" where
  "override_for irqs g = find (\<lambda>irq. ovr_gsi irq = g) irqs"

lemma apply_overrides_entries:
  assumes base: "gsi_base io = 0" and lim: "16 \<le> lim" "lim < 256"
    and irqs: "\<forall>irq \<in> set irqs. ovr_gsi irq < 16 \<or> lim \<le> ovr_gsi irq"
  shows "length legacy = 16 \<Longrightarrow>
    \<exists>legacy' hw'. apply_overrides lid lim io irqs (legacy, hw) = Inr (legacy', hw') \<and> length legacy' = 16 \<and>
      gsi_limit hw' io = gsi_limit hw io \<and>
      (\<forall>g < 16. legacy' ! unat g = (legacy ! unat g \<or> override_for irqs g \<noteq> None)) \<and>
      (\<forall>g. on_ioapic io g \<longrightarrow> entry hw' io g =
         (if g < 16 \<and> \<not> legacy ! unat g
          then (case override_for irqs g of None \<Rightarrow> entry hw io g
                | Some irq \<Rightarrow> redirect_value (irq_src irq) (ovr_flags irq) lid)
          else entry hw io g))"
  using irqs
proof (induction irqs arbitrary: legacy hw)
  case Nil
  then show ?case by (simp add: override_for_def)
next
  case (Cons irq irqs)
  let ?g = "ovr_gsi irq"
  have u16: "g < 16 \<longleftrightarrow> unat g < 16" for g :: u32 by (simp add: u32_less_iff)
  have on16: "on_ioapic io g" if "g < 16" for g using that base by (simp add: on_ioapic_def u32_less_iff)
  show ?case
  proof (cases "?g < 16 \<and> \<not> legacy ! unat ?g")
    case True
    let ?hw = "snd (redirect_gsi hw (Some io) (irq_src irq) ?g (ovr_flags irq) lid)"
    let ?lg = "legacy[unat ?g := True]"
    have on: "on_ioapic io ?g" using True on16 by blast
    have "?g < lim" using True lim(1) by (simp add: u32_less_iff u32_le_iff)
    then have step: "apply_override lid lim io irq (legacy, hw) = Inr (?lg, ?hw)"
      using True base by (simp add: apply_override_def Let_def u32_less_iff)
    have len: "length ?lg = 16" using Cons.prems(1) by simp
    have lg: "?lg ! unat g = (legacy ! unat g \<or> g = ?g)" if "g < 16" for g
      using that Cons.prems(1) by (cases "g = ?g") (auto simp: u32_less_iff word_unat_eq_iff)
    have ov: "override_for (irq # irqs) g = (if g = ?g then Some irq else override_for irqs g)" for g
      by (auto simp: override_for_def)
    obtain legacy' hw' where r: "apply_overrides lid lim io irqs (?lg, ?hw) = Inr (legacy', hw')" "length legacy' = 16"
      "gsi_limit hw' io = gsi_limit ?hw io"
      "\<And>g. g < 16 \<Longrightarrow> legacy' ! unat g = (?lg ! unat g \<or> override_for irqs g \<noteq> None)"
      "\<And>g. on_ioapic io g \<Longrightarrow> entry hw' io g = (if g < 16 \<and> \<not> ?lg ! unat g
          then (case override_for irqs g of None \<Rightarrow> entry ?hw io g
                | Some irq \<Rightarrow> redirect_value (irq_src irq) (ovr_flags irq) lid) else entry ?hw io g)"
      using Cons.IH [OF len, of ?hw] Cons.prems(2) by auto
    have "gsi_limit hw' io = gsi_limit hw io" using r(3) gsi_limit_write [OF on] by (simp add: redirect_gsi_def)
    moreover have "entry hw' io g = (if g < 16 \<and> \<not> legacy ! unat g
          then (case override_for (irq # irqs) g of None \<Rightarrow> entry hw io g
                | Some irq \<Rightarrow> redirect_value (irq_src irq) (ovr_flags irq) lid) else entry hw io g)"
      if "on_ioapic io g" for g
      using r(5) [OF that] lg [of g] ov [of g] entry_redirect [OF on that, of hw "irq_src irq" "ovr_flags irq" lid] True
      by (cases "g = ?g") (auto split: option.split)
    moreover have "legacy' ! unat g = (legacy ! unat g \<or> override_for (irq # irqs) g \<noteq> None)" if "g < 16" for g
      using r(4) [OF that] lg [OF that] ov [of g] by auto
    ultimately show ?thesis using step r(1,2) by simp
  next
    case False
    have step: "apply_override lid lim io irq (legacy, hw) = Inr (legacy, hw)"
      using False Cons.prems(2) lim base by (auto simp: apply_override_def Let_def u32_less_iff u32_le_iff)
    have ov: "override_for (irq # irqs) g = override_for irqs g" if "g < 16" "\<not> legacy ! unat g" for g
      using that False by (auto simp: override_for_def)
    obtain legacy' hw' where r: "apply_overrides lid lim io irqs (legacy, hw) = Inr (legacy', hw')" "length legacy' = 16"
      "gsi_limit hw' io = gsi_limit hw io"
      "\<And>g. g < 16 \<Longrightarrow> legacy' ! unat g = (legacy ! unat g \<or> override_for irqs g \<noteq> None)"
      "\<And>g. on_ioapic io g \<Longrightarrow> entry hw' io g = (if g < 16 \<and> \<not> legacy ! unat g
          then (case override_for irqs g of None \<Rightarrow> entry hw io g
                | Some irq \<Rightarrow> redirect_value (irq_src irq) (ovr_flags irq) lid) else entry hw io g)"
      using Cons.IH [OF Cons.prems(1), of hw] Cons.prems(2) by auto
    have "legacy' ! unat g = (legacy ! unat g \<or> override_for (irq # irqs) g \<noteq> None)" if "g < 16" for g
      using r(4) [OF that] ov [OF that] by (cases "legacy ! unat g") auto
    moreover have "entry hw' io g = (if g < 16 \<and> \<not> legacy ! unat g
          then (case override_for (irq # irqs) g of None \<Rightarrow> entry hw io g
                | Some irq \<Rightarrow> redirect_value (irq_src irq) (ovr_flags irq) lid) else entry hw io g)"
      if "on_ioapic io g" for g
      using r(5) [OF that] ov [of g] by auto
    ultimately show ?thesis using step r(1-3) by simp
  qed
qed

lemma remap_legacy_entries:
  assumes io: "sa_objs (ioapics a) = [io]" and base: "gsi_base io = 0"
  shows "16 \<le> gsi_limit hw io \<Longrightarrow> n \<le> 16 \<Longrightarrow> on_ioapic io g \<Longrightarrow>
    entry (remap_legacy a lid [n..<16] (legacy, hw)) io g =
      (if g < 16 \<and> n \<le> unat g \<and> \<not> legacy ! unat g then redirect_value (ucast g) 0 lid else entry hw io g)"
proof (induction "16 - n" arbitrary: n hw)
  case 0
  then have "n = 16" by simp
  then show ?case by (auto simp: u32_less_iff)
next
  case (Suc k)
  let ?i = "word_of_nat n :: u32"
  have n: "n < 16" using Suc.hyps(2) by simp
  have ui: "unat ?i = n" using n by (simp add: unat_of_nat_u32 del: unsigned_of_nat)
  have on: "on_ioapic io ?i" using base n by (simp add: on_ioapic_def ui del: unsigned_of_nat)
  have fv: "find_valid_ioapic a hw ?i = Some io"
    using io base Suc.prems(1) n ui by (simp add: find_valid_ioapic_def u32_le_iff del: unsigned_of_nat)
  let ?hw = "if \<not> legacy ! n then snd (redirect_gsi hw (Some io) (word_of_nat n) ?i 0 lid) else hw"
  have lim: "16 \<le> gsi_limit ?hw io" using Suc.prems(1) gsi_limit_write [OF on] by (simp add: redirect_gsi_def)
  have split: "[n..<16] = n # [Suc n..<16]" using n by (rule upt_conv_Cons)
  have c: "(word_of_nat n :: u8) = ucast ?i" using n by (simp add: word_unat_eq_iff unsigned_ucast_eq ui take_bit_eq_mod unat_of_nat)
  have "entry (remap_legacy a lid [n..<16] (legacy, hw)) io g = entry (remap_legacy a lid [Suc n..<16] (legacy, ?hw)) io g"
    unfolding split by (simp add: fv Let_def)
  also have "\<dots> = (if g < 16 \<and> Suc n \<le> unat g \<and> \<not> legacy ! unat g then redirect_value (ucast g) 0 lid else entry ?hw io g)"
    using Suc.hyps(2) n by (intro Suc.hyps(1) lim Suc.prems(3)) auto
  also have "\<dots> = (if g < 16 \<and> n \<le> unat g \<and> \<not> legacy ! unat g then redirect_value (ucast g) 0 lid else entry hw io g)"
  proof (cases "g = ?i")
    case True
    then show ?thesis using ui n entry_redirect [OF on on, of hw "word_of_nat n" 0 lid]
      by (simp add: u32_less_iff c del: unsigned_of_nat)
  next
    case False
    then have "Suc n \<le> unat g \<longleftrightarrow> n \<le> unat g" using ui by (auto simp: word_unat_eq_iff)
    then show ?thesis using entry_redirect [OF on Suc.prems(3), of hw "word_of_nat n" 0 lid] False by simp
  qed
  finally show ?case .
qed



text \<open>An override for a line from 16 on that belongs to the controller reads past the flags.\<close>

lemma configure_override_beyond_16:
  assumes io: "sa_objs (ioapics a) = [io]" "gsi_base io = 0"
    and irqs: "sa_objs (irq_overrides a) = irq # rest" "16 \<le> ovr_gsi irq" "ovr_gsi irq < ucast (get_gsi_max hw io)"
  shows "apic_configure a hw = Inl Undefined"
proof -
  have b: "unat (gsi_base io) + 128 \<le> 4294967296" by (simp add: io(2))
  obtain hw1 where m: "for_u32 (gsi_base io) (gsi_limit hw io) (\<lambda>gsi hw. Inr (snd (mask_gsi hw (Some io) gsi))) hw = Inr hw1"
    using mask_lines [OF b, of hw] by blast
  have "gsi_limit hw io = ucast (get_gsi_max hw io)" by (simp add: gsi_limit_def io(2))
  then show ?thesis using m io irqs
    by (simp add: apic_configure_def Let_def apply_override_def u32_le_iff)
qed


text \<open>An example: one controller with 24 lines, the timer rerouted to line 2.\<close>

definition slots_of :: "'a list \<Rightarrow> 'a static_array" where
  "slots_of xs = \<lparr>slots = map (\<lambda>x. \<lparr>slot_ptr = Some x, constructed = True\<rparr>) xs, live_count = word_of_nat (length xs)\<rparr>"

definition pc_io :: ent1 where
  "pc_io = \<lparr>ioapic_id = 0, ioapic_base = 0xFEC00000, gsi_base = 0\<rparr>"

definition pc_timer :: ent2 where
  "pc_timer = \<lparr>bus_src = 0, irq_src = 0, ovr_gsi = 2, ovr_flags = 0\<rparr>"

definition pc_apic :: apic where
  "pc_apic = \<lparr>lapics = slots_of [], ioapics = slots_of [pc_io], irq_overrides = slots_of [pc_timer],
     nmi_sources = slots_of [], lint_sources = slots_of [], lapic_base = 0xFEE00000\<rparr>"

definition pc_hw :: apic_hw where
  "pc_hw = \<lparr>lapic_reg = (\<lambda>r. 0), ioapic_reg = (\<lambda>b r. if r = 1 then 0x170011 else 0), msrs = (\<lambda>m. 0), ipis = []\<rparr>"

lemma sa_objs_single: "sa_objs (slots_of [x]) = [x]"
proof -
  have "sa_begin (slots_of [x]) = 0"
    by (simp add: sa_begin_def skip_invalid.simps sa_occupied_def slots_of_def sa_capacity_def)
  moreover have "it_next (slots_of [x]) 0 = 1"
    by (simp add: it_next_def skip_invalid.simps slots_of_def sa_capacity_def)
  ultimately show ?thesis
    by (simp add: sa_objs_def sa_visit.simps [of _ 0] sa_visit.simps [of _ 1] slots_of_def sa_capacity_def sa_ptr_def
        ptr_if_constructed_def)
qed


text \<open>An example: a table of one entry of an unknown type, four bytes long.\<close>

definition madt_vmm :: vmm where
  "madt_vmm = \<lparr>phys = (\<lambda>a. 0)(0x5000 := 9, 0x5001 := 4), cr3 = 0, paging = False,
     vpmm = \<lparr>mem_mngr = bm_init PMM_params, available_frames = 0, used_frames = 0\<rparr>, kernel_dir_phys = 0\<rparr>"

lemma madt_vmm_step: "madt_step 0x5000 (pc_apic, madt_vmm) = Inr (4, pc_apic, madt_vmm)"
  by (simp add: madt_step_def vload8_def translate_def madt_vmm_def)

lemma madt_vmm_reach:
  "madt_at 0x5000 4 (pc_apic, madt_vmm) e n w \<Longrightarrow> n = 4 \<and> e = 0x5000 \<and> w = (pc_apic, madt_vmm) \<or> n = 0"
proof (induction "0x5000 :: u32" "4 :: u32" "(pc_apic, madt_vmm)" e n w rule: madt_at.induct)
  case (ma_next e n w len w')
  then show ?case using madt_vmm_step by auto
qed simp

text \<open>The theorem at the example.\<close>

theorem madt_walk_terminates_witness: "\<exists>r. madt_walk 0x5000 4 (pc_apic, madt_vmm) = Some r"
proof (rule madt_walk_terminates, intro allI impI)
  fix e n w len w'
  assume h: "madt_at 0x5000 4 (pc_apic, madt_vmm) e n w \<and> 0 < sint n \<and> madt_step e w = Inr (len, w')"
  then have "e = 0x5000 \<and> w = (pc_apic, madt_vmm)" using madt_vmm_reach [of e n w] by auto
  then show "len \<noteq> 0" using h madt_vmm_step by auto
qed

end
