(* ===== verification/Core_Stack.thy ===== *)
theory Core_Stack
  imports Machine
begin

text \<open>
  \<^verbatim>\<open>CoreStack\<close> of \<^verbatim>\<open>sys/smp.hpp\<close>: kernel stacks of 4096 bytes, aligned to their size, with an
  anchor at the bottom from which the running core is found by masking the stack pointer.
\<close>

definition CORE_STACK_SIZE :: u32 where "CORE_STACK_SIZE = 4096"
definition STACK_MAGIC :: u32 where "STACK_MAGIC = 0x434F5245"

record stack_anchor =
  anchor_magic :: u32
  anchor_stack_id :: u32
  anchor_core :: u32
  anchor_reserved :: u32

definition load_anchor :: "mem \<Rightarrow> u32 \<Rightarrow> stack_anchor" where
  "load_anchor m a = \<lparr>anchor_magic = load32 m a, anchor_stack_id = load32 m (a + 4),
     anchor_core = load32 m (a + 8), anchor_reserved = load32 m (a + 12)\<rparr>"

definition store_anchor :: "mem \<Rightarrow> u32 \<Rightarrow> stack_anchor \<Rightarrow> mem" where
  "store_anchor m a v = store32 (store32 (store32 (store32 m a (anchor_magic v)) (a + 4) (anchor_stack_id v))
     (a + 8) (anchor_core v)) (a + 12) (anchor_reserved v)"

definition init_stack_anchor :: "mem \<Rightarrow> u32 \<Rightarrow> u32 \<Rightarrow> u32 \<Rightarrow> mem" where
  "init_stack_anchor m this stack_id core = store_anchor m this
     \<lparr>anchor_magic = STACK_MAGIC, anchor_stack_id = stack_id, anchor_core = core, anchor_reserved = 0\<rparr>"

definition copy_anchor_from :: "mem \<Rightarrow> u32 \<Rightarrow> u32 \<Rightarrow> mem" where
  "copy_anchor_from m this stack = store_anchor m this (load_anchor m stack)"

definition stack_base :: "u32 \<Rightarrow> u32" where
  "stack_base this = this"

definition initial_sp :: "u32 \<Rightarrow> u32" where
  "initial_sp this = stack_base this + 4096"

definition from_sp :: "u32 \<Rightarrow> u32" where
  "from_sp sp = sp AND NOT (4096 - 1)"

definition anchor_from_sp :: "u32 \<Rightarrow> u32" where
  "anchor_from_sp sp = from_sp sp"

definition current_anchor :: "mem \<Rightarrow> u32 \<Rightarrow> u32 kres" where
  "current_anchor m esp =
     (let anchor = anchor_from_sp esp in
      if anchor_magic (load_anchor m anchor) \<noteq> STACK_MAGIC
      then Inl (Panic ''invalid current core stack anchor'') else Inr anchor)"

definition current_core :: "mem \<Rightarrow> u32 \<Rightarrow> u32 kres" where
  "current_core m esp = bindR (current_anchor m esp) (\<lambda>anchor.
     let core = anchor_core (load_anchor m anchor) in
     if core = 0 then Inl (Panic ''current core is null'') else Inr core)"

section \<open>Finding the anchor\<close>

lemma from_sp_unat: "unat (from_sp sp) = unat sp div 4096 * 4096"
  using unat_and_not_mask [of sp 12] by (simp add: from_sp_def mask_eq_exp_minus_1)

lemma from_sp_in_stack:
  assumes "unat b mod 4096 = 0" "unat b \<le> unat sp" "unat sp < unat b + 4096"
  shows "from_sp sp = b"
proof -
  obtain q where q: "unat b = 4096 * q" using assms(1) by auto
  then have "unat sp div 4096 = q" using assms(2,3) by (intro div_nat_eqI) auto
  then have "unat (from_sp sp) = unat b" using q by (simp add: from_sp_unat)
  then show ?thesis by (simp add: word_unat_eq_iff)
qed

lemma load_store_anchor:
  assumes "word_aligned a"
  shows "load_anchor (store_anchor m a v) a = v"
proof -
  have "word_aligned 4" "word_aligned 8" "word_aligned 12" by (simp_all add: word_aligned_def)
  then have "word_aligned (a + 4)" "word_aligned (a + 8)" "word_aligned (a + 12)"
    using word_aligned_add [OF assms] by blast+
  then show ?thesis using assms by (simp add: load_anchor_def store_anchor_def load32_store32)
qed

lemma page_word_aligned: "unat b mod 4096 = 0 \<Longrightarrow> word_aligned b"
  unfolding word_aligned_dvd by (rule dvd_trans [of 4 4096]) auto

text \<open>
  A stack whose anchor was copied from the creator's stack, or
  initialised for a core, identifies that core at every stack pointer inside of it: masking
  the pointer finds the anchor, the magic number matches and the core is the creator's.
\<close>

theorem stack_identifies_core:
  assumes "unat b mod 4096 = 0" and "unat b \<le> unat sp'" and "unat sp' < unat b + 4096" and "core \<noteq> 0"
  shows "(current_core m sp = Inr core \<longrightarrow> current_core (copy_anchor_from m b (from_sp sp)) sp' = Inr core) \<and>
    current_core (init_stack_anchor m b k core) sp' = Inr core"
proof -
  have sp': "from_sp sp' = b" using from_sp_in_stack [OF assms(1-3)] .
  note ls = load_store_anchor [OF page_word_aligned [OF assms(1)]]
  show ?thesis
    using assms(4) by (auto simp: current_core_def current_anchor_def sp' copy_anchor_from_def init_stack_anchor_def
        ls Let_def anchor_from_sp_def bindR_eq_Inr split: if_splits)
qed

theorem stack_identifies_core_witness:
  "current_core (init_stack_anchor (\<lambda>_. 0) 0x9000 0 0x100000) 0x9FF0 = Inr 0x100000"
  using stack_identifies_core [of "0x9000" "0x9FF0" "0x100000" "\<lambda>_. 0" 0 0] by simp

end
