(* ===== verification/Sync.thy ===== *)
theory Sync
  imports Kernel_Prelude
begin

text \<open>
  \<^verbatim>\<open>klibcpp/spinlock.hpp\<close>, \<^verbatim>\<open>iguard.hpp\<close> and the operations of \<^verbatim>\<open>atomic.hpp\<close>, on any number of cores. Each access of the lock word is one atomic step of one
  core (its acquire and release orders make the accesses of one word sequentially consistent),
  and the cores' steps interleave freely.
\<close>

section \<open>Atomic cells\<close>

definition atomic_load :: "'a \<Rightarrow> 'a" where
  "atomic_load v = v"

definition atomic_store :: "'a \<Rightarrow> 'a \<Rightarrow> 'a" where
  "atomic_store v x = x"

definition atomic_exchange :: "'a \<Rightarrow> 'a \<Rightarrow> 'a \<times> 'a" where
  "atomic_exchange v x = (v, x)"

text \<open>The success, the value of \<^verbatim>\<open>expected\<close> afterwards and the cell.\<close>

definition atomic_compare_exchange :: "'a \<Rightarrow> 'a \<Rightarrow> 'a \<Rightarrow> bool \<times> 'a \<times> 'a" where
  "atomic_compare_exchange v expected desired = (if v = expected then (True, expected, desired) else (False, v, v))"

definition fetch_add :: "'w::len word \<Rightarrow> 'w word \<Rightarrow> 'w word \<times> 'w word" where
  "fetch_add v x = (v, v + x)"

definition fetch_sub :: "'w::len word \<Rightarrow> 'w word \<Rightarrow> 'w word \<times> 'w word" where
  "fetch_sub v x = (v, v - x)"

section \<open>Interrupt guards\<close>

text \<open>The constructor: \<^verbatim>\<open>should_enable\<close> and the flags register after \<^verbatim>\<open>cli\<close>; the destructor.\<close>

definition IF_bit :: nat where
  "IF_bit = 9"

definition interrupt_guard :: "u32 \<Rightarrow> bool \<times> u32" where
  "interrupt_guard flags = (bit flags IF_bit, unset_bit IF_bit flags)"

definition interrupt_guard_end :: "bool \<Rightarrow> u32 \<Rightarrow> u32" where
  "interrupt_guard_end should_enable flags = (if should_enable then set_bit IF_bit flags else flags)"

lemma interrupt_guard_off: "\<not> bit (snd (interrupt_guard flags)) IF_bit"
  by (simp add: interrupt_guard_def bit_unset_bit_iff)

text \<open>A guard restores the flags it found, and so do guards nested in it.\<close>

lemma interrupt_guard_restores:
  "interrupt_guard_end (fst (interrupt_guard flags)) (snd (interrupt_guard flags)) = flags"
  by (rule bit_word_eqI) (auto simp: interrupt_guard_def interrupt_guard_end_def IF_bit_def bit_simps bit_set_bit_iff)

section \<open>Spin locks\<close>

text \<open>
  Where a core is in the code of the lock: outside, before the \<^verbatim>\<open>exchange\<close> of \<^verbatim>\<open>lock\<close>, in the inner
  loop, in the section the lock protects, or between the destructor of the lock guard and that
  of the interrupt guard.
\<close>

datatype lock_pc = Outside | Exchanging | Spinning | Holding | Leaving

datatype guard_kind = Spin_Lock_Guard | Interrupt_Spin_Lock_Guard

record lock_core =
  core_pc :: lock_pc
  core_guard :: guard_kind
  core_flags :: u32
  core_should_enable :: bool

record lock_sys =
  locked :: bool
  lock_cores :: "nat \<Rightarrow> lock_core"

text \<open>One turn of the loops of \<^verbatim>\<open>lock\<close>: the next place and the lock word.\<close>

fun lock_turn :: "lock_pc \<Rightarrow> bool \<Rightarrow> lock_pc \<times> bool" where
  "lock_turn Exchanging v =
     (let (old, v') = atomic_exchange v True in (if old then Spinning else Holding, v'))"
| "lock_turn Spinning v = (if atomic_load v then Spinning else Exchanging, v)"
| "lock_turn pc v = (pc, v)"

definition try_lock :: "bool \<Rightarrow> bool \<times> bool" where
  "try_lock v = (let (old, v') = atomic_exchange v True in (\<not> old, v'))"

definition unlock :: "bool \<Rightarrow> bool" where
  "unlock v = atomic_store v False"

definition guard_begin :: "guard_kind \<Rightarrow> lock_core \<Rightarrow> lock_core" where
  "guard_begin k c =
     (case k of
        Spin_Lock_Guard \<Rightarrow> c\<lparr>core_pc := Exchanging, core_guard := k\<rparr>
      | Interrupt_Spin_Lock_Guard \<Rightarrow>
          let (e, f) = interrupt_guard (core_flags c) in
          c\<lparr>core_pc := Exchanging, core_guard := k, core_flags := f, core_should_enable := e\<rparr>)"

definition guard_release :: "lock_core \<Rightarrow> lock_core" where
  "guard_release c =
     (case core_guard c of
        Spin_Lock_Guard \<Rightarrow> c\<lparr>core_pc := Outside\<rparr>
      | Interrupt_Spin_Lock_Guard \<Rightarrow> c\<lparr>core_pc := Leaving\<rparr>)"

definition guard_end :: "lock_core \<Rightarrow> lock_core" where
  "guard_end c = c\<lparr>core_pc := Outside, core_flags := interrupt_guard_end (core_should_enable c) (core_flags c)\<rparr>"

definition upd_core :: "nat \<Rightarrow> lock_core \<Rightarrow> lock_sys \<Rightarrow> lock_sys" where
  "upd_core i c s = s\<lparr>lock_cores := (lock_cores s)(i := c)\<rparr>"

inductive lock_step :: "nat \<Rightarrow> lock_sys \<Rightarrow> lock_sys \<Rightarrow> bool" where
  ls_begin: "core_pc (lock_cores s i) = Outside \<Longrightarrow>
     lock_step i s (upd_core i (guard_begin k (lock_cores s i)) s)"
| ls_turn: "core_pc (lock_cores s i) \<in> {Exchanging, Spinning} \<Longrightarrow>
     lock_turn (core_pc (lock_cores s i)) (locked s) = (pc, v) \<Longrightarrow>
     lock_step i s (upd_core i ((lock_cores s i)\<lparr>core_pc := pc\<rparr>) s\<lparr>locked := v\<rparr>)"
| ls_try: "core_pc (lock_cores s i) = Outside \<Longrightarrow> try_lock (locked s) = (ok, v) \<Longrightarrow>
     lock_step i s (upd_core i ((lock_cores s i)
       \<lparr>core_pc := if ok then Holding else Outside, core_guard := Spin_Lock_Guard\<rparr>) s\<lparr>locked := v\<rparr>)"
| ls_release: "core_pc (lock_cores s i) = Holding \<Longrightarrow>
     lock_step i s (upd_core i (guard_release (lock_cores s i)) s\<lparr>locked := unlock (locked s)\<rparr>)"
| ls_end: "core_pc (lock_cores s i) = Leaving \<Longrightarrow>
     lock_step i s (upd_core i (guard_end (lock_cores s i)) s)"

inductive_cases lock_stepE: "lock_step i s s'"

inductive lock_reach :: "lock_sys \<Rightarrow> bool" where
  lr_init: "\<not> locked s \<Longrightarrow> \<forall>i. core_pc (lock_cores s i) = Outside \<Longrightarrow> lock_reach s"
| lr_step: "lock_reach s \<Longrightarrow> lock_step i s s' \<Longrightarrow> lock_reach s'"

definition holds :: "lock_sys \<Rightarrow> nat \<Rightarrow> bool" where
  "holds s i \<longleftrightarrow> core_pc (lock_cores s i) = Holding"

text \<open>The interrupts of a core are off from the start of an interrupt lock guard to its end.\<close>

definition guarded_off :: "lock_core \<Rightarrow> bool" where
  "guarded_off c \<longleftrightarrow> (core_guard c = Interrupt_Spin_Lock_Guard \<and> core_pc c \<noteq> Outside \<longrightarrow> \<not> bit (core_flags c) IF_bit)"

definition lock_inv :: "lock_sys \<Rightarrow> bool" where
  "lock_inv s \<longleftrightarrow> (\<forall>i j. holds s i \<longrightarrow> holds s j \<longrightarrow> i = j) \<and> (locked s \<longleftrightarrow> (\<exists>i. holds s i)) \<and>
     (\<forall>i. guarded_off (lock_cores s i))"

lemma upd_core_sel [simp]:
  "lock_cores (upd_core i c s) = (lock_cores s)(i := c)" "locked (upd_core i c s) = locked s"
  by (simp_all add: upd_core_def)

lemma locked_same [simp]: "upd_core i c s\<lparr>locked := locked s\<rparr> = upd_core i c s"
  by (cases s) (simp add: upd_core_def)

lemma guard_begin_sel [simp]:
  "core_pc (guard_begin k c) = Exchanging" "guarded_off (guard_begin k c)"
  using interrupt_guard_off [of "core_flags c"]
  by (auto simp: guard_begin_def guarded_off_def interrupt_guard_def split: guard_kind.split)

lemma guard_release_sel [simp]:
  "core_pc (guard_release c) \<noteq> Holding" "guarded_off c \<Longrightarrow> core_pc c = Holding \<Longrightarrow> guarded_off (guard_release c)"
  by (auto simp: guard_release_def guarded_off_def split: guard_kind.split)

lemma guard_end_sel [simp]: "core_pc (guard_end c) = Outside" "guarded_off (guard_end c)"
  by (simp_all add: guard_end_def guarded_off_def)

lemma guarded_off_pc: "guarded_off c \<Longrightarrow> core_pc c \<noteq> Outside \<Longrightarrow> guarded_off (c\<lparr>core_pc := pc\<rparr>)"
  by (simp add: guarded_off_def)

lemma lock_turn_cases:
  assumes "lock_turn pc v = (pc', v')" "pc \<in> {Exchanging, Spinning}"
  shows "pc' = Holding \<and> \<not> v \<and> v' \<or> pc' \<in> {Exchanging, Spinning} \<and> v' = v"
  using assms by (auto simp: atomic_exchange_def atomic_load_def split: if_splits)

text \<open>What an update of one core keeps of the invariant: a core that stays out, that enters, that leaves.\<close>

lemma holds_upd: "holds (upd_core i c s) j \<longleftrightarrow> (if j = i then core_pc c = Holding else holds s j)"
  by (simp add: holds_def)

lemma lock_inv_out:
  assumes "lock_inv s" "\<not> holds s i" "core_pc c \<noteq> Holding" "guarded_off c"
  shows "lock_inv (upd_core i c s)"
proof -
  have "holds (upd_core i c s) = holds s"
    using assms(2,3) by (auto simp: fun_eq_iff holds_upd)
  then show ?thesis using assms(1,4) by (simp add: lock_inv_def)
qed

lemma lock_inv_enter:
  assumes "lock_inv s" "\<not> locked s" "core_pc c = Holding" "guarded_off c"
  shows "lock_inv (upd_core i c s\<lparr>locked := True\<rparr>)"
  using assms by (auto simp: lock_inv_def holds_def)

lemma lock_inv_leave:
  assumes "lock_inv s" "holds s i" "core_pc c \<noteq> Holding" "guarded_off c"
  shows "lock_inv (upd_core i c s\<lparr>locked := False\<rparr>)"
  using assms by (auto simp: lock_inv_def holds_def)

lemma lock_step_inv:
  assumes inv: "lock_inv s" and step: "lock_step i s s'"
  shows "lock_inv s'"
  using step
proof (cases rule: lock_step.cases)
  case (ls_begin k)
  then show ?thesis using lock_inv_out [OF inv, of i "guard_begin k (lock_cores s i)"] by (simp add: holds_def)
next
  case (ls_turn pc v)
  have off: "guarded_off ((lock_cores s i)\<lparr>core_pc := pc\<rparr>)"
    using inv ls_turn(2) by (intro guarded_off_pc) (auto simp: lock_inv_def)
  have "pc = Holding \<and> \<not> locked s \<and> v \<or> pc \<in> {Exchanging, Spinning} \<and> v = locked s"
    using ls_turn(2,3) by (intro lock_turn_cases) auto
  then show ?thesis
  proof
    assume "pc = Holding \<and> \<not> locked s \<and> v"
    then show ?thesis using lock_inv_enter [OF inv _ _ off, of i] ls_turn(1) by simp
  next
    assume "pc \<in> {Exchanging, Spinning} \<and> v = locked s"
    then show ?thesis using lock_inv_out [OF inv _ _ off, of i] ls_turn(1,2) by (auto simp: holds_def)
  qed
next
  case (ls_try ok v)
  let ?c = "(lock_cores s i)\<lparr>core_pc := if ok then Holding else Outside, core_guard := Spin_Lock_Guard\<rparr>"
  have off: "guarded_off ?c" by (simp add: guarded_off_def)
  show ?thesis
  proof (cases "locked s")
    case True
    then have "\<not> ok" "v = locked s" using ls_try(3) by (simp_all add: try_lock_def atomic_exchange_def)
    then show ?thesis using lock_inv_out [OF inv _ _ off, of i] ls_try(1,2) by (simp add: holds_def)
  next
    case False
    then show ?thesis using lock_inv_enter [OF inv _ _ off, of i] ls_try
      by (simp add: try_lock_def atomic_exchange_def)
  qed
next
  case ls_release
  then show ?thesis using inv lock_inv_leave [OF inv, of i "guard_release (lock_cores s i)"]
    by (simp add: holds_def unlock_def atomic_store_def lock_inv_def)
next
  case ls_end
  then show ?thesis using lock_inv_out [OF inv, of i "guard_end (lock_cores s i)"] by (simp add: holds_def)
qed

lemma lock_reach_inv: "lock_reach s \<Longrightarrow> lock_inv s"
proof (induction rule: lock_reach.induct)
  case (lr_init s)
  then show ?case by (simp add: lock_inv_def holds_def guarded_off_def)
next
  case (lr_step s i s')
  then show ?case by (blast intro: lock_step_inv)
qed

text \<open>
  Property C9 (safety): in every reachable state of any number of cores that take, try and
  release one spin lock in any interleaving, at most one core is in the protected section, the
  lock word is set exactly while one is, and a core that entered through an
  \<^verbatim>\<open>InterruptSpinLockGuard\<close> has its interrupts off until it has left.
\<close>

theorem spinlock_mutual_exclusion:
  assumes "lock_reach s"
  shows "(\<forall>i j. holds s i \<and> holds s j \<longrightarrow> i = j) \<and> (locked s \<longleftrightarrow> (\<exists>i. holds s i)) \<and>
    (\<forall>i. guarded_off (lock_cores s i))"
  using lock_reach_inv [OF assms] unfolding lock_inv_def by blast

text \<open>A lock that is free is taken by a core that is alone with it, in at most two turns.\<close>

lemma spinning_core_gets_free_lock:
  assumes "pc \<in> {Exchanging, Spinning}"
  shows "\<exists>n \<le> 2. ((\<lambda>(pc, v). lock_turn pc v) ^^ n) (pc, False) = (Holding, True)"
  using assms
proof
  assume "pc = Exchanging"
  then have "((\<lambda>(pc, v). lock_turn pc v) ^^ 1) (pc, False) = (Holding, True)" by (simp add: atomic_exchange_def)
  then show ?thesis by (intro exI [of _ 1]) simp
next
  assume "pc \<in> {Spinning}"
  then have "((\<lambda>(pc, v). lock_turn pc v) ^^ 2) (pc, False) = (Holding, True)"
    by (simp add: numeral_2_eq_2 atomic_exchange_def atomic_load_def)
  then show ?thesis by (intro exI [of _ 2]) simp
qed

text \<open>An example: core 0 takes the lock through an interrupt guard while core 1 begins to wait.\<close>

definition idle_cores :: lock_sys where
  "idle_cores = \<lparr>locked = False, lock_cores = (\<lambda>i. \<lparr>core_pc = Outside, core_guard = Spin_Lock_Guard,
     core_flags = 0x202, core_should_enable = False\<rparr>)\<rparr>"

definition contended :: lock_sys where
  "contended = \<lparr>locked = True, lock_cores = (\<lambda>i. \<lparr>core_pc = Outside, core_guard = Spin_Lock_Guard,
       core_flags = 0x202, core_should_enable = False\<rparr>)
     (0 := \<lparr>core_pc = Holding, core_guard = Interrupt_Spin_Lock_Guard, core_flags = 2, core_should_enable = True\<rparr>,
      1 := \<lparr>core_pc = Exchanging, core_guard = Spin_Lock_Guard, core_flags = 0x202, core_should_enable = False\<rparr>)\<rparr>"

lemma contended_reach: "lock_reach contended"
proof -
  let ?g = "guard_begin Interrupt_Spin_Lock_Guard (lock_cores idle_cores 0)"
  let ?s1 = "upd_core 0 ?g idle_cores"
  let ?s2 = "upd_core 0 ((lock_cores ?s1 0)\<lparr>core_pc := Holding\<rparr>) ?s1\<lparr>locked := True\<rparr>"
  have "lock_reach idle_cores" by (rule lr_init) (simp_all add: idle_cores_def)
  moreover have "lock_step 0 idle_cores ?s1" by (rule ls_begin) (simp add: idle_cores_def)
  ultimately have "lock_reach ?s1" by (rule lr_step)
  moreover have "lock_step 0 ?s1 ?s2"
    by (rule ls_turn) (simp_all add: idle_cores_def atomic_exchange_def)
  ultimately have "lock_reach ?s2" by (rule lr_step)
  moreover have "lock_step 1 ?s2 (upd_core 1 (guard_begin Spin_Lock_Guard (lock_cores ?s2 1)) ?s2)"
    by (rule ls_begin) (simp add: idle_cores_def)
  ultimately have "lock_reach (upd_core 1 (guard_begin Spin_Lock_Guard (lock_cores ?s2 1)) ?s2)" by (rule lr_step)
  moreover have "upd_core 1 (guard_begin Spin_Lock_Guard (lock_cores ?s2 1)) ?s2 = contended"
    by (simp add: upd_core_def guard_begin_def idle_cores_def contended_def interrupt_guard_def IF_bit_def
        unset_bit_eq_and_not fun_eq_iff bit_numeral_simps)
  ultimately show ?thesis by simp
qed

text \<open>The theorem at the contended lock: core 0 alone holds it, with its interrupts off.\<close>

theorem spinlock_mutual_exclusion_witness:
  "{j. holds contended j} = {0} \<and> locked contended \<and> \<not> bit (core_flags (lock_cores contended 0)) IF_bit"
proof -
  have "holds contended 0" by (simp add: holds_def contended_def)
  moreover have "core_guard (lock_cores contended 0) = Interrupt_Spin_Lock_Guard"
    "core_pc (lock_cores contended 0) \<noteq> Outside" by (simp_all add: contended_def)
  ultimately show ?thesis using spinlock_mutual_exclusion [OF contended_reach]
    unfolding guarded_off_def by blast
qed

end
