(* ===== verification/Kstd.thy ===== *)
theory Kstd
  imports ELF
begin

text \<open>
  \<^verbatim>\<open>klibcpp/kstd.cpp\<close>: the stack trace of a panic, read from virtual memory through the saved frame
  pointers, and the set-up of the floating point unit as a function on the control registers. The
  lines of the trace are data; the byte converter of the file is floating point and left out.
\<close>

section \<open>Stack trace\<close>

datatype trace_line = Trace_Frame u32 u32 | Invalid_Frame_Pointer u32

text \<open>A frame is the saved frame pointer and, above it, the return address.\<close>

definition frame_ebp :: "vmm \<Rightarrow> u32 \<Rightarrow> u32 kres" where
  "frame_ebp s frame = vread32 s frame"

definition frame_eip :: "vmm \<Rightarrow> u32 \<Rightarrow> u32 kres" where
  "frame_eip s frame = vread32 s (frame + 4)"

text \<open>The loop, with the number of frames that may still follow.\<close>

primrec stack_trace_from :: "vmm \<Rightarrow> nat \<Rightarrow> u32 \<Rightarrow> u32 \<Rightarrow> trace_line list kres" where
  "stack_trace_from s 0 i frame = Inr []"
| "stack_trace_from s (Suc n) i frame =
     (if frame = 0 then Inr []
      else bindR (frame_eip s frame) (\<lambda>eip.
           bindR (frame_ebp s frame) (\<lambda>ebp.
           bindR (is_mapped s ebp) (\<lambda>ok.
           if \<not> ok then Inr [Trace_Frame i eip, Invalid_Frame_Pointer ebp]
           else bindR (stack_trace_from s n (i + 1) ebp) (\<lambda>ls. Inr (Trace_Frame i eip # ls))))))"

definition stack_trace :: "vmm \<Rightarrow> u32 \<Rightarrow> u32 \<Rightarrow> trace_line list kres" where
  "stack_trace s frame max_frames = stack_trace_from s (unat max_frames) 0 frame"

text \<open>Whatever the stack holds, a cyclic chain of frames included, the trace is bounded.\<close>

theorem stack_trace_bounded:
  "stack_trace s frame max_frames = Inr ls \<Longrightarrow> length ls \<le> unat max_frames + 1"
proof -
  have "stack_trace_from s n i frame = Inr ls \<Longrightarrow> length ls \<le> n + 1" for n i
  proof (induction n arbitrary: i frame ls)
    case (Suc n)
    then show ?case by (fastforce simp: bindR_eq_Inr split: if_splits)
  qed simp
  then show "stack_trace s frame max_frames = Inr ls \<Longrightarrow> length ls \<le> unat max_frames + 1"
    unfolding stack_trace_def by blast
qed

section \<open>Floating point unit\<close>

record control_regs =
  cr0 :: u32
  cr4 :: u32
  fpu_reset :: bool

definition init_fpu :: "control_regs \<Rightarrow> control_regs" where
  "init_fpu r =
     (let c0 = (cr0 r AND NOT (push_bit 2 1)) OR push_bit 1 1;
          c4 = cr4 r OR (push_bit 9 1 OR push_bit 10 1)
      in r\<lparr>cr0 := c0, cr4 := c4, fpu_reset := True\<rparr>)"

text \<open>Emulation is off, the monitor bit and both SSE bits are on, and no other bit changes.\<close>

theorem init_fpu_bits:
  "bit (cr0 (init_fpu r)) n = (if n = 2 then False else if n = 1 then True else bit (cr0 r) n)"
  "bit (cr4 (init_fpu r)) n = (if n = 9 \<or> n = 10 then True else bit (cr4 r) n)"
proof -
  have "cr0 (init_fpu r) = set_bit 1 (unset_bit 2 (cr0 r))" "cr4 (init_fpu r) = set_bit 10 (set_bit 9 (cr4 r))"
    unfolding init_fpu_def Let_def unset_bit_eq_and_not set_bit_eq_or by (simp_all add: or.assoc)
  then show "bit (cr0 (init_fpu r)) n = (if n = 2 then False else if n = 1 then True else bit (cr0 r) n)"
    "bit (cr4 (init_fpu r)) n = (if n = 9 \<or> n = 10 then True else bit (cr4 r) n)"
    by (auto simp: bit_simps dest: bit_imp_le_length)
qed

end
