(* ===== verification/SMP.thy ===== *)
theory SMP
  imports APIC Core_Stack Sync Kstd
begin

text \<open>
  \<^verbatim>\<open>CoreManager\<close> of \<^verbatim>\<open>sys/smp.hpp\<close> with \<^verbatim>\<open>sys/smp.cpp\<close> and \<^verbatim>\<open>warm_start_32\<close> of
  \<^verbatim>\<open>sys/smp_ll.cpp\<close>. The table of cores is a list; a pointer to a core is its number, plus an
  address where it is stored in memory. How a core answers the start-up interrupts is the
  argument \<open>boots\<close>; \<^verbatim>\<open>new BaseCoreStack\<close> is the argument \<open>new\<close>.
\<close>

section \<open>Cores\<close>

record stack_descriptor =
  sd_region_base :: u32
  sd_region_size :: u32
  sd_stack_begin :: u32
  sd_stack_end :: u32
  sd_anchor :: u32

record smp_core =
  sc_id :: u8
  sc_apic_id :: u8
  sc_is_bsp :: bool
  sc_initialized :: bool
  sc_kernel :: u32
  sc_addr :: u32
  sc_stack :: stack_descriptor

definition MAX_CORES :: nat where "MAX_CORES = 255"

record core_manager =
  cm_cores :: "smp_core list"
  smp_stack_top :: u32
  smp_pd_phy_addr :: u32

definition core_count :: "core_manager \<Rightarrow> nat" where
  "core_count cm = length (cm_cores cm)"

definition no_stack :: stack_descriptor where
  "no_stack = \<lparr>sd_region_base = 0, sd_region_size = 0, sd_stack_begin = 0, sd_stack_end = 0, sd_anchor = 0\<rparr>"

text \<open>\<open>addr k\<close> is the address of the storage of core \<open>k\<close>.\<close>

definition create_core :: "(nat \<Rightarrow> u32) \<Rightarrow> u32 \<Rightarrow> u8 \<Rightarrow> u8 \<Rightarrow> bool \<Rightarrow> smp_core list \<Rightarrow> smp_core list kres" where
  "create_core addr krn i ap bsp cs =
     (if length cs \<ge> MAX_CORES then Inl (Panic ''too many cores'')
      else Inr (cs @ [\<lparr>sc_id = i, sc_apic_id = ap, sc_is_bsp = bsp, sc_initialized = False, sc_kernel = krn,
             sc_addr = addr (length cs), sc_stack = no_stack\<rparr>]))"

primrec create_cores :: "(nat \<Rightarrow> u32) \<Rightarrow> u32 \<Rightarrow> u8 \<Rightarrow> u8 \<Rightarrow> ent0 list \<Rightarrow> smp_core list \<Rightarrow> smp_core list kres" where
  "create_cores addr krn bsp_apic_id i [] cs = Inr cs"
| "create_cores addr krn bsp_apic_id i (e # es) cs =
     bindR (create_core addr krn i (apic_id e) (apic_id e = bsp_apic_id) cs)
       (create_cores addr krn bsp_apic_id (i + 1) es)"

definition core_manager_ctor :: "(nat \<Rightarrow> u32) \<Rightarrow> u32 \<Rightarrow> apic_hw \<Rightarrow> apic \<Rightarrow> vmm \<Rightarrow> core_manager kres" where
  "core_manager_ctor addr krn hw a s =
     bindR (create_cores addr krn (lapic_id hw) 0 (sa_objs (lapics a)) [])
       (\<lambda>cs. Inr \<lparr>cm_cores = cs, smp_stack_top = 0, smp_pd_phy_addr = kernel_dir_phys s\<rparr>)"

definition cm_core :: "core_manager \<Rightarrow> nat \<Rightarrow> smp_core kres" where
  "cm_core cm i = (if i \<ge> core_count cm then Inl (Panic ''core index out of range'') else Inr (cm_cores cm ! i))"

definition set_core :: "nat \<Rightarrow> smp_core \<Rightarrow> core_manager \<Rightarrow> core_manager" where
  "set_core i c cm = cm\<lparr>cm_cores := (cm_cores cm)[i := c]\<rparr>"

definition stack_desc :: "u32 \<Rightarrow> u32 \<Rightarrow> stack_descriptor" where
  "stack_desc base anchor = \<lparr>sd_region_base = base, sd_region_size = CORE_STACK_SIZE, sd_stack_begin = base + 16,
     sd_stack_end = base + CORE_STACK_SIZE, sd_anchor = anchor\<rparr>"

text \<open>The branch of \<^verbatim>\<open>start_core\<close> for the core that runs it, on the boot stack.\<close>

definition start_bsp :: "u32 \<Rightarrow> u32 \<Rightarrow> nat \<Rightarrow> core_manager \<times> mem \<Rightarrow> (core_manager \<times> mem) kres" where
  "start_bsp boot_stack esp i w =
     (let (cm, m) = w; c = cm_cores cm ! i in
      bindR (current_anchor m esp) (\<lambda>anchor.
      Inr (set_core i (c\<lparr>sc_stack := stack_desc boot_stack anchor, sc_initialized := True\<rparr>) cm,
        store32 m (anchor + 8) (sc_addr c))))"

text \<open>
  The three attempts to wake another core. \<open>boots k\<close> says whether the core has set its flag
  by the end of attempt \<open>k\<close>; the waits between the interrupts are not modelled.
\<close>

primrec wake_core :: "(nat \<Rightarrow> bool) \<Rightarrow> u8 \<Rightarrow> nat list \<Rightarrow> apic_hw \<Rightarrow> bool \<times> apic_hw" where
  "wake_core boots ap [] hw = (False, hw)"
| "wake_core boots ap (k # ks) hw =
     (let hw = send_startup_ipi (send_init_ipi hw ap) ap 0x8 in
      if boots k then (True, hw) else wake_core boots ap ks hw)"

definition start_ap :: "('h \<Rightarrow> (u32 \<times> 'h) kres) \<Rightarrow> (nat \<Rightarrow> bool) \<Rightarrow> nat \<Rightarrow> core_manager \<times> mem \<times> 'h \<times> apic_hw \<Rightarrow>
    (core_manager \<times> mem \<times> 'h \<times> apic_hw) kres" where
  "start_ap new boots i w =
     (let (cm, m, h, hw) = w; c = cm_cores cm ! i in
      bindR (new h) (\<lambda>(st, h).
      let m = init_stack_anchor m st 0 (sc_addr c);
          cm = cm\<lparr>smp_stack_top := st + CORE_STACK_SIZE\<rparr>;
          (ok, hw) = wake_core boots (sc_apic_id c) [0, 1, 2] hw
      in Inr (set_core i (c\<lparr>sc_stack := stack_desc st st, sc_initialized := ok\<rparr>) cm, m, h, hw)))"

primrec init_bsp_from :: "u32 \<Rightarrow> u32 \<Rightarrow> nat list \<Rightarrow> core_manager \<times> mem \<Rightarrow> (core_manager \<times> mem) kres" where
  "init_bsp_from boot_stack esp [] w = Inr w"
| "init_bsp_from boot_stack esp (i # is) w =
     (if \<not> sc_is_bsp (cm_cores (fst w) ! i) then init_bsp_from boot_stack esp is w else start_bsp boot_stack esp i w)"

definition init_bsp :: "u32 \<Rightarrow> u32 \<Rightarrow> core_manager \<times> mem \<Rightarrow> (core_manager \<times> mem) kres" where
  "init_bsp boot_stack esp w = init_bsp_from boot_stack esp [0..<core_count (fst w)] w"

primrec init_aps_from :: "('h \<Rightarrow> (u32 \<times> 'h) kres) \<Rightarrow> (u8 \<Rightarrow> nat \<Rightarrow> bool) \<Rightarrow> nat list \<Rightarrow>
    core_manager \<times> mem \<times> 'h \<times> apic_hw \<Rightarrow> (core_manager \<times> mem \<times> 'h \<times> apic_hw) kres" where
  "init_aps_from new boots [] w = Inr w"
| "init_aps_from new boots (i # is) w =
     (let c = cm_cores (fst w) ! i in
      if sc_is_bsp c then init_aps_from new boots is w
      else bindR (start_ap new (boots (sc_apic_id c)) i w) (init_aps_from new boots is))"

definition init_aps :: "('h \<Rightarrow> (u32 \<times> 'h) kres) \<Rightarrow> (u8 \<Rightarrow> nat \<Rightarrow> bool) \<Rightarrow>
    core_manager \<times> mem \<times> 'h \<times> apic_hw \<Rightarrow> (core_manager \<times> mem \<times> 'h \<times> apic_hw) kres" where
  "init_aps new boots w = init_aps_from new boots [0..<core_count (fst w)] w"

text \<open>\<^verbatim>\<open>Core::kernel\<close> and \<^verbatim>\<open>warm_start_32\<close>, where the core finds itself on its stack.\<close>

definition core_kernel :: "smp_core \<Rightarrow> u32 kres" where
  "core_kernel c = (if sc_kernel c = 0 then Inl (Panic ''core has no kernel'') else Inr (sc_kernel c))"

definition warm_start_32 :: "u32 \<Rightarrow> core_manager \<times> mem \<times> apic_hw \<times> control_regs \<Rightarrow>
    (nat \<times> core_manager \<times> apic_hw \<times> control_regs) kres" where
  "warm_start_32 esp w =
     (let (cm, m, hw, regs) = w; regs = init_fpu regs in
      bindR (current_core m esp) (\<lambda>core.
      case find (\<lambda>i. sc_addr (cm_cores cm ! i) = core) [0..<core_count cm] of
        None \<Rightarrow> Inl Undefined
      | Some i \<Rightarrow> Inr (i, set_core i ((cm_cores cm ! i)\<lparr>sc_initialized := True\<rparr>) cm, lapic_enable hw, regs)))"

section \<open>The cores of the table\<close>

lemma create_cores_result:
  "length es + length cs \<le> MAX_CORES \<Longrightarrow>
   create_cores addr krn b i es cs = Inr (cs @ map (\<lambda>k. \<lparr>sc_id = i + word_of_nat k, sc_apic_id = apic_id (es ! k),
      sc_is_bsp = (apic_id (es ! k) = b), sc_initialized = False, sc_kernel = krn,
      sc_addr = addr (length cs + k), sc_stack = no_stack\<rparr>) [0..<length es])"
proof (induction es arbitrary: i cs)
  case (Cons e es)
  have split: "[0..<length (e # es)] = 0 # map Suc [0..<length es]"
    by (simp add: upt_conv_Cons map_Suc_upt del: upt_Suc)
  show ?case using Cons.prems unfolding split
    by (simp add: create_core_def Cons.IH algebra_simps comp_def)
qed simp

lemma wake_core_ipis:
  "ipis (snd (wake_core boots ap ks hw)) =
     ipis hw @ concat (replicate (length (takeWhile (Not \<circ> boots) ks) + of_bool (\<exists>k \<in> set ks. boots k))
       [(ap, 0x500), (ap, 0x608)])"
proof (induction ks arbitrary: hw)
  case (Cons k ks)
  have m: "unat ap < 256" using unsigned_less [of ap, where ?'a = nat] by simp
  have d: "ucast (drop_bit 24 (push_bit 24 (ucast ap :: u32))) = ap"
    by (rule bit_word_eqI) (auto simp: bit_simps dest: bit_imp_le_length)
  have ipi: "ipis (send_ipi hw ap v) = ipis hw @ [(ap, v)]" for hw v
    by (simp add: send_ipi_def lapic_write_def Let_def LAPIC_ICR0_def LAPIC_ICR1_def d)
  show ?case
  proof (cases "boots k")
    case True
    then show ?thesis by (simp add: Let_def send_startup_ipi_def send_init_ipi_def ipi)
  next
    case False
    then show ?thesis using Cons.IH
      by (simp add: Let_def send_startup_ipi_def send_init_ipi_def ipi)
  qed
qed simp

text \<open>
  A core that \<^verbatim>\<open>start_core\<close> wakes finds itself from any stack pointer inside the stack it was
  given: \<^verbatim>\<open>warm_start_32\<close> reaches the entry of that core in the table and changes no other.
\<close>

lemma started_core:
  assumes "start_ap new boots i (cm, m, h, hw) = Inr (cm', m', h', hw')" "i < core_count cm"
    and "new h = Inr (st, h1)" "unat st mod 4096 = 0" "unat st \<le> unat sp" "unat sp < unat st + 4096"
    and "distinct (map sc_addr (cm_cores cm))" "sc_addr (cm_cores cm ! i) \<noteq> 0"
  shows "\<exists>cm''. warm_start_32 sp (cm', m', hw2, regs) = Inr (i, cm'', lapic_enable hw2, init_fpu regs) \<and>
    sc_initialized (cm_cores cm'' ! i) \<and> (\<forall>j < core_count cm. j \<noteq> i \<longrightarrow> cm_cores cm'' ! j = cm_cores cm ! j) \<and>
    smp_stack_top cm'' = st + 4096"
proof -
  let ?c = "cm_cores cm ! i"
  have cm': "m' = init_stack_anchor m st 0 (sc_addr ?c)" "smp_stack_top cm' = st + CORE_STACK_SIZE"
    "\<exists>c'. cm_cores cm' = (cm_cores cm)[i := c'] \<and> sc_addr c' = sc_addr ?c"
    using assms(1,3) by (auto simp: start_ap_def set_core_def Let_def split: prod.splits)
  then obtain c' where c': "cm_cores cm' = (cm_cores cm)[i := c']" "sc_addr c' = sc_addr ?c" by blast
  have sp: "from_sp sp = st" by (rule from_sp_in_stack [OF assms(4-6)])
  have cur: "current_core m' sp = Inr (sc_addr ?c)"
    using load_store_anchor [OF page_word_aligned [OF assms(4)]] assms(8)
    by (simp add: current_core_def current_anchor_def sp cm'(1) init_stack_anchor_def Let_def anchor_from_sp_def)
  have len: "core_count cm' = core_count cm" using c'(1) by (simp add: core_count_def)
  have addr: "sc_addr (cm_cores cm' ! j) = sc_addr (cm_cores cm ! j)" if "j < core_count cm" for j
    using that c' assms(2) by (cases "j = i") (auto simp: core_count_def)
  have inj: "sc_addr (cm_cores cm ! j) = sc_addr ?c \<longleftrightarrow> j = i" if "j < core_count cm" for j
    using that assms(2,7) nth_eq_iff_index_eq [of "map sc_addr (cm_cores cm)" j i] by (simp add: core_count_def)
  have "find (\<lambda>j. sc_addr (cm_cores cm' ! j) = sc_addr ?c) [0..<core_count cm'] = Some i"
  proof (rule find_unique)
    show "i \<in> set [0..<core_count cm']" using assms(2) len by simp
    show "sc_addr (cm_cores cm' ! i) = sc_addr ?c" using addr [OF assms(2)] .
    show "j = i" if "j \<in> set [0..<core_count cm']" "sc_addr (cm_cores cm' ! j) = sc_addr ?c" for j
      using that addr inj len by auto
  qed
  then show ?thesis using cur cm'(2) c' assms(2)
    by (auto simp: warm_start_32_def set_core_def CORE_STACK_SIZE_def core_count_def)
qed

text \<open>An example: core 1 of two is woken at its second attempt.\<close>

definition two_core_table :: core_manager where
  "two_core_table = \<lparr>cm_cores =
     [\<lparr>sc_id = 0, sc_apic_id = 0, sc_is_bsp = True, sc_initialized = True, sc_kernel = 0x200000, sc_addr = 0x210000, sc_stack = no_stack\<rparr>,
      \<lparr>sc_id = 1, sc_apic_id = 1, sc_is_bsp = False, sc_initialized = False, sc_kernel = 0x200000, sc_addr = 0x211000, sc_stack = no_stack\<rparr>],
     smp_stack_top = 0, smp_pd_phy_addr = 0x1000\<rparr>"

end
