(* ===== verification/GDT.thy ===== *)
theory GDT
  imports Kernel_Prelude
begin

text \<open>
  \<^verbatim>\<open>int/gdt.hpp\<close> and \<^verbatim>\<open>int/gdt.cpp\<close>: segment descriptors, the table of the boot processor and the
  task state segment. The functions whose names start with \<open>cpu_\<close> are the processor's reading of a
  descriptor; an enumerator that is a number in the code is that number.
\<close>

section \<open>Descriptors\<close>

record gdt_entry =
  limit_low :: u16
  base_low :: u16
  base_middle :: u8
  access :: u8
  limit_high_flags :: u8
  base_high :: u8

definition create_entry :: "u32 \<Rightarrow> u32 \<Rightarrow> u8 \<Rightarrow> u8 \<Rightarrow> gdt_entry" where
  "create_entry base limit acc flags =
     \<lparr>limit_low = ucast (limit AND 0xFFFF), base_low = ucast (base AND 0xFFFF),
      base_middle = ucast (drop_bit 16 base AND 0xFF), access = acc,
      limit_high_flags = ucast ((drop_bit 16 limit AND 0x0F) OR push_bit 4 (ucast flags)),
      base_high = ucast (drop_bit 24 base AND 0xFF)\<rparr>"

datatype gdt_type = KERNEL_CODE | KERNEL_DATA | USER_CODE | USER_DATA | TSS_SEG

definition gdt_selector :: "gdt_type \<Rightarrow> u16" where
  "gdt_selector t = (case t of KERNEL_CODE \<Rightarrow> push_bit 3 1 | KERNEL_DATA \<Rightarrow> push_bit 3 2
     | USER_CODE \<Rightarrow> push_bit 3 3 | USER_DATA \<Rightarrow> push_bit 3 4 | TSS_SEG \<Rightarrow> push_bit 3 5)"

datatype privilege = RING_0 | RING_1 | RING_2 | RING_3

abbreviation PRIV_KERNEL :: privilege where "PRIV_KERNEL \<equiv> RING_0"
abbreviation PRIV_USER :: privilege where "PRIV_USER \<equiv> RING_3"

definition ring :: "privilege \<Rightarrow> u8" where
  "ring p = (case p of RING_0 \<Rightarrow> 0 | RING_1 \<Rightarrow> 1 | RING_2 \<Rightarrow> 2 | RING_3 \<Rightarrow> 3)"

definition pack_access :: "bool \<Rightarrow> bool \<Rightarrow> bool \<Rightarrow> bool \<Rightarrow> privilege \<Rightarrow> bool \<Rightarrow> u8" where
  "pack_access is_code rw dc exec dpl present =
     push_bit 7 (of_bool present) OR push_bit 5 (ring dpl) OR push_bit 4 1 OR push_bit 3 (of_bool exec) OR
     push_bit 2 (of_bool dc) OR push_bit 1 (of_bool rw) OR of_bool is_code"

definition pack_system_access :: "u8 \<Rightarrow> privilege \<Rightarrow> bool \<Rightarrow> u8" where
  "pack_system_access ty dpl present = push_bit 7 (of_bool present) OR push_bit 5 (ring dpl) OR ty"

definition pack_flags :: "bool \<Rightarrow> bool \<Rightarrow> bool \<Rightarrow> u8" where
  "pack_flags avail is_32bit granularity =
     push_bit 3 (of_bool granularity) OR push_bit 2 (of_bool is_32bit) OR of_bool avail"

section \<open>The task state segment and the table\<close>

record tss =
  tss_prev_tss :: u32
  tss_esp0 :: u32
  tss_ss0 :: u32
  tss_esp1 :: u32
  tss_ss1 :: u32
  tss_esp2 :: u32
  tss_ss2 :: u32
  tss_cr3 :: u32
  tss_eip :: u32
  tss_eflags :: u32
  tss_eax :: u32
  tss_ecx :: u32
  tss_edx :: u32
  tss_ebx :: u32
  tss_esp :: u32
  tss_ebp :: u32
  tss_esi :: u32
  tss_edi :: u32
  tss_es :: u32
  tss_cs :: u32
  tss_ss :: u32
  tss_ds :: u32
  tss_fs :: u32
  tss_gs :: u32
  tss_ldt :: u32
  tss_trap :: u16
  tss_iomap_base :: u16

definition TSS_SIZE :: u32 where "TSS_SIZE = 104"

definition tss_initialize :: "tss \<Rightarrow> tss" where
  "tss_initialize t = t\<lparr>tss_ss0 := 0x10, tss_iomap_base := ucast TSS_SIZE, tss_trap := 0, tss_cr3 := 0\<rparr>"

definition set_kernel_stack :: "tss \<Rightarrow> u32 \<Rightarrow> tss" where
  "set_kernel_stack t stack_top = t\<lparr>tss_esp0 := stack_top\<rparr>"

text \<open>The argument is the address of \<^verbatim>\<open>bsp_tss\<close>.\<close>

definition bsp_gdt :: "u32 \<Rightarrow> gdt_entry list" where
  "bsp_gdt tss_addr =
    [create_entry 0 0 0 0,
     create_entry 0 0xFFFFF (pack_access True True False True PRIV_KERNEL True) (pack_flags False True True),
     create_entry 0 0xFFFFF (pack_access True True False False PRIV_KERNEL True) (pack_flags False True True),
     create_entry 0 0xFFFFF (pack_access True True False True PRIV_USER True) (pack_flags False True True),
     create_entry 0 0xFFFFF (pack_access True True False False PRIV_USER True) (pack_flags False True True),
     create_entry tss_addr (TSS_SIZE - 1) (pack_system_access 0x9 PRIV_USER True) (pack_flags False True True)]"

record gdt_ptr =
  gp_limit :: u16
  gp_base :: u32

definition bsp_ptr :: "u32 \<Rightarrow> u32 \<Rightarrow> gdt_ptr" where
  "bsp_ptr gdt_addr tss_addr = \<lparr>gp_limit = word_of_nat (8 * length (bsp_gdt tss_addr)) - 1, gp_base = gdt_addr\<rparr>"

record seg_regs =
  gdtr :: gdt_ptr
  reg_cs :: u16
  reg_ds :: u16
  reg_es :: u16
  reg_fs :: u16
  reg_gs :: u16
  reg_ss :: u16

definition gdt_flush :: "gdt_ptr \<Rightarrow> seg_regs \<Rightarrow> seg_regs" where
  "gdt_flush p r =
     (let ax = gdt_selector KERNEL_DATA in
      r\<lparr>gdtr := p, reg_cs := gdt_selector KERNEL_CODE, reg_ds := ax, reg_es := ax, reg_fs := ax,
        reg_gs := ax, reg_ss := ax\<rparr>)"

definition gdt_init_bsp :: "u32 \<Rightarrow> u32 \<Rightarrow> seg_regs \<Rightarrow> seg_regs" where
  "gdt_init_bsp gdt_addr tss_addr = gdt_flush (bsp_ptr gdt_addr tss_addr)"

section \<open>What the processor reads\<close>

definition cpu_base :: "gdt_entry \<Rightarrow> u32" where
  "cpu_base e = ucast (base_low e) OR push_bit 16 (ucast (base_middle e)) OR push_bit 24 (ucast (base_high e))"

definition cpu_limit :: "gdt_entry \<Rightarrow> u32" where
  "cpu_limit e = ucast (limit_low e) OR push_bit 16 (ucast (limit_high_flags e AND 0x0F))"

definition cpu_flags4 :: "gdt_entry \<Rightarrow> u8" where
  "cpu_flags4 e = drop_bit 4 (limit_high_flags e)"

text \<open>The offset of the last byte of the segment: the limit counts pages when bit 3 of the flags is set.\<close>

definition cpu_last_byte :: "gdt_entry \<Rightarrow> u32" where
  "cpu_last_byte e = (if bit (cpu_flags4 e) 3 then push_bit 12 (cpu_limit e) OR 0xFFF else cpu_limit e)"

definition cpu_dpl :: "gdt_entry \<Rightarrow> u8" where
  "cpu_dpl e = drop_bit 5 (access e) AND 3"

text \<open>The entry a selector chooses, when the table holds it.\<close>

definition cpu_descriptor :: "gdt_ptr \<Rightarrow> gdt_entry list \<Rightarrow> u16 \<Rightarrow> gdt_entry option" where
  "cpu_descriptor p es sel =
     (let i = unat (drop_bit 3 sel) in
      if 8 * i + 7 \<le> unat (gp_limit p) \<and> i < length es then Some (es ! i) else None)"

section \<open>Encoding\<close>

lemma field_masks:
  "x AND 0xFFFF = take_bit 16 (x :: u32)" "x AND 0xFF = take_bit 8 (x :: u32)" "x AND 0x0F = take_bit 4 (x :: u32)"
  "x AND 0xFFFFF = take_bit 20 (x :: u32)" "y AND 0x0F = take_bit 4 (y :: u8)"
  by (simp_all add: take_bit_eq_mask mask_eq_exp_minus_1)

lemma cpu_base_create: "cpu_base (create_entry base limit acc flags) = base"
proof (rule bit_word_eqI)
  fix n :: nat assume n: "n < LENGTH(32)"
  consider "n < 16" | "16 \<le> n" "n < 24" | "24 \<le> n" by linarith
  then show "bit (cpu_base (create_entry base limit acc flags)) n = bit base n"
    using n by cases (auto simp: cpu_base_def create_entry_def field_masks bit_simps)
qed

lemma cpu_limit_create: "cpu_limit (create_entry base limit acc flags) = limit AND 0xFFFFF"
proof (rule bit_word_eqI)
  fix n :: nat assume n: "n < LENGTH(32)"
  consider "n < 16" | "16 \<le> n" "n < 20" | "20 \<le> n" by linarith
  then show "bit (cpu_limit (create_entry base limit acc flags)) n = bit (limit AND 0xFFFFF) n"
    using n unfolding field_masks cpu_limit_def create_entry_def
    by cases (auto simp: bit_simps)
qed

lemma cpu_flags_create: "cpu_flags4 (create_entry base limit acc flags) = flags AND 0x0F"
proof (rule bit_word_eqI)
  fix n :: nat assume n: "n < LENGTH(8)"
  show "bit (cpu_flags4 (create_entry base limit acc flags)) n = bit (flags AND 0x0F) n"
    using n unfolding field_masks cpu_flags4_def create_entry_def
    by (cases "n < 4") (auto simp: bit_simps)
qed

text \<open>
  The processor reads back the base, the low twenty bits of the limit, the access byte and the
  low four flags an entry was made from.
\<close>

lemmas create_entry_decodes = cpu_base_create cpu_limit_create cpu_flags_create

lemma access_create [simp]: "access (create_entry base limit acc flags) = acc"
  by (simp add: create_entry_def)

text \<open>A flat segment: base 0, every address of the 4 GiB, and the given ring and type bits.\<close>

definition flat_segment :: "gdt_entry \<Rightarrow> privilege \<Rightarrow> bool \<Rightarrow> bool" where
  "flat_segment e p exec \<longleftrightarrow> cpu_base e = 0 \<and> cpu_last_byte e = 0xFFFFFFFF \<and> cpu_dpl e = ring p \<and>
     bit (access e) 7 \<and> bit (access e) 4 \<and> bit (access e) 1 \<and> (bit (access e) 3 \<longleftrightarrow> exec)"

lemma flat_create:
  "flat_segment (create_entry 0 0xFFFFF (pack_access True True False x p True) (pack_flags False True True)) p x"
  by (cases p; cases x)
    (simp_all add: flat_segment_def cpu_last_byte_def create_entry_decodes cpu_dpl_def pack_access_def pack_flags_def ring_def)

text \<open>
  After \<^verbatim>\<open>init_bsp\<close> the code register selects a present flat executable
  segment of ring 0 and the five data registers a present flat writable data segment of ring 0;
  the two user selectors choose the same of ring 3; and every selector of the table, and no
  other, chooses an entry.
\<close>

theorem gdt_init_flat:
  "let r = gdt_init_bsp gdt_addr tss_addr r0; sel = cpu_descriptor (gdtr r) (bsp_gdt tss_addr) in
   gp_base (gdtr r) = gdt_addr \<and>
   (\<exists>e. sel (reg_cs r) = Some e \<and> flat_segment e PRIV_KERNEL True) \<and>
   (\<exists>e. sel (reg_ds r) = Some e \<and> sel (reg_es r) = Some e \<and> sel (reg_fs r) = Some e \<and> sel (reg_gs r) = Some e \<and>
      sel (reg_ss r) = Some e \<and> flat_segment e PRIV_KERNEL False) \<and>
   (\<exists>e. sel (gdt_selector USER_CODE) = Some e \<and> flat_segment e PRIV_USER True) \<and>
   (\<exists>e. sel (gdt_selector USER_DATA) = Some e \<and> flat_segment e PRIV_USER False) \<and>
   (\<forall>x. sel x \<noteq> None \<longleftrightarrow> drop_bit 3 x < 6)"
proof -
  have i: "cpu_descriptor \<lparr>gp_limit = 47, gp_base = gdt_addr\<rparr> (bsp_gdt tss_addr) x \<noteq> None \<longleftrightarrow> drop_bit 3 x < 6" for x
    by (simp add: cpu_descriptor_def Let_def word_less_nat_alt bsp_gdt_def del: unsigned_drop_bit_eq)
  have p: "gdtr (gdt_init_bsp gdt_addr tss_addr r0) = \<lparr>gp_limit = 47, gp_base = gdt_addr\<rparr>"
    by (simp add: gdt_init_bsp_def gdt_flush_def bsp_ptr_def bsp_gdt_def Let_def)
  show ?thesis unfolding Let_def p
    by (intro conjI allI i)
      (simp_all add: cpu_descriptor_def gdt_init_bsp_def gdt_flush_def gdt_selector_def bsp_gdt_def Let_def flat_create)
qed

text \<open>
  The limit of the task state segment is its size in bytes less one, but its granularity flag is
  set, so the processor takes it as a number of pages: the segment ends far behind the structure.
\<close>

theorem tss_limit_in_pages:
  "cpu_last_byte (bsp_gdt tss_addr ! 5) = 0x67FFF \<and> TSS_SIZE - 1 = 0x67"
  by (simp add: bsp_gdt_def cpu_last_byte_def create_entry_decodes pack_flags_def TSS_SIZE_def)

end
