(* ===== verification/Startup.thy ===== *)
theory Startup
  imports SMP GDT IDT
begin

text \<open>
  The first instructions of every core: the multiboot header and \<^verbatim>\<open>cold_start\<close> of \<^verbatim>\<open>boot.cpp\<close>, on
  the processor model of theory IDT, and the real-mode trampoline \<^verbatim>\<open>warm_start_16\<close> of
  \<^verbatim>\<open>sys/smp_ll.cpp\<close>, which takes a woken core to \<^verbatim>\<open>warm_start_32\<close>. The trampoline's data words
  are filled by the constructor of \<^verbatim>\<open>CoreManager\<close> and by \<^verbatim>\<open>start_core\<close>; each instruction is one
  update of the registers, in the order of the source.
\<close>

unbundle bit_operations_syntax

section \<open>The multiboot header\<close>

record multiboot_header =
  mh_magic :: u32
  mh_flags :: u32
  mh_checksum :: u32

definition MULTIBOOT_HEADER_MAGIC :: u32 where "MULTIBOOT_HEADER_MAGIC = 0x1BADB002"
definition MULTIBOOT_PAGE_ALIGN :: u32 where "MULTIBOOT_PAGE_ALIGN = 0x00000001"
definition MULTIBOOT_MEMORY_INFO :: u32 where "MULTIBOOT_MEMORY_INFO = 0x00000002"

definition calculate_checksum :: "multiboot_header \<Rightarrow> u32" where
  "calculate_checksum header = - (mh_magic header + mh_flags header)"

definition mboot_header :: multiboot_header where
  "mboot_header =
     (let h = \<lparr>mh_magic = MULTIBOOT_HEADER_MAGIC, mh_flags = MULTIBOOT_PAGE_ALIGN OR MULTIBOOT_MEMORY_INFO, mh_checksum = 0\<rparr>
      in h\<lparr>mh_checksum := calculate_checksum h\<rparr>)"

text \<open>What the boot loader tests before it takes the image: the three fields add up to zero.\<close>

lemma mboot_header_accepted:
  "mh_magic mboot_header = 0x1BADB002" "mh_magic mboot_header + mh_flags mboot_header + mh_checksum mboot_header = 0"
  by (simp_all add: mboot_header_def calculate_checksum_def MULTIBOOT_HEADER_MAGIC_def Let_def)

section \<open>The first core\<close>

lemma page_end:
  assumes "unat (b :: u32) mod 4096 = 0"
  shows "unat b + 4096 \<le> 4294967296"
proof -
  have "unat b < 1048576 * 4096" by simp
  then have "unat b div 4096 < 1048576" by (rule less_mult_imp_div_less)
  then have "Suc (unat b div 4096) * 4096 \<le> 1048576 * 4096" by (intro mult_le_mono1 Suc_leI)
  then show ?thesis using assms div_mult_mod_eq [of "unat b" 4096] by simp
qed

text \<open>
  \<open>stack\<close> is the address of the boot stack, \<open>kernel_entry\<close> that of \<^verbatim>\<open>kernel_early_main\<close> and \<open>ret\<close> that
  of the instruction behind the call.
\<close>

definition cold_start :: "u32 \<Rightarrow> u32 \<Rightarrow> u32 \<Rightarrow> cpu \<Rightarrow> cpu" where
  "cold_start stack kernel_entry ret c =
     (let c = c\<lparr>r_ebp := 0\<rparr>;
          c = c\<lparr>r_esp := initial_sp stack\<rparr>;
          c = push (r_eax c) c;
          c = push (r_ebx c) c;
          c = c\<lparr>r_eax := kernel_entry\<rparr>;
          c = push ret c
      in c\<lparr>r_eip := r_eax c\<rparr>)"

text \<open>The arguments a function finds on its stack when it is entered.\<close>

definition cdecl_arg :: "nat \<Rightarrow> cpu \<Rightarrow> u32" where
  "cdecl_arg k c = load32 (cmem c) (r_esp c + 4 + 4 * word_of_nat k)"

lemma cold_start_enters_kernel:
  assumes "unat stack mod 4096 = 0"
  shows "r_eip (cold_start stack kernel_entry ret c) = kernel_entry" "r_ebp (cold_start stack kernel_entry ret c) = 0"
    "cdecl_arg 0 (cold_start stack kernel_entry ret c) = r_ebx c" "cdecl_arg 1 (cold_start stack kernel_entry ret c) = r_eax c"
    "from_sp (r_esp (cold_start stack kernel_entry ret c)) = stack"
proof -
  let ?c = "cold_start stack kernel_entry ret c"
  have sp: "r_esp ?c = stack + 4084" by (simp add: cold_start_def Let_def push_def initial_sp_def stack_base_def)
  from page_end [OF assms] show "from_sp (r_esp ?c) = stack" unfolding sp
    by (intro from_sp_in_stack assms) (simp_all add: unat_add_u32)
  have al: "word_aligned (4084 + stack)" "word_aligned (4088 + stack)" "word_aligned (4092 + stack)"
    by (intro word_aligned_add page_word_aligned [OF assms]; simp add: word_aligned_def)+
  show "r_eip ?c = kernel_entry" "r_ebp ?c = 0" by (simp_all add: cold_start_def Let_def push_def)
  show "cdecl_arg 0 ?c = r_ebx c" "cdecl_arg 1 ?c = r_eax c"
    unfolding cdecl_arg_def sp using al
    by (simp_all add: cold_start_def Let_def push_def initial_sp_def stack_base_def load32_store32_other)
qed

section \<open>The other cores\<close>

text \<open>The words in the trampoline page.\<close>

record trampoline =
  tr_gdt_ptr :: gdt_ptr
  tr_idt_ptr :: gdt_ptr
  tr_pd_phy_addr :: u32
  tr_stack_top :: u32

record start_regs =
  st_segs :: seg_regs
  st_idtr :: gdt_ptr
  st_cr0 :: u32
  st_cr3 :: u32
  st_esp :: u32
  st_ebp :: u32
  st_interrupts :: bool
  st_direction :: bool

text \<open>The registers when the trampoline has called \<^verbatim>\<open>warm_start_32\<close>.\<close>

definition warm_start_16 :: "trampoline \<Rightarrow> start_regs \<Rightarrow> start_regs" where
  "warm_start_16 t r =
     (let r = r\<lparr>st_interrupts := False\<rparr>;
          r = r\<lparr>st_cr0 := st_cr0 r OR 0x1\<rparr>;
          r = r\<lparr>st_segs := (st_segs r)\<lparr>gdtr := tr_gdt_ptr t\<rparr>\<rparr>;
          r = r\<lparr>st_segs := (st_segs r)\<lparr>reg_cs := gdt_selector KERNEL_CODE\<rparr>\<rparr>;
          ax = gdt_selector KERNEL_DATA;
          r = r\<lparr>st_segs := (st_segs r)\<lparr>reg_ds := ax, reg_es := ax, reg_fs := ax, reg_gs := ax, reg_ss := ax\<rparr>\<rparr>;
          r = r\<lparr>st_idtr := tr_idt_ptr t\<rparr>;
          r = r\<lparr>st_cr3 := tr_pd_phy_addr t\<rparr>;
          r = r\<lparr>st_cr0 := st_cr0 r OR 0x80000000\<rparr>;
          r = r\<lparr>st_ebp := 0\<rparr>;
          r = r\<lparr>st_esp := tr_stack_top t\<rparr>;
          r = r\<lparr>st_direction := False\<rparr>
      in r\<lparr>st_esp := st_esp r - 4\<rparr>)"

text \<open>
  What the constructor of \<^verbatim>\<open>CoreManager\<close> and \<^verbatim>\<open>start_core\<close> have stored there, for the descriptor
  tables of the first core.
\<close>

definition trampoline_of :: "gdt_ptr \<Rightarrow> gdt_ptr \<Rightarrow> core_manager \<Rightarrow> trampoline" where
  "trampoline_of gdt idt cm =
     \<lparr>tr_gdt_ptr = gdt, tr_idt_ptr = idt, tr_pd_phy_addr = smp_pd_phy_addr cm, tr_stack_top = smp_stack_top cm\<rparr>"

text \<open>
  Property C30 (functional): a core that \<^verbatim>\<open>start_core\<close> wakes arrives as itself. The trampoline leaves
  it in protected mode with paging on, on the page directory, the descriptor tables and the flat
  segments of the first core, with interrupts off; and from the stack pointer the trampoline
  loaded, \<^verbatim>\<open>warm_start_32\<close> reaches the entry of exactly that core in the table, enables its
  interrupt controller and floating point unit and sets its flag, and no other core's.
\<close>

theorem woken_core_reaches_itself:
  fixes cm :: core_manager
  assumes st: "start_ap new boots i (cm, m, h, hw) = Inr (cm', m', h', hw')" "i < core_count cm"
    and new: "new h = Inr (st, h1)" "unat st mod 4096 = 0"
    and tab: "distinct (map sc_addr (cm_cores cm))" "sc_addr (cm_cores cm ! i) \<noteq> 0"
    and r': "r' = warm_start_16 (trampoline_of (bsp_ptr g tss) idt cm') r"
  shows "bit (st_cr0 r') 0 \<and> bit (st_cr0 r') 31 \<and> st_cr3 r' = smp_pd_phy_addr cm \<and> \<not> st_interrupts r' \<and>
    st_segs r' = gdt_init_bsp g tss (st_segs r) \<and> st_idtr r' = idt \<and>
    (\<exists>cm''. warm_start_32 (st_esp r') (cm', m', hw2, regs) = Inr (i, cm'', lapic_enable hw2, init_fpu regs) \<and>
      sc_initialized (cm_cores cm'' ! i) \<and> (\<forall>j < core_count cm. j \<noteq> i \<longrightarrow> cm_cores cm'' ! j = cm_cores cm ! j))"
proof -
  have cm': "smp_stack_top cm' = st + 4096" "smp_pd_phy_addr cm' = smp_pd_phy_addr cm"
    using st(1) new(1) by (auto simp: start_ap_def set_core_def CORE_STACK_SIZE_def Let_def split: prod.splits)
  from page_end [OF new(2)] have sp: "unat (st + 4092) = unat st + 4092" by (simp add: unat_add_u32)
  have esp: "st_esp r' = st + 4092"
    using cm' by (simp add: r' warm_start_16_def trampoline_of_def Let_def)
  have "bit (st_cr0 r') 0" "bit (st_cr0 r') 31"
    by (simp_all add: r' warm_start_16_def Let_def bit_simps)
  moreover have "st_cr3 r' = smp_pd_phy_addr cm" "\<not> st_interrupts r'" "st_idtr r' = idt"
    "st_segs r' = gdt_init_bsp g tss (st_segs r)"
    using cm' by (simp_all add: r' warm_start_16_def trampoline_of_def Let_def gdt_init_bsp_def gdt_flush_def)
  ultimately show ?thesis
    using started_core [OF st new(1,2) _ _ tab, of "st_esp r'" hw2 regs] sp unfolding esp by auto
qed

text \<open>The theorem for the second of two cores.\<close>

definition example_regs :: start_regs where
  "example_regs = \<lparr>st_segs = \<lparr>gdtr = \<lparr>gp_limit = 0, gp_base = 0\<rparr>, reg_cs = 0x800, reg_ds = 0, reg_es = 0, reg_fs = 0,
     reg_gs = 0, reg_ss = 0\<rparr>, st_idtr = \<lparr>gp_limit = 0x3FF, gp_base = 0\<rparr>, st_cr0 = 0x60000010, st_cr3 = 0, st_esp = 0,
     st_ebp = 7, st_interrupts = False, st_direction = False\<rparr>"

definition pc_regs :: control_regs where
  "pc_regs = \<lparr>cr0 = 0x80000011, cr4 = 0, fpu_reset = False\<rparr>"

theorem woken_core_reaches_itself_witness:
  "\<exists>cm' m' hw' r'. start_ap (\<lambda>h. Inr (0xD0000000, h)) (\<lambda>k. k = 1) 1 (two_core_table, (\<lambda>a. 0), (), pc_hw) =
       Inr (cm', m', (), hw') \<and>
     r' = warm_start_16 (trampoline_of (bsp_ptr 0x105000 0x106000) \<lparr>gp_limit = 0x7FF, gp_base = 0x107000\<rparr> cm') example_regs \<and>
     st_cr3 r' = 0x1000 \<and> (\<exists>cm''. warm_start_32 (st_esp r') (cm', m', pc_hw, pc_regs) = Inr (1, cm'', lapic_enable pc_hw, init_fpu pc_regs))"
proof -
  obtain cm' m' hw' where st: "start_ap (\<lambda>h. Inr (0xD0000000, h)) (\<lambda>k. k = 1) 1 (two_core_table, (\<lambda>a. 0), (), pc_hw) =
       Inr (cm', m', (), hw')"
    by (simp add: start_ap_def Let_def split: prod.splits)
  show ?thesis
    using woken_core_reaches_itself [OF st _ refl _ _ _ refl, of "0x105000" "0x106000" "\<lparr>gp_limit = 0x7FF, gp_base = 0x107000\<rparr>"
      example_regs pc_hw pc_regs] st by (auto simp: two_core_table_def core_count_def)
qed

end
