(* ===== verification/PIT.thy ===== *)
theory PIT
  imports IDT
begin

text \<open>
  \<^verbatim>\<open>driver/pit.hpp\<close> and \<^verbatim>\<open>driver/pit.cpp\<close>: the interval timer and its table of eight handlers.
  Callbacks are addresses; what a callback does to the timer and to the rest of the kernel
  is a function \<open>call\<close>, which the tick handler applies with the table lock released. Each
  section under the lock is one atomic step.
\<close>

section \<open>State\<close>

datatype timer_trigger = EveryTick | Interval | OneShot

record timer_handler =
  th_callback :: u32
  th_arg :: u32
  th_trigger :: timer_trigger
  th_interval_us :: u64
  last_triggered_us :: u64
  th_active :: bool

record pit =
  tick_count :: u64
  pit_interval_us :: u32
  handlers :: "timer_handler list"
  handler_count :: u32

definition PIT_CHANNEL_0 :: u16 where "PIT_CHANNEL_0 = 0x40"
definition PIT_COMMAND :: u16 where "PIT_COMMAND = 0x43"
definition PIT_BASE_FREQUENCY :: u32 where "PIT_BASE_FREQUENCY = 1193182"
definition MAX_HANDLERS :: nat where "MAX_HANDLERS = 8"

definition calculate_pit_divisor_us :: "u32 \<Rightarrow> u16" where
  "calculate_pit_divisor_us target_microseconds =
     ucast ((PIT_BASE_FREQUENCY * target_microseconds + 500000) div 1000000)"

definition no_handler :: timer_handler where
  "no_handler = \<lparr>th_callback = 0, th_arg = 0, th_trigger = EveryTick, th_interval_us = 0,
     last_triggered_us = 0, th_active = False\<rparr>"

section \<open>Operations\<close>

text \<open>The loop of \<^verbatim>\<open>register_handler\<close>: the first slot that is not active takes the handler.\<close>

primrec claim_slot :: "timer_handler \<Rightarrow> timer_handler list \<Rightarrow> timer_handler list option" where
  "claim_slot n [] = None"
| "claim_slot n (h # hs) = (if \<not> th_active h then Some (n # hs) else map_option ((#) h) (claim_slot n hs))"

definition register_handler :: "pit \<Rightarrow> u32 \<Rightarrow> u32 \<Rightarrow> timer_trigger \<Rightarrow> u64 \<Rightarrow> bool \<times> pit" where
  "register_handler p callback arg trigger interval_us =
     (if unat (handler_count p) \<ge> MAX_HANDLERS \<or> callback = 0 then (False, p)
      else
        let n = \<lparr>th_callback = callback, th_arg = arg, th_trigger = trigger,
              th_interval_us = (if trigger = EveryTick then ucast (pit_interval_us p) else interval_us),
              last_triggered_us = tick_count p * ucast (pit_interval_us p), th_active = True\<rparr>
        in case claim_slot n (handlers p) of
             Some hs \<Rightarrow> (True, p\<lparr>handlers := hs, handler_count := handler_count p + 1\<rparr>)
           | None \<Rightarrow> (False, p))"

primrec release_slot :: "u32 \<Rightarrow> u32 \<Rightarrow> timer_handler list \<Rightarrow> timer_handler list option" where
  "release_slot callback arg [] = None"
| "release_slot callback arg (h # hs) =
     (if th_active h \<and> th_callback h = callback \<and> th_arg h = arg then Some (h\<lparr>th_active := False\<rparr> # hs)
      else map_option ((#) h) (release_slot callback arg hs))"

definition unregister_handler :: "pit \<Rightarrow> u32 \<Rightarrow> u32 \<Rightarrow> bool \<times> pit" where
  "unregister_handler p callback arg =
     (if callback = 0 then (False, p)
      else case release_slot callback arg (handlers p) of
             Some hs \<Rightarrow> (True, p\<lparr>handlers := hs, handler_count := handler_count p - 1\<rparr>)
           | None \<Rightarrow> (False, p))"

text \<open>The section of \<^verbatim>\<open>tick_handler\<close> under the lock: the callback to run, with its argument.\<close>

definition tick_slot :: "u64 \<Rightarrow> nat \<Rightarrow> pit \<Rightarrow> (u32 \<times> u32) \<times> pit" where
  "tick_slot current_time_us i p =
     (let handler = handlers p ! i in
      if \<not> th_active handler then ((0, 0), p)
      else
        let elapsed = current_time_us - last_triggered_us handler \<ge> th_interval_us handler;
            hit = (th_callback handler, th_arg handler)
        in case th_trigger handler of
             EveryTick \<Rightarrow> (hit, p)
           | Interval \<Rightarrow>
               if elapsed
               then (hit, p\<lparr>handlers := (handlers p)[i := handler\<lparr>last_triggered_us := current_time_us\<rparr>]\<rparr>)
               else ((0, 0), p)
           | OneShot \<Rightarrow>
               if elapsed
               then (hit, p\<lparr>handlers := (handlers p)[i := handler\<lparr>th_active := False\<rparr>],
                 handler_count := handler_count p - 1\<rparr>)
               else ((0, 0), p))"

type_synonym 's timer_call = "u32 \<Rightarrow> u32 \<Rightarrow> u32 \<Rightarrow> pit \<times> 's \<Rightarrow> (pit \<times> 's) kres"

primrec tick_slots :: "'s timer_call \<Rightarrow> u32 \<Rightarrow> u64 \<Rightarrow> nat list \<Rightarrow> pit \<times> 's \<Rightarrow> (pit \<times> 's) kres" where
  "tick_slots call ctx now [] w = Inr w"
| "tick_slots call ctx now (i # is) w =
     (let ((callback, arg), p) = tick_slot now i (fst w) in
      bindR (if callback \<noteq> 0 then call callback ctx arg (p, snd w) else Inr (p, snd w))
        (tick_slots call ctx now is))"

definition tick_handler :: "'s timer_call \<Rightarrow> u32 \<Rightarrow> pit \<times> 's \<Rightarrow> (pit \<times> 's) kres" where
  "tick_handler call base_ctx w =
     (let p = fst w;
          current_ticks = tick_count p + 1;
          p = p\<lparr>tick_count := current_ticks\<rparr>;
          current_time_us = current_ticks * ucast (pit_interval_us p)
      in if isr_kind (isr_table ! (32 + 0)) \<noteq> ContextSwitch then Inr (p, snd w)
         else tick_slots call (from_base base_ctx) current_time_us [0..<MAX_HANDLERS] (p, snd w))"

text \<open>The tick handler as the handler of interrupt request 0, on the timer and the rest of the state.\<close>

definition tick_irq :: "'s timer_call \<Rightarrow> u32 \<Rightarrow> (pit \<times> 's, 'f) isr_env \<Rightarrow> (pit \<times> 's, 'f) isr_env kres" where
  "tick_irq call base_ctx env =
     bindR (tick_handler call base_ctx (env_rest env)) (\<lambda>r. Inr (env\<lparr>env_rest := r\<rparr>))"

definition pit_init ::
  "'s timer_call \<Rightarrow> pit \<Rightarrow> (pit \<times> 's, 'f) idt \<Rightarrow> u32 \<Rightarrow> (pit \<times> io_out list \<times> (pit \<times> 's, 'f) idt) kres" where
  "pit_init call p t us =
     (let divisor = calculate_pit_divisor_us us;
          p = p\<lparr>pit_interval_us := us, handler_count := 0, tick_count := 0\<rparr>;
          io = [Outb PIT_COMMAND 0x36, Outb PIT_CHANNEL_0 (ucast (divisor AND 0xFF)),
            Outb PIT_CHANNEL_0 (ucast (drop_bit 8 divisor AND 0xFF))]
      in bindR (register_irq t 0 (tick_irq call)) (\<lambda>t. Inr (p, io, t)))"

definition ticks :: "pit \<Rightarrow> u64" where
  "ticks p = tick_count p"

definition interval :: "pit \<Rightarrow> u32" where
  "interval p = pit_interval_us p"

text \<open>
  The waiting loop: \<open>reads n\<close> is what the read of the tick counter after \<open>n\<close> interrupts
  returns; the result is the number of interrupts waited for. \<open>None\<close>: it waits forever.
\<close>

partial_function (option) wait_ticks :: "(nat \<Rightarrow> u64) \<Rightarrow> u64 \<Rightarrow> u32 \<Rightarrow> nat \<Rightarrow> nat option" where
  [code]: "wait_ticks reads start target n =
     (if reads n - start < ucast target then wait_ticks reads start target (n + 1) else Some n)"

definition sleep_ticks :: "(nat \<Rightarrow> u64) \<Rightarrow> u32 \<Rightarrow> nat option" where
  "sleep_ticks reads target = wait_ticks reads (reads 0) target 0"

definition sleep_us :: "(nat \<Rightarrow> u64) \<Rightarrow> pit \<Rightarrow> u32 \<Rightarrow> nat option kres" where
  "sleep_us reads p target_us =
     (if pit_interval_us p = 0 then Inl Undefined
      else let target_ticks = target_us div pit_interval_us p
           in Inr (sleep_ticks reads (if target_ticks = 0 then 1 else target_ticks)))"

section \<open>The table\<close>

definition pit_inv :: "pit \<Rightarrow> bool" where
  "pit_inv p \<longleftrightarrow> length (handlers p) = MAX_HANDLERS \<and>
     unat (handler_count p) = length (filter th_active (handlers p)) \<and>
     (\<forall>h \<in> set (handlers p). th_active h \<longrightarrow> th_callback h \<noteq> 0)"

lemma claim_slot_None: "claim_slot n hs = None \<longleftrightarrow> (\<forall>h \<in> set hs. th_active h)"
  by (induction hs) auto

lemma claim_slot_result:
  "claim_slot n hs = Some hs' \<Longrightarrow>
    \<exists>ys h zs. hs = ys @ h # zs \<and> hs' = ys @ n # zs \<and> \<not> th_active h \<and> (\<forall>y \<in> set ys. th_active y)"
proof (induction hs arbitrary: hs')
  case (Cons h hs)
  show ?case
  proof (cases "th_active h")
    case False
    then show ?thesis using Cons.prems by (auto intro!: exI [of _ "[]"])
  next
    case True
    then obtain hs1 where hs1: "claim_slot n hs = Some hs1" "hs' = h # hs1" using Cons.prems by auto
    from Cons.IH [OF hs1(1)] obtain ys k zs where
      "hs = ys @ k # zs" "hs1 = ys @ n # zs" "\<not> th_active k" "\<forall>y \<in> set ys. th_active y" by blast
    then show ?thesis using hs1(2) True by (intro exI [of _ "h # ys"]) auto
  qed
qed simp

lemma release_slot_result:
  "release_slot cb arg hs = Some hs' \<Longrightarrow>
    \<exists>ys h zs. hs = ys @ h # zs \<and> hs' = ys @ h\<lparr>th_active := False\<rparr> # zs \<and> th_active h \<and> th_callback h = cb \<and> th_arg h = arg"
proof (induction hs arbitrary: hs')
  case (Cons h hs)
  show ?case
  proof (cases "th_active h \<and> th_callback h = cb \<and> th_arg h = arg")
    case True
    then show ?thesis using Cons.prems by (auto intro!: exI [of _ "[]"])
  next
    case False
    then obtain hs1 where hs1: "release_slot cb arg hs = Some hs1" "hs' = h # hs1" using Cons.prems by auto
    from Cons.IH [OF hs1(1)] obtain ys k zs where
      "hs = ys @ k # zs" "hs1 = ys @ k\<lparr>th_active := False\<rparr> # zs" "th_active k \<and> th_callback k = cb \<and> th_arg k = arg"
      by blast
    then show ?thesis using hs1(2) by (intro exI [of _ "h # ys"]) auto
  qed
qed simp

lemma active_bound: "length (filter th_active hs) \<le> length hs"
  by (rule length_filter_le)

lemma register_handler_inv:
  assumes "pit_inv p"
  shows "pit_inv (snd (register_handler p cb arg tr us))"
    "fst (register_handler p cb arg tr us) \<longleftrightarrow> cb \<noteq> 0 \<and> \<not> (\<forall>h \<in> set (handlers p). th_active h)"
proof -
  let ?n = "\<lparr>th_callback = cb, th_arg = arg, th_trigger = tr,
    th_interval_us = (if tr = EveryTick then ucast (pit_interval_us p) else us),
    last_triggered_us = tick_count p * ucast (pit_interval_us p), th_active = True\<rparr>"
  have full: "unat (handler_count p) \<ge> MAX_HANDLERS \<longleftrightarrow> (\<forall>h \<in> set (handlers p). th_active h)"
  proof -
    have "length (filter th_active (handlers p)) \<ge> length (handlers p) \<longleftrightarrow> (\<forall>h \<in> set (handlers p). th_active h)"
      by (metis (no_types) active_bound filter_True filter_id_conv le_antisym length_filter_less order_refl not_less)
    then show ?thesis using assms by (simp add: pit_inv_def)
  qed
  show "fst (register_handler p cb arg tr us) \<longleftrightarrow> cb \<noteq> 0 \<and> \<not> (\<forall>h \<in> set (handlers p). th_active h)"
    using full by (auto simp: register_handler_def Let_def claim_slot_None split: option.splits)
  show "pit_inv (snd (register_handler p cb arg tr us))"
  proof (cases "cb = 0 \<or> claim_slot ?n (handlers p) = None")
    case True
    then show ?thesis using assms by (auto simp: register_handler_def)
  next
    case False
    then obtain hs where c: "claim_slot ?n (handlers p) = Some hs" by blast
    from claim_slot_result [OF c] obtain ys h zs where
      split: "handlers p = ys @ h # zs" "hs = ys @ ?n # zs" and na: "\<not> th_active h" by blast
    have lt: "length (filter th_active (handlers p)) < MAX_HANDLERS"
      using full c claim_slot_None [of ?n "handlers p"] assms by (auto simp: pit_inv_def not_le [symmetric])
    then have "unat (handler_count p + 1) = length (filter th_active (handlers p)) + 1"
      using assms by (simp add: pit_inv_def unat_add_u32 MAX_HANDLERS_def)
    moreover have "snd (register_handler p cb arg tr us) = p\<lparr>handlers := hs, handler_count := handler_count p + 1\<rparr>"
      using False c lt assms by (simp add: register_handler_def pit_inv_def)
    ultimately show ?thesis using split na assms False by (auto simp: pit_inv_def)
  qed
qed

lemma unregister_handler_inv:
  assumes "pit_inv p"
  shows "pit_inv (snd (unregister_handler p cb arg))"
proof (cases "cb = 0 \<or> release_slot cb arg (handlers p) = None")
  case True
  then show ?thesis using assms by (auto simp: unregister_handler_def)
next
  case False
  then obtain hs where r: "release_slot cb arg (handlers p) = Some hs" by blast
  from release_slot_result [OF r] obtain ys h zs where
    split: "handlers p = ys @ h # zs" "hs = ys @ h\<lparr>th_active := False\<rparr> # zs" and a: "th_active h" by blast
  then have "1 \<le> unat (handler_count p)" using assms by (auto simp: pit_inv_def)
  then have "unat (handler_count p - 1) = length (filter th_active hs)"
    using assms split a by (simp add: pit_inv_def unat_sub_u32 u32_le_iff)
  moreover have "snd (unregister_handler p cb arg) = p\<lparr>handlers := hs, handler_count := handler_count p - 1\<rparr>"
    using False r by (simp add: unregister_handler_def)
  ultimately show ?thesis using assms split by (auto simp: pit_inv_def)
qed

section \<open>Ticks\<close>

text \<open>A handler that is due at a time, and what firing does to its slot.\<close>

definition due :: "u64 \<Rightarrow> timer_handler \<Rightarrow> bool" where
  "due now h \<longleftrightarrow> th_active h \<and> (th_trigger h = EveryTick \<or> now - last_triggered_us h \<ge> th_interval_us h)"

definition fire :: "u64 \<Rightarrow> timer_handler \<Rightarrow> timer_handler" where
  "fire now h = (if \<not> due now h then h else case th_trigger h of
     EveryTick \<Rightarrow> h | Interval \<Rightarrow> h\<lparr>last_triggered_us := now\<rparr> | OneShot \<Rightarrow> h\<lparr>th_active := False\<rparr>)"

definition one_shot_done :: "u64 \<Rightarrow> timer_handler \<Rightarrow> bool" where
  "one_shot_done now h \<longleftrightarrow> due now h \<and> th_trigger h = OneShot"

lemma tick_slot_eq:
  assumes "i < length (handlers p)"
  shows "tick_slot now i p =
    ((if due now (handlers p ! i) then (th_callback (handlers p ! i), th_arg (handlers p ! i)) else (0, 0)),
     p\<lparr>handlers := (handlers p)[i := fire now (handlers p ! i)],
       handler_count := (if one_shot_done now (handlers p ! i) then handler_count p - 1 else handler_count p)\<rparr>)"
  by (cases p; cases "th_trigger (handlers p ! i)")
    (auto simp: tick_slot_def Let_def due_def fire_def one_shot_done_def)

lemma fire_active: "length (filter th_active (map (fire now) hs)) + length (filter (one_shot_done now) hs) =
  length (filter th_active hs)"
  by (induction hs) (auto simp: fire_def due_def one_shot_done_def split: timer_trigger.splits)

lemma fire_callback: "th_callback (fire now h) = th_callback h"
  by (auto simp: fire_def split: timer_trigger.splits)

lemma tick_slots_eq:
  assumes call: "\<And>cb arg p s. call cb ctx arg (p, s) = Inr (p, f cb arg s)"
    and cb: "\<forall>h \<in> set (handlers p). th_active h \<longrightarrow> th_callback h \<noteq> 0"
    and n: "k + n = length (handlers p)"
  shows "tick_slots call ctx now [k..<k + n] (p, s) =
    Inr (p\<lparr>handlers := take k (handlers p) @ map (fire now) (drop k (handlers p)),
         handler_count := handler_count p - word_of_nat (length (filter (one_shot_done now) (drop k (handlers p))))\<rparr>,
      fold (\<lambda>h. f (th_callback h) (th_arg h)) (filter (due now) (drop k (handlers p))) s)"
  using cb n
proof (induction n arbitrary: k p s)
  case (Suc n)
  let ?h = "handlers p ! k"
  let ?p = "p\<lparr>handlers := (handlers p)[k := fire now ?h],
    handler_count := (if one_shot_done now ?h then handler_count p - 1 else handler_count p)\<rparr>"
  have k: "k < length (handlers p)" using Suc.prems(2) by simp
  have dr: "drop k (handlers p) = ?h # drop (Suc k) (handlers p)" using k by (simp add: Cons_nth_drop_Suc)
  have cb': "\<forall>h \<in> set (handlers ?p). th_active h \<longrightarrow> th_callback h \<noteq> 0"
  proof -
    have "th_active (fire now ?h) \<longrightarrow> th_active ?h" by (auto simp: fire_def due_def split: if_splits timer_trigger.splits)
    then have "th_active (fire now ?h) \<longrightarrow> th_callback (fire now ?h) \<noteq> 0"
      using Suc.prems(1) k by (simp add: fire_callback)
    then show ?thesis using Suc.prems(1) by (auto dest!: set_update_subset_insert [THEN subsetD])
  qed
  have step: "tick_slots call ctx now [k..<k + Suc n] (p, s) = tick_slots call ctx now [Suc k..<Suc k + n]
      (?p, if due now ?h then f (th_callback ?h) (th_arg ?h) s else s)"
  proof -
    have "due now ?h \<Longrightarrow> th_callback ?h \<noteq> 0" using Suc.prems(1) k by (auto simp: due_def)
    moreover have "[k..<k + Suc n] = k # [Suc k..<Suc k + n]" by (simp add: upt_conv_Cons del: upt_Suc)
    ultimately show ?thesis using tick_slot_eq [OF k, of now] call by (simp add: Let_def split_def del: upt_Suc)
  qed
  have "tick_slots call ctx now [Suc k..<Suc k + n] (?p, s') =
      Inr (?p\<lparr>handlers := take (Suc k) (handlers ?p) @ map (fire now) (drop (Suc k) (handlers ?p)),
         handler_count := handler_count ?p - word_of_nat (length (filter (one_shot_done now) (drop (Suc k) (handlers ?p))))\<rparr>,
      fold (\<lambda>h. f (th_callback h) (th_arg h)) (filter (due now) (drop (Suc k) (handlers ?p))) s')" for s'
    using cb' Suc.prems(2) by (intro Suc.IH) auto
  moreover have "take (Suc k) ((handlers p)[k := fire now ?h]) = take k (handlers p) @ [fire now ?h]"
    using k by (simp add: take_Suc_conv_app_nth)
  ultimately show ?case unfolding step dr by (simp add: algebra_simps)
qed simp

text \<open>
  Property C29 (functional): a timer tick, with callbacks that leave the handler table alone,
  runs the callbacks of exactly the due handlers, once each and in the order of the table:
  those of every tick, and those whose interval has passed since they last ran. A periodic
  handler restarts its interval, a one-shot handler is deactivated, every other slot is
  unchanged, and the handler count stays the number of active slots.
\<close>

theorem tick_runs_due_handlers:
  assumes inv: "pit_inv p"
    and call: "\<forall>cb arg p s. call cb (from_base ctx) arg (p, s) = Inr (p, f cb arg s)"
  shows "\<exists>p'. let now = (tick_count p + 1) * ucast (pit_interval_us p) in
    tick_handler call ctx (p, s) =
      Inr (p', fold (\<lambda>h. f (th_callback h) (th_arg h)) (filter (due now) (handlers p)) s) \<and>
    handlers p' = map (fire now) (handlers p) \<and> ticks p' = ticks p + 1 \<and> pit_inv p'"
proof -
  let ?now = "(tick_count p + 1) * ucast (pit_interval_us p)" and ?p = "p\<lparr>tick_count := tick_count p + 1\<rparr>"
  let ?p' = "?p\<lparr>handlers := map (fire ?now) (handlers p),
    handler_count := handler_count p - word_of_nat (length (filter (one_shot_done ?now) (handlers p)))\<rparr>"
  have len: "0 + MAX_HANDLERS = length (handlers ?p)" using inv by (simp add: pit_inv_def)
  have "isr_kind (isr_table ! 32) = ContextSwitch" by (simp add: isr_table_def get_isr_wrapper_def)
  then have "tick_handler call ctx (p, s) =
      Inr (?p', fold (\<lambda>h. f (th_callback h) (th_arg h)) (filter (due ?now) (handlers p)) s)"
    using tick_slots_eq [OF _ _ len, of call "from_base ctx" f ?now s] call inv
    by (simp add: tick_handler_def Let_def pit_inv_def)
  moreover have "pit_inv ?p'"
  proof -
    have le: "length (filter (one_shot_done ?now) (handlers p)) \<le> unat (handler_count p)"
      using fire_active [of ?now "handlers p"] inv by (simp add: pit_inv_def)
    have "length (filter (one_shot_done ?now) (handlers p)) \<le> 8"
      using length_filter_le [of "one_shot_done ?now" "handlers p"] inv unfolding pit_inv_def MAX_HANDLERS_def by linarith
    then have "unat (word_of_nat (length (filter (one_shot_done ?now) (handlers p))) :: u32) =
        length (filter (one_shot_done ?now) (handlers p))" by (simp add: unat_of_nat_u32)
    then have "unat (handler_count ?p') = length (filter th_active (handlers ?p'))"
      using le fire_active [of ?now "handlers p"] inv by (simp add: pit_inv_def unat_sub_u32 u32_le_iff del: unsigned_of_nat)
    moreover have "th_callback h \<noteq> 0" if hin: "h \<in> set (handlers ?p')" and ha: "th_active h" for h
    proof -
      obtain g where g: "g \<in> set (handlers p)" "h = fire ?now g" using hin by auto
      then have "th_active g" using ha by (auto simp: fire_def due_def split: if_splits timer_trigger.splits)
      then show ?thesis using g inv by (auto simp: pit_inv_def fire_callback)
    qed
    ultimately show ?thesis using inv by (simp add: pit_inv_def)
  qed
  ultimately show ?thesis by (intro exI [of _ ?p']) (simp add: Let_def ticks_def)
qed

definition example_pit :: pit where
  "example_pit = snd (register_handler (snd (register_handler
     \<lparr>tick_count = 7, pit_interval_us = 1193, handlers = replicate 8 no_handler, handler_count = 0\<rparr>
       0x101000 1 Interval 10000)) 0x102000 2 OneShot 1000)"

lemma example_pit_inv: "pit_inv example_pit"
  unfolding example_pit_def
  by (intro register_handler_inv(1)) (simp add: pit_inv_def MAX_HANDLERS_def no_handler_def)

definition example_call :: "u32 list timer_call" where
  "example_call cb ctx arg w = Inr (fst w, snd w @ [cb])"

theorem tick_runs_due_handlers_witness:
  "\<exists>p'. tick_handler example_call 0x9038 (example_pit, []) = Inr (p', [0x102000]) \<and> pit_inv p'"
proof -
  let ?now = "(tick_count example_pit + 1) * ucast (pit_interval_us example_pit) :: u64"
  have d: "map th_callback (filter (due ?now) (handlers example_pit)) = [0x102000]" by code_simp
  have "fold (\<lambda>h s. s @ [th_callback h]) hs s = s @ map th_callback hs" for hs :: "timer_handler list" and s
    by (induction hs arbitrary: s) auto
  with d have "fold (\<lambda>h s. s @ [th_callback h]) (filter (due ?now) (handlers example_pit)) [] = [0x102000]" by simp
  then show ?thesis
    using tick_runs_due_handlers [OF example_pit_inv, of example_call "0x9038" "\<lambda>cb _ s. s @ [cb]" "[]"]
    by (auto simp: example_call_def Let_def)
qed

text \<open>
  \<^verbatim>\<open>calculate_pit_divisor_us\<close> is the frequency times the period in
  microseconds, rounded to the nearest, for periods below 3600 us. From 3600 us on the 32-bit
  product wraps: 3600 us already give the divisor 0 instead of 4295, which the timer takes
  for 65536.
\<close>

theorem pit_divisor_bounds:
  "(us < 3600 \<longrightarrow> unat (calculate_pit_divisor_us us) = (1193182 * unat us + 500000) div 1000000) \<and>
   calculate_pit_divisor_us 3600 = 0 \<and> (1193182 * 3600 + 500000) div 1000000 = (4295 :: nat)"
proof (intro conjI impI)
  assume "us < 3600"
  then have u: "unat us < 3600" by (simp add: u32_less_iff)
  then have "unat (PIT_BASE_FREQUENCY * us) = 1193182 * unat us"
    by (simp add: PIT_BASE_FREQUENCY_def unat_mult_u32)
  then have "unat (PIT_BASE_FREQUENCY * us + 500000) = 1193182 * unat us + 500000"
    using u by (simp add: unat_add_u32)
  then have q: "unat ((PIT_BASE_FREQUENCY * us + 500000) div 1000000) = (1193182 * unat us + 500000) div 1000000"
    by (simp add: unat_div)
  moreover have "(1193182 * unat us + 500000) div 1000000 < 65536" using u by (intro div_less_iff_less_mult [THEN iffD2]) auto
  ultimately show "unat (calculate_pit_divisor_us us) = (1193182 * unat us + 500000) div 1000000"
    by (simp add: calculate_pit_divisor_us_def unsigned_ucast_eq take_bit_eq_mod)
next
  show "calculate_pit_divisor_us 3600 = 0" by code_simp
  show "(1193182 * 3600 + 500000) div 1000000 = (4295 :: nat)" by simp
qed

theorem pit_divisor_bounds_witness: "unat (calculate_pit_divisor_us 1000) = 1193"
  using pit_divisor_bounds [of 1000] by simp

end
