(* ===== verification/Printf.thy ===== *)
theory Printf
  imports CString
begin

text \<open>
  \<^verbatim>\<open>klibcpp/printf_impl.cpp\<close>, the buffer sinks of \<^verbatim>\<open>printf_impl.hpp\<close>, \<^verbatim>\<open>sprintf\<close> and \<^verbatim>\<open>snprintf\<close> of
  \<^verbatim>\<open>cstring.cpp\<close> and the logger of \<^verbatim>\<open>log.hpp\<close>. A sink's \<^verbatim>\<open>putc\<close> acts on the memory and on the
  sink's state. The variable arguments are the dwords on the stack; reading more of them than
  there are is undefined, as is a width or precision beyond the range of \<^verbatim>\<open>int\<close>. The floating
  point conversion \<^verbatim>\<open>ftoa\<close> is an argument.
\<close>

section \<open>Output\<close>

type_synonym 's sink = "u8 \<Rightarrow> mem \<times> 's \<Rightarrow> mem \<times> 's"

record 's printf_env =
  putc :: "'s sink"
  env_ftoa :: "u32 \<Rightarrow> u32 \<Rightarrow> int \<Rightarrow> u32 \<Rightarrow> mem \<Rightarrow> mem"
  null_str :: u32
  local_buf :: u32

definition put_padding :: "'s sink \<Rightarrow> u8 \<Rightarrow> int \<Rightarrow> mem \<times> 's \<Rightarrow> mem \<times> 's" where
  "put_padding out sy padding = (out sy) ^^ nat padding"

partial_function (option) put_chars :: "'s sink \<Rightarrow> u32 \<Rightarrow> mem \<times> 's \<Rightarrow> (mem \<times> 's) option" where
  [code]: "put_chars out str w = (if fst w str \<noteq> 0 then put_chars out (str + 1) (out (fst w str) w) else Some w)"

definition put_string :: "'s printf_env \<Rightarrow> u32 \<Rightarrow> int \<Rightarrow> bool \<Rightarrow> u8 \<Rightarrow> mem \<times> 's \<Rightarrow> (mem \<times> 's) option" where
  "put_string e str width padRight sy w =
     (let str = (if str = 0 then null_str e else str) in
      case strlen (fst w) str of
        None \<Rightarrow> None
      | Some l \<Rightarrow>
          let len = sint l; padding = (if width > len then width - len else 0);
              w = (if \<not> padRight then put_padding (putc e) sy padding w else w)
          in case put_chars (putc e) str w of
               None \<Rightarrow> None
             | Some w \<Rightarrow> Some (if padRight then put_padding (putc e) 32 padding w else w))"

section \<open>Conversion specifications\<close>

text \<open>A run of decimal digits: the number and the place after it.\<close>

partial_function (option) scan_number :: "mem \<Rightarrow> u32 \<Rightarrow> int \<Rightarrow> (int \<times> u32) krun" where
  [code]: "scan_number m p n =
     (if 48 \<le> m p \<and> m p \<le> 57 then
        let n' = n * 10 + (uint (m p) - 48) in
        if n' \<ge> 2 ^ 31 then Some (Inl Undefined) else scan_number m (p + 1) n'
      else Some (Inr (n, p)))"

record conv_spec =
  pad_right :: bool
  pad_sym :: u8
  width :: int
  precision :: int

definition parse_spec :: "mem \<Rightarrow> u32 \<Rightarrow> (conv_spec \<times> u32) krun" where
  "parse_spec m p =
     (let (padRight, p) = (if m p = byte_of (CHR ''-'') then (True, p + 1) else (False, p));
          (sy, p) = (if m p = 48 \<or> m p = 32 then (m p, p + 1) else (32, p))
      in bindK (scan_number m p 0) (\<lambda>(w, p).
         bindK (if m p = byte_of (CHR ''.'') then scan_number m (p + 1) 0 else retK (-1, p)) (\<lambda>(prec, p).
         retK (\<lparr>pad_right = padRight, pad_sym = sy, width = w, precision = prec\<rparr>, p))))"

definition take_arg :: "u32 list \<Rightarrow> (u32 \<times> u32 list) kres" where
  "take_arg args = (case args of [] \<Rightarrow> Inl Undefined | a # as \<Rightarrow> Inr (a, as))"

definition put_spec :: "'s printf_env \<Rightarrow> conv_spec \<Rightarrow> u32 \<Rightarrow> u32 list \<Rightarrow> mem \<times> 's \<Rightarrow> (u32 list \<times> mem \<times> 's) krun" where
  "put_spec e c str args w =
     (case put_string e str (width c) (pad_right c) (pad_sym c) w of None \<Rightarrow> None | Some w \<Rightarrow> retK (args, w))"

definition convert :: "'s printf_env \<Rightarrow> conv_spec \<Rightarrow> u8 \<Rightarrow> u32 list \<Rightarrow> mem \<times> 's \<Rightarrow> (u32 list \<times> mem \<times> 's) krun" where
  "convert e c ch args w =
     (let buf = local_buf e in
      if ch = byte_of (CHR ''d'') then
        bindK (Some (take_arg args)) (\<lambda>(a, args). put_spec e c buf args (itoa (fst w) a buf, snd w))
      else if ch = byte_of (CHR ''u'') then
        bindK (Some (take_arg args)) (\<lambda>(a, args). put_spec e c buf args (utoa (fst w) a buf, snd w))
      else if ch = byte_of (CHR ''x'') then
        bindK (Some (take_arg args)) (\<lambda>(a, args). put_spec e c buf args (htoa (fst w) a buf, snd w))
      else if ch = byte_of (CHR ''p'') then
        let m = (fst w)(buf := byte_of (CHR ''0''), buf + 1 := byte_of (CHR ''x'')) in
        bindK (Some (take_arg args)) (\<lambda>(a, args). put_spec e c buf args (htoa m a (buf + 2), snd w))
      else if ch = byte_of (CHR ''s'') then
        bindK (Some (take_arg args)) (\<lambda>(a, args). put_spec e c a args w)
      else if ch = byte_of (CHR ''c'') then
        bindK (Some (take_arg args)) (\<lambda>(a, args).
          put_spec e c buf args ((fst w)(buf := ucast a, buf + 1 := 0), snd w))
      else if ch = byte_of (CHR ''f'') then
        bindK (Some (take_arg args)) (\<lambda>(lo, args). bindK (Some (take_arg args)) (\<lambda>(hi, args).
          put_spec e c buf args
            (env_ftoa e lo hi (if precision c = -1 then 6 else precision c) buf (fst w), snd w)))
      else retK (args, putc e ch (putc e (byte_of (CHR ''%'')) w)))"

partial_function (option) vprintf :: "'s printf_env \<Rightarrow> u32 \<Rightarrow> u32 list \<Rightarrow> mem \<times> 's \<Rightarrow> (mem \<times> 's) krun" where
  [code]: "vprintf e format args w =
     (let c = fst w format in
      if c = 0 then Some (Inr w)
      else if c \<noteq> byte_of (CHR ''%'') then vprintf e (format + 1) args (putc e c w)
      else if fst w (format + 1) = 0 then Some (Inr w)
      else if fst w (format + 1) = byte_of (CHR ''%'')
      then vprintf e (format + 2) args (putc e (fst w (format + 1)) w)
      else case parse_spec (fst w) (format + 1) of
        None \<Rightarrow> None
      | Some (Inl err) \<Rightarrow> Some (Inl err)
      | Some (Inr (spec, f)) \<Rightarrow>
          (case convert e spec (fst w f) args w of
             None \<Rightarrow> None
           | Some (Inl err) \<Rightarrow> Some (Inl err)
           | Some (Inr (args, w)) \<Rightarrow> vprintf e (f + 1) args w))"

section \<open>Buffers\<close>

record buffer_ctx =
  bc_buf :: u32
  bc_pos :: u32

definition buffer_putc :: "buffer_ctx sink" where
  "buffer_putc c w =
     (let ctx = snd w in
      if bc_buf ctx = 0 then w else ((fst w)(bc_buf ctx + bc_pos ctx := c), ctx\<lparr>bc_pos := bc_pos ctx + 1\<rparr>))"

definition buffer_dtor :: "mem \<times> buffer_ctx \<Rightarrow> mem" where
  "buffer_dtor w = (if bc_buf (snd w) \<noteq> 0 then (fst w)(bc_buf (snd w) + bc_pos (snd w) := 0) else fst w)"

definition sprintf :: "buffer_ctx printf_env \<Rightarrow> u32 \<Rightarrow> u32 \<Rightarrow> u32 list \<Rightarrow> mem \<Rightarrow> (int \<times> mem) krun" where
  "sprintf e buffer format args m =
     bindK (vprintf (e\<lparr>putc := buffer_putc\<rparr>) format args (m, \<lparr>bc_buf = buffer, bc_pos = 0\<rparr>)) (\<lambda>w.
     retK (sint (bc_pos (snd w)), buffer_dtor w))"

record sized_ctx =
  sc_buf :: u32
  sc_cap :: u32
  sc_written :: u32
  sc_total :: u32

definition sized_putc :: "sized_ctx sink" where
  "sized_putc c w =
     (let ctx = snd w;
          (m, ctx) = (if sc_buf ctx \<noteq> 0 \<and> sc_cap ctx \<noteq> 0 \<and> sc_written ctx + 1 < sc_cap ctx
            then ((fst w)(sc_buf ctx + sc_written ctx := c), ctx\<lparr>sc_written := sc_written ctx + 1\<rparr>)
            else (fst w, ctx))
      in (m, ctx\<lparr>sc_total := sc_total ctx + 1\<rparr>))"

definition sized_dtor :: "mem \<times> sized_ctx \<Rightarrow> mem" where
  "sized_dtor w =
     (let ctx = snd w in
      if sc_buf ctx = 0 \<or> sc_cap ctx = 0 then fst w
      else let term = (if sc_written ctx < sc_cap ctx then sc_written ctx else sc_cap ctx - 1)
           in (fst w)(sc_buf ctx + term := 0))"

definition sized_ctor :: "u32 \<Rightarrow> u32 \<Rightarrow> sized_ctx" where
  "sized_ctor buffer sz = \<lparr>sc_buf = buffer, sc_cap = sz, sc_written = 0, sc_total = 0\<rparr>"

definition snprintf :: "sized_ctx printf_env \<Rightarrow> u32 \<Rightarrow> u32 \<Rightarrow> u32 \<Rightarrow> u32 list \<Rightarrow> mem \<Rightarrow> (int \<times> mem) krun" where
  "snprintf e buffer sz format args m =
     bindK (vprintf (e\<lparr>putc := sized_putc\<rparr>) format args (m, sized_ctor buffer sz)) (\<lambda>w.
     retK (sint (sc_total (snd w)), sized_dtor w))"

section \<open>Log lines\<close>

text \<open>\<^verbatim>\<open>safe_snprintf\<close>: the memory, the place and the room that are left.\<close>

definition safe_snprintf ::
  "sized_ctx printf_env \<Rightarrow> u32 \<Rightarrow> u32 list \<Rightarrow> mem \<times> u32 \<times> u32 \<Rightarrow> (mem \<times> u32 \<times> u32) krun" where
  "safe_snprintf e format args s =
     (let (m, pos, remaining) = s in
      bindK (snprintf e pos remaining format args m) (\<lambda>(written, m).
      let written = (if written < 0 \<or> word_of_int written \<ge> remaining
        then if remaining > 0 then remaining - 1 else 0 else word_of_int written)
      in retK (m, pos + written, remaining - written)))"

text \<open>
  The line that \<^verbatim>\<open>Log::printf\<close> puts together in its buffer; the addresses are those of its own
  format strings and of the level's name, and \<open>tick\<close> is what \<^verbatim>\<open>api.get_ticks\<close> returns, if set.
\<close>

record log_strings =
  tick_fmt :: u32
  level_fmt :: u32
  level_name :: u32

definition log_line :: "sized_ctx printf_env \<Rightarrow> log_strings \<Rightarrow> u32 \<Rightarrow> u32 option \<Rightarrow> u32 \<Rightarrow> u32 list \<Rightarrow> mem \<Rightarrow>
    (mem \<times> u32 \<times> u32) krun" where
  "log_line e ls buffer tick format args m =
     bindK (case tick of Some t \<Rightarrow> safe_snprintf e (tick_fmt ls) [t] (memset m buffer 0 256, buffer, 256)
            | None \<Rightarrow> retK (memset m buffer 0 256, buffer, 256)) (\<lambda>s.
     bindK (safe_snprintf e (level_fmt ls) [level_name ls] s) (\<lambda>s.
     safe_snprintf e format args s))"

section \<open>Properties\<close>

lemma sized_putc_fold:
  assumes "sc_buf c0 = buf" "sc_cap c0 = cap" "buf \<noteq> 0" "cap \<noteq> 0" "unat (sc_written c0) < unat cap"
  shows "\<exists>w. fold sized_putc cs (m, c0) = (write_bytes m (buf + sc_written c0) (take (unat cap - 1 - unat (sc_written c0)) cs),
      c0\<lparr>sc_written := w, sc_total := sc_total c0 + word_of_nat (length cs)\<rparr>) \<and>
    unat w = min (unat cap - 1) (unat (sc_written c0) + length cs)"
  using assms
proof (induction cs arbitrary: m c0)
  case Nil
  then show ?case by (intro exI [of _ "sc_written c0"]) (cases c0, auto)
next
  case (Cons c cs)
  have up: "unat (sc_written c0 + 1) = unat (sc_written c0) + 1" using unat_Suc_below Cons.prems(5) .
  show ?case
  proof (cases "unat (sc_written c0) + 1 < unat cap")
    case True
    let ?c1 = "c0\<lparr>sc_written := sc_written c0 + 1, sc_total := sc_total c0 + 1\<rparr>"
    have step: "sized_putc c (m, c0) = (m(buf + sc_written c0 := c), ?c1)"
      using Cons.prems True up by (simp add: sized_putc_def u32_less_iff)
    obtain w where w: "fold sized_putc cs (m(buf + sc_written c0 := c), ?c1) =
        (write_bytes (m(buf + sc_written c0 := c)) (buf + (sc_written c0 + 1))
           (take (unat cap - 1 - unat (sc_written c0 + 1)) cs),
         ?c1\<lparr>sc_written := w, sc_total := sc_total c0 + 1 + word_of_nat (length cs)\<rparr>)"
        "unat w = min (unat cap - 1) (unat (sc_written c0 + 1) + length cs)"
      using Cons.IH [of ?c1 "m(buf + sc_written c0 := c)"] Cons.prems up True by (auto simp del: fun_upd_apply)
    have "unat cap - 1 - unat (sc_written c0) = Suc (unat cap - 1 - unat (sc_written c0 + 1))" using True up by simp
    then show ?thesis using step w up by (intro exI [of _ w]) (simp add: add.assoc)
  next
    case False
    let ?c1 = "c0\<lparr>sc_total := sc_total c0 + 1\<rparr>"
    have step: "sized_putc c (m, c0) = (m, ?c1)"
      using Cons.prems False up by (simp add: sized_putc_def u32_less_iff)
    obtain w where w: "fold sized_putc cs (m, ?c1) =
        (write_bytes m (buf + sc_written c0) (take (unat cap - 1 - unat (sc_written c0)) cs),
         ?c1\<lparr>sc_written := w, sc_total := sc_total c0 + 1 + word_of_nat (length cs)\<rparr>)"
        "unat w = min (unat cap - 1) (unat (sc_written c0) + length cs)"
      using Cons.IH [of ?c1 m] Cons.prems by auto
    have "unat cap - 1 - unat (sc_written c0) = 0" using False Cons.prems(5) by simp
    then show ?thesis using step w False Cons.prems(5) by (intro exI [of _ w]) (simp add: add.assoc)
  qed
qed

lemma write_bytes_snoc: "(write_bytes m p xs)(p + word_of_nat (length xs) := x) = write_bytes m p (xs @ [x])"
proof (induction xs arbitrary: m p)
  case (Cons a xs)
  show ?case using Cons.IH [of "m(p := a)" "p + 1"] by (simp add: add.assoc del: fun_upd_apply)
qed simp

text \<open>
  Property C36 (safety): the sink of \<^verbatim>\<open>snprintf\<close> never leaves its buffer. Whatever is printed, the
  buffer ends up holding the longest prefix of it that leaves room for the terminator, and
  the terminator; no byte outside of the buffer changes; and the count that is returned is
  that of all characters, printed or not. Without a buffer nothing is written.
\<close>

theorem snprintf_bounded:
  assumes "buf \<noteq> 0" and "sz \<noteq> 0" and "unat buf + unat sz \<le> 4294967296"
  shows "\<exists>m' c. fold sized_putc cs (m, sized_ctor buf sz) = (m', c) \<and>
    bytes_at (sized_dtor (m', c)) buf (take (unat sz - 1) cs @ [0]) \<and>
    (\<forall>a. unat a < unat buf \<or> unat buf + unat sz \<le> unat a \<longrightarrow> sized_dtor (m', c) a = m a) \<and>
    sc_total c = word_of_nat (length cs) \<and> fold sized_putc cs (m, sized_ctor 0 sz) = (m, (sized_ctor 0 sz)\<lparr>sc_total := word_of_nat (length cs)\<rparr>)"
proof -
  let ?c0 = "sized_ctor buf sz" and ?xs = "take (unat sz - 1) cs"
  have szp: "0 < unat sz" using assms(2) by (simp add: unat_gt_0)
  obtain w where f: "fold sized_putc cs (m, ?c0) = (write_bytes m buf ?xs, ?c0\<lparr>sc_written := w, sc_total := word_of_nat (length cs)\<rparr>)"
      and w: "unat w = min (unat sz - 1) (length cs)"
    using sized_putc_fold [of ?c0 buf sz cs m] assms szp by (auto simp: sized_ctor_def)
  let ?c = "?c0\<lparr>sc_written := w, sc_total := word_of_nat (length cs)\<rparr>"
  have len: "length ?xs = unat w" using w by simp
  have lw: "word_of_nat (length ?xs) = w" unfolding len by simp
  have "unat w < unat sz" using w szp by linarith
  then have dt: "sized_dtor (write_bytes m buf ?xs, ?c) = write_bytes m buf (?xs @ [0])"
    using assms lw write_bytes_snoc [of m buf ?xs 0]
    by (simp add: sized_dtor_def sized_ctor_def u32_less_iff del: fun_upd_apply)
  have room: "length (?xs @ [0]) \<le> unat sz" using len \<open>unat w < unat sz\<close> by simp
  have "unat sz < 4294967296" by simp
  then have at: "bytes_at (write_bytes m buf (?xs @ [0])) buf (?xs @ [0])"
    using room by (intro write_bytes_at) linarith
  have other: "write_bytes m buf (?xs @ [0]) a = m a" if a: "unat a < unat buf \<or> unat buf + unat sz \<le> unat a" for a
  proof (rule write_bytes_other)
    fix i assume i: "i < length (?xs @ [0])"
    have "unat buf + i < 4294967296" "i < 4294967296" using i room assms(3) by linarith+
    then have "unat (buf + word_of_nat i) = unat buf + i"
      using unat_add_u32 [of buf "word_of_nat i"] by (simp add: unat_of_nat_u32 del: unsigned_of_nat)
    then show "a \<noteq> buf + word_of_nat i" using a i room by auto
  qed
  have null: "fold sized_putc cs (m, c0) = (m, c0\<lparr>sc_total := sc_total c0 + word_of_nat (length cs)\<rparr>)"
    if "sc_buf c0 = 0" for c0
    using that by (induction cs arbitrary: c0) (auto simp: sized_putc_def add.assoc)
  show ?thesis
    using f at other dt null [of "sized_ctor 0 sz"]
    by (intro exI [of _ "write_bytes m buf ?xs"] exI [of _ ?c]) (auto simp: sized_ctor_def)
qed

theorem snprintf_bounded_witness:
  "\<exists>m' c. fold sized_putc [72, 105, 33] ((\<lambda>_. 7), sized_ctor 0x1000 3) = (m', c) \<and>
     bytes_at (sized_dtor (m', c)) 0x1000 [72, 105, 0]"
  using snprintf_bounded [of "0x1000" 3 "[72, 105, 33]" "\<lambda>_. 7"] by auto

text \<open>A sink that only collects.\<close>

definition collect :: "u8 list sink" where
  "collect c w = (fst w, snd w @ [c])"

lemma put_chars_collect: "cstr m p s \<Longrightarrow> put_chars collect p (m, os) = Some (m, os @ s)"
proof (induction s arbitrary: p os)
  case Nil
  then show ?case by (subst put_chars.simps) (simp add: cstr_Nil)
next
  case (Cons c s)
  then have "collect (m p) (m, os) = (m, os @ [c])" by (simp add: collect_def cstr_Cons)
  then show ?case using Cons.prems Cons.IH [of "p + 1" "os @ [c]"] by (subst put_chars.simps) (simp add: cstr_Cons)
qed

lemma cstr_append: "cstr m p (s @ t) \<Longrightarrow> cstr m (p + word_of_nat (length s)) t"
proof (induction s arbitrary: p)
  case (Cons c s)
  then show ?case using Cons.IH [of "p + 1"] by (simp add: cstr_Cons add.assoc)
qed simp

lemma vprintf_text:
  assumes "putc e = collect"
  shows "cstr m p (s @ t) \<Longrightarrow> byte_of (CHR ''%'') \<notin> set s \<Longrightarrow>
    vprintf e p args (m, os) = vprintf e (p + word_of_nat (length s)) args (m, os @ s)"
proof (induction s arbitrary: p os)
  case (Cons c s)
  have "vprintf e p args (m, os) = vprintf e (p + 1) args (m, os @ [c])"
    using Cons.prems assms by (subst vprintf.simps) (auto simp: cstr_Cons collect_def)
  then show ?case using Cons.IH [of "p + 1" "os @ [c]"] Cons.prems by (simp add: cstr_Cons add.assoc)
qed simp

lemma vprintf_end: "m p = 0 \<Longrightarrow> vprintf e p args (m, os) = Some (Inr (m, os))"
  by (subst vprintf.simps) simp

text \<open>A conversion without flags, width or precision.\<close>

lemma parse_spec_plain:
  assumes "\<not> (48 \<le> m p \<and> m p \<le> 57)" "m p \<noteq> 45" "m p \<noteq> 46" "m p \<noteq> 32"
  shows "parse_spec m p = Some (Inr (\<lparr>pad_right = False, pad_sym = 32, width = 0, precision = -1\<rparr>, p))"
proof -
  have "byte_of (CHR ''-'') = 45" "byte_of (CHR ''.'') = 46" by code_simp+
  moreover have "m p \<noteq> 48" using assms(1) by auto
  moreover have "scan_number m p 0 = Some (Inr (0, p))" using assms(1) by (subst scan_number.simps, subst if_not_P) auto
  ultimately show ?thesis using assms(2-4) by (simp add: parse_spec_def retK_def)
qed

lemma byte_codes: "byte_of (CHR ''%'') = 37" "byte_of (CHR ''d'') = 100" "byte_of (CHR ''u'') = 117"
  by code_simp+

lemma convert_unsigned:
  assumes "putc e = collect" "unat (local_buf e) + 33 < 4294967296" "local_buf e \<noteq> 0"
  shows "convert e \<lparr>pad_right = False, pad_sym = 32, width = 0, precision = -1\<rparr> 117 (n # args) (m, os) =
    Some (Inr (args, utoa m n (local_buf e), os @ rev (digit_bytes 10 (unat n))))"
proof -
  let ?s = "rev (digit_bytes 10 (unat n))"
  have cs: "cstr (utoa m n (local_buf e)) (local_buf e) ?s"
    using uvtoa_string(1) [of 10 "local_buf e" m n] assms(2) by (simp add: utoa_def)
  have "length (rdigits 10 (unat n)) \<le> 32"
  proof (rule rdigits_length)
    have "unat n < 4294967296" by simp
    also have "\<dots> < (10 :: nat) ^ 32" by simp
    finally show "unat n < 10 ^ 32" .
  qed simp_all
  then have "unat (word_of_nat (length ?s) :: u32) < 2147483648" by (simp add: unat_of_nat_u32 del: unsigned_of_nat)
  then have "0 \<le> sint (word_of_nat (length ?s) :: u32)" using sint_small by (metis of_nat_0_le_iff)
  then show ?thesis
    using strlen_cstr [OF cs] put_chars_collect [OF cs, of os] assms(1,3)
    by (simp add: convert_def byte_codes take_arg_def put_spec_def put_string_def put_padding_def Let_def retK_def)
qed

text \<open>A string stays what it is while the memory under it does.\<close>

lemma cstr_frame:
  assumes "cstr m p s" "unat p + length s < 4294967296"
    "\<And>a. unat p \<le> unat a \<Longrightarrow> unat a \<le> unat p + length s \<Longrightarrow> m' a = m a"
  shows "cstr m' p s"
proof -
  have "m' (p + word_of_nat i) = m (p + word_of_nat i)" if "i \<le> length s" for i
  proof -
    have "unat (p + word_of_nat i) = unat p + i"
      using that assms(2) unat_add_u32 [of p "word_of_nat i"] by (simp add: unat_of_nat_u32 del: unsigned_of_nat)
    then show ?thesis using assms(3) that by simp
  qed
  then show ?thesis using assms(1) by (auto simp: cstr_def bytes_at_def)
qed

text \<open>
  Formatting ends and prints what it should: text without a percent
  sign is copied, \<^verbatim>\<open>%u\<close> takes one argument and prints its decimal digits, and the text after it
  follows, when the local buffer does not overlap the format string.
\<close>

theorem printf_text_number:
  assumes e: "putc e = collect" "unat (local_buf e) + 33 < 4294967296" "local_buf e \<noteq> 0"
    and f: "cstr m fmt (s1 @ [37, 117] @ s2)" "37 \<notin> set s1" "37 \<notin> set s2"
      "unat fmt + length (s1 @ [37, 117] @ s2) < 4294967296"
    and apart: "unat fmt + length (s1 @ [37, 117] @ s2) < unat (local_buf e) \<or> unat (local_buf e) + 33 \<le> unat fmt"
  shows "vprintf e fmt [n] (m, []) = Some (Inr (utoa m n (local_buf e), s1 @ rev (digit_bytes 10 (unat n)) @ s2))"
proof -
  let ?p = "fmt + word_of_nat (length s1)" and ?ds = "rev (digit_bytes 10 (unat n))" and ?m = "utoa m n (local_buf e)"
  have c1: "cstr m ?p ([37, 117] @ s2)" using cstr_append f(1) by blast
  then have p: "m ?p = 37" "m (?p + 1) = 117" by (simp_all add: cstr_Cons)
  have frame: "cstr ?m fmt (s1 @ [37, 117] @ s2)"
  proof (rule cstr_frame [OF f(1,4)])
    fix a :: u32 assume "unat fmt \<le> unat a" "unat a \<le> unat fmt + length (s1 @ [37, 117] @ s2)"
    then show "?m a = m a" using uvtoa_string(2) [of 10 "local_buf e" a m n] e(2) apart by (auto simp: utoa_def)
  qed
  have c2: "cstr ?m (?p + 2) s2"
    using cstr_append [of ?m fmt "s1 @ [37, 117]" s2] frame by (simp add: add_ac)
  have "vprintf e fmt [n] (m, []) = vprintf e ?p [n] (m, s1)"
    using vprintf_text [OF e(1) f(1), of "[n]" "[]"] f(2) by (simp add: byte_codes)
  also have "\<dots> = vprintf e (?p + 2) [] (?m, s1 @ ?ds)"
    using p parse_spec_plain [of m "?p + 1"] convert_unsigned [OF e, of n "[]" m s1]
    by (subst vprintf.simps) (simp add: byte_codes Let_def add.assoc)
  also have "\<dots> = vprintf e (?p + 2 + word_of_nat (length s2)) [] (?m, (s1 @ ?ds) @ s2)"
    by (rule vprintf_text [OF e(1), of _ _ _ "[]"]) (use c2 f(3) in \<open>simp_all add: byte_codes\<close>)
  also have "\<dots> = Some (Inr (?m, (s1 @ ?ds) @ s2))"
  proof (rule vprintf_end)
    have "cstr ?m (?p + 2 + word_of_nat (length s2)) []" using cstr_append [of ?m "?p + 2" s2 "[]"] c2 by simp
    then show "?m (?p + 2 + word_of_nat (length s2)) = 0" by (simp add: cstr_Nil)
  qed
  finally show ?thesis by simp
qed

definition example_printf :: "u8 list printf_env" where
  "example_printf = \<lparr>putc = collect, env_ftoa = (\<lambda>_ _ _ _ m. m), null_str = 0x2000, local_buf = 0x3000\<rparr>"

theorem printf_text_number_witness:
  "vprintf example_printf 0x1000 [42] (write_bytes (\<lambda>_. 0) 0x1000 [110, 61, 37, 117, 10, 0], []) =
     Some (Inr (utoa (write_bytes (\<lambda>_. 0) 0x1000 [110, 61, 37, 117, 10, 0]) 42 0x3000,
       [110, 61, 52, 50, 10]))"
proof -
  have "cstr (write_bytes (\<lambda>_. 0) 0x1000 [110, 61, 37, 117, 10, 0]) 0x1000 ([110, 61] @ [37, 117] @ [10])"
    by (simp add: cstr_def)
  moreover have d: "rev (digit_bytes 10 (unat (42 :: u32))) = [52, 50]" by (simp add: rdigits.simps byte_of_def udigits_def)
  ultimately show ?thesis
    using printf_text_number [of example_printf _ "0x1000" "[110, 61]" "[10]" 42] by (simp add: example_printf_def d)
qed

end
