(* ===== verification/Serial.thy ===== *)
theory Serial
  imports Printf
begin

text \<open>
  \<^verbatim>\<open>driver/serial.hpp\<close> and \<^verbatim>\<open>driver/serial.cpp\<close>: the serial ports. The controller is a parameter: a
  state \<open>'s\<close> with what a read and a write of a port do to it, since a read of the line status or of
  the data register depends on what was sent and received.
\<close>

section \<open>Registers\<close>

record 's port_dev =
  dv_in :: "u16 \<Rightarrow> 's \<Rightarrow> u8 \<times> 's"
  dv_out :: "u16 \<Rightarrow> u8 \<Rightarrow> 's \<Rightarrow> 's"

record baud_rate =
  baud_high :: u8
  baud_low :: u8

definition Baud115200 :: baud_rate where "Baud115200 = \<lparr>baud_high = 0x00, baud_low = 0x01\<rparr>"

datatype serial_reg = DAR | IER | FCR | LCR | MCR | LSR | MSR | SCR | DL_LOW | DL_HIGH

definition reg_offset :: "serial_reg \<Rightarrow> u16" where
  "reg_offset r = (case r of DAR \<Rightarrow> 0 | IER \<Rightarrow> 1 | FCR \<Rightarrow> 2 | LCR \<Rightarrow> 3 | MCR \<Rightarrow> 4 | LSR \<Rightarrow> 5 | MSR \<Rightarrow> 6 | SCR \<Rightarrow> 7
     | DL_LOW \<Rightarrow> 0 | DL_HIGH \<Rightarrow> 1)"

definition LCR_BIT8 :: u8 where "LCR_BIT8 = 0x03"
definition LCR_DLAB :: u8 where "LCR_DLAB = 0x80"
definition IER_ALL :: u8 where "IER_ALL = 0x01 OR 0x02 OR 0x04 OR 0x08"
definition CLEAR_RFIFO :: u8 where "CLEAR_RFIFO = 0x02"
definition FCR_INIT :: u8 where "FCR_INIT = 0x01 OR CLEAR_RFIFO OR 0x04 OR 0xC0"
definition MCR_LOOP :: u8 where "MCR_LOOP = 0x10"
definition MCR_NORMAL :: u8 where "MCR_NORMAL = 0x01 OR 0x02 OR 0x04 OR 0x08"

record serial_port =
  sp_address :: u16
  sp_initialized :: bool

definition port_read :: "'s port_dev \<Rightarrow> serial_port \<Rightarrow> serial_reg \<Rightarrow> 's \<Rightarrow> u8 \<times> 's" where
  "port_read dv p r s = dv_in dv (sp_address p + reg_offset r) s"

definition port_write :: "'s port_dev \<Rightarrow> serial_port \<Rightarrow> serial_reg \<Rightarrow> u8 \<Rightarrow> 's \<Rightarrow> 's" where
  "port_write dv p r v s = dv_out dv (sp_address p + reg_offset r) v s"

section \<open>One port\<close>

definition port_exists :: "'s port_dev \<Rightarrow> serial_port \<Rightarrow> 's \<Rightarrow> bool \<times> 's" where
  "port_exists dv p s = (let (v, s) = port_read dv p LSR s in (v \<noteq> 0xFF, s))"

definition is_transmit_empty :: "'s port_dev \<Rightarrow> serial_port \<Rightarrow> 's \<Rightarrow> bool \<times> 's" where
  "is_transmit_empty dv p s = (let (v, s) = port_read dv p LSR s in (v AND 0x20 \<noteq> 0, s))"

definition is_receive_ready :: "'s port_dev \<Rightarrow> serial_port \<Rightarrow> 's \<Rightarrow> bool \<times> 's" where
  "is_receive_ready dv p s = (let (v, s) = port_read dv p LSR s in (v AND 0x01 \<noteq> 0, s))"

definition SERIAL_TIMEOUT :: nat where "SERIAL_TIMEOUT = 1000000"

text \<open>
  The loop \<^verbatim>\<open>while (!ready() && --timeout)\<close>, from a positive timeout: it returns what is left of it,
  0 after that many polls.
\<close>

primrec wait_ready :: "('s \<Rightarrow> bool \<times> 's) \<Rightarrow> nat \<Rightarrow> 's \<Rightarrow> nat \<times> 's" where
  "wait_ready ready 0 s = (0, s)"
| "wait_ready ready (Suc timeout) s =
     (let (ok, s) = ready s in if ok then (Suc timeout, s) else wait_ready ready timeout s)"

definition serial_getc :: "'s port_dev \<Rightarrow> serial_port \<Rightarrow> 's \<Rightarrow> u8 \<times> 's" where
  "serial_getc dv p s =
     (let (timeout, s) = wait_ready (is_receive_ready dv p) SERIAL_TIMEOUT s in
      if timeout \<noteq> 0 then port_read dv p DAR s else (0, s))"

function (sequential) serial_putc :: "'s port_dev \<Rightarrow> serial_port \<Rightarrow> u8 \<Rightarrow> 's \<Rightarrow> 's" where
  "serial_putc dv p c s =
     (let (timeout, s) = wait_ready (is_transmit_empty dv p) SERIAL_TIMEOUT s in
      if timeout \<noteq> 0
      then let s = port_write dv p DAR c s in
           if c = 0x0A then serial_putc dv p 0x0D s else s
      else s)"
  by pat_completeness auto

termination serial_putc
  by (relation "measure (\<lambda>(dv, p, c, s). of_bool (c = 0x0A))") simp_all

declare serial_putc.simps [simp del]

section \<open>Initialisation\<close>

definition set_interrupts :: "'s port_dev \<Rightarrow> serial_port \<Rightarrow> bool \<Rightarrow> 's \<Rightarrow> 's" where
  "set_interrupts dv p enable s =
     (let s = port_write dv p IER (if enable then IER_ALL else 0) s;
          (fcr, s) = port_read dv p FCR s
      in port_write dv p FCR (fcr OR CLEAR_RFIFO) s)"

definition serial_init_port :: "'s port_dev \<Rightarrow> serial_port \<Rightarrow> baud_rate \<Rightarrow> 's \<Rightarrow> serial_port \<times> 's" where
  "serial_init_port dv p baud s =
     (let (ex, s) = port_exists dv p s in
      if \<not> ex \<or> sp_initialized p then (p, s)
      else let s = set_interrupts dv p False s;
               s = port_write dv p LCR LCR_DLAB s;
               s = port_write dv p DL_LOW (baud_low baud) s;
               s = port_write dv p DL_HIGH (baud_high baud) s;
               s = port_write dv p LCR LCR_BIT8 s;
               s = port_write dv p FCR FCR_INIT s;
               s = port_write dv p MCR MCR_LOOP s;
               s = serial_putc dv p 0x41 s;
               (c, s) = serial_getc dv p s;
               p = p\<lparr>sp_initialized := (c = 0x41)\<rparr>;
               s = port_write dv p MCR MCR_NORMAL s
           in (p, s))"

definition com_ports :: "serial_port list" where
  "com_ports = map (\<lambda>a. \<lparr>sp_address = a, sp_initialized = False\<rparr>) [0x3F8, 0x2F8, 0x3E8, 0x2E8, 0x5F8, 0x4F8, 0x5E8, 0x4E8]"

primrec serial_init :: "'s port_dev \<Rightarrow> serial_port list \<Rightarrow> 's \<Rightarrow> serial_port list \<times> 's" where
  "serial_init dv [] s = ([], s)"
| "serial_init dv (p # ps) s =
     (let (p, s) = serial_init_port dv p Baud115200 s; (ps, s) = serial_init dv ps s in (p # ps, s))"

text \<open>The sink of \<^verbatim>\<open>serial::printf\<close>: characters for an uninitialised primary port are dropped.\<close>

definition serial_sink :: "'s port_dev \<Rightarrow> serial_port \<Rightarrow> u8 \<Rightarrow> 's \<Rightarrow> 's" where
  "serial_sink dv primary c s = (if sp_initialized primary then serial_putc dv primary c s else s)"

section \<open>The waits are bounded\<close>

text \<open>The state after \<open>k\<close> polls, whatever they returned.\<close>

primrec polls :: "('s \<Rightarrow> bool \<times> 's) \<Rightarrow> nat \<Rightarrow> 's \<Rightarrow> 's" where
  "polls ready 0 s = s"
| "polls ready (Suc k) s = polls ready k (snd (ready s))"

lemma wait_ready_found:
  "fst (ready (polls ready k s)) \<Longrightarrow> \<forall>j < k. \<not> fst (ready (polls ready j s)) \<Longrightarrow> k < n \<Longrightarrow>
   wait_ready ready n s = (n - k, polls ready (Suc k) s)"
proof (induction k arbitrary: n s)
  case 0
  then show ?case by (cases n) (auto simp: case_prod_beta Let_def)
next
  case (Suc k)
  obtain n' where n: "n = Suc n'" using Suc.prems(3) by (cases n) auto
  have "\<not> fst (ready s)" using Suc.prems(2) by (auto dest: spec [of _ 0])
  moreover have "\<forall>j < k. \<not> fst (ready (polls ready j (snd (ready s))))" using Suc.prems(2) by auto
  ultimately show ?case using Suc.IH [of "snd (ready s)" n'] Suc.prems n by (simp add: case_prod_beta Let_def)
qed

lemma wait_ready_timeout:
  "\<forall>j < n. \<not> fst (ready (polls ready j s)) \<Longrightarrow> wait_ready ready n s = (0, polls ready n s)"
proof (induction n arbitrary: s)
  case (Suc n)
  have "\<not> fst (ready s)" using Suc.prems by (auto dest: spec [of _ 0])
  moreover have "\<forall>j < n. \<not> fst (ready (polls ready j (snd (ready s))))" using Suc.prems by auto
  ultimately show ?case using Suc.IH by (simp add: case_prod_beta Let_def)
qed simp

text \<open>
  A character is sent after the poll that first finds the transmitter empty, a line feed with a
  carriage return behind it; after a million polls without success it is dropped.
\<close>

theorem serial_putc_sends:
  assumes "fst (is_transmit_empty dv p (polls (is_transmit_empty dv p) k s))" "k < SERIAL_TIMEOUT"
    "\<forall>j < k. \<not> fst (is_transmit_empty dv p (polls (is_transmit_empty dv p) j s))"
  shows "serial_putc dv p c s =
    (let s' = port_write dv p DAR c (polls (is_transmit_empty dv p) (Suc k) s)
     in if c = 0x0A then serial_putc dv p 0x0D s' else s')"
  using wait_ready_found [OF assms(1,3,2)] assms(2) by (subst serial_putc.simps) (simp add: Let_def)

theorem serial_putc_drops:
  assumes "\<forall>j < SERIAL_TIMEOUT. \<not> fst (is_transmit_empty dv p (polls (is_transmit_empty dv p) j s))"
  shows "serial_putc dv p c s = polls (is_transmit_empty dv p) SERIAL_TIMEOUT s"
  using wait_ready_timeout [OF assms] by (subst serial_putc.simps) (simp add: Let_def)

text \<open>Nothing is written to a port that is not there, where every read returns 0xFF.\<close>

theorem serial_init_absent:
  assumes "\<And>a s. dv_in dv a s = (0xFF, s)"
  shows "serial_init dv ps s = (ps, s)"
  by (induction ps) (simp_all add: serial_init_port_def port_exists_def port_read_def assms)

text \<open>
  An example controller: it holds the bytes it has received, in loop-back mode it receives what it
  sends, and its transmitter is always empty. The test character comes back and the port is used.
\<close>

record uart =
  ua_mcr :: u8
  ua_dlab :: bool
  ua_rx :: "u8 list"
  ua_sent :: "u8 list"

definition uart_dev :: "u16 \<Rightarrow> uart port_dev" where
  "uart_dev base = \<lparr>
     dv_in = (\<lambda>a u. if a = base + 5 then (0x60 OR (if ua_rx u = [] then 0 else 1), u)
                   else if a = base \<and> ua_rx u \<noteq> [] then (hd (ua_rx u), u\<lparr>ua_rx := tl (ua_rx u)\<rparr>) else (0, u)),
     dv_out = (\<lambda>a v u. if a = base + 3 then u\<lparr>ua_dlab := bit v 7\<rparr>
                      else if a = base + 4 then u\<lparr>ua_mcr := v\<rparr>
                      else if a = base \<and> \<not> ua_dlab u
                      then (if bit (ua_mcr u) 4 then u\<lparr>ua_rx := ua_rx u @ [v]\<rparr> else u\<lparr>ua_sent := ua_sent u @ [v]\<rparr>)
                      else u)\<rparr>"

lemma uart_in:
  "dv_in (uart_dev base) a u =
     (if a = base + 5 then (0x60 OR (if ua_rx u = [] then 0 else 1), u)
      else if a = base \<and> ua_rx u \<noteq> [] then (hd (ua_rx u), u\<lparr>ua_rx := tl (ua_rx u)\<rparr>) else (0, u))"
  by (simp add: uart_dev_def)

lemma uart_out:
  "dv_out (uart_dev base) a v u =
     (if a = base + 3 then u\<lparr>ua_dlab := bit v 7\<rparr> else if a = base + 4 then u\<lparr>ua_mcr := v\<rparr>
      else if a = base \<and> \<not> ua_dlab u
      then (if bit (ua_mcr u) 4 then u\<lparr>ua_rx := ua_rx u @ [v]\<rparr> else u\<lparr>ua_sent := ua_sent u @ [v]\<rparr>) else u)"
  by (simp add: uart_dev_def)

lemma wait_ready_now:
  "fst (ready s) \<Longrightarrow> wait_ready ready SERIAL_TIMEOUT s = (SERIAL_TIMEOUT, snd (ready s))"
  using wait_ready_found [of ready 0 s SERIAL_TIMEOUT] by (simp add: SERIAL_TIMEOUT_def)

lemma uart_putc:
  "sp_address p = 0x3F8 \<Longrightarrow> c \<noteq> 0x0A \<Longrightarrow> serial_putc (uart_dev 0x3F8) p c u = port_write (uart_dev 0x3F8) p DAR c u"
  by (subst serial_putc.simps, subst wait_ready_now)
    (simp_all add: is_transmit_empty_def port_read_def reg_offset_def uart_dev_def SERIAL_TIMEOUT_def)

lemma uart_getc:
  "sp_address p = 0x3F8 \<Longrightarrow> ua_rx u \<noteq> [] \<Longrightarrow> serial_getc (uart_dev 0x3F8) p u = (hd (ua_rx u), u\<lparr>ua_rx := tl (ua_rx u)\<rparr>)"
  unfolding serial_getc_def
  by (subst wait_ready_now)
    (simp_all add: is_receive_ready_def port_read_def reg_offset_def uart_dev_def SERIAL_TIMEOUT_def)

lemma serial_init_loopback:
  "serial_init_port (uart_dev 0x3F8) \<lparr>sp_address = 0x3F8, sp_initialized = False\<rparr> Baud115200
     \<lparr>ua_mcr = 0, ua_dlab = False, ua_rx = [], ua_sent = []\<rparr>
   = (\<lparr>sp_address = 0x3F8, sp_initialized = True\<rparr>,
      \<lparr>ua_mcr = 0x0F, ua_dlab = False, ua_rx = [], ua_sent = []\<rparr>)"
  by (simp add: serial_init_port_def uart_putc Let_def port_exists_def set_interrupts_def port_read_def port_write_def
      reg_offset_def LCR_DLAB_def LCR_BIT8_def MCR_LOOP_def MCR_NORMAL_def uart_in uart_out uart_getc)

end
