(* ===== verification/Display.thy ===== *)
theory Display
  imports IDT CString
begin

text \<open>
  \<^verbatim>\<open>driver/early_display.cpp\<close>: the text screen, 80 columns by 25 rows of a character and an
  attribute, in memory at 0xB8000, and the cursor, which the controller is told of through
  its ports. A character is signed, so one above 127 is below the space and is not shown.
\<close>

section \<open>State and operations\<close>

record display =
  fb_mem :: mem
  cursor_x :: u8
  cursor_y :: u8
  disp_attr :: u8
  disp_io :: "io_out list"

definition framebuffer :: u32 where "framebuffer = 0xB8000"
definition disp_width :: u8 where "disp_width = 80"
definition disp_height :: u8 where "disp_height = 25"

definition set_fg :: "u8 \<Rightarrow> display \<Rightarrow> display" where
  "set_fg color d = d\<lparr>disp_attr := (disp_attr d AND 0xF0) OR color\<rparr>"

definition set_bg :: "u8 \<Rightarrow> display \<Rightarrow> display" where
  "set_bg color d = d\<lparr>disp_attr := (disp_attr d AND 0x0F) OR push_bit 4 color\<rparr>"

definition fb_index :: "u8 \<Rightarrow> u8 \<Rightarrow> u16" where
  "fb_index x y = ucast y * ucast disp_width + ucast x"

definition fb_put :: "u8 \<Rightarrow> u8 \<Rightarrow> u8 \<Rightarrow> display \<Rightarrow> display" where
  "fb_put x y c d =
     (let a = framebuffer + 2 * ucast (fb_index x y) in
      d\<lparr>fb_mem := (fb_mem d)(a := c, a + 1 := disp_attr d)\<rparr>)"

definition disp_clear :: "display \<Rightarrow> display" where
  "disp_clear d = fold (\<lambda>y. fold (\<lambda>x. fb_put (word_of_nat x) (word_of_nat y) 0x20) [0..<unat disp_width]) [0..<unat disp_height] d"

definition move_cursor :: "display \<Rightarrow> display" where
  "move_cursor d =
     (let pos = fb_index (cursor_x d) (cursor_y d) in
      d\<lparr>disp_io := disp_io d @ [Outb 0x3D4 0x0F, Outb 0x3D5 (ucast (pos AND 0xFF)),
        Outb 0x3D4 0x0E, Outb 0x3D5 (ucast (drop_bit 8 pos AND 0xFF))]\<rparr>)"

definition disp_scroll :: "display \<Rightarrow> display" where
  "disp_scroll d =
     (if cursor_y d \<ge> disp_height
      then let m = memcpy (fb_mem d) (framebuffer + ucast disp_width) framebuffer
                 ((ucast disp_height - 1) * ucast disp_width * 2);
               m = memset m (framebuffer + (ucast disp_height - 1) * ucast disp_width) 0 (ucast disp_width * 2)
           in d\<lparr>fb_mem := m, cursor_y := disp_height - 1\<rparr>
      else d)"

definition disp_char :: "u8 \<Rightarrow> display \<Rightarrow> display" where
  "disp_char c d =
     (if c = 0x0A then d\<lparr>cursor_y := cursor_y d + 1, cursor_x := 0\<rparr>
      else if c = 0x09 then d\<lparr>cursor_x := cursor_x d + 4\<rparr>
      else if c = 0x0D then d\<lparr>cursor_x := 0\<rparr>
      else if c = 0x08
      then (if cursor_x d > 0
            then let d = d\<lparr>cursor_x := cursor_x d - 1\<rparr> in fb_put (cursor_x d) (cursor_y d) 0x20 d
            else d)
      else if sint c \<ge> 0x20
      then let d = fb_put (cursor_x d) (cursor_y d) c d in d\<lparr>cursor_x := cursor_x d + 1\<rparr>
      else d)"

definition disp_putc :: "u8 \<Rightarrow> display \<Rightarrow> display" where
  "disp_putc c d =
     (let d = disp_char c d;
          d = (if cursor_x d \<ge> disp_width then d\<lparr>cursor_x := 0, cursor_y := cursor_y d + 1\<rparr> else d)
      in disp_scroll (move_cursor d))"

section \<open>Bounds\<close>

definition on_screen :: "display \<Rightarrow> bool" where
  "on_screen d \<longleftrightarrow> unat (cursor_x d) < 80 \<and> unat (cursor_y d) < 25"

text \<open>Only bytes of the screen differ.\<close>

definition same_outside :: "mem \<Rightarrow> mem \<Rightarrow> bool" where
  "same_outside m m' \<longleftrightarrow> (\<forall>a. unat a < 0xB8000 \<or> 0xB8FA0 \<le> unat a \<longrightarrow> m' a = m a)"

lemma same_outside_refl [simp]: "same_outside m m"
  by (simp add: same_outside_def)

lemma same_outside_trans: "same_outside m m' \<Longrightarrow> same_outside m' m'' \<Longrightarrow> same_outside m m''"
  by (simp add: same_outside_def)

lemma unat_fb_index: "unat (fb_index x y) = unat y * 80 + unat x"
proof -
  have u: "unat (ucast z :: u16) = unat z" for z :: u8
    using u8_index [of z] by (simp add: unsigned_ucast_eq take_bit_eq_mod)
  have "unat y * 80 + unat x < 65536" using u8_index [of x] u8_index [of y] by linarith
  then show ?thesis by (simp add: fb_index_def disp_width_def unat_word_ariths u)
qed

lemma fb_put_outside:
  assumes "unat x < 80" "unat y < 25"
  shows "same_outside (fb_mem d) (fb_mem (fb_put x y c d))"
proof -
  have i: "unat (fb_index x y) < 2000" using assms by (simp add: unat_fb_index)
  have u: "unat (ucast (fb_index x y) :: u32) = unat (fb_index x y)"
    using i by (simp add: unsigned_ucast_eq take_bit_eq_mod)
  have "unat (2 * ucast (fb_index x y) :: u32) = 2 * unat (fb_index x y)" using i u by (subst unat_mult_u32) simp_all
  then have a: "unat (framebuffer + 2 * ucast (fb_index x y)) = 0xB8000 + 2 * unat (fb_index x y)"
    using i by (subst unat_add_u32) (simp_all add: framebuffer_def)
  then have "unat (framebuffer + 2 * ucast (fb_index x y) + 1) = 0xB8001 + 2 * unat (fb_index x y)"
    using i by (subst unat_add_u32) simp_all
  then show ?thesis using a i by (auto simp: same_outside_def fb_put_def Let_def)
qed

lemma copy_bytes_outside:
  "unat dst + n \<le> 0xB8FA0 \<Longrightarrow> 0xB8000 \<le> unat dst \<Longrightarrow> same_outside m (copy_bytes n dst src m)"
proof (induction n arbitrary: dst src m)
  case (Suc n)
  have "unat (dst + 1) = unat dst + 1" using Suc.prems by (subst unat_add_u32) simp_all
  then have "same_outside (m(dst := m src)) (copy_bytes (Suc n) dst src m)" using Suc by simp
  moreover have "same_outside m (m(dst := m src))" using Suc.prems by (auto simp: same_outside_def)
  ultimately show ?case using same_outside_trans by blast
qed simp

lemma fill_bytes_outside:
  "unat dst + n \<le> 0xB8FA0 \<Longrightarrow> 0xB8000 \<le> unat dst \<Longrightarrow> same_outside m (fill_bytes n dst v m)"
proof (induction n arbitrary: dst m)
  case (Suc n)
  have "unat (dst + 1) = unat dst + 1" using Suc.prems by (subst unat_add_u32) simp_all
  then have "same_outside (m(dst := v)) (fill_bytes (Suc n) dst v m)" using Suc by simp
  moreover have "same_outside m (m(dst := v))" using Suc.prems by (auto simp: same_outside_def)
  ultimately show ?case using same_outside_trans by blast
qed simp

lemma scroll_sizes [simp]:
  "(ucast disp_height - 1) * ucast disp_width * 2 = (3840 :: u32)" "framebuffer + ucast disp_width = 0xB8050"
  "framebuffer + (ucast disp_height - 1) * ucast disp_width = 0xB8780" "ucast disp_width * 2 = (160 :: u32)"
  by (simp_all add: disp_height_def disp_width_def framebuffer_def)

lemma disp_scroll_outside: "same_outside (fb_mem d) (fb_mem (disp_scroll d))"
proof -
  have "same_outside (fb_mem d) (copy_bytes 3840 0xB8050 framebuffer (fb_mem d))"
    by (rule copy_bytes_outside) simp_all
  moreover have "same_outside m (fill_bytes 160 0xB8780 0 m)" for m by (rule fill_bytes_outside) simp_all
  ultimately show ?thesis using same_outside_trans by (auto simp: disp_scroll_def memcpy_def memset_def Let_def)
qed

lemma unat_inc_u8: "unat v + unat w < 256 \<Longrightarrow> unat (v + w) = unat v + unat (w :: u8)"
  by (simp add: unat_word_ariths)

lemma fb_put_fields [simp]:
  "cursor_x (fb_put x y c d) = cursor_x d" "cursor_y (fb_put x y c d) = cursor_y d"
  by (simp_all add: fb_put_def Let_def)

lemma disp_char_cursor:
  assumes "on_screen d"
  shows "unat (cursor_x (disp_char c d)) < 84" "unat (cursor_y (disp_char c d)) \<le> 25"
    "80 \<le> unat (cursor_x (disp_char c d)) \<Longrightarrow> unat (cursor_y (disp_char c d)) < 25"
proof -
  have xy: "unat (cursor_x d) < 80" "unat (cursor_y d) < 25" using assms by (simp_all add: on_screen_def)
  have up: "unat (cursor_x d + 1) = unat (cursor_x d) + 1" "unat (cursor_x d + 4) = unat (cursor_x d) + 4"
    "unat (cursor_y d + 1) = unat (cursor_y d) + 1"
    using xy by (simp_all add: unat_inc_u8)
  have down: "unat (cursor_x d - 1) = unat (cursor_x d) - 1" if "0 < cursor_x d"
    using that by (simp add: unat_minus_one word_greater_zero_iff)
  show "unat (cursor_x (disp_char c d)) < 84" using xy up down by (auto simp: disp_char_def Let_def)
  show "unat (cursor_y (disp_char c d)) \<le> 25" using xy up by (auto simp: disp_char_def Let_def)
  show "unat (cursor_y (disp_char c d)) < 25" if "80 \<le> unat (cursor_x (disp_char c d))"
    using that xy up by (auto simp: disp_char_def Let_def split: if_splits)
qed

lemma disp_char_outside:
  assumes "on_screen d"
  shows "same_outside (fb_mem d) (fb_mem (disp_char c d))"
proof -
  have xy: "unat (cursor_x d) < 80" "unat (cursor_y d) < 25" using assms by (simp_all add: on_screen_def)
  have down: "unat (cursor_x d - 1) < 80" if "0 < cursor_x d"
    using that xy by (simp add: unat_minus_one word_greater_zero_iff)
  have erase: "same_outside (fb_mem d) (fb_mem (fb_put (cursor_x d - 1) (cursor_y d) v (d\<lparr>cursor_x := cursor_x d - 1\<rparr>)))"
    if "0 < cursor_x d" for v
    using fb_put_outside [OF down [OF that] xy(2), of "d\<lparr>cursor_x := cursor_x d - 1\<rparr>"] by simp
  show ?thesis using fb_put_outside [OF xy] erase by (simp add: disp_char_def Let_def)
qed

lemma disp_scroll_cursor:
  "unat (cursor_x d) < 80 \<Longrightarrow> unat (cursor_y d) \<le> 25 \<Longrightarrow> on_screen (disp_scroll d)"
  by (auto simp: on_screen_def disp_scroll_def disp_height_def Let_def word_le_nat_alt not_le)

text \<open>
  Property C39 (bounds): printing any character keeps the cursor on the screen and changes no
  byte of memory outside the 4000 bytes of the frame buffer.
\<close>

theorem disp_putc_stays_on_screen:
  assumes "on_screen d"
  shows "on_screen (disp_putc c d) \<and> same_outside (fb_mem d) (fb_mem (disp_putc c d))"
proof -
  define e where "e = disp_char c d"
  define f where "f = (if cursor_x e \<ge> disp_width then e\<lparr>cursor_x := 0, cursor_y := cursor_y e + 1\<rparr> else e)"
  note e = disp_char_cursor [OF assms, of c, folded e_def]
  have f: "unat (cursor_x f) < 80" "unat (cursor_y f) \<le> 25" "fb_mem f = fb_mem e"
    using e by (auto simp: f_def disp_width_def word_le_nat_alt unat_inc_u8)
  have p: "disp_putc c d = disp_scroll (move_cursor f)" by (simp add: disp_putc_def e_def f_def Let_def)
  have "on_screen (disp_putc c d)"
    unfolding p by (rule disp_scroll_cursor) (use f in \<open>simp_all add: move_cursor_def Let_def\<close>)
  moreover have "same_outside (fb_mem d) (fb_mem (disp_putc c d))"
    using disp_char_outside [OF assms, of c] disp_scroll_outside [of "move_cursor f"] f(3)
      same_outside_trans [of "fb_mem d" "fb_mem e"]
    by (simp add: p move_cursor_def Let_def e_def)
  ultimately show ?thesis ..
qed

text \<open>The theorem at the last column of the last row, where printing wraps and scrolls.\<close>

theorem disp_putc_stays_on_screen_witness:
  "let d = \<lparr>fb_mem = \<lambda>_. 0x20, cursor_x = 79, cursor_y = 24, disp_attr = 7, disp_io = []\<rparr>
   in on_screen d \<and> on_screen (disp_putc 0x41 d) \<and> cursor_x (disp_putc 0x41 d) = 0 \<and> cursor_y (disp_putc 0x41 d) = 24
     \<and> fb_mem (disp_putc 0x41 d) 0xB8FA0 = 0x20"
proof -
  define d where "d = \<lparr>fb_mem = \<lambda>_. 0x20, cursor_x = 79, cursor_y = 24, disp_attr = 7, disp_io = []\<rparr>"
  have o: "on_screen d" by (simp add: d_def on_screen_def)
  note t = disp_putc_stays_on_screen [OF o, of "0x41"]
  have "cursor_x (disp_putc 0x41 d) = 0 \<and> cursor_y (disp_putc 0x41 d) = 24"
    by (simp add: d_def disp_putc_def disp_char_def disp_scroll_def move_cursor_def Let_def disp_width_def disp_height_def)
  moreover have "fb_mem (disp_putc 0x41 d) 0xB8FA0 = 0x20"
    using t by (simp add: same_outside_def d_def)
  ultimately show ?thesis using o t by (simp add: d_def Let_def)
qed

section \<open>Scrolling\<close>

text \<open>
  The copy of \<^const>\<open>disp_scroll\<close> goes upwards in memory, from the first half row over the
  second, and on over what it has just written: every half row becomes the first one, and
  the half rows 24 and 25 are cleared instead of the last row.
\<close>

lemma copy_bytes_snoc:
  "copy_bytes (Suc n) d s m =
     (let m' = copy_bytes n d s m in m'(d + word_of_nat n := m' (s + word_of_nat n)))"
proof (induction n arbitrary: d s m)
  case (Suc n)
  have "copy_bytes (Suc (Suc n)) d s m = copy_bytes (Suc n) (d + 1) (s + 1) (m(d := m s))" by (rule copy_bytes.simps)
  also note Suc
  finally show ?case by (simp add: Let_def add.assoc fun_upd_def)
qed simp

lemma copy_bytes_smears:
  assumes "k + n \<le> 2 ^ 32" "0 < k" "j < k + n"
  shows "copy_bytes n (s + word_of_nat k) s m (s + word_of_nat j) = m (s + word_of_nat (j mod k))"
  using assms(1,3)
proof (induction n arbitrary: j)
  case (Suc n)
  have "s + word_of_nat j \<noteq> s + word_of_nat k + word_of_nat n" if "j < k + n"
  proof
    assume "s + word_of_nat j = s + word_of_nat k + word_of_nat n"
    then have "word_of_nat j = (word_of_nat (k + n) :: u32)" by (simp add: add.assoc)
    then show False using that Suc.prems(1) by (simp add: word_of_nat_eq_iff take_bit_eq_mod del: of_nat_add)
  qed
  moreover have "copy_bytes n (s + word_of_nat k) s m (s + word_of_nat n) = m (s + word_of_nat (n mod k))"
    using Suc.IH [of n] Suc.prems assms(2) by simp
  moreover have "s + word_of_nat (k + n) = s + word_of_nat k + (word_of_nat n :: u32)" by (simp add: add.assoc)
  ultimately show ?case
    using Suc.IH [of j] Suc.prems
    by (cases "j = k + n") (auto simp: copy_bytes_snoc Let_def simp del: copy_bytes.simps)
qed (simp add: assms)

lemma fill_bytes_other:
  "unat dst + n \<le> 2 ^ 32 \<Longrightarrow> unat a < unat dst \<or> unat dst + n \<le> unat a \<Longrightarrow> fill_bytes n dst v m a = m a"
proof (induction n arbitrary: dst m)
  case (Suc n)
  show ?case
  proof (cases "n = 0")
    case False
    then have "unat (dst + 1) = unat dst + 1" using Suc.prems by (subst unat_add_u32) simp_all
    then show ?thesis using Suc by auto
  qed (use Suc.prems in auto)
qed simp

theorem disp_scroll_smears:
  assumes "25 \<le> unat (cursor_y d)" "j < 3920" "\<not> (1920 \<le> j \<and> j < 2080)"
  shows "fb_mem (disp_scroll d) (0xB8000 + word_of_nat j) = fb_mem d (0xB8000 + word_of_nat (j mod 80))"
proof -
  have a: "unat (0xB8000 + word_of_nat j :: u32) = 0xB8000 + j"
    using assms(2) by (subst unat_add_u32) (simp_all add: unat_of_nat_u32 del: unsigned_of_nat)
  have keep: "fill_bytes 160 0xB8780 0 m (0xB8000 + word_of_nat j) = m (0xB8000 + word_of_nat j)" for m
    by (rule fill_bytes_other) (use a assms in auto)
  have "fb_mem (disp_scroll d) (0xB8000 + word_of_nat j)
      = copy_bytes 3840 0xB8050 0xB8000 (fb_mem d) (0xB8000 + word_of_nat j)"
    using assms a by (simp add: disp_scroll_def disp_height_def disp_width_def framebuffer_def word_le_nat_alt memcpy_def memset_def keep)
  also have "\<dots> = fb_mem d (0xB8000 + word_of_nat (j mod 80))"
    using copy_bytes_smears [of 80 3840 j "0xB8000" "fb_mem d"] assms(2) by simp
  finally show ?thesis .
qed

end
