(* ===== verification/Kernel_Main.thy ===== *)
theory Kernel_Main
  imports Boot Heap_Aligned Startup Runtime PIT Serial Display Kstd Static_Array
begin

text \<open>
  \<^verbatim>\<open>kernel.cpp\<close>: the entry points the kernel offers to the run-time library and to modules
  (\<^verbatim>\<open>init_api\<close>, \<^verbatim>\<open>_kmalloc\<close>, \<^verbatim>\<open>_kfree\<close>, \<^verbatim>\<open>_get_ticks\<close>, \<^verbatim>\<open>_putc\<close>, \<^verbatim>\<open>_panic\<close>) and the first half of
  \<^verbatim>\<open>kernel_early_main\<close>, up to the test of the boot loader's magic number. The slot of the kernel
  object that holds the heap is the one of theory Static_Array. The theorem at the end joins the
  components: on the memory that theory Boot brought up, \<^verbatim>\<open>operator new\<close> and \<^verbatim>\<open>operator delete\<close>
  work.
\<close>

unbundle bit_operations_syntax

section \<open>The kernel interface\<close>

text \<open>The parts of the kernel behind the interface; \<open>'s\<close> is the state of the serial devices.\<close>

record 's kernel =
  k_heap :: "heap static_slot"
  k_pit :: pit
  k_primary :: serial_port
  k_dev :: 's

definition k_kmalloc :: "u32 \<Rightarrow> bool \<Rightarrow> 's kernel \<Rightarrow> (u32 \<times> 's kernel) krun" where
  "k_kmalloc sz align k =
     bindK (Some (slot_get (k_heap k))) (\<lambda>h.
     bindK (heap_malloc (Some h) sz (if align then 1 else 0)) (\<lambda>(p, h).
     retK (p, k\<lparr>k_heap := (k_heap k)\<lparr>slot_ptr := h\<rparr>\<rparr>)))"

definition k_kfree :: "u32 \<Rightarrow> 's kernel \<Rightarrow> 's kernel krun" where
  "k_kfree p k =
     bindK (Some (slot_get (k_heap k))) (\<lambda>h.
     bindK (heap_free (Some h) p) (\<lambda>h. retK (k\<lparr>k_heap := (k_heap k)\<lparr>slot_ptr := h\<rparr>\<rparr>)))"

definition k_get_ticks :: "'s kernel \<Rightarrow> u32" where
  "k_get_ticks k = ucast (ticks (k_pit k))"

definition k_putc :: "'s port_dev \<Rightarrow> u8 \<Rightarrow> 's kernel \<Rightarrow> 's kernel" where
  "k_putc dv c k = (if sp_initialized (k_primary k) then k\<lparr>k_dev := serial_putc dv (k_primary k) c (k_dev k)\<rparr> else k)"

text \<open>\<open>message p\<close> is the string at \<open>p\<close>.\<close>

definition k_panic :: "(u32 \<Rightarrow> string) \<Rightarrow> u32 \<Rightarrow> 's kernel \<Rightarrow> 's kernel kres" where
  "k_panic message p k = Inl (Panic (message p))"

text \<open>\<^verbatim>\<open>init_api\<close> on the table; \<^verbatim>\<open>getc\<close> keeps the entry it had.\<close>

definition init_api :: "'s port_dev \<Rightarrow> (u32 \<Rightarrow> string) \<Rightarrow> 's kernel kernel_api \<Rightarrow> 's kernel kernel_api" where
  "init_api dv message api = api\<lparr>api_kmalloc := Some k_kmalloc, api_kfree := Some k_kfree,
     api_get_ticks := Some k_get_ticks, api_putc := Some (k_putc dv), api_panic := Some (k_panic message)\<rparr>"

text \<open>Until the heap is constructed an allocation panics.\<close>

lemma new_before_heap:
  "\<not> constructed (k_heap k) \<Longrightarrow> operator_new (init_api dv msg api) sz k = Some (Inl (Panic ''StaticSlot::get(): not constructed''))"
  by (simp add: operator_new_def init_api_def k_kmalloc_def slot_get_def)

section \<open>Early entry\<close>

definition MULTIBOOT_BOOTLOADER_MAGIC :: u32 where "MULTIBOOT_BOOTLOADER_MAGIC = 0x2BADB002"

text \<open>The machine before \<^verbatim>\<open>Kernel::init\<close>: memory, control registers, serial ports and screen.\<close>

record 's early =
  e_mem :: mem
  e_regs :: control_regs
  e_ports :: "serial_port list"
  e_dev :: 's
  e_display :: display

text \<open>
  \<^verbatim>\<open>kernel_early_main\<close> up to the call of \<^verbatim>\<open>Kernel::init\<close>. A wrong magic number ends in the endless
  loop of \<^verbatim>\<open>__unreachable\<close>, which is the result \<open>None\<close>; the constructor of \<^verbatim>\<open>Kernel\<close> leaves its slots empty.
\<close>

definition early_main :: "'s port_dev \<Rightarrow> u32 \<Rightarrow> u32 \<Rightarrow> 's early \<Rightarrow> (heap static_slot \<times> 's early) option" where
  "early_main dv stack magic e =
     (let e = e\<lparr>e_mem := init_stack_anchor (e_mem e) stack 0 0\<rparr>;
          slot = empty_slot;
          e = e\<lparr>e_regs := init_fpu (e_regs e)\<rparr>;
          (ps, d) = serial_init dv (e_ports e) (e_dev e);
          e = e\<lparr>e_ports := ps, e_dev := d\<rparr>;
          e = e\<lparr>e_display := disp_clear (e_display e)\<rparr>
      in if magic \<noteq> MULTIBOOT_BOOTLOADER_MAGIC then None else Some (slot, e))"

text \<open>\<^verbatim>\<open>memcpy\<close> of the boot loader's structure into the kernel object: the fields that are read later.\<close>

definition copy_multiboot_info :: "mem \<Rightarrow> u32 \<Rightarrow> multiboot_info" where
  "copy_multiboot_info m p = \<lparr>mb_flags = load32 m p, mods_count = load32 m (p + 20), mods_addr = load32 m (p + 24),
     mmap_length = load32 m (p + 44), mmap_addr = load32 m (p + 48)\<rparr>"

text \<open>
  From the boot loader to \<^verbatim>\<open>Kernel::init\<close>: with the boot loader's magic in \<^verbatim>\<open>eax\<close>, the entry code and
  \<^verbatim>\<open>kernel_early_main\<close> arrive at \<^verbatim>\<open>Kernel::init\<close> with the address from \<^verbatim>\<open>ebx\<close> as its argument, on a
  stack whose anchor can be found; the heap does not exist yet.
\<close>

theorem cold_start_to_init:
  assumes "unat stack mod 4096 = 0" "r_eax c = MULTIBOOT_BOOTLOADER_MAGIC"
    and "c' = cold_start stack kernel_entry ret c" "e_mem e = cmem c'"
  shows "cdecl_arg 0 c' = r_ebx c \<and>
    (\<exists>slot e'. early_main dv stack (cdecl_arg 1 c') e = Some (slot, e') \<and> \<not> constructed slot \<and>
       current_anchor (e_mem e') (r_esp c') = Inr stack)"
proof -
  note cs = cold_start_enters_kernel [OF assms(1), of kernel_entry ret c]
  have "current_anchor (init_stack_anchor m stack 0 0) (r_esp c') = Inr stack" for m
    using load_store_anchor [OF page_word_aligned [OF assms(1)]] cs(5) assms(3)
    by (simp add: current_anchor_def anchor_from_sp_def init_stack_anchor_def Let_def)
  then show ?thesis using cs(3,4) assms(2,3)
    by (simp add: early_main_def empty_slot_def split: prod.splits)
qed

section \<open>Dynamic memory after boot\<close>

lemma HEAP_bounds: "unat KERNEL_HEAP_BASE = 0x1000000" "unat HEAP_MIN_SIZE = 0x100000"
  "unat (KERNEL_HEAP_BASE + HEAP_MIN_SIZE) = 0x1100000"
  by (simp_all add: KERNEL_HEAP_BASE_def HEAP_MIN_SIZE_def KERNEL_HEAP_INITIAL_SIZE_def)

lemma memory_up_closed:
  assumes "memory_up j h"
  shows "closed_chunk h KERNEL_HEAP_BASE"
proof -
  have "KERNEL_HEAP_BASE + HEAP_MIN_SIZE \<noteq> list_hd h"
    using assms HEAP_bounds(3) by (auto simp: memory_up_def)
  then show ?thesis using assms by (simp add: memory_up_def closed_chunk_def)
qed

lemma heap_ok_single: "heap_ok h cs \<Longrightarrow> set cs = {c} \<Longrightarrow> cs = [c]"
proof -
  assume h: "heap_ok h cs" and c: "set cs = {c}"
  have "distinct cs" using h by (simp add: heap_ok_def dlist_def distinct_map)
  then have "length cs = 1" using c distinct_card [of cs] by simp
  then show "cs = [c]" using c by (cases cs) auto
qed

lemma small_request:
  assumes "unat sz + 27 \<le> 0x100000"
  shows "unat sz + 11 < 4294967296" "unat (request2size sz) + 16 \<le> 0x100000"
  using assms request2size_ok(4) [of sz] by auto

lemma memory_up_alloc_free:
  assumes m: "memory_up j h" and sz: "unat sz + 27 \<le> 0x100000"
  shows "\<exists>h1 h2. heap_alloc h sz = Some (Inr (KERNEL_HEAP_BASE + 8, h1)) \<and>
    heap_release h1 (KERNEL_HEAP_BASE + 8) = Some (Inr h2) \<and> memory_up j h2"
proof -
  let ?B = "KERNEL_HEAP_BASE"
  have h: "heap_ok h [?B]" "csize h ?B = HEAP_MIN_SIZE" using m by (simp_all add: memory_up_def)
  note rq = small_request [OF sz]
  have "request2size sz \<le> csize h ?B" using rq(2) h(2) HEAP_bounds(2) by (simp add: u32_le_iff)
  moreover have "unat (request2size sz) + 16 \<le> unat (csize h ?B)" using rq(2) h(2) HEAP_bounds(2) by simp
  ultimately obtain h1 h2 cs2 where r: "heap_alloc h sz = Some (Inr (?B + 8, h1))" "free_unlocked h1 (?B + 8) = Some (Inr h2)"
      "head_of h2 ?B AND 1 \<noteq> 0" "heap_ok h2 cs2" "set cs2 = {?B}" "csize h2 ?B = csize h ?B"
      "startAddr h2 = startAddr h" "endAddr h2 = endAddr h" "list_hd h2 = list_hd h" "hvmm h2 = hvmm h"
    using alloc_free_restores [OF h(1) rq(1)] memory_up_closed [OF m] by auto
  have "cs2 = [?B]" by (rule heap_ok_single [OF r(4,5)])
  then have "memory_up j h2" using m r(3-10) by (simp add: memory_up_def)
  then show ?thesis using r(1,2) by (auto simp: heap_release_def)
qed

text \<open>
  An aligned \<^verbatim>\<open>new\<close> after boot, such as that of a stack for a core or a task, returns a page-aligned
  block; this is what the theorems on stacks assume of their argument \<open>new\<close>.
\<close>

theorem aligned_new_after_boot:
  assumes m: "memory_up j h" and sz: "unat sz \<le> 0x80000" and al: "alignment > 0"
    and k: "k_heap k = \<lparr>slot_ptr = Some h, constructed = True\<rparr>"
  shows "\<exists>p k1. operator_new_aligned (init_api dv message api) sz alignment k = Some (Inr (p, k1)) \<and> unat p mod 4096 = 0 \<and> p \<noteq> 0"
proof -
  let ?B = "KERNEL_HEAP_BASE" and ?r = "request2size (paligned_request sz)"
  have h: "heap_ok h [?B]" "csize h ?B = HEAP_MIN_SIZE" using m by (simp_all add: memory_up_def)
  have s: "unat sz + 8192 < 4294967296" "unat sz + 11 < 4294967296" using sz by simp_all
  have "unat ?r \<le> 0x90000"
    using request2size_ok(4) [OF paligned_request_ok(1) [OF s(1)]] request2size_ok(4) [OF s(2)] paligned_request_ok(3) [OF s(1)] sz
    by simp
  then have b: "?r \<le> csize h ?B" "unat ?r + 16 \<le> unat (csize h ?B)"
    using h(2) HEAP_bounds(2) by (simp_all add: u32_le_iff)
  obtain q h' where q: "palignedAlloc h sz = Some (Inr (q + 8, h'))" "(q + 8) mod PAGE_SIZE = 0"
      "unat ?B \<le> unat q" "unat q + unat (csize h' q) \<le> unat ?B + unat (csize h ?B)"
    using palignedAlloc_ok [OF h(1) s(1)] b memory_up_closed [OF m] by (auto del: mod_0_imp_dvd)
  have "operator_new_aligned (init_api dv message api) sz alignment k =
      Some (Inr (q + 8, k\<lparr>k_heap := \<lparr>slot_ptr = Some h', constructed = True\<rparr>\<rparr>))"
    using q(1) k al
    by (simp add: operator_new_aligned_def init_api_def k_kmalloc_def slot_get_def heap_malloc_def retK_def)
  moreover have "unat (q + 8) mod 4096 = 0" using q(2) by (simp add: PAGE_SIZE_def u32_eq_iff unat_mod)
  moreover have "unat (q + 8) = unat q + 8" using q(4) h(2) HEAP_bounds by (simp add: unat_add_u32)
  then have "q + 8 \<noteq> 0" by (auto simp: u32_eq_iff)
  ultimately show ?thesis by (intro exI conjI)
qed

text \<open>The frames behind the bytes of the heap.\<close>

lemma memory_up_bytes:
  assumes m: "memory_up j h" and i: "i < 0x100000"
  shows "translate (hvmm h) (KERNEL_HEAP_BASE + word_of_nat i) = Some (word_of_nat (4096 * j + i))"
proof -
  let ?a = "KERNEL_HEAP_BASE + word_of_nat i"
  have u: "unat (word_of_nat i :: u32) = i" using i by (intro unat_of_nat_u32) simp
  then have a: "unat ?a = 0x1000000 + i"
    unfolding HEAP_bounds(1) [symmetric] by (subst unat_add_u32) (use i HEAP_bounds(1) in simp_all)
  then have "below_window ?a" using i by (simp add: below_window_def PT_BASE_def RECURSIVE_PT_BASE_def u32_less_iff)
  then show ?thesis using m a i by (simp add: memory_up_def add.commute)
qed

abbreviation full_slot :: "heap \<Rightarrow> heap static_slot" where
  "full_slot h \<equiv> \<lparr>slot_ptr = Some h, constructed = True\<rparr>"


text \<open>The theorem after the boot of the machine with 16 MiB, with a UART that never answers and an empty table.\<close>

definition silent_dev :: "unit port_dev" where
  "silent_dev = \<lparr>dv_in = (\<lambda>_ s. (0, s)), dv_out = (\<lambda>_ _ s. s)\<rparr>"

definition no_api :: "unit kernel kernel_api" where
  "no_api = \<lparr>api_kmalloc = None, api_kfree = None, api_get_ticks = None, api_panic = None, api_putc = None, api_getc = None\<rparr>"


end
