(* ===== verification/Kernel_Init.thy ===== *)
theory Kernel_Init
  imports Kernel_Main GDT
begin

text \<open>
  \<^verbatim>\<open>Kernel::init\<close> of \<^verbatim>\<open>kernel.cpp\<close> from its start to the construction of the heap, and the destructor of
  \<^verbatim>\<open>Kernel\<close>. The interrupt controllers, the timer, the segment table and the gates are set up first,
  because a fault or an interrupt before that point stops the machine; then memory comes up as in
  theory Boot.
\<close>

unbundle bit_operations_syntax

section \<open>The start of Kernel::init\<close>

record ('s, 'f) init_world =
  iw_io :: "io_out list"
  iw_pit :: pit
  iw_seg :: seg_regs
  iw_gates :: "idt_entry list"
  iw_idt :: "(pit \<times> 's, 'f) idt"

text \<open>\<open>a1\<close> and \<open>a2\<close> are the masks the two controllers return; \<open>addr\<close> gives the addresses of the wrappers.\<close>

definition init_tables :: "u8 \<Rightarrow> u8 \<Rightarrow> 's timer_call \<Rightarrow> (isr_entry \<Rightarrow> u32) \<Rightarrow> u32 \<Rightarrow> u32 \<Rightarrow> ('s, 'f) init_world \<Rightarrow> ('s, 'f) init_world kres" where
  "init_tables a1 a2 call addr gdt_addr tss_addr w =
     (let w = w\<lparr>iw_io := iw_io w @ pic_remap a1 a2 0x20 0x28\<rparr> in
      bindR (pit_init call (iw_pit w) (iw_idt w) (ucast (calculate_pit_divisor_us 1000))) (\<lambda>(p, io, t).
      let w = w\<lparr>iw_pit := p, iw_io := iw_io w @ io, iw_idt := t\<rparr>;
          w = w\<lparr>iw_seg := gdt_init_bsp gdt_addr tss_addr (iw_seg w)\<rparr>;
          w = w\<lparr>iw_gates := idt_init addr (iw_gates w)\<rparr>
      in Inr w))"

definition kernel_init_core ::
  "u8 \<Rightarrow> u8 \<Rightarrow> 's timer_call \<Rightarrow> (isr_entry \<Rightarrow> u32) \<Rightarrow> u32 \<Rightarrow> u32 \<Rightarrow> u32 \<Rightarrow> u32 \<Rightarrow>
   (u32 \<Rightarrow> u32 \<Rightarrow> (pit \<times> 's, 'f) isr_env \<Rightarrow> (pit \<times> 's, 'f) isr_env kres) \<Rightarrow> (u32 \<Rightarrow> u32 \<Rightarrow> (pit \<times> 's, 'f) isr_env \<Rightarrow> (pit \<times> 's, 'f) isr_env kres) \<Rightarrow>
   u32 \<Rightarrow> ('s, 'f) init_world \<times> vmm \<times> acpi \<times> heap \<times> heap static_slot \<Rightarrow> (('s, 'f) init_world \<times> acpi \<times> heap static_slot) krun" where
  "kernel_init_core a1 a2 call addr gdt_addr tss_addr kernel_start kernel_end page_fault_handler tlb_handler mboot x =
     (let (w, v, a, h, slot) = x; info = copy_multiboot_info (phys v) mboot in
      bindK (Some (init_tables a1 a2 call addr gdt_addr tss_addr w)) (\<lambda>w.
      bindK (init_memory kernel_start kernel_end info page_fault_handler tlb_handler (v, iw_idt w, a, h)) (\<lambda>(t, a, h).
      bindK (Some (slot_construct slot h)) (\<lambda>slot.
      retK (w\<lparr>iw_idt := t\<rparr>, a, slot)))))"

section \<open>The destructor of Kernel\<close>

text \<open>
  The six objects of the kernel. Their destructors are those of the component theories and work on
  the state \<open>'s\<close> of the machine; \<open>fini\<close> stands for the \<^verbatim>\<open>.fini_array\<close> the linker builds.
\<close>

record ('h, 'l, 'm, 'a, 's, 'c) kernel_object =
  ko_heap :: "'h static_slot"
  ko_linker :: "'l static_slot"
  ko_mmanager :: "'m static_slot"
  ko_apic :: "'a static_slot"
  ko_sched :: "'s static_slot"
  ko_cmanager :: "'c static_slot"

definition try_destruct_with :: "('a \<Rightarrow> 'w \<Rightarrow> 'w kres) \<Rightarrow> 'a static_slot \<Rightarrow> 'w \<Rightarrow> ('a static_slot \<times> 'w) kres" where
  "try_destruct_with d s w =
     bindR (slot_try_destruct s) (\<lambda>(_, old, s').
       case old of None \<Rightarrow> Inr (s', w) | Some x \<Rightarrow> bindR (d x w) (\<lambda>w. Inr (s', w)))"

record ('h, 'l, 'm, 'a, 's, 'c, 'w) destructors =
  d_heap :: "'h \<Rightarrow> 'w \<Rightarrow> 'w kres"
  d_linker :: "'l \<Rightarrow> 'w \<Rightarrow> 'w kres"
  d_mmanager :: "'m \<Rightarrow> 'w \<Rightarrow> 'w kres"
  d_apic :: "'a \<Rightarrow> 'w \<Rightarrow> 'w kres"
  d_sched :: "'s \<Rightarrow> 'w \<Rightarrow> 'w kres"
  d_cmanager :: "'c \<Rightarrow> 'w \<Rightarrow> 'w kres"

definition kernel_destroy ::
  "'w destructor_call \<Rightarrow> ('w \<Rightarrow> 'w kres) \<Rightarrow> ('w \<Rightarrow> 'w) \<Rightarrow> ('h, 'l, 'm, 'a, 's, 'c, 'w) destructors \<Rightarrow>
   ('h, 'l, 'm, 'a, 's, 'c) kernel_object \<Rightarrow> atexit \<times> 'w \<Rightarrow> (('h, 'l, 'm, 'a, 's, 'c) kernel_object \<times> atexit \<times> 'w) kres" where
  "kernel_destroy call fini cli d k x =
     (let (t, w) = x; w = cli w in
      bindR (cxa_finalize call 0 (t, w)) (\<lambda>(t, w).
      bindR (fini w) (\<lambda>w.
      bindR (try_destruct_with (d_sched d) (ko_sched k) w) (\<lambda>(sl_sched, w).
      bindR (try_destruct_with (d_cmanager d) (ko_cmanager k) w) (\<lambda>(sl_cmanager, w).
      bindR (try_destruct_with (d_apic d) (ko_apic k) w) (\<lambda>(sl_apic, w).
      bindR (try_destruct_with (d_mmanager d) (ko_mmanager k) w) (\<lambda>(sl_mmanager, w).
      bindR (try_destruct_with (d_linker d) (ko_linker k) w) (\<lambda>(sl_linker, w).
      bindR (try_destruct_with (d_heap d) (ko_heap k) w) (\<lambda>(sl_heap, w).
      Inr (\<lparr>ko_heap = sl_heap, ko_linker = sl_linker, ko_mmanager = sl_mmanager, ko_apic = sl_apic, ko_sched = sl_sched,
        ko_cmanager = sl_cmanager\<rparr>, t, w))))))))))"

lemma try_destruct_with_wf:
  "slot_wf s \<Longrightarrow> try_destruct_with d s w =
     (case ptr_if_constructed s of None \<Rightarrow> Inr (empty_slot, w) | Some x \<Rightarrow> bindR (d x w) (\<lambda>w. Inr (empty_slot, w)))"
  by (cases s) (auto simp: try_destruct_with_def slot_try_destruct_def slot_wf_def ptr_if_constructed_def empty_slot_def split: option.splits)

text \<open>
  The destructor of an object that may never have been made: what the sequence of the six
  destructors comes to on the machine's state.
\<close>

definition destroy_held :: "('a \<Rightarrow> 'w \<Rightarrow> 'w kres) \<Rightarrow> 'a static_slot \<Rightarrow> 'w \<Rightarrow> 'w kres" where
  "destroy_held d s w = (case ptr_if_constructed s of None \<Rightarrow> Inr w | Some x \<Rightarrow> d x w)"

lemma try_destruct_with_held: "slot_wf s \<Longrightarrow> try_destruct_with d s w = bindR (destroy_held d s w) (\<lambda>w. Inr (empty_slot, w))"
  by (simp add: try_destruct_with_wf destroy_held_def split: option.splits)

lemma kernel_destroy_order:
  assumes "slot_wf (ko_heap k)" "slot_wf (ko_linker k)" "slot_wf (ko_mmanager k)" "slot_wf (ko_apic k)" "slot_wf (ko_sched k)" "slot_wf (ko_cmanager k)"
  shows "kernel_destroy call fini cli d k (t, w) =
    bindR (cxa_finalize call 0 (t, cli w)) (\<lambda>(t, w).
    bindR (bindR (fini w) (\<lambda>w. bindR (destroy_held (d_sched d) (ko_sched k) w) (\<lambda>w. bindR (destroy_held (d_cmanager d) (ko_cmanager k) w)
      (\<lambda>w. bindR (destroy_held (d_apic d) (ko_apic k) w) (\<lambda>w. bindR (destroy_held (d_mmanager d) (ko_mmanager k) w)
      (\<lambda>w. bindR (destroy_held (d_linker d) (ko_linker k) w) (destroy_held (d_heap d) (ko_heap k)))))))) (\<lambda>w.
    Inr (\<lparr>ko_heap = empty_slot, ko_linker = empty_slot, ko_mmanager = empty_slot, ko_apic = empty_slot, ko_sched = empty_slot,
      ko_cmanager = empty_slot\<rparr>, t, w)))"
  by (simp add: kernel_destroy_def Let_def assms try_destruct_with_held bindR_assoc)

section \<open>What the interrupt controllers make of the writes\<close>

text \<open>
  The initialisation sequence of the 8259A: a command with bit 4 set starts it; the next words
  to the data port are the first vector, the cascade and, when bit 0 of the command was set, the
  mode; after that a word to the data port is the interrupt mask.
\<close>

datatype chip_phase = Operating | Wants_ICW2 | Wants_ICW3 | Wants_ICW4

record pic_chip =
  chip_phase :: chip_phase
  chip_icw4 :: bool
  chip_vector :: u8
  chip_cascade :: u8
  chip_mask :: u8

definition chip_command :: "u8 \<Rightarrow> pic_chip \<Rightarrow> pic_chip" where
  "chip_command x c = (if bit x 4 then c\<lparr>chip_phase := Wants_ICW2, chip_icw4 := bit x 0, chip_mask := 0\<rparr> else c)"

definition chip_data :: "u8 \<Rightarrow> pic_chip \<Rightarrow> pic_chip" where
  "chip_data x c =
     (case chip_phase c of
        Operating \<Rightarrow> c\<lparr>chip_mask := x\<rparr>
      | Wants_ICW2 \<Rightarrow> c\<lparr>chip_vector := x, chip_phase := Wants_ICW3\<rparr>
      | Wants_ICW3 \<Rightarrow> c\<lparr>chip_cascade := x, chip_phase := if chip_icw4 c then Wants_ICW4 else Operating\<rparr>
      | Wants_ICW4 \<Rightarrow> c\<lparr>chip_phase := Operating\<rparr>)"

fun chips_out :: "io_out \<Rightarrow> pic_chip \<times> pic_chip \<Rightarrow> pic_chip \<times> pic_chip" where
  "chips_out (Outb port x) (c1, c2) =
     (if port = PIC1_COMMAND then (chip_command x c1, c2)
      else if port = PIC1_DATA then (chip_data x c1, c2)
      else if port = PIC2_COMMAND then (c1, chip_command x c2)
      else if port = PIC2_DATA then (c1, chip_data x c2)
      else (c1, c2))"
| "chips_out out cs = cs"

lemmas pic_ports = PIC1_COMMAND_def PIC1_DATA_def PIC2_COMMAND_def PIC2_DATA_def

lemma remap_chips:
  "\<exists>c1' c2'. fold chips_out (pic_remap a1 a2 o1 o2) (c1, c2) = (c1', c2') \<and>
     chip_phase c1' = Operating \<and> chip_vector c1' = o1 \<and> chip_cascade c1' = 4 \<and> chip_mask c1' = a1 \<and>
     chip_phase c2' = Operating \<and> chip_vector c2' = o2 \<and> chip_cascade c2' = 2 \<and> chip_mask c2' = a2"
  by (simp add: pic_remap_def io_wait_def pic_ports chip_command_def chip_data_def ICW1_INIT_def ICW1_ICW4_def ICW4_8086_def)

lemma disable_chips:
  "chip_phase c1 = Operating \<Longrightarrow> chip_phase c2 = Operating \<Longrightarrow>
   fold chips_out pic_disable (c1, c2) = (c1\<lparr>chip_mask := 0xFF\<rparr>, c2\<lparr>chip_mask := 0xFF\<rparr>)"
  by (simp add: pic_disable_def pic_ports chip_data_def)

section \<open>Ready for faults and interrupts\<close>

lemma tables_initialised:
  assumes "idt_tables_wf (iw_idt w)"
  shows "\<exists>w'. init_tables a1 a2 call addr gdt_addr tss_addr w = Inr w' \<and>
    iw_idt w' = (iw_idt w)\<lparr>irq_handlers := (irq_handlers (iw_idt w))[0 := Some (tick_irq call)]\<rparr> \<and>
    iw_seg w' = gdt_init_bsp gdt_addr tss_addr (iw_seg w) \<and> iw_gates w' = idt_init addr (iw_gates w) \<and>
    (\<exists>out. iw_io w' = iw_io w @ pic_remap a1 a2 0x20 0x28 @ out \<and> (\<forall>cs. fold chips_out out cs = cs)) \<and>
    handler_count (iw_pit w') = 0"
  by (simp add: init_tables_def pit_init_def register_irq_def Let_def PIT_COMMAND_def PIT_CHANNEL_0_def pic_ports)

text \<open>A gate the processor can use: present, an interrupt gate, to the wrapper of its vector in a flat ring-0 code segment.\<close>

definition usable_gate :: "(isr_entry \<Rightarrow> u32) \<Rightarrow> gdt_ptr \<Rightarrow> gdt_entry list \<Rightarrow> nat \<Rightarrow> idt_entry \<Rightarrow> bool" where
  "usable_gate addr ptr gdt n g \<longleftrightarrow> type_attr g = IDT_PRESENT OR IDT_INTERRUPT_GATE \<and>
     gate_offset g = addr (isr_entry_point (get_isr_wrapper n)) \<and>
     (case cpu_descriptor ptr gdt (selector g) of None \<Rightarrow> False | Some e \<Rightarrow> flat_segment e PRIV_KERNEL True)"

lemma gates_usable:
  assumes "length es = 256" "n < 256"
  shows "usable_gate addr (gdtr (gdt_init_bsp gdt_addr tss_addr r)) (bsp_gdt tss_addr) n (idt_init addr es ! n)"
proof -
  have g: "gate_offset (idt_init addr es ! n) = addr (isr_entry_point (get_isr_wrapper n))"
      "selector (idt_init addr es ! n) = 8" "type_attr (idt_init addr es ! n) = 0x8E"
    using idt_init_gates [OF assms] by (auto simp: get_isr_wrapper_def)
  have "\<exists>e. cpu_descriptor (gdtr (gdt_init_bsp gdt_addr tss_addr r)) (bsp_gdt tss_addr) 8 = Some e \<and> flat_segment e PRIV_KERNEL True"
    using gdt_init_flat [of gdt_addr tss_addr r] by (simp add: Let_def gdt_init_bsp_def gdt_flush_def gdt_selector_def)
  then show ?thesis using g by (auto simp: usable_gate_def IDT_PRESENT_def IDT_INTERRUPT_GATE_def)
qed


text \<open>The machine with 16 MiB, with the structure of the boot loader right after the memory map.\<close>

definition example_loader_mem :: mem where
  "example_loader_mem a = (let i = unat (a - 0x9000) in
     if i < 76 then [20, 0, 0, 0,  0, 0, 0x10, 0, 0, 0, 0, 0,  0, 0, 0, 1, 0, 0, 0, 0,  1, 0, 0, 0,
       0x40, 0, 0, 0,  0, 0, 0, 0,  0, 0, 0, 0,  0, 0, 0, 0,  0, 0, 0, 0,  0, 0, 0, 0,  0, 0, 0, 0,
       0, 0, 0, 0,  0, 0, 0, 0,  0, 0, 0, 0,  0, 0, 0, 0,  24, 0, 0, 0,  0, 0x90, 0, 0] ! i else 0)"

definition example_loader_vmm :: vmm where
  "example_loader_vmm = example_boot_vmm\<lparr>phys := example_loader_mem\<rparr>"

lemma example_loader_info: "copy_multiboot_info example_loader_mem 0x9018 = example_mboot"
  by code_simp

lemma example_loader:
  "mmap_visits example_loader_mem (mmap_addr example_mboot) (mmap_addr example_mboot + mmap_length example_mboot) [example_entry]"
  "module_list example_loader_mem example_mboot = []"
  "low_boot_reserved_end example_loader_mem example_mboot 0x180000 = Inr 0x180000"
  by code_simp+

lemma example_loader_reserved: "boot_reserved example_loader_mem example_mboot 0x100000 0x180000 0x180000 = {256..<384}"
  using example_boot_reserved by (simp add: boot_reserved_def example_loader(2) example_mboot_ok(4))

lemma no_rsdp_loader: "no_rsdp example_loader_mem"
  unfolding no_rsdp_def list_all_iff
proof
  fix k :: nat assume "k \<in> set [0..<0x8000]"
  then have "k < 0x8000" by (simp only: set_upt atLeastLessThan_iff)
  from scan_address [OF this, of 0] have u: "unat (ACPI_SCAN_BASE + word_of_nat k * 4) = 0xE0000 + k * 4" by simp
  have "unat (ACPI_SCAN_BASE + word_of_nat k * 4 - 0x9000) = 0xE0000 + k * 4 - 0x9000"
    by (subst unat_sub) (use u in \<open>simp_all add: u32_le_iff\<close>)
  then have "example_loader_mem (ACPI_SCAN_BASE + word_of_nat k * 4) = 0" by (simp add: example_loader_mem_def)
  then show "map (\<lambda>i. example_loader_mem (ACPI_SCAN_BASE + word_of_nat k * 4 + word_of_nat i)) [0..<4] \<noteq> lit ''RSD ''"
    by (simp add: lit_def upt_rec)
qed

lemma example_loader_bootable:
  "bootable 0x100000 0x180000 (copy_multiboot_info (phys example_loader_vmm) 0x9018) [example_entry] 0x180000 384 example_loader_vmm example_boot_heap"
  unfolding bootable_def
  using example_mboot_ok(1,3) example_loader no_rsdp_loader example_pmm_bm
  by (simp add: example_loader_info example_loader_vmm_def example_boot_vmm_def example_boot_heap_def example_loader_reserved example_entry_frames node_def)

definition example_init_world :: "(nat, nat) init_world" where
  "example_init_world = \<lparr>iw_io = [], iw_pit = example_pit,
     iw_seg = \<lparr>gdtr = \<lparr>gp_limit = 0x1F, gp_base = 0x800\<rparr>, reg_cs = 0x10, reg_ds = 0x18, reg_es = 0x18, reg_fs = 0x18, reg_gs = 0x18, reg_ss = 0x18\<rparr>,
     iw_gates = replicate 256 \<lparr>offset_low = 0, selector = 0, idt_zero = 0, type_attr = 0, offset_high = 0\<rparr>,
     iw_idt = \<lparr>isr_handlers = replicate 256 None, irq_handlers = replicate 16 None\<rparr>\<rparr>"


end
