(* ===== verification/Scheduler.thy ===== *)
theory Scheduler
  imports Static_Array PIT Core_Stack
begin

text \<open>
  \<^verbatim>\<open>sched/scheduler.hpp\<close> and \<^verbatim>\<open>sched/scheduler.cpp\<close>: the task table and the round-robin
  scheduler, which runs on the frame of the interrupt that called it. The lock makes each
  operation atomic. \<^verbatim>\<open>operator new\<close>, which goes through the pointer \<^verbatim>\<open>api.kmalloc\<close>, is the
  argument \<open>new\<close>; fields that a constructor leaves uninitialised are those of the frame \<open>junk\<close>.
\<close>

section \<open>Tasks\<close>

datatype task_state = READY | RUNNING | BLOCKED | TERMINATED

record task =
  task_id :: u32
  task_ctx :: interrupt_frame
  stack_ptr :: u32
  task_stack :: u32
  own_stack :: bool
  task_state :: task_state
  task_name :: string

text \<open>The addresses of functions and of the boot stack, which the linker fixes.\<close>

record image =
  crt_task_entry :: u32
  dummy_func :: u32
  boot_stack :: u32
  timer_tick_fn :: u32
  idle_fn :: u32

text \<open>\<^verbatim>\<open>sizeof(idt::InterruptFrame)\<close>: nineteen dwords.\<close>

definition frame_size :: u32 where "frame_size = 76"

definition init_ctx :: "interrupt_frame \<Rightarrow> interrupt_frame" where
  "init_ctx f = f\<lparr>f_ecx := 0, f_edx := 0, f_esi := 0, f_edi := 0, f_ebp := 0, f_esp := 0,
     f_ds := 0x10, f_es := 0x10, f_fs := 0x10, f_gs := 0x10, f_int_no := 0, f_err_code := 0,
     f_cs := 0x8, f_eflags := 0x202\<rparr>"

definition task_on_stack :: "interrupt_frame \<Rightarrow> u32 \<Rightarrow> string \<Rightarrow> u32 \<Rightarrow> task" where
  "task_on_stack junk i name st = \<lparr>task_id = i, task_ctx = init_ctx (junk\<lparr>f_eax := 0, f_ebx := 0\<rparr>),
     stack_ptr = initial_sp st, task_stack = st, own_stack = False, task_state = READY, task_name = name\<rparr>"

definition task_ctor ::
  "image \<Rightarrow> interrupt_frame \<Rightarrow> ('h \<Rightarrow> (u32 \<times> 'h) kres) \<Rightarrow> u32 \<Rightarrow> u32 \<Rightarrow> string \<Rightarrow> u32 option \<Rightarrow>
    mem \<times> 'h \<Rightarrow> (task \<times> mem \<times> 'h) kres" where
  "task_ctor img junk new sp i name stk w =
     (case stk of
        Some st \<Rightarrow> Inr (task_on_stack junk i name st, w)
      | None \<Rightarrow>
          bindR (new (snd w)) (\<lambda>(st, h).
          let m = copy_anchor_from (fst w) st (from_sp sp) in
          Inr (\<lparr>task_id = i,
            task_ctx = init_ctx (junk\<lparr>f_eip := crt_task_entry img, f_eax := dummy_func img, f_ebx := initial_sp st\<rparr>),
            stack_ptr = initial_sp st, task_stack = st, own_stack = True, task_state = READY, task_name = name\<rparr>, m, h)))"

text \<open>The destructor: the stack to hand to \<^verbatim>\<open>operator delete\<close>, if the task owns one.\<close>

definition task_dtor :: "task \<Rightarrow> u32 option" where
  "task_dtor t = (if stack_base (task_stack t) \<noteq> 0 \<and> own_stack t then Some (task_stack t) else None)"

section \<open>The scheduler\<close>

record scheduler =
  tasks :: "task static_array"
  current_task_index :: u32
  next_task_id :: u32
  sched_initialized :: bool
  time_slice_ms :: u32

definition create_task ::
  "image \<Rightarrow> interrupt_frame \<Rightarrow> ('h \<Rightarrow> (u32 \<times> 'h) kres) \<Rightarrow> u32 \<Rightarrow> string \<Rightarrow> u32 \<Rightarrow>
    scheduler \<times> mem \<times> 'h \<Rightarrow> (u32 \<times> scheduler \<times> mem \<times> 'h) kres" where
  "create_task img junk new sp name entry_point w =
     (let s = fst w in
      if find_free_slot (tasks s) \<ge> sa_capacity (tasks s) then Inl (Panic ''StaticArray full'')
      else bindR (task_ctor img junk new sp (next_task_id s) name None (snd w)) (\<lambda>(t, mh).
        bindR (sa_emplace (tasks s) t) (\<lambda>(i, ts).
        bindR (sa_put ts i (t\<lparr>task_ctx := (task_ctx t)\<lparr>f_eax := entry_point\<rparr>\<rparr>)) (\<lambda>ts.
        Inr (i, s\<lparr>tasks := ts, next_task_id := next_task_id s + 1\<rparr>, mh)))))"

text \<open>What \<^verbatim>\<open>schedule\<close> does with the task that the interrupt found running.\<close>

definition save_current :: "u32 \<Rightarrow> interrupt_frame \<Rightarrow> task \<Rightarrow> task" where
  "save_current ctx_addr ctx t =
     (if task_state t = RUNNING
      then t\<lparr>stack_ptr := ctx_addr + frame_size, task_ctx := ctx,
        task_state := (if f_eax ctx = 0xDEADDEAD \<and> f_ebp ctx = 0 then TERMINATED else READY)\<rparr>
      else t)"

text \<open>
  The search loop: whether it found a ready task, and the index where it stopped. The loop
  ends after as many turns as the table has slots, which is the fuel it gets.
\<close>

primrec sched_scan :: "nat \<Rightarrow> task static_array \<Rightarrow> u32 \<Rightarrow> u32 \<Rightarrow> (bool \<times> u32) option" where
  "sched_scan 0 ts start cur = None"
| "sched_scan (Suc n) ts start cur =
     (let i = (cur + 1) mod sa_capacity ts in
      case sa_ptr ts i of
        Some t \<Rightarrow> if task_state t = READY then Some (True, i)
          else if i \<noteq> start then sched_scan n ts start i else Some (False, i)
      | None \<Rightarrow> if i \<noteq> start then sched_scan n ts start i else Some (False, i))"

definition schedule ::
  "image \<Rightarrow> interrupt_frame \<Rightarrow> u32 \<Rightarrow> interrupt_frame \<Rightarrow> scheduler \<Rightarrow> (interrupt_frame \<times> scheduler) kres" where
  "schedule img junk ctx_addr ctx s =
     (if \<not> sched_initialized s \<or> sa_empty (tasks s) then Inr (ctx, s)
      else
        bindR
          (if live_count (tasks s) \<le> 1 then
             let task = task_on_stack junk (next_task_id s) ''kernel'' (boot_stack img) in
             bindR (sa_emplace (tasks s) task) (\<lambda>(i, ts).
             bindR (sa_put ts i (task\<lparr>task_ctx := ctx\<rparr>)) (\<lambda>ts.
             Inr (s\<lparr>tasks := ts, next_task_id := next_task_id s + 1, current_task_index := 1\<rparr>)))
           else if sa_occupied (tasks s) (current_task_index s) then
             bindR (sa_get (tasks s) (current_task_index s)) (\<lambda>t.
             bindR (sa_put (tasks s) (current_task_index s) (save_current ctx_addr ctx t)) (\<lambda>ts.
             Inr (s\<lparr>tasks := ts\<rparr>)))
           else Inr s)
          (\<lambda>s.
             case sched_scan (length (slots (tasks s))) (tasks s) (current_task_index s) (current_task_index s) of
               None \<Rightarrow> Inl Undefined
             | Some (found, i) \<Rightarrow>
                 let s = s\<lparr>current_task_index := i\<rparr> in
                 if found then
                   bindR (sa_get (tasks s) i) (\<lambda>next.
                   bindR (sa_put (tasks s) i (next\<lparr>task_state := RUNNING\<rparr>)) (\<lambda>ts.
                   Inr (task_ctx next, s\<lparr>tasks := ts\<rparr>)))
                 else if sa_occupied (tasks s) i then
                   bindR (sa_get (tasks s) i) (\<lambda>current.
                   bindR (sa_put (tasks s) i (current\<lparr>task_state := RUNNING\<rparr>)) (\<lambda>ts.
                   Inr (ctx, s\<lparr>tasks := ts\<rparr>)))
                 else Inr (ctx, s)))"

text \<open>The handler of vector 48; \<open>sched\<close> runs the scheduler of the current core on the state.\<close>

definition reschedule_isr ::
  "(u32 \<Rightarrow> 's \<Rightarrow> 's kres) \<Rightarrow> u32 \<Rightarrow> u32 \<Rightarrow> ('s, 'f) isr_env \<Rightarrow> ('s, 'f) isr_env kres" where
  "reschedule_isr sched err base_ctx env =
     (if isr_kind (isr_table ! 48) = ContextSwitch
      then bindR (sched (from_base base_ctx) (env_rest env)) (\<lambda>r. Inr (env\<lparr>env_rest := r\<rparr>))
      else Inr env)"

definition scheduler_ctor ::
  "image \<Rightarrow> interrupt_frame \<Rightarrow> ('h \<Rightarrow> (u32 \<times> 'h) kres) \<Rightarrow> (u32 \<Rightarrow> 's \<Rightarrow> 's kres) \<Rightarrow> u32 \<Rightarrow> u32 \<Rightarrow> u32 \<Rightarrow>
    pit \<times> ('s, 'f) idt \<times> mem \<times> 'h \<Rightarrow> (scheduler \<times> pit \<times> ('s, 'f) idt \<times> mem \<times> 'h) kres" where
  "scheduler_ctor img junk new sched sp this slc w =
     (let (p, t, mh) = w;
          s = \<lparr>tasks = sa_init 256, current_task_index = 0, next_task_id = 1, sched_initialized = False,
            time_slice_ms = slc\<rparr>;
          p = snd (register_handler p (timer_tick_fn img) this Interval (ucast (slc * 1000)));
          t = register_isr t 48 (reschedule_isr sched)
      in bindR (create_task img junk new sp ''idle'' (idle_fn img) (s, mh)) (\<lambda>(_, s, mh).
         Inr (s\<lparr>sched_initialized := True\<rparr>, p, t, mh)))"

definition scheduler_dtor ::
  "image \<Rightarrow> u32 \<Rightarrow> scheduler \<Rightarrow> pit \<times> ('s, 'f) idt \<Rightarrow> scheduler \<times> pit \<times> ('s, 'f) idt" where
  "scheduler_dtor img this s w =
     (s\<lparr>sched_initialized := False\<rparr>, snd (unregister_handler (fst w) (timer_tick_fn img) this),
      unregister_isr (snd w) 48)"

definition timer_tick ::
  "image \<Rightarrow> interrupt_frame \<Rightarrow> u32 \<Rightarrow> interrupt_frame \<Rightarrow> scheduler \<Rightarrow> (interrupt_frame \<times> scheduler) kres" where
  "timer_tick img junk ctx_addr ctx c = schedule img junk ctx_addr ctx c"

text \<open>The software interrupt that \<^verbatim>\<open>yield\<close> triggers.\<close>

definition sched_yield :: "scheduler \<Rightarrow> u8 option" where
  "sched_yield s = (if \<not> sched_initialized s then None else Some 48)"

definition current_task :: "scheduler \<Rightarrow> task kres" where
  "current_task s = sa_get (tasks s) (current_task_index s)"

section \<open>Round robin\<close>

abbreviation task_tab :: "scheduler \<Rightarrow> nat \<rightharpoonup> task" where
  "task_tab s \<equiv> sa_map (tasks s)"

definition in_state :: "(nat \<rightharpoonup> task) \<Rightarrow> task_state \<Rightarrow> nat \<Rightarrow> bool" where
  "in_state tab st i \<longleftrightarrow> (case tab i of None \<Rightarrow> False | Some t \<Rightarrow> task_state t = st)"

definition rr_order :: "nat \<Rightarrow> nat list" where
  "rr_order cur = map (\<lambda>j. (cur + 1 + j) mod 256) [0..<256]"

definition next_ready :: "(nat \<rightharpoonup> task) \<Rightarrow> nat \<Rightarrow> nat option" where
  "next_ready tab cur = find (in_state tab READY) (rr_order cur)"

definition sched_wf :: "scheduler \<Rightarrow> bool" where
  "sched_wf s \<longleftrightarrow> sa_wf (tasks s) \<and> length (slots (tasks s)) = 256 \<and> unat (current_task_index s) < 256 \<and>
     sched_initialized s \<and> 2 \<le> unat (live_count (tasks s))"

lemma next_index:
  assumes "sa_wf ts" "length (slots ts) = 256" "unat i < 256"
  shows "unat ((i + 1) mod sa_capacity ts) = (unat i + 1) mod 256"
proof -
  have "sa_capacity ts = 256" using assms by (simp add: sa_capacity_def)
  moreover have "unat (i + 1) = unat i + 1" using assms(3) by (simp add: unat_add_u32)
  ultimately show ?thesis by (simp add: unat_mod)
qed

lemma sched_scan_eq:
  assumes wf: "sa_wf ts" "length (slots ts) = 256" and st: "unat start < 256"
  shows "k + n = 256 \<Longrightarrow> unat cur = (unat start + k) mod 256 \<Longrightarrow> 0 < n \<Longrightarrow>
    sched_scan n ts start cur =
      (case find (in_state (sa_map ts) READY) (map (\<lambda>j. (unat start + 1 + j) mod 256) [k..<256]) of
         Some i \<Rightarrow> Some (True, word_of_nat i) | None \<Rightarrow> Some (False, start))"
proof (induction n arbitrary: k cur)
  case (Suc n)
  let ?i = "(cur + 1) mod sa_capacity ts" and ?pos = "\<lambda>j. (unat start + 1 + j) mod 256"
  let ?rest = "find (in_state (sa_map ts) READY) (map ?pos [Suc k..<256])"
  have "unat cur < 256" using Suc.prems(2) by simp
  then have i: "unat ?i = ?pos k" using next_index [OF wf, of cur] Suc.prems(2) by (simp add: mod_simps add.commute add.left_commute)
  have wi: "word_of_nat (?pos k) = ?i" unfolding i [symmetric] by simp
  have up: "[k..<256] = k # [Suc k..<256]" using Suc.prems(1) by (simp add: upt_conv_Cons)
  have p: "sa_ptr ts ?i = sa_map ts (?pos k)" using sa_ptr_map [OF wf(1), of ?i] i by simp
  have st_eq: "?i = start \<longleftrightarrow> n = 0"
  proof -
    have "?i = start \<longleftrightarrow> ?pos k = unat start" using i by (metis u32_eq_iff)
    also have "\<dots> \<longleftrightarrow> n = 0" using Suc.prems(1) st by (cases "n = 0") (auto simp: mod_if split: if_splits)
    finally show ?thesis .
  qed
  have rec: "sched_scan n ts start ?i = (case ?rest of Some i \<Rightarrow> Some (True, word_of_nat i) | None \<Rightarrow> Some (False, start))"
    if "n \<noteq> 0" using Suc.IH [of "Suc k" ?i] Suc.prems(1) i that by simp
  have last: "?rest = None" if "n = 0" using Suc.prems(1) that by simp
  have "sched_scan (Suc n) ts start cur = (if in_state (sa_map ts) READY (?pos k) then Some (True, ?i)
      else if n = 0 then Some (False, start) else sched_scan n ts start ?i)"
    using p st_eq by (auto simp: Let_def in_state_def split: option.splits)
  then show ?case unfolding up using wi rec last by simp
qed simp

text \<open>
  The abstract step: the running task is suspended with the frame it was interrupted in, and
  is ready again or, when its frame carries the mark of a task that has returned, terminated;
  then the next ready one in cyclic order runs.
\<close>

definition has_returned :: "interrupt_frame \<Rightarrow> bool" where
  "has_returned ctx \<longleftrightarrow> f_eax ctx = 0xDEADDEAD \<and> f_ebp ctx = 0"

definition suspended :: "u32 \<Rightarrow> interrupt_frame \<Rightarrow> task \<Rightarrow> task" where
  "suspended ctx_addr ctx t =
     (if task_state t \<noteq> RUNNING then t
      else let t' = t\<lparr>stack_ptr := ctx_addr + frame_size, task_ctx := ctx\<rparr> in
        if has_returned ctx then t'\<lparr>task_state := TERMINATED\<rparr> else t'\<lparr>task_state := READY\<rparr>)"

lemma save_current_suspends: "save_current = suspended"
  by (simp add: fun_eq_iff save_current_def suspended_def has_returned_def Let_def)

definition saved_tab :: "u32 \<Rightarrow> interrupt_frame \<Rightarrow> nat \<Rightarrow> (nat \<rightharpoonup> task) \<Rightarrow> nat \<rightharpoonup> task" where
  "saved_tab ctx_addr ctx cur tab = (case tab cur of None \<Rightarrow> tab | Some t \<Rightarrow> tab(cur \<mapsto> suspended ctx_addr ctx t))"

definition resume :: "nat \<Rightarrow> (nat \<rightharpoonup> task) \<Rightarrow> nat \<rightharpoonup> task" where
  "resume i tab = (case tab i of None \<Rightarrow> tab | Some t \<Rightarrow> tab(i \<mapsto> t\<lparr>task_state := RUNNING\<rparr>))"

definition rr_step :: "u32 \<Rightarrow> interrupt_frame \<Rightarrow> nat \<times> (nat \<rightharpoonup> task) \<Rightarrow> interrupt_frame \<times> nat \<times> (nat \<rightharpoonup> task)" where
  "rr_step ctx_addr ctx w =
     (let (cur, tab) = w; tab1 = saved_tab ctx_addr ctx cur tab in
      case next_ready tab1 cur of
        Some i \<Rightarrow> (task_ctx (the (tab1 i)), i, resume i tab1)
      | None \<Rightarrow> (ctx, cur, resume cur tab1))"

definition sched_abs :: "scheduler \<Rightarrow> nat \<times> (nat \<rightharpoonup> task)" where
  "sched_abs s = (unat (current_task_index s), task_tab s)"

lemma save_step:
  assumes "sched_wf s"
  shows "\<exists>s1. (if sa_occupied (tasks s) (current_task_index s) then
             bindR (sa_get (tasks s) (current_task_index s)) (\<lambda>t.
             bindR (sa_put (tasks s) (current_task_index s) (save_current ctx_addr ctx t)) (\<lambda>ts.
             Inr (s\<lparr>tasks := ts\<rparr>)))
           else Inr s) = Inr s1 \<and> sched_wf s1 \<and> current_task_index s1 = current_task_index s \<and>
       task_tab s1 = saved_tab ctx_addr ctx (unat (current_task_index s)) (task_tab s)"
proof (cases "task_tab s (unat (current_task_index s))")
  case None
  then show ?thesis using assms by (simp add: sched_wf_def sa_occupied_map saved_tab_def domIff)
next
  case (Some t)
  have wf: "sa_wf (tasks s)" using assms by (simp add: sched_wf_def)
  have d: "unat (current_task_index s) \<in> dom (task_tab s)" using Some by auto
  obtain ts where ts: "sa_put (tasks s) (current_task_index s) (save_current ctx_addr ctx t) = Inr ts"
    "sa_map ts = (task_tab s)(unat (current_task_index s) \<mapsto> save_current ctx_addr ctx t)"
    "sa_wf ts" "length (slots ts) = length (slots (tasks s))" "live_count ts = live_count (tasks s)"
    using sa_put_result [OF wf d] by blast
  show ?thesis
    using ts assms d Some wf by (intro exI [of _ "s\<lparr>tasks := ts\<rparr>"])
      (simp add: sched_wf_def sa_occupied_map saved_tab_def sa_get_map save_current_suspends)
qed

lemma resume_step:
  assumes "sched_wf s" "unat i < 256" "task_tab s (unat i) = Some t"
  shows "\<exists>s1. bindR (sa_put (tasks s) i (t\<lparr>task_state := RUNNING\<rparr>)) (\<lambda>ts. Inr (c, s\<lparr>current_task_index := i, tasks := ts\<rparr>)) = Inr (c, s1) \<and>
    sched_wf s1 \<and> sched_abs s1 = (unat i, resume (unat i) (task_tab s))"
proof -
  have wf: "sa_wf (tasks s)" using assms(1) by (simp add: sched_wf_def)
  have d: "unat i \<in> dom (task_tab s)" using assms(3) by auto
  obtain ts where ts: "sa_put (tasks s) i (t\<lparr>task_state := RUNNING\<rparr>) = Inr ts"
    "sa_map ts = (task_tab s)(unat i \<mapsto> t\<lparr>task_state := RUNNING\<rparr>)"
    "sa_wf ts" "length (slots ts) = length (slots (tasks s))" "live_count ts = live_count (tasks s)"
    using sa_put_result [OF wf d] by blast
  show ?thesis using ts assms
    by (intro exI [of _ "s\<lparr>current_task_index := i, tasks := ts\<rparr>"]) (simp add: sched_wf_def sched_abs_def resume_def)
qed

lemma find_in: "find P xs = Some i \<Longrightarrow> i \<in> set xs \<and> P i"
  by (induction xs) (auto split: if_splits)

lemma next_ready_Some: "next_ready tab cur = Some i \<Longrightarrow> i < 256 \<and> (\<exists>t. tab i = Some t \<and> task_state t = READY)"
  using find_in [of "in_state tab READY" "rr_order cur" i]
  by (auto simp: next_ready_def rr_order_def in_state_def split: option.splits)

lemma schedule_refines:
  assumes "sched_wf s"
  shows "\<exists>ctx' s'. schedule img junk ctx_addr ctx s = Inr (ctx', s') \<and> sched_wf s' \<and>
    rr_step ctx_addr ctx (sched_abs s) = (ctx', sched_abs s')"
proof -
  obtain s1 where s1: "(if sa_occupied (tasks s) (current_task_index s) then
             bindR (sa_get (tasks s) (current_task_index s)) (\<lambda>t.
             bindR (sa_put (tasks s) (current_task_index s) (save_current ctx_addr ctx t)) (\<lambda>ts.
             Inr (s\<lparr>tasks := ts\<rparr>)))
           else Inr s) = Inr s1" "sched_wf s1" "current_task_index s1 = current_task_index s"
      "task_tab s1 = saved_tab ctx_addr ctx (unat (current_task_index s)) (task_tab s)"
    using save_step [OF assms] by blast
  let ?c = "current_task_index s"
  have wf1: "sa_wf (tasks s1)" "length (slots (tasks s1)) = 256" "unat ?c < 256" using s1 by (auto simp: sched_wf_def)
  have scan: "sched_scan 256 (tasks s1) ?c ?c = (case next_ready (task_tab s1) (unat ?c) of
      Some i \<Rightarrow> Some (True, word_of_nat i) | None \<Rightarrow> Some (False, ?c))"
    using sched_scan_eq [OF wf1, of 0 256 ?c] wf1(3) by (simp add: next_ready_def rr_order_def)
  have go: "schedule img junk ctx_addr ctx s = (case sched_scan 256 (tasks s1) ?c ?c of
               None \<Rightarrow> Inl Undefined
             | Some (found, i) \<Rightarrow>
                 let s = s1\<lparr>current_task_index := i\<rparr> in
                 if found then
                   bindR (sa_get (tasks s) i) (\<lambda>next.
                   bindR (sa_put (tasks s) i (next\<lparr>task_state := RUNNING\<rparr>)) (\<lambda>ts.
                   Inr (task_ctx next, s\<lparr>tasks := ts\<rparr>)))
                 else if sa_occupied (tasks s) i then
                   bindR (sa_get (tasks s) i) (\<lambda>current.
                   bindR (sa_put (tasks s) i (current\<lparr>task_state := RUNNING\<rparr>)) (\<lambda>ts.
                   Inr (ctx, s\<lparr>tasks := ts\<rparr>)))
                 else Inr (ctx, s))"
  proof -
    have "sched_initialized s" "\<not> sa_empty (tasks s)" "\<not> live_count (tasks s) \<le> 1"
      using assms by (auto simp: sched_wf_def sa_empty_def u32_le_iff)
    then show ?thesis using s1(1,3) wf1(2) by (simp add: schedule_def)
  qed
  show ?thesis
  proof (cases "next_ready (task_tab s1) (unat ?c)")
    case (Some i)
    obtain t where t: "i < 256" "task_tab s1 i = Some t" using next_ready_Some [OF Some] by blast
    then have ui: "unat (word_of_nat i :: u32) = i" by (simp add: unat_of_nat_u32)
    then obtain s2 where s2: "bindR (sa_put (tasks s1) (word_of_nat i) (t\<lparr>task_state := RUNNING\<rparr>))
        (\<lambda>ts. Inr (task_ctx t, s1\<lparr>current_task_index := word_of_nat i, tasks := ts\<rparr>)) = Inr (task_ctx t, s2)"
        "sched_wf s2" "sched_abs s2 = (i, resume i (task_tab s1))"
      using resume_step [OF s1(2), of "word_of_nat i" t "task_ctx t"] t by auto
    show ?thesis using go scan Some s2 t s1(4) ui wf1(1)
      by (auto simp: sa_get_map rr_step_def sched_abs_def Let_def)
  next
    case None
    show ?thesis
    proof (cases "task_tab s1 (unat ?c)")
      case n: None
      then have "schedule img junk ctx_addr ctx s = Inr (ctx, s1)"
        using go scan None wf1(1) s1(3) by (simp add: sa_occupied_map domIff)
      then show ?thesis using n None s1 by (simp add: rr_step_def sched_abs_def resume_def Let_def)
    next
      case (Some t)
      obtain s2 where s2: "bindR (sa_put (tasks s1) ?c (t\<lparr>task_state := RUNNING\<rparr>))
          (\<lambda>ts. Inr (ctx, s1\<lparr>current_task_index := ?c, tasks := ts\<rparr>)) = Inr (ctx, s2)"
          "sched_wf s2" "sched_abs s2 = (unat ?c, resume (unat ?c) (task_tab s1))"
        using resume_step [OF s1(2) wf1(3) Some, of ctx] by blast
      show ?thesis using go scan None Some s2 s1(4) wf1(1)
        by (auto simp: sa_get_map sa_occupied_map rr_step_def sched_abs_def Let_def domI)
    qed
  qed
qed

section \<open>Properties\<close>

definition only_running :: "nat \<Rightarrow> (nat \<rightharpoonup> task) \<Rightarrow> bool" where
  "only_running cur tab \<longleftrightarrow> (\<forall>i. in_state tab RUNNING i \<longrightarrow> i = cur)"

lemma saved_tab_states:
  "i \<noteq> cur \<Longrightarrow> saved_tab a ctx cur tab i = tab i"
  "only_running cur tab \<Longrightarrow> \<not> in_state (saved_tab a ctx cur tab) RUNNING i"
  "dom (saved_tab a ctx cur tab) = dom tab"
  by (auto simp: saved_tab_def only_running_def in_state_def suspended_def has_returned_def Let_def split: option.splits if_splits)

lemma resume_states:
  "j \<noteq> i \<Longrightarrow> resume i tab j = tab j"
  "dom (resume i tab) = dom tab"
  "in_state (resume i tab) RUNNING i \<longleftrightarrow> i \<in> dom tab"
  by (auto simp: resume_def in_state_def split: option.splits)

lemma rr_step_table:
  assumes "rr_step a ctx (cur, tab) = (ctx', cur', tab')"
  shows "tab' = resume cur' (saved_tab a ctx cur tab)" "dom tab' = dom tab"
proof -
  show t': "tab' = resume cur' (saved_tab a ctx cur tab)"
    using assms by (auto simp: rr_step_def Let_def split: option.splits)
  show "dom tab' = dom tab" unfolding t' resume_states(2) saved_tab_states(3) ..
qed

lemma rr_step_running:
  assumes "only_running cur tab" "rr_step a ctx (cur, tab) = (ctx', cur', tab')"
  shows "only_running cur' tab'"
proof -
  let ?t1 = "saved_tab a ctx cur tab"
  note t' = rr_step_table(1) [OF assms(2)]
  have "in_state tab' RUNNING i = in_state ?t1 RUNNING i" if "i \<noteq> cur'" for i
    using that unfolding t' by (simp add: in_state_def resume_states(1))
  then show "only_running cur' tab'" using saved_tab_states(2) [OF assms(1)] by (auto simp: only_running_def)
qed

text \<open>
  Property C3 (refinement): \<^verbatim>\<open>Scheduler::schedule\<close>, once the boot tasks exist, is the abstract
  round-robin step: save the interrupted frame into the running task (which becomes ready, or
  terminated when it asked for that), then hand the frame of the first ready task in cyclic
  order after it to the processor and mark that task running; if no task is ready, the
  current one goes on. The search always ends and no index is out of range.
\<close>

theorem schedule_is_round_robin:
  assumes "sched_wf s"
  shows "\<exists>ctx' s'. schedule img junk ctx_addr ctx s = Inr (ctx', s') \<and> sched_wf s' \<and>
    rr_step ctx_addr ctx (sched_abs s) = (ctx', sched_abs s')"
  by (rule schedule_refines [OF assms])

definition example_frame :: interrupt_frame where
  "example_frame = \<lparr>f_ds = 0x10, f_es = 0x10, f_fs = 0x10, f_gs = 0x10, f_edi = 0, f_esi = 0, f_ebp = 0x9FF0,
     f_esp = 0x9F00, f_ebx = 1, f_edx = 2, f_ecx = 3, f_eax = 4, f_int_no = 32, f_err_code = 0, f_eip = 0x100500,
     f_cs = 8, f_eflags = 0x202, f_user_esp = 0, f_user_ss = 0\<rparr>"

definition example_task :: "u32 \<Rightarrow> task_state \<Rightarrow> u32 \<Rightarrow> task" where
  "example_task i st eip = \<lparr>task_id = i, task_ctx = example_frame\<lparr>f_eip := eip\<rparr>, stack_ptr = 0xA000,
     task_stack = 0x9000, own_stack = True, task_state = st, task_name = ''t''\<rparr>"

definition example_sched :: scheduler where
  "example_sched = \<lparr>tasks = \<lparr>slots = \<lparr>slot_ptr = Some (example_task 1 READY 0x101000), constructed = True\<rparr> #
       \<lparr>slot_ptr = Some (example_task 2 RUNNING 0x102000), constructed = True\<rparr> # replicate 254 empty_slot, live_count = 2\<rparr>,
     current_task_index = 1, next_task_id = 3, sched_initialized = True, time_slice_ms = 10\<rparr>"

lemma example_sched_tab:
  "task_tab example_sched = [0 \<mapsto> example_task 1 READY 0x101000, 1 \<mapsto> example_task 2 RUNNING 0x102000]"
  by (rule ext) (auto simp: example_sched_def sa_map_def empty_slot_def nth_Cons split: nat.splits)

lemma example_sched_wf: "sched_wf example_sched"
proof -
  have "card (dom (task_tab example_sched)) = 2" by (simp add: example_sched_tab)
  moreover have "slot_wf x" if "x \<in> set (slots (tasks example_sched))" for x
    using that by (auto simp: example_sched_def slot_wf_def empty_slot_def)
  ultimately have "sa_wf (tasks example_sched)" by (simp add: sa_wf_def example_sched_def)
  then show ?thesis by (simp add: sched_wf_def example_sched_def)
qed

definition example_image :: image where
  "example_image = \<lparr>crt_task_entry = 0x100000, dummy_func = 0x100100, boot_stack = 0x8000, timer_tick_fn = 0x100200,
     idle_fn = 0x100300\<rparr>"

theorem schedule_is_round_robin_witness:
  "\<exists>ctx' s'. schedule example_image example_frame 0x9F00 example_frame example_sched = Inr (ctx', s') \<and> sched_wf s'"
  using schedule_is_round_robin [OF example_sched_wf] by blast

lemma schedule_preempted:
  assumes wf: "sched_wf s" and run: "only_running (unat (current_task_index s)) (task_tab s)"
    and cur: "task_tab s (unat (current_task_index s)) = Some t" "task_state t = RUNNING"
    and alive: "\<not> (f_eax ctx = 0xDEADDEAD \<and> f_ebp ctx = 0)"
  shows "\<exists>ctx' s'. schedule img junk ctx_addr ctx s = Inr (ctx', s') \<and>
    (let c = unat (current_task_index s); c' = unat (current_task_index s') in
     only_running c' (task_tab s') \<and> in_state (task_tab s') RUNNING c' \<and>
     map_option task_ctx (task_tab s' c) = Some ctx \<and> (c' \<noteq> c \<longrightarrow> in_state (task_tab s') READY c) \<and>
     map_option task_ctx (task_tab s' c') = Some ctx' \<and> map_option stack_ptr (task_tab s' c) = Some (ctx_addr + frame_size) \<and>
     (c' \<noteq> c \<longrightarrow> map_option task_ctx (task_tab s c') = Some ctx') \<and>
     (\<forall>i. i \<noteq> c \<longrightarrow> i \<noteq> c' \<longrightarrow> task_tab s' i = task_tab s i) \<and> dom (task_tab s') = dom (task_tab s))"
proof -
  let ?c = "unat (current_task_index s)" and ?tab = "task_tab s"
  let ?t1 = "saved_tab ctx_addr ctx ?c ?tab"
  obtain ctx' s' where s': "schedule img junk ctx_addr ctx s = Inr (ctx', s')"
    and st: "rr_step ctx_addr ctx (?c, ?tab) = (ctx', sched_abs s')"
    using schedule_refines [OF wf] unfolding sched_abs_def [of s] by blast
  let ?c' = "unat (current_task_index s')" and ?tab' = "task_tab s'"
  have step: "rr_step ctx_addr ctx (?c, ?tab) = (ctx', ?c', ?tab')" using st by (simp add: sched_abs_def)
  have c1: "?t1 ?c = Some (suspended ctx_addr ctx t)" using cur(1) by (simp add: saved_tab_def)
  have sv: "task_ctx (suspended ctx_addr ctx t) = ctx" "task_state (suspended ctx_addr ctx t) = READY"
      "stack_ptr (suspended ctx_addr ctx t) = ctx_addr + frame_size"
    using cur(2) alive by (auto simp: suspended_def has_returned_def Let_def)
  note tab' = rr_step_table(1) [OF step]
  have "?c < 256" using wf by (simp add: sched_wf_def)
  have "?c \<in> set (rr_order ?c)"
    using \<open>?c < 256\<close> by (auto simp: rr_order_def image_iff intro!: bexI [of _ 255])
  then have "next_ready ?t1 ?c \<noteq> None"
    using c1 sv(2) by (auto simp: next_ready_def find_None_iff in_state_def)
  then obtain i where i: "next_ready ?t1 ?c = Some i" by blast
  obtain u where u: "?t1 i = Some u" "task_state u = READY" using next_ready_Some [OF i] by blast
  have ci: "?c' = i" "ctx' = task_ctx u" using step i u by (auto simp: rr_step_def Let_def)
  note rr = rr_step_running [OF run step] rr_step_table(2) [OF step]
  have "in_state ?tab' RUNNING ?c'" unfolding tab' resume_states(3) using u ci by auto
  moreover have "map_option task_ctx (?tab' ?c) = Some ctx"
    using c1 sv(1) unfolding tab' by (cases "?c' = ?c") (auto simp: resume_def split: option.splits)
  moreover have "map_option task_ctx (?tab ?c') = Some ctx'" if "?c' \<noteq> ?c"
    using that u ci by (simp add: saved_tab_states(1))
  moreover have "map_option stack_ptr (?tab' ?c) = Some (ctx_addr + frame_size)"
    using c1 sv(3) unfolding tab' by (cases "?c' = ?c") (auto simp: resume_def split: option.splits)
  moreover have "in_state ?tab' READY ?c" if "?c' \<noteq> ?c"
    using that c1 sv(2) unfolding tab' by (simp add: in_state_def resume_states(1))
  moreover have "map_option task_ctx (?tab' ?c') = Some ctx'" using u ci unfolding tab' by (simp add: resume_def)
  moreover have "?tab' j = ?tab j" if "j \<noteq> ?c" "j \<noteq> ?c'" for j
    using that unfolding tab' by (simp add: resume_states(1) saved_tab_states(1))
  ultimately show ?thesis using s' rr by (intro exI [of _ ctx'] exI [of _ s']) (simp add: Let_def)
qed

text \<open>
  Property C16 (invariant): preemption. When the running task is interrupted and another one is
  ready, exactly one task runs afterwards, a different slot's or the same; the interrupted
  task has the interrupted frame saved in its slot, so that it resumes with it; the frame that
  the processor gets is the one saved in the slot of the task that runs; and every other slot
  is unchanged. Slots are never freed.
\<close>

theorem schedule_preempts:
  assumes wf: "sched_wf s" and run: "only_running (unat (current_task_index s)) (task_tab s)"
    and cur: "task_tab s (unat (current_task_index s)) = Some t" "task_state t = RUNNING"
    and alive: "\<not> (f_eax ctx = 0xDEADDEAD \<and> f_ebp ctx = 0)"
  shows "\<exists>ctx' s'. schedule img junk ctx_addr ctx s = Inr (ctx', s') \<and>
    (let c = unat (current_task_index s); c' = unat (current_task_index s') in
     only_running c' (task_tab s') \<and> in_state (task_tab s') RUNNING c' \<and>
     map_option task_ctx (task_tab s' c) = Some ctx \<and> (c' \<noteq> c \<longrightarrow> in_state (task_tab s') READY c) \<and>
     map_option task_ctx (task_tab s' c') = Some ctx' \<and>
     (\<forall>i. i \<noteq> c \<longrightarrow> i \<noteq> c' \<longrightarrow> task_tab s' i = task_tab s i) \<and> dom (task_tab s') = dom (task_tab s))"
  using schedule_preempted [OF assms] unfolding Let_def by blast

theorem schedule_preempts_witness:
  "\<exists>ctx' s'. schedule example_image example_frame 0x9F00 example_frame example_sched = Inr (ctx', s') \<and>
     map_option task_ctx (task_tab s' 1) = Some example_frame"
proof -
  have c: "unat (current_task_index example_sched) = 1" by (simp add: example_sched_def)
  have "only_running 1 (task_tab example_sched)"
    by (simp add: only_running_def in_state_def example_sched_tab example_task_def)
  then show ?thesis
    using schedule_preempts [OF example_sched_wf, of "example_task 2 RUNNING 0x102000" example_frame
        example_image example_frame "0x9F00"] c
    by (fastforce simp: example_sched_tab example_task_def example_frame_def Let_def)
qed

text \<open>How many slots after the current one a slot comes in the cyclic order.\<close>

definition cyc_dist :: "nat \<Rightarrow> nat \<Rightarrow> nat" where
  "cyc_dist cur i = (i + 255 - cur) mod 256"

lemma cyc_dist_order:
  assumes "cur < 256" "i < 256"
  shows "cyc_dist cur i < 256" "rr_order cur ! cyc_dist cur i = i" "i \<in> set (rr_order cur)"
    "j < 256 \<Longrightarrow> cyc_dist cur (rr_order cur ! j) = j"
proof -
  show d: "cyc_dist cur i < 256" by (simp add: cyc_dist_def)
  have "(cur + 1 + (i + 255 - cur) mod 256) mod 256 = (cur + 1 + (i + 255 - cur)) mod 256" by (rule mod_add_right_eq)
  also have "\<dots> = (i + 256) mod 256" using assms by simp
  finally show n: "rr_order cur ! cyc_dist cur i = i" using d assms by (simp add: rr_order_def cyc_dist_def)
  then show "i \<in> set (rr_order cur)" using d by (metis (no_types) rr_order_def length_map length_upt minus_nat.diff_0 nth_mem)
  show "cyc_dist cur (rr_order cur ! j) = j" if "j < 256"
  proof -
    have "rr_order cur ! j = (cur + 1 + j) mod 256" using that by (simp add: rr_order_def)
    then show ?thesis using assms that by (simp add: cyc_dist_def mod_if split: if_splits)
  qed
qed

lemma find_before:
  assumes "find P xs = Some y" "k < length xs" "P (xs ! k)"
  shows "\<exists>j \<le> k. y = xs ! j"
  using assms
proof (induction xs arbitrary: k)
  case (Cons x xs)
  show ?case
  proof (cases "P x")
    case True
    then show ?thesis using Cons.prems(1) by auto
  next
    case False
    then obtain k' where k': "k = Suc k'" using Cons.prems by (cases k) auto
    then obtain j where "j \<le> k'" "y = xs ! j" using Cons.IH [of k'] Cons.prems False by auto
    then show ?thesis using k' by (intro exI [of _ "Suc j"]) auto
  qed
qed simp

text \<open>One step runs a waiting task or brings it nearer to its turn.\<close>

lemma rr_step_progress:
  assumes "cur < 256" "i < 256" "in_state tab READY i" "rr_step a ctx (cur, tab) = (ctx', cur', tab')"
  shows "in_state tab' RUNNING i \<and> cur' = i \<or> in_state tab' READY i \<and> cyc_dist cur' i < cyc_dist cur i \<and> cur' < 256"
proof -
  let ?t1 = "saved_tab a ctx cur tab"
  note cd = cyc_dist_order [OF assms(1,2)]
  have r1: "in_state ?t1 READY i"
    using assms(3) by (auto simp: in_state_def saved_tab_def suspended_def has_returned_def Let_def split: option.splits if_splits)
  have "next_ready ?t1 cur \<noteq> None" using cd(3) r1 by (auto simp: next_ready_def find_None_iff)
  then obtain n where n: "next_ready ?t1 cur = Some n" by blast
  have len: "length (rr_order cur) = 256" by (simp add: rr_order_def)
  obtain j where j: "j \<le> cyc_dist cur i" "n = rr_order cur ! j"
    using find_before [of "in_state ?t1 READY" "rr_order cur" n "cyc_dist cur i"] n cd(1,2) r1 len
    by (auto simp: next_ready_def)
  have w: "cur' = n" "tab' = resume n ?t1" using assms(4) n by (auto simp: rr_step_def Let_def)
  show ?thesis
  proof (cases "n = i")
    case True
    then show ?thesis using w r1 resume_states(3) [of n ?t1] by (auto simp: in_state_def split: option.splits)
  next
    case False
    have jl: "j < 256" using j(1) cd(1) by simp
    have "n < 256" using next_ready_Some [OF n] by blast
    have ne: "j \<noteq> cyc_dist cur i" using False j(2) cd(2) by auto
    have nj: "n = (cur + 1 + j) mod 256" using j(2) jl by (simp add: rr_order_def)
    have ii: "i = (cur + 1 + cyc_dist cur i) mod 256" using cd(1,2) by (simp add: rr_order_def)
    let ?e = "cyc_dist cur i - j - 1"
    have e: "?e < 256" "cur + 1 + j + 1 + ?e = cur + 1 + cyc_dist cur i" using j(1) ne cd(1) by auto
    have "rr_order n ! ?e = (n + 1 + ?e) mod 256" using e(1) by (simp add: rr_order_def)
    also have "\<dots> = (cur + 1 + j + 1 + ?e) mod 256" unfolding nj by (simp only: add.assoc mod_add_left_eq)
    also have "\<dots> = i" unfolding e(2) using ii by simp
    finally have "cyc_dist n i = ?e" using cyc_dist_order(4) [OF \<open>n < 256\<close> assms(2) e(1)] by simp
    moreover have "in_state tab' READY i" using False r1 unfolding w(2) by (simp add: in_state_def resume_states(1))
    ultimately show ?thesis using w(1) ne j(1) \<open>n < 256\<close> by auto
  qed
qed

text \<open>A series of timer interrupts: the address and the contents of each frame.\<close>

primrec schedules :: "image \<Rightarrow> interrupt_frame \<Rightarrow> (u32 \<times> interrupt_frame) list \<Rightarrow> scheduler \<Rightarrow> scheduler kres" where
  "schedules img junk [] s = Inr s"
| "schedules img junk (c # cs) s = bindR (timer_tick img junk (fst c) (snd c) s) (\<lambda>(_, s). schedules img junk cs s)"

lemma schedules_total:
  assumes "sched_wf s"
  shows "\<exists>s'. schedules img junk cs s = Inr s' \<and> sched_wf s' \<and> dom (task_tab s') = dom (task_tab s)"
  using assms
proof (induction cs arbitrary: s)
  case (Cons c cs)
  obtain ctx' s1 where s1: "schedule img junk (fst c) (snd c) s = Inr (ctx', s1)" "sched_wf s1"
    and st: "rr_step (fst c) (snd c) (sched_abs s) = (ctx', sched_abs s1)"
    using schedule_refines [OF Cons.prems, of img junk "fst c" "snd c"] by blast
  have "dom (task_tab s1) = dom (task_tab s)"
    using rr_step_table(2) [of "fst c" "snd c" "unat (current_task_index s)"] st unfolding sched_abs_def by blast
  then show ?case using s1 Cons.IH [OF s1(2)] by (simp add: timer_tick_def)
qed simp

lemma ready_runs:
  assumes "sched_wf s" "i < 256" "in_state (task_tab s) READY i" "cyc_dist (unat (current_task_index s)) i < length cs"
  shows "\<exists>k s'. k \<le> length cs \<and> schedules img junk (take k cs) s = Inr s' \<and>
    unat (current_task_index s') = i \<and> in_state (task_tab s') RUNNING i"
  using assms
proof (induction cs arbitrary: s)
  case (Cons c cs)
  let ?c = "unat (current_task_index s)"
  obtain ctx' s1 where s1: "schedule img junk (fst c) (snd c) s = Inr (ctx', s1)" "sched_wf s1"
    and st: "rr_step (fst c) (snd c) (sched_abs s) = (ctx', sched_abs s1)"
    using schedule_refines [OF Cons.prems(1), of img junk "fst c" "snd c"] by blast
  let ?c1 = "unat (current_task_index s1)"
  have st1: "rr_step (fst c) (snd c) (?c, task_tab s) = (ctx', ?c1, task_tab s1)" using st by (simp add: sched_abs_def)
  have "?c < 256" using Cons.prems(1) by (simp add: sched_wf_def)
  from rr_step_progress [OF this Cons.prems(2,3) st1] show ?case
  proof (elim disjE conjE)
    assume "in_state (task_tab s1) RUNNING i" "?c1 = i"
    then show ?thesis using s1(1) by (intro exI [of _ 1] exI [of _ s1]) (simp add: timer_tick_def)
  next
    assume p: "in_state (task_tab s1) READY i" "cyc_dist ?c1 i < cyc_dist ?c i"
    then have "cyc_dist ?c1 i < length cs" using Cons.prems(4) by simp
    then obtain k s' where "k \<le> length cs" "schedules img junk (take k cs) s1 = Inr s'"
      "unat (current_task_index s') = i" "in_state (task_tab s') RUNNING i"
      using Cons.IH [OF s1(2) Cons.prems(2) p(1)] by blast
    then show ?thesis using s1(1) by (intro exI [of _ "Suc k"] exI [of _ s']) (simp add: timer_tick_def)
  qed
qed simp



text \<open>
  Property C37 (error): the slot of a terminated task is never freed. However long the
  scheduler runs, the occupied slots stay occupied, whatever the state of their tasks; when
  all 256 are, creating a task panics.
\<close>

theorem terminated_tasks_keep_slots:
  assumes "sched_wf s" and "dom (task_tab s) = {..<256}"
  shows "\<exists>s'. schedules img junk cs s = Inr s' \<and>
    create_task img junk new sp name entry (s', w) = Inl (Panic ''StaticArray full'')"
proof -
  obtain s' where s': "schedules img junk cs s = Inr s'" "sched_wf s'" "dom (task_tab s') = {..<256}"
    using schedules_total [OF assms(1)] assms(2) by metis
  then have "find_free_slot (tasks s') \<ge> sa_capacity (tasks s')"
    using find_free_slot_spec [of "tasks s'"] s'(2,3)
    by (simp add: sched_wf_def)
  then show ?thesis using s'(1) by (simp add: create_task_def)
qed

definition example_full :: scheduler where
  "example_full = \<lparr>tasks = \<lparr>slots = replicate 256 \<lparr>slot_ptr = Some (example_task 1 TERMINATED 0x101000), constructed = True\<rparr>,
     live_count = 256\<rparr>, current_task_index = 1, next_task_id = 257, sched_initialized = True, time_slice_ms = 10\<rparr>"

lemma example_full_ok: "sched_wf example_full" "dom (task_tab example_full) = {..<256}"
proof -
  show d: "dom (task_tab example_full) = {..<256}"
    by (auto simp: example_full_def sa_map_def split: if_splits)
  moreover have "slot_wf x" if "x \<in> set (slots (tasks example_full))" for x
    using that by (auto simp: example_full_def slot_wf_def)
  ultimately have "sa_wf (tasks example_full)" by (simp add: sa_wf_def) (simp add: example_full_def)
  then show "sched_wf example_full" by (simp add: sched_wf_def example_full_def)
qed

theorem terminated_tasks_keep_slots_witness:
  "\<exists>s'. schedules example_image example_frame [(0x9F00, example_frame)] example_full = Inr s' \<and>
    create_task example_image example_frame (\<lambda>h. Inr (0xB000, h)) 0x9E00 ''t'' 0x103000 (s', (\<lambda>_. 0), ()) =
      Inl (Panic ''StaticArray full'')"
  by (rule terminated_tasks_keep_slots [OF example_full_ok])

end
