(* ===== verification/Scheduler_Life.thy ===== *)
theory Scheduler_Life
  imports Scheduler
begin

text \<open>
  The life of a scheduler, from its construction in \<^verbatim>\<open>Kernel::init\<close> and the \<^verbatim>\<open>yield\<close> that follows it
  through any sequence of calls of \<^verbatim>\<open>create_task\<close> and of timer and reschedule interrupts. What the
  theorems of theory Scheduler assume of the table holds in all these states.
\<close>

section \<open>The table of a live scheduler\<close>

text \<open>
  Slots are never freed, so that the tasks fill the table from the front and a task's identifier
  is its slot plus one; slot 1 is the kernel's own task on the boot stack, every other task owns
  its stack; exactly the current task is running.
\<close>

definition table_typed :: "image \<Rightarrow> nat \<Rightarrow> (nat \<rightharpoonup> task) \<Rightarrow> bool" where
  "table_typed img n tab \<longleftrightarrow> dom tab = {..<n} \<and>
     (\<forall>i t. tab i = Some t \<longrightarrow> unat (task_id t) = Suc i \<and> (own_stack t \<longleftrightarrow> i \<noteq> 1) \<and> (i = 1 \<longrightarrow> task_stack t = boot_stack img))"

definition sched_typed :: "image \<Rightarrow> scheduler \<Rightarrow> bool" where
  "sched_typed img s \<longleftrightarrow> sched_wf s \<and> table_typed img (unat (live_count (tasks s))) (task_tab s) \<and>
     unat (next_task_id s) = Suc (unat (live_count (tasks s))) \<and>
     (\<forall>i. in_state (task_tab s) RUNNING i \<longleftrightarrow> i = unat (current_task_index s))"

lemma live_card: "sched_wf s \<Longrightarrow> unat (live_count (tasks s)) = card (dom (task_tab s))"
  by (simp add: sched_wf_def sa_wf_def)

text \<open>A turn of the scheduler keeps who a task is.\<close>

lemma rr_step_tasks:
  assumes "rr_step a ctx (cur, tab) = (ctx', cur', tab')" "tab' i = Some t'"
  shows "\<exists>t. tab i = Some t \<and> task_id t' = task_id t \<and> own_stack t' = own_stack t \<and> task_stack t' = task_stack t"
proof -
  have "tab' = resume cur' (saved_tab a ctx cur tab)" by (rule rr_step_table(1) [OF assms(1)])
  then show ?thesis using assms(2)
    by (auto simp: resume_def saved_tab_def suspended_def Let_def split: option.splits if_splits)
qed

lemma rr_step_current:
  assumes "rr_step a ctx (cur, tab) = (ctx', cur', tab')" "cur \<in> dom tab"
  shows "cur' \<in> dom tab"
  using assms next_ready_Some [of "saved_tab a ctx cur tab" cur] saved_tab_states(3) [of a ctx cur tab]
  by (auto simp: rr_step_def Let_def split: option.splits)

lemma schedule_next_id:
  assumes "\<not> live_count (tasks s) \<le> 1" "schedule img junk a ctx s = Inr (ctx', s')"
  shows "next_task_id s' = next_task_id s"
proof (cases "\<not> sched_initialized s \<or> sa_empty (tasks s)")
  case True
  then show ?thesis using assms(2) by (auto simp: schedule_def)
next
  case False
  let ?save = "if sa_occupied (tasks s) (current_task_index s) then
      bindR (sa_get (tasks s) (current_task_index s)) (\<lambda>t.
      bindR (sa_put (tasks s) (current_task_index s) (save_current a ctx t)) (\<lambda>ts. Inr (s\<lparr>tasks := ts\<rparr>))) else Inr s"
  obtain s1 where s1: "?save = Inr s1"
    using assms(2) False assms(1) by (cases ?save) (simp_all add: schedule_def)
  then have n: "next_task_id s1 = next_task_id s" by (auto simp: kres_iffs split: if_splits)
  obtain found i where fi: "sched_scan (length (slots (tasks s1))) (tasks s1) (current_task_index s1) (current_task_index s1) = Some (found, i)"
    using assms(2) False assms(1) s1 by (auto simp: schedule_def split: option.splits)
  then show ?thesis using assms(2) False assms(1) s1 n
    by (auto simp: schedule_def kres_iffs Let_def simp del: bindR_simps split: if_splits)
qed

lemma schedule_typed:
  assumes "sched_typed img s"
  shows "\<exists>ctx' s'. schedule img junk a ctx s = Inr (ctx', s') \<and> sched_typed img s'"
proof -
  have wf: "sched_wf s" and ty: "table_typed img (unat (live_count (tasks s))) (task_tab s)"
    and nx: "unat (next_task_id s) = Suc (unat (live_count (tasks s)))"
    and run: "\<And>i. in_state (task_tab s) RUNNING i \<longleftrightarrow> i = unat (current_task_index s)"
    using assms by (auto simp: sched_typed_def)
  obtain ctx' s' where s': "schedule img junk a ctx s = Inr (ctx', s')" "sched_wf s'"
      "rr_step a ctx (unat (current_task_index s), task_tab s) = (ctx', unat (current_task_index s'), task_tab s')"
    using schedule_refines [OF wf, of img junk a ctx] by (auto simp: sched_abs_def)
  note d = rr_step_table [OF s'(3)]
  have live: "live_count (tasks s') = live_count (tasks s)"
    using live_card [OF wf] live_card [OF s'(2)] d(2) by (simp add: u32_eq_iff)
  have "\<not> live_count (tasks s) \<le> 1" using wf by (auto simp: sched_wf_def u32_le_iff)
  then have nx': "next_task_id s' = next_task_id s" by (rule schedule_next_id [OF _ s'(1)])
  have "table_typed img (unat (live_count (tasks s'))) (task_tab s')"
    unfolding table_typed_def live
  proof (intro conjI allI impI)
    show "dom (task_tab s') = {..<unat (live_count (tasks s))}" using ty d(2) by (simp add: table_typed_def)
    fix i t' assume t': "task_tab s' i = Some t'"
    obtain t where t: "task_tab s i = Some t" "task_id t' = task_id t" "own_stack t' = own_stack t" "task_stack t' = task_stack t"
      using rr_step_tasks [OF s'(3) t'] by blast
    show "unat (task_id t') = Suc i" "own_stack t' \<longleftrightarrow> i \<noteq> 1" using ty t(1) unfolding t(2,3) by (simp_all add: table_typed_def)
    show "task_stack t' = boot_stack img" if "i = 1" using ty t(1) that unfolding t(4) by (simp add: table_typed_def)
  qed
  note ty' = this
  have "unat (current_task_index s) \<in> dom (task_tab s)" using run [of "unat (current_task_index s)"] by (auto simp: in_state_def split: option.splits)
  then have "unat (current_task_index s') \<in> dom (task_tab s)" by (rule rr_step_current [OF s'(3)])
  then have r1: "in_state (task_tab s') RUNNING (unat (current_task_index s'))"
    unfolding d(1) resume_states(3) saved_tab_states(3) .
  have r2: "only_running (unat (current_task_index s')) (task_tab s')"
    by (rule rr_step_running [OF _ s'(3)]) (use run in \<open>simp add: only_running_def\<close>)
  have "in_state (task_tab s') RUNNING i \<longleftrightarrow> i = unat (current_task_index s')" for i
    using r1 r2 unfolding only_running_def by blast
  then have "sched_typed img s'" unfolding sched_typed_def live nx' using s'(2) nx ty' [unfolded live] by blast
  then show ?thesis using s'(1) by blast
qed

text \<open>A new task takes the next slot.\<close>

lemma create_task_result:
  assumes wf: "sa_wf (tasks s)" "length (slots (tasks s)) = 256" and d: "dom (task_tab s) = {..<n}"
    and ok: "create_task img junk new sp name entry_point (s, mh) = Inr (i, s', mh')"
  shows "\<exists>t ts. unat i = n \<and> n < 256 \<and> s' = s\<lparr>tasks := ts, next_task_id := next_task_id s + 1\<rparr> \<and> sa_wf ts \<and> length (slots ts) = 256 \<and>
    sa_map ts = (task_tab s)(n \<mapsto> t) \<and> live_count ts = live_count (tasks s) + 1 \<and>
    task_id t = next_task_id s \<and> own_stack t \<and> task_state t = READY \<and> f_eax (task_ctx t) = entry_point"
proof -
  obtain t0 mh1 ts1 ts where c: "task_ctor img junk new sp (next_task_id s) name None mh = Inr (t0, mh1)"
      "sa_emplace (tasks s) t0 = Inr (i, ts1)" "sa_put ts1 i (t0\<lparr>task_ctx := (task_ctx t0)\<lparr>f_eax := entry_point\<rparr>\<rparr>) = Inr ts"
      "s' = s\<lparr>tasks := ts, next_task_id := next_task_id s + 1\<rparr>"
    using ok by (auto simp: create_task_def kres_iffs Let_def split: if_splits)
  have nf: "dom (task_tab s) \<noteq> {..<length (slots (tasks s))}"
    using sa_emplace_result [OF wf(1), of t0] c(2) by auto
  then have e: "unat i < 256" "unat i \<notin> dom (task_tab s)" "\<forall>j < unat i. j \<in> dom (task_tab s)" "sa_map ts1 = (task_tab s)(unat i \<mapsto> t0)"
      "sa_wf ts1" "length (slots ts1) = 256" "live_count ts1 = live_count (tasks s) + 1"
    using sa_emplace_result [OF wf(1), of t0] c(2) wf(2) by auto
  have i: "unat i = n" using e(2,3) d by (metis lessThan_iff linorder_neqE_nat less_irrefl)
  have "unat i \<in> dom (sa_map ts1)" using e(4) by simp
  from sa_put_result [OF e(5) this, of "t0\<lparr>task_ctx := (task_ctx t0)\<lparr>f_eax := entry_point\<rparr>\<rparr>"] c(3)
  have p: "sa_map ts = (sa_map ts1)(unat i \<mapsto> t0\<lparr>task_ctx := (task_ctx t0)\<lparr>f_eax := entry_point\<rparr>\<rparr>)" "sa_wf ts" "length (slots ts) = 256"
      "live_count ts = live_count ts1" using e(6) by auto
  have "task_id t0 = next_task_id s" "own_stack t0" "task_state t0 = READY"
    using c(1) by (auto simp: task_ctor_def kres_iffs Let_def)
  then show ?thesis using c(4) p e(1,4,7) i
    by (intro exI [of _ "t0\<lparr>task_ctx := (task_ctx t0)\<lparr>f_eax := entry_point\<rparr>\<rparr>"] exI [of _ ts]) simp
qed

lemma create_typed:
  assumes "sched_typed img s" "create_task img junk new sp name entry_point (s, mh) = Inr (i, s', mh')"
  shows "sched_typed img s'"
proof -
  let ?n = "unat (live_count (tasks s))"
  have wf: "sched_wf s" and ty: "table_typed img ?n (task_tab s)" and nx: "unat (next_task_id s) = Suc ?n"
    and run: "\<And>i. in_state (task_tab s) RUNNING i \<longleftrightarrow> i = unat (current_task_index s)"
    using assms(1) by (auto simp: sched_typed_def)
  have sa: "sa_wf (tasks s)" "length (slots (tasks s)) = 256" "dom (task_tab s) = {..<?n}" "2 \<le> ?n"
    using wf ty by (auto simp: sched_wf_def table_typed_def)
  obtain t ts where t: "?n < 256" "s' = s\<lparr>tasks := ts, next_task_id := next_task_id s + 1\<rparr>" "sa_wf ts" "length (slots ts) = 256"
      "sa_map ts = (task_tab s)(?n \<mapsto> t)" "live_count ts = live_count (tasks s) + 1" "task_id t = next_task_id s" "own_stack t" "task_state t = READY"
    using create_task_result [OF sa(1-3) assms(2)] by blast
  have live: "unat (live_count ts) = Suc ?n" using t(1,6) by (simp add: unat_add_u32)
  have nx': "unat (next_task_id s + 1) = Suc (Suc ?n)" using nx t(1) by (simp add: unat_add_u32)
  have "table_typed img (Suc ?n) (sa_map ts)"
    using ty t(5,7,8) nx sa(4) by (auto simp: table_typed_def)
  moreover have "in_state (sa_map ts) RUNNING i \<longleftrightarrow> i = unat (current_task_index s)" for i
    using run [of i] run [of ?n] sa(3) t(5,9) by (auto simp: in_state_def split: option.splits if_splits)
  ultimately show ?thesis using wf t(2-4) live nx' by (simp add: sched_typed_def sched_wf_def)
qed

text \<open>Creating a task fails only when the table is full or no stack can be had.\<close>

lemma create_fails:
  assumes wf: "sa_wf (tasks s)" and bad: "create_task img junk new sp name entry_point (s, mh) = Inl e"
  shows "e = Panic ''StaticArray full'' \<and> dom (task_tab s) = {..<length (slots (tasks s))} \<or> (\<exists>h. new h = Inl e)"
proof (cases "find_free_slot (tasks s) \<ge> sa_capacity (tasks s)")
  case True
  then have "dom (task_tab s) = {..<length (slots (tasks s))}"
    using find_free_slot_spec [OF wf] by (auto simp: u32_le_iff unat_sa_capacity [OF wf] split: if_splits)
  then show ?thesis using bad True by (simp add: create_task_def)
next
  case False
  then have nf: "dom (task_tab s) \<noteq> {..<length (slots (tasks s))}" using find_free_slot_spec [OF wf] by auto
  show ?thesis
  proof (cases "task_ctor img junk new sp (next_task_id s) name None mh")
    case (Inl f)
    then show ?thesis using False bad by (auto simp: create_task_def task_ctor_def kres_iffs Let_def)
  next
    case (Inr tm)
    obtain t mh1 where t: "tm = (t, mh1)" by (cases tm)
    obtain i ts where e: "sa_emplace (tasks s) t = Inr (i, ts)" "sa_map ts = (task_tab s)(unat i \<mapsto> t)" "sa_wf ts"
      using sa_emplace_result [OF wf, of t] nf by auto
    have "unat i \<in> dom (sa_map ts)" using e(2) by simp
    then obtain ts' where "sa_put ts i (t\<lparr>task_ctx := (task_ctx t)\<lparr>f_eax := entry_point\<rparr>\<rparr>) = Inr ts'"
      using sa_put_result [OF e(3)] by blast
    then show ?thesis using bad False Inr t e(1) by (simp add: create_task_def)
  qed
qed

section \<open>The first switch\<close>

text \<open>After construction the table holds the idle task alone.\<close>

definition just_constructed :: "task \<Rightarrow> scheduler \<Rightarrow> bool" where
  "just_constructed idle s \<longleftrightarrow> sa_wf (tasks s) \<and> length (slots (tasks s)) = 256 \<and> task_tab s = [0 \<mapsto> idle] \<and>
     live_count (tasks s) = 1 \<and> next_task_id s = 2 \<and> sched_initialized s \<and>
     task_state idle = READY \<and> task_id idle = 1 \<and> own_stack idle"

lemma scheduler_ctor_result:
  assumes "scheduler_ctor img junk new sched sp this slc w = Inr (s, p, t, mh)"
  shows "\<exists>idle. just_constructed idle s \<and> f_eax (task_ctx idle) = idle_fn img"
proof -
  obtain p0 t0 mh0 where w: "w = (p0, t0, mh0)" by (cases w)
  let ?s0 = "\<lparr>tasks = sa_init 256, current_task_index = 0, next_task_id = 1, sched_initialized = False, time_slice_ms = slc\<rparr> :: scheduler"
  obtain i s1 mh1 where c: "create_task img junk new sp ''idle'' (idle_fn img) (?s0, mh0) = Inr (i, s1, mh1)" "s = s1\<lparr>sched_initialized := True\<rparr>"
    using assms w by (auto simp: scheduler_ctor_def kres_iffs Let_def)
  have i0: "sa_wf (sa_init 256 :: task static_array)" and e: "task_tab ?s0 = Map.empty"
    by (simp_all add: sa_init_wf)
  have wf: "sa_wf (tasks ?s0)" "length (slots (tasks ?s0)) = 256" "dom (task_tab ?s0) = {..<0}"
    using i0 e by simp_all (simp add: sa_init_def)
  obtain idle ts where t: "s1 = ?s0\<lparr>tasks := ts, next_task_id := next_task_id ?s0 + 1\<rparr>" "sa_wf ts" "length (slots ts) = 256"
      "sa_map ts = (task_tab ?s0)(0 \<mapsto> idle)" "live_count ts = live_count (tasks ?s0) + 1"
      "task_id idle = next_task_id ?s0" "own_stack idle" "task_state idle = READY" "f_eax (task_ctx idle) = idle_fn img"
    using create_task_result [OF wf c(1)] by blast
  have "just_constructed idle s" using t(1-8) c(2) e by (simp add: just_constructed_def sa_init_def)
  then show ?thesis using t(9) by blast
qed

lemma idle_is_next:
  assumes "dom tab = {0, 1}" "in_state tab READY 0"
  shows "next_ready tab 1 = Some 0"
proof -
  have n: "rr_order 1 ! j = (2 + j) mod 256" if "j < 256" for j using that by (simp add: rr_order_def)
  have "\<not> in_state tab READY (rr_order 1 ! j)" if "j < 254" for j
  proof -
    have "(2 + j) mod 256 = 2 + j" using that by simp
    then have "2 + j \<notin> dom tab" "rr_order 1 ! j = 2 + j" using assms(1) n [of j] that by auto
    then show ?thesis by (auto simp: in_state_def split: option.splits)
  qed
  moreover have "rr_order 1 ! 254 = 0" using n [of 254] by simp
  moreover have "length (rr_order 1) = 256" by (simp add: rr_order_def)
  ultimately show ?thesis using assms(2)
    unfolding next_ready_def find_Some_iff by (intro exI [of _ 254]) simp
qed

lemma adopt_kernel:
  assumes j: "just_constructed idle s"
  shows "\<exists>s' k. schedule img junk a ctx s = Inr (task_ctx idle, s') \<and> sched_typed img s' \<and> current_task_index s' = 0 \<and>
    task_tab s' 1 = Some k \<and> task_ctx k = ctx \<and> task_state k = READY"
proof -
  have wf: "sa_wf (tasks s)" "length (slots (tasks s)) = 256" "task_tab s = [0 \<mapsto> idle]" "live_count (tasks s) = 1"
      "next_task_id s = 2" "sched_initialized s" "task_state idle = READY" "task_id idle = 1" "own_stack idle"
    using j by (auto simp: just_constructed_def)
  let ?k = "task_on_stack junk (next_task_id s) ''kernel'' (boot_stack img)" let ?k' = "?k\<lparr>task_ctx := ctx\<rparr>"
  have "(1 :: nat) \<notin> dom (task_tab s)" "(1 :: nat) \<in> {..<length (slots (tasks s))}" using wf(2,3) by simp_all
  then have "dom (task_tab s) \<noteq> {..<length (slots (tasks s))}" by metis
  then obtain i ts1 where e: "sa_emplace (tasks s) ?k = Inr (i, ts1)" "unat i \<notin> dom (task_tab s)" "\<forall>j < unat i. j \<in> dom (task_tab s)"
      "sa_map ts1 = (task_tab s)(unat i \<mapsto> ?k)" "sa_wf ts1" "length (slots ts1) = 256" "live_count ts1 = 2"
    using sa_emplace_result [OF wf(1), of ?k] wf(2,4) by auto
  have "unat i \<noteq> 0" "\<not> 1 < unat i" using e(2,3) wf(3) by auto
  then have i: "unat i = 1" by linarith
  have "unat i \<in> dom (sa_map ts1)" using e(4) by simp
  then obtain ts where p: "sa_put ts1 i ?k' = Inr ts" "sa_map ts = (sa_map ts1)(unat i \<mapsto> ?k')" "sa_wf ts"
      "length (slots ts) = length (slots ts1)" "live_count ts = live_count ts1"
    using sa_put_result [OF e(5)] by blast
  have m: "sa_map ts = [0 \<mapsto> idle, 1 \<mapsto> ?k']" using p(2) e(4) i wf(3) by (simp add: fun_eq_iff)
  let ?s1 = "s\<lparr>tasks := ts, next_task_id := next_task_id s + 1, current_task_index := 1\<rparr>"
  have w1: "sched_wf ?s1" using p(3,4,5) e(6,7) wf(6) by (simp add: sched_wf_def)
  have "next_ready (sa_map ts) 1 = Some 0" by (rule idle_is_next) (use m wf(7) in \<open>auto simp: in_state_def\<close>)
  then have scan: "sched_scan 256 ts 1 1 = Some (True, 0)"
    using sched_scan_eq [OF p(3), of 1 0 256 1] p(4) e(6) by (simp add: next_ready_def rr_order_def)
  obtain s2 where s2: "bindR (sa_put ts 0 (idle\<lparr>task_state := RUNNING\<rparr>)) (\<lambda>ts'. Inr (task_ctx idle, ?s1\<lparr>current_task_index := 0, tasks := ts'\<rparr>)) =
      Inr (task_ctx idle, s2)" "sched_wf s2" "sched_abs s2 = (0, resume 0 (sa_map ts))"
    using resume_step [OF w1, of 0 idle "task_ctx idle"] m by auto
  have "schedule img junk a ctx s = Inr (task_ctx idle, s2)"
    using s2(1) wf(4,6) e(1) p(1,3,4) e(6) scan m by (simp add: schedule_def sa_empty_def sa_get_map)
  moreover have t2: "task_tab s2 = [0 \<mapsto> idle\<lparr>task_state := RUNNING\<rparr>, 1 \<mapsto> ?k']" "unat (current_task_index s2) = 0"
    using s2(3) m by (auto simp: sched_abs_def resume_def)
  moreover have "sched_typed img s2"
  proof -
    have d: "dom (task_tab s2) = {0, 1}" using t2(1) by auto
    have l: "unat (live_count (tasks s2)) = 2" unfolding live_card [OF s2(2)] d by simp
    have nx: "next_task_id s2 = 3" using s2(1) wf(5) by (auto simp: kres_iffs)
    have "{0, 1} = {..<2 :: nat}" by auto
    then have "table_typed img 2 (task_tab s2)" using d t2(1) wf(5,8,9) by (simp add: table_typed_def task_on_stack_def)
    moreover have "in_state (task_tab s2) RUNNING j \<longleftrightarrow> j = 0" for j
      unfolding t2(1) by (simp add: in_state_def task_on_stack_def)
    ultimately show ?thesis using s2(2) l nx t2(2) by (simp add: sched_typed_def)
  qed
  ultimately show ?thesis
    by (intro exI [of _ s2] exI [of _ ?k']) (simp add: task_on_stack_def u32_eq_iff)
qed

section \<open>Every life of a scheduler\<close>

text \<open>
  What happens to a scheduler after the first switch: tasks are created (\<open>junk\<close> is the content of
  uninitialised memory, \<open>sp\<close> the stack pointer of the creator), and interrupts call \<^verbatim>\<open>schedule\<close> with
  the frame at some address.
\<close>

datatype sched_op = Create interrupt_frame u32 string u32 | Interrupt interrupt_frame u32 interrupt_frame

fun sched_op_step :: "image \<Rightarrow> ('h \<Rightarrow> (u32 \<times> 'h) kres) \<Rightarrow> sched_op \<Rightarrow> scheduler \<times> mem \<times> 'h \<Rightarrow> (scheduler \<times> mem \<times> 'h) kres" where
  "sched_op_step img new (Create junk sp name entry_point) w =
     bindR (create_task img junk new sp name entry_point w) (\<lambda>(i, w). Inr w)"
| "sched_op_step img new (Interrupt junk ctx_addr ctx) w =
     bindR (schedule img junk ctx_addr ctx (fst w)) (\<lambda>(c, s). Inr (s, snd w))"

primrec sched_ops :: "image \<Rightarrow> ('h \<Rightarrow> (u32 \<times> 'h) kres) \<Rightarrow> sched_op list \<Rightarrow> scheduler \<times> mem \<times> 'h \<Rightarrow> (scheduler \<times> mem \<times> 'h) kres" where
  "sched_ops img new [] w = Inr w"
| "sched_ops img new (op # ops) w = bindR (sched_op_step img new op w) (sched_ops img new ops)"

text \<open>A run ends in a typed state, or it ends because the table is full or memory is exhausted.\<close>

definition good_end :: "image \<Rightarrow> ('h \<Rightarrow> (u32 \<times> 'h) kres) \<Rightarrow> (scheduler \<times> mem \<times> 'h) kres \<Rightarrow> bool" where
  "good_end img new r = (case r of Inr w \<Rightarrow> sched_typed img (fst w)
     | Inl e \<Rightarrow> e = Panic ''StaticArray full'' \<or> (\<exists>h. new h = Inl e))"

lemma op_step_good: "sched_typed img (fst w) \<Longrightarrow> good_end img new (sched_op_step img new op w)"
proof (cases op)
  case (Create junk sp name e)
  assume ty: "sched_typed img (fst w)"
  obtain s mh where w: "w = (s, mh)" by (cases w)
  have wf: "sa_wf (tasks s)" using ty w by (simp add: sched_typed_def sched_wf_def)
  show ?thesis
  proof (cases "create_task img junk new sp name e w")
    case (Inl f)
    then show ?thesis using Create create_fails [OF wf, of img junk new sp name e mh f] w by (auto simp: good_end_def)
  next
    case (Inr r)
    obtain i s' mh' where r: "r = (i, s', mh')" by (cases r)
    then show ?thesis using Create Inr create_typed [of img s junk new sp name e mh i s' mh'] ty w by (simp add: good_end_def)
  qed
next
  case (Interrupt junk a ctx)
  assume "sched_typed img (fst w)"
  from schedule_typed [OF this, of junk a ctx] show ?thesis using Interrupt by (auto simp: good_end_def)
qed

lemma ops_good: "sched_typed img (fst w) \<Longrightarrow> good_end img new (sched_ops img new ops w)"
proof (induction ops arbitrary: w)
  case (Cons op ops)
  show ?case
  proof (cases "sched_op_step img new op w")
    case (Inl e)
    then show ?thesis using op_step_good [OF Cons.prems, of new op] by (simp add: good_end_def)
  next
    case (Inr w')
    then show ?thesis using op_step_good [OF Cons.prems, of new op] Cons.IH [of w'] by (simp add: good_end_def)
  qed
qed (simp add: good_end_def)

text \<open>
  Property C20 (type): the scheduler stays well typed for its whole life. Once the constructor has
  returned, the first switch, which \<^verbatim>\<open>Kernel::init\<close> forces with \<^verbatim>\<open>yield\<close>, ends: the interrupted kernel
  becomes the task in slot 1 with its frame kept, and the idle task runs. From then on, after any
  sequence of task creations and interrupts, the tasks fill the table from the front, a task's
  identifier is its slot plus one, every task but the kernel's owns its stack, and exactly the
  current task is running; no interrupt ever stops the kernel, and a creation only does when the
  table is full or no stack can be allocated.
\<close>

theorem scheduler_stays_typed:
  assumes "scheduler_ctor img junk new sched sp this slc w = Inr (s0, p, t, mh)"
  shows "\<exists>idle s1 k. task_tab s0 = [0 \<mapsto> idle] \<and> schedule img junk' a ctx s0 = Inr (task_ctx idle, s1) \<and>
    task_tab s1 1 = Some k \<and> task_ctx k = ctx \<and> task_state k = READY \<and> sched_typed img s1 \<and>
    good_end img new (sched_ops img new ops (s1, mh))"
proof -
  obtain idle where idle: "just_constructed idle s0" using scheduler_ctor_result [OF assms] by blast
  obtain s1 k where s1: "schedule img junk' a ctx s0 = Inr (task_ctx idle, s1)" "sched_typed img s1"
      "task_tab s1 1 = Some k" "task_ctx k = ctx" "task_state k = READY"
    using adopt_kernel [OF idle] by blast
  have "good_end img new (sched_ops img new ops (s1, mh))" by (rule ops_good) (use s1(2) in simp)
  then show ?thesis using idle s1 by (auto simp: just_constructed_def)
qed

definition example_new :: "unit \<Rightarrow> (u32 \<times> unit) kres" where
  "example_new h = Inr (0xB000, h)"

lemma example_ctor:
  "\<exists>s p t mh. scheduler_ctor example_image example_frame example_new (\<lambda>_. Inr) 0x9E00 0x200000 10
     (example_pit, example_idt, (\<lambda>_. 0), ()) = Inr (s, p, t, mh)"
proof -
  let ?s0 = "\<lparr>tasks = sa_init 256, current_task_index = 0, next_task_id = 1, sched_initialized = False, time_slice_ms = 10\<rparr> :: scheduler"
  let ?c = "create_task example_image example_frame example_new 0x9E00 ''idle'' (idle_fn example_image) (?s0, (\<lambda>_. 0), ())"
  have wf: "sa_wf (tasks ?s0)" and m: "task_tab ?s0 = Map.empty" by (simp_all add: sa_init_wf)
  have l: "length (slots (tasks ?s0)) = 256" by (simp add: sa_init_def)
  have ne: "{} \<noteq> {..<256 :: nat}" by (metis empty_iff lessThan_iff zero_less_numeral)
  have "?c \<noteq> Inl e" for e
    using create_fails [OF wf, of example_image example_frame example_new "0x9E00" "''idle''" "idle_fn example_image" "(\<lambda>_. 0, ())" e]
    using ne unfolding m l by (auto simp: example_new_def)
  then obtain i s mh where "?c = Inr (i, s, mh)" by (metis not_isl_Inr prod_cases3 isl_def)
  then show ?thesis by (cases mh) (simp add: scheduler_ctor_def)
qed

theorem scheduler_stays_typed_witness:
  "\<exists>s0 p t mh (idle :: task) s1. scheduler_ctor example_image example_frame example_new (\<lambda>_. Inr) 0x9E00 0x200000 10
     (example_pit, example_idt, (\<lambda>_. 0), ()) = Inr (s0, p, t, mh) \<and>
   schedule example_image example_frame 0x9F00 example_frame s0 = Inr (task_ctx idle, s1) \<and>
   good_end example_image example_new (sched_ops example_image example_new
     [Create example_frame 0x9E00 ''t'' 0x101000, Interrupt example_frame 0xBF00 example_frame] (s1, mh))"
proof -
  obtain s0 p t mh where c: "scheduler_ctor example_image example_frame example_new (\<lambda>_. Inr) 0x9E00 0x200000 10
     (example_pit, example_idt, (\<lambda>_. 0), ()) = Inr (s0, p, t, mh)" using example_ctor by blast
  from scheduler_stays_typed [OF this, of example_frame "0x9F00" example_frame
      "[Create example_frame 0x9E00 ''t'' 0x101000, Interrupt example_frame 0xBF00 example_frame]"] c
  show ?thesis by (elim exE conjE) (intro exI conjI, assumption+)
qed

end
