(* ===== verification/Shared_Ptr.thy ===== *)
theory Shared_Ptr
  imports Sync
begin

text \<open>
  \<^verbatim>\<open>klibcpp/memory.hpp\<close>: \<^verbatim>\<open>shared_ptr\<close>. The state is the control blocks that are allocated (named
  by numbers, as \<^verbatim>\<open>new\<close> hands them out), each with its object and its counter, and the
  \<^verbatim>\<open>shared_ptr\<close> variables, each null or pointing at a block; a variable that has been destroyed
  is null. Using a block that has been deleted is undefined. The destructor of the object
  itself is not modelled beyond the record that it ran.
\<close>

section \<open>State and operations\<close>

record shared_state =
  sp_blocks :: "nat \<Rightarrow> (u32 \<times> u32) option"
  sp_next :: nat
  sp_vars :: "nat option list"
  sp_deleted :: "u32 list"

definition sp_empty :: shared_state where
  "sp_empty = \<lparr>sp_blocks = (\<lambda>b. None), sp_next = 0, sp_vars = [], sp_deleted = []\<rparr>"

definition set_var :: "nat \<Rightarrow> nat option \<Rightarrow> shared_state \<Rightarrow> shared_state" where
  "set_var i v s = s\<lparr>sp_vars := (sp_vars s)[i := v]\<rparr>"

definition add_var :: "nat option \<Rightarrow> shared_state \<Rightarrow> shared_state" where
  "add_var v s = s\<lparr>sp_vars := sp_vars s @ [v]\<rparr>"

definition put_block :: "nat \<Rightarrow> (u32 \<times> u32) option \<Rightarrow> shared_state \<Rightarrow> shared_state" where
  "put_block b v s = s\<lparr>sp_blocks := (sp_blocks s)(b := v)\<rparr>"

text \<open>\<^verbatim>\<open>if (block) block->refcount.fetch_add(1)\<close>\<close>

definition sp_retain :: "nat option \<Rightarrow> shared_state \<Rightarrow> shared_state kres" where
  "sp_retain v s =
     (case v of None \<Rightarrow> Inr s
      | Some b \<Rightarrow> (case sp_blocks s b of
            None \<Rightarrow> Inl Undefined
          | Some (p, n) \<Rightarrow> Inr (put_block b (Some (p, snd (fetch_add n 1))) s)))"

definition sp_new_block :: "u32 \<Rightarrow> shared_state \<Rightarrow> nat \<times> shared_state" where
  "sp_new_block p s = (sp_next s, put_block (sp_next s) (Some (p, 1)) s\<lparr>sp_next := Suc (sp_next s)\<rparr>)"

definition sp_release :: "nat \<Rightarrow> shared_state \<Rightarrow> shared_state kres" where
  "sp_release i s =
     (case sp_vars s ! i of None \<Rightarrow> Inr s
      | Some b \<Rightarrow>
          let s = set_var i None s in
          case sp_blocks s b of
            None \<Rightarrow> Inl Undefined
          | Some (p, n) \<Rightarrow>
              let (old, n') = fetch_sub n 1 in
              if old = 1
              then Inr (put_block b None (if p \<noteq> 0 then s\<lparr>sp_deleted := sp_deleted s @ [p]\<rparr> else s))
              else Inr (put_block b (Some (p, n')) s))"

definition sp_ctor :: "shared_state \<Rightarrow> shared_state" where
  "sp_ctor s = add_var None s"

definition sp_ctor_ptr :: "u32 \<Rightarrow> shared_state \<Rightarrow> shared_state" where
  "sp_ctor_ptr p s = (let (b, s) = sp_new_block p s in add_var (Some b) s)"

definition sp_ctor_copy :: "nat \<Rightarrow> shared_state \<Rightarrow> shared_state kres" where
  "sp_ctor_copy j s = sp_retain (sp_vars s ! j) (add_var (sp_vars s ! j) s)"

definition sp_ctor_move :: "nat \<Rightarrow> shared_state \<Rightarrow> shared_state" where
  "sp_ctor_move j s = set_var j None (add_var (sp_vars s ! j) s)"

definition sp_assign_copy :: "nat \<Rightarrow> nat \<Rightarrow> shared_state \<Rightarrow> shared_state kres" where
  "sp_assign_copy i j s =
     (if i \<noteq> j
      then bindR (sp_release i s) (\<lambda>s. sp_retain (sp_vars s ! j) (set_var i (sp_vars s ! j) s))
      else Inr s)"

definition sp_assign_move :: "nat \<Rightarrow> nat \<Rightarrow> shared_state \<Rightarrow> shared_state kres" where
  "sp_assign_move i j s =
     (if i \<noteq> j
      then bindR (sp_release i s) (\<lambda>s. Inr (set_var j None (set_var i (sp_vars s ! j) s)))
      else Inr s)"

definition sp_reset :: "nat \<Rightarrow> shared_state \<Rightarrow> shared_state kres" where
  "sp_reset i s = bindR (sp_release i s) (\<lambda>s. Inr (set_var i None s))"

definition sp_reset_ptr :: "nat \<Rightarrow> u32 \<Rightarrow> shared_state \<Rightarrow> shared_state kres" where
  "sp_reset_ptr i p s =
     bindR (sp_release i s) (\<lambda>s.
       if p \<noteq> 0 then (let (b, s) = sp_new_block p s in Inr (set_var i (Some b) s))
       else Inr (set_var i None s))"

definition sp_get :: "nat \<Rightarrow> shared_state \<Rightarrow> u32 kres" where
  "sp_get i s =
     (case sp_vars s ! i of None \<Rightarrow> Inr 0
      | Some b \<Rightarrow> (case sp_blocks s b of None \<Rightarrow> Inl Undefined | Some (p, n) \<Rightarrow> Inr p))"

definition sp_use_count :: "nat \<Rightarrow> shared_state \<Rightarrow> u32 kres" where
  "sp_use_count i s =
     (case sp_vars s ! i of None \<Rightarrow> Inr 0
      | Some b \<Rightarrow> (case sp_blocks s b of None \<Rightarrow> Inl Undefined | Some (p, n) \<Rightarrow> Inr (atomic_load n)))"

definition sp_bool :: "nat \<Rightarrow> shared_state \<Rightarrow> bool kres" where
  "sp_bool i s = bindR (sp_get i s) (\<lambda>p. Inr (p \<noteq> 0))"

text \<open>The operations of a program on its \<^verbatim>\<open>shared_ptr\<close> variables, in the order it performs them.\<close>

datatype sp_op = Ctor | CtorPtr u32 | CtorCopy nat | CtorMove nat | AssignCopy nat nat |
  AssignMove nat nat | Dtor nat | Reset nat | ResetPtr nat u32

fun sp_step :: "sp_op \<Rightarrow> shared_state \<Rightarrow> shared_state kres" where
  "sp_step Ctor s = Inr (sp_ctor s)"
| "sp_step (CtorPtr p) s = Inr (sp_ctor_ptr p s)"
| "sp_step (CtorCopy j) s = sp_ctor_copy j s"
| "sp_step (CtorMove j) s = Inr (sp_ctor_move j s)"
| "sp_step (AssignCopy i j) s = sp_assign_copy i j s"
| "sp_step (AssignMove i j) s = sp_assign_move i j s"
| "sp_step (Dtor i) s = sp_release i s"
| "sp_step (Reset i) s = sp_reset i s"
| "sp_step (ResetPtr i p) s = sp_reset_ptr i p s"

primrec sp_run :: "sp_op list \<Rightarrow> shared_state \<Rightarrow> shared_state kres" where
  "sp_run [] s = Inr s"
| "sp_run (op # ops) s = bindR (sp_step op s) (sp_run ops)"

text \<open>A program names only variables it has, \<open>n\<close> of them at the start.\<close>

fun op_vars :: "sp_op \<Rightarrow> nat list" where
  "op_vars (CtorCopy j) = [j]"
| "op_vars (CtorMove j) = [j]"
| "op_vars (AssignCopy i j) = [i, j]"
| "op_vars (AssignMove i j) = [i, j]"
| "op_vars (Dtor i) = [i]"
| "op_vars (Reset i) = [i]"
| "op_vars (ResetPtr i p) = [i]"
| "op_vars op = []"

fun op_adds :: "sp_op \<Rightarrow> nat" where
  "op_adds Ctor = 1"
| "op_adds (CtorPtr p) = 1"
| "op_adds (CtorCopy j) = 1"
| "op_adds (CtorMove j) = 1"
| "op_adds op = 0"

primrec ops_ok :: "nat \<Rightarrow> sp_op list \<Rightarrow> bool" where
  "ops_ok n [] = (n < 4294967296)"
| "ops_ok n (op # ops) = ((\<forall>i \<in> set (op_vars op). i < n) \<and> ops_ok (n + op_adds op) ops)"

section \<open>The counters\<close>

definition sp_users :: "nat \<Rightarrow> shared_state \<Rightarrow> nat" where
  "sp_users b s = count_list (sp_vars s) (Some b)"

text \<open>
  Every block's counter is the number of variables that point at it, and a block whose counter
  is zero is gone; \<open>sp_owed v\<close> allows one variable that has copied \<open>v\<close> and not counted itself yet.
\<close>

definition sp_owed :: "nat option \<Rightarrow> shared_state \<Rightarrow> bool" where
  "sp_owed v s \<longleftrightarrow>
     (\<forall>b. case sp_blocks s b of None \<Rightarrow> sp_users b s = 0
        | Some (p, n) \<Rightarrow> 0 < unat n \<and> sp_users b s = unat n + of_bool (v = Some b)) \<and>
     (\<forall>b \<ge> sp_next s. sp_blocks s b = None)"

definition sp_inv :: "shared_state \<Rightarrow> bool" where
  "sp_inv s \<longleftrightarrow> sp_owed None s"

lemma count_list_update:
  "i < length xs \<Longrightarrow> count_list (xs[i := v]) y + of_bool (xs ! i = y) = count_list xs y + of_bool (v = y)"
proof (induction xs arbitrary: i)
  case (Cons x xs)
  then show ?case using Cons.IH [of "i - 1"] by (cases i) auto
qed simp

lemma count_list_le: "count_list xs y \<le> length xs"
  by (induction xs) auto

lemma sp_sels [simp]:
  "sp_vars (set_var i v s) = (sp_vars s)[i := v]" "sp_blocks (set_var i v s) = sp_blocks s"
  "sp_next (set_var i v s) = sp_next s"
  "sp_vars (add_var v s) = sp_vars s @ [v]" "sp_blocks (add_var v s) = sp_blocks s"
  "sp_next (add_var v s) = sp_next s"
  "sp_vars (put_block b e s) = sp_vars s" "sp_blocks (put_block b e s) = (sp_blocks s)(b := e)"
  "sp_next (put_block b e s) = sp_next s"
  by (simp_all add: set_var_def add_var_def put_block_def)

lemma sp_users_cong: "sp_vars s' = sp_vars s \<Longrightarrow> sp_users b s' = sp_users b s"
  by (simp add: sp_users_def)

lemma sp_users_add: "sp_users b (add_var v s) = sp_users b s + of_bool (v = Some b)"
  by (simp add: sp_users_def)

lemma sp_users_set:
  "i < length (sp_vars s) \<Longrightarrow>
   sp_users b (set_var i v s) + of_bool (sp_vars s ! i = Some b) = sp_users b s + of_bool (v = Some b)"
  by (simp add: sp_users_def count_list_update)

lemma sp_users_le: "sp_users b s \<le> length (sp_vars s)"
  by (simp add: sp_users_def count_list_le)

lemma sp_users_pos: "i < length (sp_vars s) \<Longrightarrow> sp_vars s ! i = Some b \<Longrightarrow> 0 < sp_users b s"
  using nth_mem [of i "sp_vars s"] by (simp add: sp_users_def count_list_0_iff neq0_conv [symmetric])

lemma sp_inv_block:
  assumes "sp_inv s" "sp_blocks s b = Some (p, n)"
  shows "unat n = sp_users b s" "0 < unat n" "b < sp_next s"
proof -
  have "case sp_blocks s b of None \<Rightarrow> sp_users b s = 0
        | Some (p, n) \<Rightarrow> 0 < unat n \<and> sp_users b s = unat n + of_bool (None = Some b)"
    using assms(1) unfolding sp_inv_def sp_owed_def by blast
  then show "unat n = sp_users b s" "0 < unat n" using assms(2) by simp_all
  have "sp_next s \<le> b \<Longrightarrow> sp_blocks s b = None" using assms(1) by (simp add: sp_inv_def sp_owed_def)
  then show "b < sp_next s" using assms(2) by (cases "sp_next s \<le> b") auto
qed

lemma sp_inv_no_block: "sp_inv s \<Longrightarrow> sp_blocks s b = None \<Longrightarrow> sp_users b s = 0"
  unfolding sp_inv_def sp_owed_def by (erule conjE, drule spec [of _ b]) simp

lemma sp_inv_var:
  assumes "sp_inv s" "i < length (sp_vars s)" "sp_vars s ! i = Some b"
  shows "\<exists>p n. sp_blocks s b = Some (p, n)"
  using sp_inv_no_block [OF assms(1), of b] sp_users_pos [OF assms(2,3)]
  by (cases "sp_blocks s b") auto

lemma sp_invI:
  assumes "\<And>b p n. sp_blocks s b = Some (p, n) \<Longrightarrow> 0 < unat n \<and> sp_users b s = unat n + of_bool (v = Some b)"
    and "\<And>b. sp_blocks s b = None \<Longrightarrow> sp_users b s = 0"
    and "\<And>b. sp_next s \<le> b \<Longrightarrow> sp_blocks s b = None"
  shows "sp_owed v s"
  unfolding sp_owed_def using assms by (auto split: option.split)

lemma sp_owe:
  assumes "sp_inv s" "\<And>b. sp_users b s' = sp_users b s + of_bool (v = Some b)"
    "sp_blocks s' = sp_blocks s" "sp_next s' = sp_next s" "v \<in> set (sp_vars s) \<union> {None}"
  shows "sp_owed v s'"
proof (rule sp_invI)
  fix b assume "sp_blocks s' b = None"
  then have "sp_blocks s b = None" using assms(3) by simp
  moreover from this have "v \<noteq> Some b"
    using assms(5) sp_inv_var [OF assms(1), of _ b] by (auto simp: in_set_conv_nth)
  ultimately show "sp_users b s' = 0" using assms(2) sp_inv_no_block [OF assms(1)] by simp
next
  fix b assume "sp_next s' \<le> b"
  then show "sp_blocks s' b = None"
    using assms(1,3,4) by (simp add: sp_inv_def sp_owed_def)
qed (use assms in \<open>auto dest: sp_inv_block\<close>)

lemma sp_retain_inv:
  assumes "sp_owed v s" "length (sp_vars s) < 4294967296" "v \<in> set (sp_vars s)"
  shows "\<exists>s'. sp_retain v s = Inr s' \<and> sp_inv s' \<and> sp_vars s' = sp_vars s"
proof (cases v)
  case None
  then show ?thesis using assms by (simp add: sp_retain_def sp_inv_def)
next
  case (Some b)
  have at: "case sp_blocks s c of None \<Rightarrow> sp_users c s = 0
        | Some (p, n) \<Rightarrow> 0 < unat n \<and> sp_users c s = unat n + of_bool (v = Some c)" for c
    using assms(1) unfolding sp_owed_def by blast
  have "sp_users b s \<noteq> 0" using assms(3) Some by (simp add: sp_users_def count_list_0_iff)
  then obtain p n where b: "sp_blocks s b = Some (p, n)" "sp_users b s = unat n + 1"
    using at [of b] Some by (auto split: option.splits)
  have "unat n + unat (1 :: u32) < 4294967296" using b(2) sp_users_le [of b s] assms(2) by simp
  then have n: "unat (n + 1) = unat n + 1" using unat_add_u32 [of n 1] by simp
  let ?s = "put_block b (Some (p, n + 1)) s"
  have "sp_inv ?s" unfolding sp_inv_def
  proof (rule sp_invI)
    fix c q k assume "sp_blocks ?s c = Some (q, k)"
    then show "0 < unat k \<and> sp_users c ?s = unat k + of_bool (None = Some c)"
      using at [of c] b n Some by (auto simp: sp_users_cong [of ?s s] split: if_splits)
  next
    fix c assume "sp_blocks ?s c = None"
    then show "sp_users c ?s = 0" using at [of c] by (simp add: sp_users_cong [of ?s s] split: if_splits)
  next
    fix c assume "sp_next ?s \<le> c"
    then have "sp_blocks s c = None" using assms(1) by (simp add: sp_owed_def)
    then show "sp_blocks ?s c = None" using b(1) by auto
  qed
  then show ?thesis using b(1) Some by (simp add: sp_retain_def fetch_add_def)
qed

lemma sp_release_inv:
  assumes "sp_inv s" "i < length (sp_vars s)"
  shows "\<exists>s'. sp_release i s = Inr s' \<and> sp_inv s' \<and> sp_vars s' = (sp_vars s)[i := None]"
proof (cases "sp_vars s ! i")
  case None
  then have "(sp_vars s)[i := None] = sp_vars s" by (metis list_update_id)
  with None assms show ?thesis by (simp add: sp_release_def)
next
  case (Some b)
  obtain p n where b: "sp_blocks s b = Some (p, n)" using sp_inv_var [OF assms Some] by blast
  note n = sp_inv_block(1,2) [OF assms(1) b]
  define d where "d = (if p \<noteq> 0 then (set_var i None s)\<lparr>sp_deleted := sp_deleted s @ [p]\<rparr> else set_var i None s)"
  have sel: "sp_vars d = (sp_vars s)[i := None]" "sp_blocks d = sp_blocks s" "sp_next d = sp_next s"
    by (simp_all add: d_def)
  define e where "e = (if n = 1 then None else Some (p, n - 1))"
  define t where "t = put_block b e (if n = 1 then d else set_var i None s)"
  have dd: "sp_release i s = Inr t"
    using Some b by (simp add: sp_release_def fetch_sub_def d_def e_def set_var_def t_def)
  have tv: "sp_vars t = (sp_vars s)[i := None]" using sel by (simp add: t_def)
  have "sp_owed None t"
  proof -
    have us: "sp_users c t + of_bool (c = b) = sp_users c s" for c
      using sp_users_set [OF assms(2), of c None] Some tv by (auto simp: sp_users_def)
    have bl: "sp_blocks t = (sp_blocks s)(b := e)" "sp_next t = sp_next s" using sel by (simp_all add: t_def)
    have n1: "n \<noteq> 1 \<Longrightarrow> 0 < unat (n - 1) \<and> unat (n - 1) = unat n - 1"
      using n(2) unat_sub_u32 [of 1 n] by (simp add: u32_le_iff u32_eq_iff)
    show ?thesis
    proof (rule sp_invI)
      fix c q k assume c: "sp_blocks t c = Some (q, k)"
      show "0 < unat k \<and> sp_users c t = unat k + of_bool (None = Some c)"
      proof (cases "c = b")
        case True
        then have ne: "n \<noteq> 1" and k: "k = n - 1" using c bl by (simp_all add: e_def split: if_splits)
        have "0 < unat k \<and> unat k = unat n - 1" unfolding k by (rule n1 [OF ne])
        moreover have "sp_users c t = unat n - 1" using us [of b] n(1) True by simp
        ultimately show ?thesis by auto
      next
        case False
        then show ?thesis using c bl us [of c] sp_inv_block [OF assms(1), of c q k] by simp
      qed
    next
      fix c assume c: "sp_blocks t c = None"
      show "sp_users c t = 0"
      proof (cases "c = b")
        case True
        then have "n = 1" using c bl by (simp add: e_def split: if_splits)
        then show ?thesis using n us [of c] True by simp
      next
        case False
        then show ?thesis using c bl us [of c] sp_inv_no_block [OF assms(1), of c] by simp
      qed
    next
      fix c assume "sp_next t \<le> c"
      then show "sp_blocks t c = None"
        using assms(1) bl sp_inv_block(3) [OF assms(1) b] by (auto simp: sp_inv_def sp_owed_def)
    qed
  qed
  then show ?thesis using dd tv by (auto simp: sp_inv_def)
qed


text \<open>Every operation keeps the counters exact, and none touches a block that is gone.\<close>

lemma sp_new_block_inv:
  assumes "sp_inv s" "sp_new_block p s = (b, s1)" "sp_blocks s2 = sp_blocks s1" "sp_next s2 = sp_next s1"
    and "\<And>c. sp_users c s2 = sp_users c s + of_bool (c = b)"
  shows "sp_inv s2"
  unfolding sp_inv_def
proof (rule sp_invI)
  have bl: "sp_blocks s2 = (sp_blocks s)(b := Some (p, 1))" "b = sp_next s" "sp_next s2 = Suc b"
    using assms(2-4) by (auto simp: sp_new_block_def)
  have b0: "sp_users b s = 0" using assms(1) bl(2) by (intro sp_inv_no_block) (simp_all add: sp_inv_def sp_owed_def)
  show "0 < unat n \<and> sp_users c s2 = unat n + of_bool (None = Some c)" if "sp_blocks s2 c = Some (q, n)" for c q n
    using that bl b0 assms(5) [of c] sp_inv_block [OF assms(1), of c q n] by (cases "c = b") auto
  show "sp_users c s2 = 0" if "sp_blocks s2 c = None" for c
    using that bl assms(5) [of c] sp_inv_no_block [OF assms(1), of c] by (cases "c = b") auto
  show "sp_blocks s2 c = None" if "sp_next s2 \<le> c" for c
    using that bl assms(1) by (auto simp: sp_inv_def sp_owed_def)
qed

lemma sp_ctor_inv:
  assumes "sp_inv s"
  shows "sp_inv (sp_ctor s)" "sp_inv (sp_ctor_ptr p s)" "j < length (sp_vars s) \<Longrightarrow> sp_inv (sp_ctor_move j s)"
proof -
  show "sp_inv (sp_ctor s)" unfolding sp_inv_def
    by (rule sp_owe [OF assms]) (simp_all add: sp_ctor_def sp_users_add)
  obtain b s1 where b: "sp_new_block p s = (b, s1)" by fastforce
  then have s1: "sp_vars s1 = sp_vars s" by (auto simp: sp_new_block_def)
  show "sp_inv (sp_ctor_ptr p s)"
    by (rule sp_new_block_inv [OF assms b]) (auto simp: sp_ctor_ptr_def b sp_users_add sp_users_cong [OF s1])
  assume j: "j < length (sp_vars s)"
  have "sp_users c (sp_ctor_move j s) = sp_users c s" for c
    using sp_users_set [of j "add_var (sp_vars s ! j) s" c None] j
    by (simp add: sp_ctor_move_def sp_users_add nth_append)
  then show "sp_inv (sp_ctor_move j s)" unfolding sp_inv_def
    by (intro sp_owe [OF assms]) (simp_all add: sp_ctor_move_def)
qed

lemma sp_ctor_copy_inv:
  assumes "sp_inv s" "j < length (sp_vars s)" "length (sp_vars s) + 1 < 4294967296"
  shows "\<exists>s'. sp_ctor_copy j s = Inr s' \<and> sp_inv s' \<and> length (sp_vars s') = length (sp_vars s) + 1"
proof -
  have "sp_owed (sp_vars s ! j) (add_var (sp_vars s ! j) s)"
    using assms(2) by (intro sp_owe [OF assms(1)]) (simp_all add: sp_users_add)
  then show ?thesis using sp_retain_inv [of "sp_vars s ! j" "add_var (sp_vars s ! j) s"] assms(3)
    by (auto simp: sp_ctor_copy_def)
qed

lemma sp_assign_inv:
  assumes "sp_inv s" "i < length (sp_vars s)" "j < length (sp_vars s)" "length (sp_vars s) < 4294967296"
  shows "\<exists>s'. sp_assign_copy i j s = Inr s' \<and> sp_inv s' \<and> length (sp_vars s') = length (sp_vars s)"
    "\<exists>s'. sp_assign_move i j s = Inr s' \<and> sp_inv s' \<and> length (sp_vars s') = length (sp_vars s)"
proof -
  obtain t where t: "sp_release i s = Inr t" "sp_inv t" "sp_vars t = (sp_vars s)[i := None]"
    using sp_release_inv [OF assms(1,2)] by blast
  let ?v = "sp_vars t ! j"
  have i: "i < length (sp_vars t)" "sp_vars t ! i = None" "j < length (sp_vars t)" using t(3) assms(2,3) by simp_all
  have us: "sp_users c (set_var i ?v t) = sp_users c t + of_bool (?v = Some c)" for c
    using sp_users_set [OF i(1), of c ?v] i(2) by simp
  have "sp_owed ?v (set_var i ?v t)" using i(3) by (intro sp_owe [OF t(2)]) (simp_all add: us)
  then show "\<exists>s'. sp_assign_copy i j s = Inr s' \<and> sp_inv s' \<and> length (sp_vars s') = length (sp_vars s)"
    using sp_retain_inv [of ?v "set_var i ?v t"] assms t i set_update_memI [OF i(1), of ?v]
    by (auto simp: sp_assign_copy_def)
  have "sp_inv (set_var j None (set_var i ?v t))" if "i \<noteq> j"
    unfolding sp_inv_def using us that sp_users_set [of j "set_var i ?v t" _ None] i
    by (intro sp_owe [OF t(2)]) (simp_all)
  then show "\<exists>s'. sp_assign_move i j s = Inr s' \<and> sp_inv s' \<and> length (sp_vars s') = length (sp_vars s)"
    using t assms(1) by (simp add: sp_assign_move_def)
qed

lemma sp_reset_inv:
  assumes "sp_inv s" "i < length (sp_vars s)"
  shows "\<exists>s'. sp_reset i s = Inr s' \<and> sp_inv s' \<and> length (sp_vars s') = length (sp_vars s)"
    "\<exists>s'. sp_reset_ptr i p s = Inr s' \<and> sp_inv s' \<and> length (sp_vars s') = length (sp_vars s)"
proof -
  obtain t where t: "sp_release i s = Inr t" "sp_inv t" "sp_vars t = (sp_vars s)[i := None]"
    using sp_release_inv [OF assms] by blast
  have i: "i < length (sp_vars t)" "sp_vars t ! i = None" using t(3) assms(2) by simp_all
  have null: "sp_inv (set_var i None t)"
    unfolding sp_inv_def using sp_users_set [OF i(1), of _ None] i(2) by (intro sp_owe [OF t(2)]) simp_all
  then show "\<exists>s'. sp_reset i s = Inr s' \<and> sp_inv s' \<and> length (sp_vars s') = length (sp_vars s)"
    using t by (simp add: sp_reset_def)
  obtain b s1 where b: "sp_new_block p t = (b, s1)" by fastforce
  then have s1: "sp_vars s1 = sp_vars t" by (auto simp: sp_new_block_def)
  have "sp_inv (set_var i (Some b) s1)"
    using sp_users_set [of i s1 _ "Some b"] i s1
    by (intro sp_new_block_inv [OF t(2) b]) (auto simp: sp_users_cong [OF s1])
  then show "\<exists>s'. sp_reset_ptr i p s = Inr s' \<and> sp_inv s' \<and> length (sp_vars s') = length (sp_vars s)"
    using null t b s1 by (simp add: sp_reset_ptr_def)
qed

lemma sp_step_inv:
  assumes "sp_inv s" "\<forall>i \<in> set (op_vars op). i < length (sp_vars s)"
    "length (sp_vars s) + op_adds op < 4294967296"
  shows "\<exists>s'. sp_step op s = Inr s' \<and> sp_inv s' \<and> length (sp_vars s') = length (sp_vars s) + op_adds op"
proof (cases op)
  case (CtorPtr p)
  moreover have "length (sp_vars (sp_ctor_ptr p s)) = length (sp_vars s) + 1"
    by (simp add: sp_ctor_ptr_def sp_new_block_def)
  ultimately show ?thesis using sp_ctor_inv [OF assms(1)] by simp
next
  case (Dtor i)
  then show ?thesis using sp_release_inv [OF assms(1), of i] assms(2) by auto
qed (use assms sp_ctor_inv [OF assms(1)] sp_ctor_copy_inv [OF assms(1)] sp_assign_inv [OF assms(1)]
    sp_reset_inv [OF assms(1)] in \<open>auto simp: sp_ctor_def sp_ctor_move_def\<close>)

lemma ops_ok_bound: "ops_ok n ops \<Longrightarrow> n < 4294967296"
  by (induction ops arbitrary: n) fastforce+

lemma sp_run_inv:
  "sp_inv s \<Longrightarrow> ops_ok (length (sp_vars s)) ops \<Longrightarrow> \<exists>s'. sp_run ops s = Inr s' \<and> sp_inv s'"
proof (induction ops arbitrary: s)
  case (Cons op ops)
  obtain s' where s': "sp_step op s = Inr s'" "sp_inv s'" "length (sp_vars s') = length (sp_vars s) + op_adds op"
    using sp_step_inv [OF Cons.prems(1), of op] Cons.prems(2) ops_ok_bound by fastforce
  then show ?case using Cons.IH [OF s'(2)] Cons.prems(2) by simp
qed simp

lemma sp_inv_empty: "sp_inv sp_empty"
  by (simp add: sp_inv_def sp_owed_def sp_empty_def sp_users_def)

lemma sp_inv_use_count:
  assumes "sp_inv s" "i < length (sp_vars s)"
  shows "\<exists>n. sp_use_count i s = Inr n \<and> unat n = (case sp_vars s ! i of None \<Rightarrow> 0 | Some b \<Rightarrow> sp_users b s)"
proof (cases "sp_vars s ! i")
  case (Some b)
  obtain p n where "sp_blocks s b = Some (p, n)" using sp_inv_var [OF assms Some] by blast
  then show ?thesis using Some sp_inv_block(1) [OF assms(1)] by (simp add: sp_use_count_def atomic_load_def)
qed (simp add: sp_use_count_def)

text \<open>
  Property C11 (invariant): whatever sequence of constructions, copies, moves, assignments,
  resets and destructions a program performs on its \<^verbatim>\<open>shared_ptr\<close> variables, no operation uses
  a control block after its deletion, a control block exists exactly as long as some variable
  points at it, and \<^verbatim>\<open>use_count\<close> is the number of variables that do (fewer than 2^32 variables).
\<close>

theorem shared_ptr_counts_exact:
  assumes "ops_ok 0 ops"
  shows "\<exists>s. sp_run ops sp_empty = Inr s \<and>
    (\<forall>b. sp_blocks s b \<noteq> None \<longleftrightarrow> Some b \<in> set (sp_vars s)) \<and>
    (\<forall>i < length (sp_vars s). \<exists>n. sp_use_count i s = Inr n \<and>
       unat n = (case sp_vars s ! i of None \<Rightarrow> 0 | Some b \<Rightarrow> count_list (sp_vars s) (Some b)))"
proof -
  obtain s where s: "sp_run ops sp_empty = Inr s" "sp_inv s"
    using sp_run_inv [OF sp_inv_empty, of ops] assms by (auto simp: sp_empty_def)
  have "sp_blocks s b \<noteq> None \<longleftrightarrow> Some b \<in> set (sp_vars s)" for b
  proof (cases "sp_blocks s b")
    case None
    then show ?thesis using sp_inv_no_block [OF s(2)] by (simp add: sp_users_def count_list_0_iff)
  next
    case (Some e)
    then obtain p n where e: "sp_blocks s b = Some (p, n)" by (cases e) auto
    then have "sp_users b s \<noteq> 0" using sp_inv_block(1,2) [OF s(2) e] by simp
    then show ?thesis using Some by (simp add: sp_users_def count_list_0_iff)
  qed
  then show ?thesis using s(1) sp_inv_use_count [OF s(2), unfolded sp_users_def] by blast
qed

text \<open>An example: a pointer, two copies, a move and a reset; then all are destroyed.\<close>

definition sp_example :: "sp_op list" where
  "sp_example = [CtorPtr 0x1000, CtorCopy 0, Ctor, AssignCopy 2 1, CtorMove 0, Reset 1]"

text \<open>The theorem at the example: the block lives, and two variables share it.\<close>

theorem shared_ptr_counts_exact_witness:
  "\<exists>s. sp_run sp_example sp_empty = Inr s \<and> sp_blocks s 0 \<noteq> None \<and> sp_use_count 2 s = Inr 2 \<and>
     (\<exists>n. sp_use_count 2 s = Inr n \<and> unat n = 2)"
proof -
  have ok: "ops_ok 0 sp_example" by (simp add: sp_example_def)
  note ops = sp_ctor_def sp_ctor_ptr_def sp_ctor_copy_def sp_ctor_move_def sp_assign_copy_def sp_reset_def
    sp_release_def sp_retain_def sp_new_block_def set_var_def add_var_def put_block_def fetch_add_def fetch_sub_def
  obtain s where s: "sp_run sp_example sp_empty = Inr s"
    and live: "\<forall>b. sp_blocks s b \<noteq> None \<longleftrightarrow> Some b \<in> set (sp_vars s)"
    and uses: "\<forall>i < length (sp_vars s). \<exists>n. sp_use_count i s = Inr n \<and>
       unat n = (case sp_vars s ! i of None \<Rightarrow> 0 | Some b \<Rightarrow> count_list (sp_vars s) (Some b))"
    using shared_ptr_counts_exact [OF ok] by blast
  have vars: "sp_vars s = [None, None, Some 0, Some 0]"
    using s by (auto simp: sp_example_def sp_empty_def ops)
  then obtain n where n: "sp_use_count 2 s = Inr n" "unat n = 2" using uses [rule_format, of 2] by auto
  moreover from this have "n = 2" by (simp add: u32_eq_iff)
  ultimately show ?thesis using s live vars by auto
qed

end
