(* ===== verification/Self_Tests.thy ===== *)
theory Self_Tests
  imports Bitmap Layout Static_Array Shared_Ptr Core_Stack Sync IDT Runtime
begin

text \<open>
  The kernel's own tests, \<^verbatim>\<open>ktest/engine.hpp\<close> and \<^verbatim>\<open>ktest/builtin.hpp\<close>: the session that counts checks
  and failures, and the cases that exercise the components of this library. A case is a function on
  the state it works on and the session; that it passes is a statement about the model which the
  authors of the code wrote down for the code. The expectations are in the order of the source;
  what a failed one prints is left out.
\<close>

section \<open>The session\<close>

record session =
  suite_count :: u32
  case_count :: u32
  check_count :: u32
  failure_count :: u32
  case_failure_marker :: u32
  run_name :: "string option"
  current_suite :: "string option"
  current_case :: "string option"
  started :: bool
  completed :: bool

definition new_session :: session where
  "new_session = \<lparr>suite_count = 0, case_count = 0, check_count = 0, failure_count = 0, case_failure_marker = 0,
     run_name = None, current_suite = None, current_case = None, started = False, completed = False\<rparr>"

definition start_session :: "string \<Rightarrow> session \<Rightarrow> session" where
  "start_session name s = (if started s then s else s\<lparr>started := True, run_name := Some name\<rparr>)"

definition begin_suite :: "string \<Rightarrow> session \<Rightarrow> session" where
  "begin_suite name s = s\<lparr>suite_count := suite_count s + 1, current_suite := Some name\<rparr>"

definition end_suite :: "session \<Rightarrow> session" where
  "end_suite s = s\<lparr>current_suite := None\<rparr>"

definition begin_case :: "string \<Rightarrow> session \<Rightarrow> session" where
  "begin_case name s =
     s\<lparr>case_count := case_count s + 1, current_case := Some name, case_failure_marker := failure_count s\<rparr>"

definition end_case :: "session \<Rightarrow> session" where
  "end_case s = s\<lparr>current_case := None\<rparr>"

definition expect :: "bool \<Rightarrow> session \<Rightarrow> bool \<times> session" where
  "expect condition s =
     (let s = s\<lparr>check_count := check_count s + 1\<rparr> in
      if condition then (True, s) else (False, s\<lparr>failure_count := failure_count s + 1\<rparr>))"

definition complete_session :: "session \<Rightarrow> session" where
  "complete_session s = (if completed s then s else s\<lparr>completed := True\<rparr>)"

text \<open>A case, a run of consecutive \<^verbatim>\<open>KTEST_EXPECT\<close>, and \<^verbatim>\<open>KTEST_ASSERT\<close>, which leaves the case when it fails.\<close>

type_synonym 'w test_case = "'w \<times> session \<Rightarrow> ('w \<times> session) kres"

definition run_case :: "string \<Rightarrow> 'w test_case \<Rightarrow> 'w test_case" where
  "run_case name fn ws =
     bindR (fn (fst ws, begin_case name (snd ws))) (\<lambda>(w, s). Inr (w, end_case s))"

primrec expects :: "bool list \<Rightarrow> session \<Rightarrow> session" where
  "expects [] s = s"
| "expects (c # cs) s = expects cs (snd (expect c s))"

definition ktest_assert :: "bool \<Rightarrow> 'w \<Rightarrow> session \<Rightarrow> (session \<Rightarrow> ('w \<times> session) kres) \<Rightarrow> ('w \<times> session) kres" where
  "ktest_assert c w s k = (case expect c s of (ok, s) \<Rightarrow> if ok then k s else Inr (w, s))"

text \<open>\<open>n\<close> more checks and no failure.\<close>

definition passed :: "u32 \<Rightarrow> session \<Rightarrow> session" where
  "passed n s = s\<lparr>check_count := check_count s + n\<rparr>"

lemma expects_True: "list_all id cs \<Longrightarrow> expects cs s = passed (word_of_nat (length cs)) s"
  by (induction cs arbitrary: s) (simp_all add: passed_def expect_def add.assoc)

lemma expect_True [simp]: "snd (expect True s) = passed 1 s"
  by (simp add: expect_def passed_def)

lemma ktest_assert_True [simp]: "ktest_assert True w s k = k (passed 1 s)"
  by (simp add: ktest_assert_def expect_def passed_def)

lemma passed_passed [simp]: "passed m (passed n s) = passed (n + m) s"
  by (simp add: passed_def add.assoc)

text \<open>A session never loses a failure, and a case is reported as passed exactly if none of its checks failed.\<close>

lemma expects_counts:
  "check_count (expects cs s) = check_count s + word_of_nat (length cs)"
  "failure_count (expects cs s) = failure_count s + word_of_nat (length (filter Not cs))"
  by (induction cs arbitrary: s) (simp_all add: expect_def Let_def add.assoc)

section \<open>The state of the tests\<close>

record test_state =
  ran_immediate :: bool
  ran_finalize :: bool
  atexit_registered :: bool
  global_ctor_count :: u32
  global_dtor_count :: u32
  local_ctor_count :: u32
  local_dtor_count :: u32
  shared_ctor_count :: u32
  shared_dtor_count :: u32
  slot_ctor_count :: u32
  slot_dtor_count :: u32
  array_ctor_count :: u32
  array_dtor_count :: u32
  atexit_calls :: u32

text \<open>The probes: constructors and destructors count themselves. \<open>xs\<close> are the objects destroyed.\<close>

definition slot_probe :: "test_state \<Rightarrow> test_state" where
  "slot_probe st = st\<lparr>slot_ctor_count := slot_ctor_count st + 1\<rparr>"

definition slot_probes_end :: "u32 list \<Rightarrow> test_state \<Rightarrow> test_state" where
  "slot_probes_end xs st = st\<lparr>slot_dtor_count := slot_dtor_count st + word_of_nat (length xs)\<rparr>"

definition array_probe :: "test_state \<Rightarrow> test_state" where
  "array_probe st = st\<lparr>array_ctor_count := array_ctor_count st + 1\<rparr>"

definition array_probes_end :: "u32 list \<Rightarrow> test_state \<Rightarrow> test_state" where
  "array_probes_end xs st = st\<lparr>array_dtor_count := array_dtor_count st + word_of_nat (length xs)\<rparr>"

definition option_list :: "'a option \<Rightarrow> 'a list" where
  "option_list x = (case x of None \<Rightarrow> [] | Some y \<Rightarrow> [y])"

section \<open>Containers\<close>

text \<open>
  An object in a slot lives in the storage of the slot, so comparing the addresses of two
  references into one slot compares the objects there; a pointer into an array is the number of
  the slot.
\<close>

definition case_static_slot :: "test_state test_case" where
  "case_static_slot = (\<lambda>(st, s).
     let ctor_before = slot_ctor_count st; dtor_before = slot_dtor_count st;
         slot = empty_slot;
         s = expects [\<not> constructed slot] s in
     bindR (slot_construct slot 0x11) (\<lambda>slot.
     let st = slot_probe st; first = slot_ptr slot in
     bindR (slot_get slot) (\<lambda>v.
     let s = expects [constructed slot, Some v = first, ptr_if_constructed slot = first, v = 0x11] s in
     bindR (slot_reconstruct slot 0x22) (\<lambda>(old, slot).
     let st = slot_probe (slot_probes_end (option_list old) st); second = slot_ptr slot in
     bindR (slot_get slot) (\<lambda>v.
     let s = expects [Some v = second, v = 0x22, slot_ctor_count st = ctor_before + 2,
               slot_dtor_count st = dtor_before + 1] s in
     bindR (slot_try_destruct slot) (\<lambda>(b1, old, slot).
     let st = slot_probes_end (option_list old) st;
         s = expects [b1, \<not> constructed slot] s in
     bindR (slot_try_destruct slot) (\<lambda>(b2, old, slot).
     let st = slot_probes_end (option_list old) st in
     Inr (st, expects [\<not> b2, slot_dtor_count st = dtor_before + 2] s))))))))"

lemma case_static_slot_passes:
  "\<exists>st'. case_static_slot (st, s) = Inr (st', passed 13 s)"
  by (simp add: case_static_slot_def slot_construct_def slot_get_def slot_reconstruct_def slot_destruct_def
      slot_try_destruct_def ptr_if_constructed_def empty_slot_def slot_probe_def slot_probes_end_def option_list_def)

definition case_static_array :: "test_state test_case" where
  "case_static_array = (\<lambda>(st, s).
     let ctor_before = array_ctor_count st; dtor_before = array_dtor_count st;
         arr = sa_init 4;
         s = expects [sa_capacity arr = 4, sa_empty arr, first_free_slot arr = 0] s in
     bindR (sa_emplace arr 10) (\<lambda>(p0, arr).
     bindR (sa_emplace_at arr 3 30) (\<lambda>arr.
     bindR (sa_emplace arr 20) (\<lambda>(p1, arr).
     let st = array_probe (array_probe (array_probe st));
         s = expects [live_count arr = 3, sa_contains arr (Some (unat p0)), sa_contains arr (Some (unat p1)),
               sa_contains arr (Some 3), sa_index_of arr (Some (unat p0)) = 0, sa_index_of arr (Some (unat p1)) = 1,
               sa_index_of arr (Some 3) = 3, first_free_slot arr = 2] s;
         visited = sa_visit arr (sa_begin arr);
         total = fold (\<lambda>i n. case sa_ptr arr i of None \<Rightarrow> n | Some v \<Rightarrow> n + v) visited 0;
         s = expects [length visited = 3, total = 60] s in
     bindR (sa_erase arr 1) (\<lambda>(b, old, arr).
     let st = array_probes_end (option_list old) st;
         s = expects [b, \<not> sa_occupied arr 1, live_count arr = 2] s in
     bindR (sa_clear arr) (\<lambda>(olds, arr).
     let st = array_probes_end olds st;
         s = expects [sa_empty arr, array_ctor_count st = ctor_before + 3, array_dtor_count st = dtor_before + 3] s in
     bindR (sa_clear arr) (\<lambda>(olds, arr). Inr (array_probes_end olds st, s))))))))"

definition case_static_array_edges :: "test_state test_case" where
  "case_static_array_edges = (\<lambda>(st, s).
     let ctor_before = array_ctor_count st; dtor_before = array_dtor_count st;
         arr = sa_init 4 in
     bindR (sa_erase arr 0) (\<lambda>(b, old, arr).
     let s = expects [\<not> b, sa_ptr arr 0 = None, sa_ptr arr 5 = None, \<not> sa_occupied arr 5,
               sa_index_of arr None = npos] s in
     bindR (sa_emplace_at arr 0 1) (\<lambda>arr.
     bindR (sa_emplace_at arr 2 2) (\<lambda>arr.
     bindR (sa_emplace_at arr 3 3) (\<lambda>arr.
     let st = array_probe (array_probe (array_probe st));
         it = sa_begin arr in
     bindR (sa_get arr it) (\<lambda>v.
     let s = expects [it = 0, v = 1] s;
         it = it_next arr it in
     bindR (sa_get arr it) (\<lambda>v.
     let s = expects [it = 2, v = 2] s;
         cit = sa_begin arr;
         s = expects [cit = 0] s;
         s = expects [it_next arr cit = 2] s in
     bindR (sa_erase arr 0) (\<lambda>(b, old, arr).
     let st = array_probes_end (option_list old) st;
         s = expects [b] s;
         s = expects [sa_begin arr = 2] s in
     bindR (sa_emplace_at arr 1 4) (\<lambda>arr.
     let st = array_probe st;
         s = expects [\<not> sa_full arr, first_free_slot arr = 0, live_count arr = 3] s in
     bindR (sa_emplace_at arr 0 5) (\<lambda>arr.
     let st = array_probe st;
         s = expects [sa_full arr, first_free_slot arr = npos, live_count arr = 4] s in
     bindR (sa_clear arr) (\<lambda>(olds, arr).
     let st = array_probes_end olds st;
         s = expects [sa_empty arr, array_ctor_count st = ctor_before + 5, array_dtor_count st = dtor_before + 5] s in
     bindR (sa_clear arr) (\<lambda>(olds, arr). Inr (array_probes_end olds st, s)))))))))))))"

definition test_bitmap :: bm_params where
  "test_bitmap = \<lparr>BASE_ADDR = 0x400000, MAX_UNITS = 32, UNIT_SIZE = 0x1000\<rparr>"

definition case_bitmap :: "'w test_case" where
  "case_bitmap = (\<lambda>(w, s).
     let p = test_bitmap; b = bm_init p;
         s = expects [allocated_unit_count b = 0, free_unit_count p b = 32, bm_contains p 0x400000,
               bm_contains p 0x41F000, \<not> bm_contains p 0x420000] s in
     bindR (alloc_unit p b) (\<lambda>(a, b).
     bindR (alloc_units p b 2) (\<lambda>(r, b).
     bindR (bm_allocated p b a) (\<lambda>t1. bindR (bm_allocated p b r) (\<lambda>t2. bindR (bm_allocated p b (r + 0x1000)) (\<lambda>t3.
     let s = expects [a = 0x400000, r = 0x401000, t1, t2, t3, allocated_unit_count b = 3] s in
     bindR (free_unit p b a) (\<lambda>b.
     bindR (bm_allocated p b a) (\<lambda>t.
     let s = expects [\<not> t] s in
     bindR (mark_units_used p b 0x404000 1) (\<lambda>b.
     bindR (bm_allocated p b 0x404000) (\<lambda>t.
     let s = expects [t] s in
     bindR (mark_units_free p b 0x404000 1) (\<lambda>b.
     bindR (bm_allocated p b 0x404000) (\<lambda>t.
     let s = expects [\<not> t] s in
     bindR (free_units p b r 2) (\<lambda>b.
     let s = expects [allocated_unit_count b = 0] s;
         b = bm_set p b;
         s = expects [free_unit_count p b = 0] s;
         b = bm_clear b in
     Inr (w, expects [free_unit_count p b = 32] s))))))))))))))"

definition test_bitmap_small :: bm_params where
  "test_bitmap_small = \<lparr>BASE_ADDR = 0x800000, MAX_UNITS = 8, UNIT_SIZE = 0x1000\<rparr>"

definition case_bitmap_edges :: "'w test_case" where
  "case_bitmap_edges = (\<lambda>(w, s).
     let p = test_bitmap_small; b = bm_init p in
     bindR (alloc_units p b 0) (\<lambda>(r, b).
     let s = expects [r = 0] s in
     bindR (free_units p b 0x800000 0) (\<lambda>b.
     bindR (mark_units_used p b 0x800000 0) (\<lambda>b.
     bindR (mark_units_free p b 0x800000 0) (\<lambda>b.
     bindR (bm_allocated p b 0x800123) (\<lambda>t.
     let s = expects [\<not> bm_contains p 0x7FF000, \<not> bm_contains p 0x808000, \<not> t] s;
         b = bm_set p b;
         s = expects [allocated_unit_count b = 8] s in
     bindR (mark_units_free p b 0x802000 2) (\<lambda>b.
     let s = expects [free_unit_count p b = 2] s in
     bindR (alloc_units p b 2) (\<lambda>(r, b).
     bindR (bm_allocated p b r) (\<lambda>t1. bindR (bm_allocated p b (r + 0x1000)) (\<lambda>t2.
     let s = expects [r = 0x802000, t1, t2] s in
     bindR (free_units p b r 2) (\<lambda>b.
     bindR (bm_allocated p b r) (\<lambda>t1. bindR (bm_allocated p b (r + 0x1000)) (\<lambda>t2.
     Inr (w, expects [\<not> t1, \<not> t2] s))))))))))))))"

text \<open>Arrays and bitmaps as the cases meet them, and what each operation does to them.\<close>

definition arr_of :: "u32 option list \<Rightarrow> u32 static_array" where
  "arr_of xs = \<lparr>slots = map (\<lambda>x. \<lparr>slot_ptr = x, constructed = x \<noteq> None\<rparr>) xs,
     live_count = word_of_nat (length (filter (\<lambda>x. x \<noteq> None) xs))\<rparr>"

definition bits_of :: "u32 \<Rightarrow> u32 \<Rightarrow> bitmap_alloc" where
  "bits_of w n = \<lparr>bitmap = [w], allocated_units = n\<rparr>"

lemma array_trace:
  "sa_init 4 = arr_of [None, None, None, None]"
  "sa_emplace (arr_of [None, None, None, None]) 10 = Inr (0, arr_of [Some 10, None, None, None])"
  "sa_emplace_at (arr_of [Some 10, None, None, None]) 3 30 = Inr (arr_of [Some 10, None, None, Some 30])"
  "sa_emplace (arr_of [Some 10, None, None, Some 30]) 20 = Inr (1, arr_of [Some 10, Some 20, None, Some 30])"
  "sa_erase (arr_of [Some 10, Some 20, None, Some 30]) 1 = Inr (True, Some 20, arr_of [Some 10, None, None, Some 30])"
  "sa_clear (arr_of [Some 10, None, None, Some 30]) = Inr ([10, 30], arr_of [None, None, None, None])"
  "sa_clear (arr_of [None, None, None, None]) = Inr ([], arr_of [None, None, None, None])"
  by code_simp+

lemma array_checks:
  "sa_capacity (arr_of [None, None, None, None]) = 4" "sa_empty (arr_of [None, None, None, None])"
  "first_free_slot (arr_of [None, None, None, None]) = 0"
  "live_count (arr_of [Some 10, Some 20, None, Some 30]) = 3"
  "sa_index_of (arr_of [Some 10, Some 20, None, Some 30]) (Some 0) = 0"
  "sa_index_of (arr_of [Some 10, Some 20, None, Some 30]) (Some (Suc 0)) = 1"
  "sa_index_of (arr_of [Some 10, Some 20, None, Some 30]) (Some 3) = 3"
  "first_free_slot (arr_of [Some 10, Some 20, None, Some 30]) = 2"
  "sa_visit (arr_of [Some 10, Some 20, None, Some 30]) (sa_begin (arr_of [Some 10, Some 20, None, Some 30])) = [0, 1, 3]"
  "sa_ptr (arr_of [Some 10, Some 20, None, Some 30]) 0 = Some 10" "sa_ptr (arr_of [Some 10, Some 20, None, Some 30]) 1 = Some 20"
  "sa_ptr (arr_of [Some 10, Some 20, None, Some 30]) 3 = Some 30"
  "\<not> sa_occupied (arr_of [Some 10, None, None, Some 30]) 1" "live_count (arr_of [Some 10, None, None, Some 30]) = 2"
  by code_simp+

lemmas probe_defs = slot_probe_def slot_probes_end_def array_probe_def array_probes_end_def option_list_def

lemma case_static_array_passes: "\<exists>st'. case_static_array (st, s) = Inr (st', passed 19 s)"
  by (simp add: case_static_array_def array_trace array_checks sa_contains_def npos_def probe_defs)

lemma array_edge_trace:
  "sa_erase (arr_of [None, None, None, None]) 0 = Inr (False, None, arr_of [None, None, None, None])"
  "sa_emplace_at (arr_of [None, None, None, None]) 0 1 = Inr (arr_of [Some 1, None, None, None])"
  "sa_emplace_at (arr_of [Some 1, None, None, None]) 2 2 = Inr (arr_of [Some 1, None, Some 2, None])"
  "sa_emplace_at (arr_of [Some 1, None, Some 2, None]) 3 3 = Inr (arr_of [Some 1, None, Some 2, Some 3])"
  "sa_erase (arr_of [Some 1, None, Some 2, Some 3]) 0 = Inr (True, Some 1, arr_of [None, None, Some 2, Some 3])"
  "sa_emplace_at (arr_of [None, None, Some 2, Some 3]) 1 4 = Inr (arr_of [None, Some 4, Some 2, Some 3])"
  "sa_emplace_at (arr_of [None, Some 4, Some 2, Some 3]) 0 5 = Inr (arr_of [Some 5, Some 4, Some 2, Some 3])"
  "sa_clear (arr_of [Some 5, Some 4, Some 2, Some 3]) = Inr ([5, 4, 2, 3], arr_of [None, None, None, None])"
  by code_simp+

lemma array_edge_checks:
  "sa_ptr (arr_of [None, None, None, None]) 0 = None" "sa_ptr (arr_of [None, None, None, None]) 5 = None"
  "\<not> sa_occupied (arr_of [None, None, None, None]) 5" "sa_index_of (arr_of [None, None, None, None]) None = npos"
  "sa_begin (arr_of [Some 1, None, Some 2, Some 3]) = 0" "it_next (arr_of [Some 1, None, Some 2, Some 3]) 0 = 2"
  "sa_get (arr_of [Some 1, None, Some 2, Some 3]) 0 = Inr 1" "sa_get (arr_of [Some 1, None, Some 2, Some 3]) 2 = Inr 2"
  "sa_begin (arr_of [None, None, Some 2, Some 3]) = 2"
  "\<not> sa_full (arr_of [None, Some 4, Some 2, Some 3])" "first_free_slot (arr_of [None, Some 4, Some 2, Some 3]) = 0"
  "live_count (arr_of [None, Some 4, Some 2, Some 3]) = 3"
  "sa_full (arr_of [Some 5, Some 4, Some 2, Some 3])" "first_free_slot (arr_of [Some 5, Some 4, Some 2, Some 3]) = npos"
  "live_count (arr_of [Some 5, Some 4, Some 2, Some 3]) = 4"
  by code_simp+

lemma case_static_array_edges_passes: "\<exists>st'. case_static_array_edges (st, s) = Inr (st', passed 22 s)"
  by (simp add: case_static_array_edges_def array_trace array_checks array_edge_trace array_edge_checks probe_defs)

lemma bitmap_trace:
  "bm_init test_bitmap = bits_of 0 0"
  "alloc_unit test_bitmap (bits_of 0 0) = Inr (0x400000, bits_of 1 1)"
  "alloc_units test_bitmap (bits_of 1 1) 2 = Inr (0x401000, bits_of 7 3)"
  "free_unit test_bitmap (bits_of 7 3) 0x400000 = Inr (bits_of 6 2)"
  "mark_units_used test_bitmap (bits_of 6 2) 0x404000 1 = Inr (bits_of 22 3)"
  "mark_units_free test_bitmap (bits_of 22 3) 0x404000 1 = Inr (bits_of 6 2)"
  "free_units test_bitmap (bits_of 6 2) 0x401000 2 = Inr (bits_of 0 0)"
  "bm_set test_bitmap (bits_of 0 0) = bits_of 0xFFFFFFFF 32"
  "bm_clear (bits_of 0xFFFFFFFF 32) = bits_of 0 0"
  by code_simp+

lemma bitmap_checks:
  "bm_contains test_bitmap 0x400000" "bm_contains test_bitmap 0x41F000" "\<not> bm_contains test_bitmap 0x420000"
  "bm_allocated test_bitmap (bits_of 7 3) 0x400000 = Inr True" "bm_allocated test_bitmap (bits_of 7 3) 0x401000 = Inr True"
  "bm_allocated test_bitmap (bits_of 7 3) 0x402000 = Inr True" "bm_allocated test_bitmap (bits_of 6 2) 0x400000 = Inr False"
  "bm_allocated test_bitmap (bits_of 22 3) 0x404000 = Inr True" "bm_allocated test_bitmap (bits_of 6 2) 0x404000 = Inr False"
  "free_unit_count test_bitmap (bits_of w n) = 32 - n" "allocated_unit_count (bits_of w n) = n"
  by code_simp+

lemma case_bitmap_passes: "case_bitmap (w, s) = Inr (w, passed 17 s)"
  by (simp add: case_bitmap_def bitmap_trace bitmap_checks)

lemma bitmap_edge_trace:
  "bm_init test_bitmap_small = bits_of 0 0"
  "bm_set test_bitmap_small (bits_of 0 0) = bits_of 0xFFFFFFFF 8"
  "mark_units_free test_bitmap_small (bits_of 0xFFFFFFFF 8) 0x802000 2 = Inr (bits_of 0xFFFFFFF3 6)"
  "alloc_units test_bitmap_small (bits_of 0xFFFFFFF3 6) 2 = Inr (0x802000, bits_of 0xFFFFFFFF 8)"
  "free_units test_bitmap_small (bits_of 0xFFFFFFFF 8) 0x802000 2 = Inr (bits_of 0xFFFFFFF3 6)"
  by code_simp+

lemma bitmap_edge_checks:
  "\<not> bm_contains test_bitmap_small 0x7FF000" "\<not> bm_contains test_bitmap_small 0x808000"
  "bm_allocated test_bitmap_small (bits_of 0 0) 0x800123 = Inr False"
  "bm_allocated test_bitmap_small (bits_of 0xFFFFFFFF 8) 0x802000 = Inr True"
  "bm_allocated test_bitmap_small (bits_of 0xFFFFFFFF 8) 0x803000 = Inr True"
  "bm_allocated test_bitmap_small (bits_of 0xFFFFFFF3 6) 0x802000 = Inr False"
  "bm_allocated test_bitmap_small (bits_of 0xFFFFFFF3 6) 0x803000 = Inr False"
  "free_unit_count test_bitmap_small (bits_of 0xFFFFFFF3 6) = 2"
  by code_simp+

lemma bitmap_no_units:
  "alloc_units p b 0 = Inr (0, b)" "free_units p b a 0 = Inr b" "mark_units_free p b a 0 = Inr b"
  "mark_units_used p b a 0 = Inr b"
  by (simp_all add: alloc_units_def free_units_def mark_units_free_def mark_units_used_def)

lemma case_bitmap_edges_passes: "case_bitmap_edges (w, s) = Inr (w, passed 11 s)"
  by (simp add: case_bitmap_edges_def bitmap_edge_trace bitmap_edge_checks bitmap_checks bitmap_no_units)

text \<open>The whole suite.\<close>

definition run_container_suite :: "test_state test_case" where
  "run_container_suite = (\<lambda>(st, s).
     bindR (run_case ''static-slot'' case_static_slot (st, begin_suite ''containers'' s)) (\<lambda>ws.
     bindR (run_case ''static-array'' case_static_array ws) (\<lambda>ws.
     bindR (run_case ''static-array-edge-cases'' case_static_array_edges ws) (\<lambda>ws.
     bindR (run_case ''bitmap-allocator'' case_bitmap ws) (\<lambda>ws.
     bindR (run_case ''bitmap-allocator-edge-cases'' case_bitmap_edges ws) (\<lambda>(st, s).
     Inr (st, end_suite s)))))))"

text \<open>\<open>suite_ok c n s s'\<close>: a suite of \<open>c\<close> cases with \<open>n\<close> checks ran from \<open>s\<close> to \<open>s'\<close> and nothing failed.\<close>

definition suite_ok :: "u32 \<Rightarrow> u32 \<Rightarrow> session \<Rightarrow> session \<Rightarrow> bool" where
  "suite_ok c n s s' \<longleftrightarrow> suite_count s' = suite_count s + 1 \<and> case_count s' = case_count s + c \<and>
     check_count s' = check_count s + n \<and> failure_count s' = failure_count s \<and>
     current_suite s' = None \<and> current_case s' = None"

lemmas session_defs = begin_suite_def end_suite_def begin_case_def end_case_def passed_def suite_ok_def

lemma container_suite:
  "\<exists>st' s'. run_container_suite (st, s) = Inr (st', s') \<and> suite_ok 5 82 s s'"
proof -
  let ?s0 = "begin_suite ''containers'' s"
  obtain st1 where c1: "case_static_slot (st, begin_case ''static-slot'' ?s0) = Inr (st1, passed 13 (begin_case ''static-slot'' ?s0))"
    using case_static_slot_passes by blast
  define s1 where "s1 = end_case (passed 13 (begin_case ''static-slot'' ?s0))"
  obtain st2 where c2: "case_static_array (st1, begin_case ''static-array'' s1) = Inr (st2, passed 19 (begin_case ''static-array'' s1))"
    using case_static_array_passes by blast
  define s2 where "s2 = end_case (passed 19 (begin_case ''static-array'' s1))"
  obtain st3 where c3: "case_static_array_edges (st2, begin_case ''static-array-edge-cases'' s2) =
      Inr (st3, passed 22 (begin_case ''static-array-edge-cases'' s2))"
    using case_static_array_edges_passes by blast
  define s3 where "s3 = end_case (passed 22 (begin_case ''static-array-edge-cases'' s2))"
  have "run_container_suite (st, s) = Inr (st3, end_suite (end_case (passed 11 (begin_case ''bitmap-allocator-edge-cases''
      (end_case (passed 17 (begin_case ''bitmap-allocator'' s3)))))))" (is "_ = Inr (_, ?s')")
    by (simp add: run_container_suite_def run_case_def c1 c2 c3 case_bitmap_passes case_bitmap_edges_passes
        flip: s1_def s2_def s3_def)
  moreover have "suite_ok 5 82 s ?s'"
    by (simp add: session_defs s3_def s2_def s1_def)
  ultimately show ?thesis by blast
qed

section \<open>Utilities\<close>

definition case_align_helpers :: "'w test_case" where
  "case_align_helpers = (\<lambda>(w, s). Inr (w, expects
     [align_down 0x0000 PAGE_SIZE = 0x0000, align_down 0x1FFF PAGE_SIZE = 0x1000,
      align_up 0x2000 PAGE_SIZE = 0x2000, align_up 0x2001 PAGE_SIZE = 0x3000] s))"

definition case_isr_wrapper_metadata :: "'w test_case" where
  "case_isr_wrapper_metadata = (\<lambda>(w, s).
     let pf = get_isr_wrapper 14; pit = get_isr_wrapper 32; soft = get_isr_wrapper 48; bp = get_isr_wrapper 3 in
     Inr (w, expects [has_error_code pf, isr_kind pf = Base, isr_kind pit = ContextSwitch, \<not> has_error_code pit,
       isr_kind soft = ContextSwitch, isr_kind bp = Base, \<not> has_error_code bp] s))"

definition case_atomic_primitives :: "'w test_case" where
  "case_atomic_primitives = (\<lambda>(w, s).
     let counter32 = 7 :: u32; counter64 = 0x100000000 :: u64; flag = False;
         s = expects [atomic_load counter32 = 7] s;
         (old, counter32) = fetch_add counter32 5;
         s = expects [old = 7, atomic_load counter32 = 12] s;
         (old, counter32) = fetch_sub counter32 2;
         s = expects [old = 12, atomic_load counter32 = 10] s;
         (old, counter32) = atomic_exchange counter32 42;
         s = expects [old = 10, atomic_load counter32 = 42] s;
         (ok, expected32, counter32) = atomic_compare_exchange counter32 42 99;
         s = expects [ok, atomic_load counter32 = 99] s;
         (ok, expected32, counter32) = atomic_compare_exchange counter32 42 77;
         s = expects [\<not> ok, expected32 = 99] s;
         (old, counter64) = fetch_add counter64 0x20;
         s = expects [old = 0x100000000, atomic_load counter64 = 0x100000020] s;
         (old, counter64) = fetch_sub counter64 0x10;
         s = expects [old = 0x100000020, atomic_load counter64 = 0x100000010] s;
         s = expects [\<not> atomic_load flag] s;
         flag = atomic_store flag True;
         s = expects [atomic_load flag] s;
         (old, flag) = atomic_exchange flag False
     in Inr (w, expects [old, \<not> atomic_load flag] s))"

text \<open>
  With one core the constructor of a guard takes a free lock with its first exchange;
  \<open>lock_now\<close> is the value it leaves, and none if it would wait.
\<close>

definition lock_now :: "bool \<Rightarrow> bool option" where
  "lock_now v = (case lock_turn Exchanging v of (Holding, v') \<Rightarrow> Some v' | _ \<Rightarrow> None)"

definition case_spinlock_basic :: "'w \<times> session \<Rightarrow> ('w \<times> session) kres option" where
  "case_spinlock_basic = (\<lambda>(w, s).
     let lock = False;
         (ok, lock) = try_lock lock;
         s = expects [ok] s;
         (ok, lock) = try_lock lock;
         s = expects [\<not> ok] s;
         lock = unlock lock
     in case lock_now lock of None \<Rightarrow> None | Some lock \<Rightarrow>
     let (ok, lock) = try_lock lock;
         s = expects [\<not> ok] s;
         lock = unlock lock;
         (ok, lock) = try_lock lock;
         s = expects [ok] s;
         lock = unlock lock
     in Some (Inr (w, s)))"

text \<open>\<open>stack0\<close> and \<open>stack1\<close> are the blocks \<^verbatim>\<open>new\<close> returns; the world is the memory.\<close>

definition case_core_stack_anchor :: "u32 \<Rightarrow> u32 \<Rightarrow> mem test_case" where
  "case_core_stack_anchor stack0 stack1 = (\<lambda>(m, s).
     ktest_assert (stack0 \<noteq> 0) m s (\<lambda>s.
     ktest_assert (stack1 \<noteq> 0) m s (\<lambda>s.
     let fake_core = 0x12345000;
         m = init_stack_anchor m stack0 7 fake_core;
         anchor = anchor_from_sp (initial_sp stack0 - 4);
         s = expects [anchor_magic (load_anchor m stack0) = STACK_MAGIC, anchor_stack_id (load_anchor m stack0) = 7,
               anchor_core (load_anchor m stack0) = fake_core, stack_base stack0 + CORE_STACK_SIZE = initial_sp stack0,
               anchor = stack0] s;
         m = copy_anchor_from m stack1 stack0
     in Inr (m, expects [anchor_magic (load_anchor m stack1) = STACK_MAGIC, anchor_stack_id (load_anchor m stack1) = 7,
          anchor_core (load_anchor m stack1) = fake_core] s))))"

lemma case_align_helpers_passes: "case_align_helpers (w, s) = Inr (w, passed 4 s)"
  by (simp add: case_align_helpers_def align_down_def align_up_def PAGE_SIZE_def)

lemma case_isr_wrapper_metadata_passes: "case_isr_wrapper_metadata (w, s) = Inr (w, passed 7 s)"
  by (simp add: case_isr_wrapper_metadata_def get_isr_wrapper_def)

lemma case_atomic_primitives_passes: "case_atomic_primitives (w, s) = Inr (w, passed 19 s)"
  by (simp add: case_atomic_primitives_def atomic_load_def atomic_store_def fetch_add_def fetch_sub_def
      atomic_exchange_def atomic_compare_exchange_def)

lemma case_spinlock_basic_passes: "case_spinlock_basic (w, s) = Some (Inr (w, passed 4 s))"
  by (simp add: case_spinlock_basic_def lock_now_def try_lock_def unlock_def atomic_exchange_def atomic_store_def)

lemma case_core_stack_anchor_passes:
  assumes "unat stack0 mod 4096 = 0" "unat stack1 mod 4096 = 0" "stack0 \<noteq> 0" "stack1 \<noteq> 0"
  shows "\<exists>m'. case_core_stack_anchor stack0 stack1 (m, s) = Inr (m', passed 10 s)"
proof -
  note ls = load_store_anchor [OF page_word_aligned [OF assms(1)]] load_store_anchor [OF page_word_aligned [OF assms(2)]]
  obtain q where q: "unat stack0 = 4096 * q" using assms(1) by auto
  moreover have "unat stack0 < 4294967296" by simp
  ultimately have "q < 1048576" by linarith
  then have "unat (4092 + stack0) = 4092 + unat stack0" using q by (subst unat_add_u32) simp_all
  then have "anchor_from_sp (initial_sp stack0 - 4) = stack0"
    using from_sp_in_stack [OF assms(1), of "4092 + stack0"] by (simp add: anchor_from_sp_def initial_sp_def stack_base_def)
  then show ?thesis using assms(3,4)
    by (simp add: case_core_stack_anchor_def init_stack_anchor_def copy_anchor_from_def ls stack_base_def initial_sp_def CORE_STACK_SIZE_def)
qed

section \<open>Run-time support\<close>

record runtime_world =
  rw_state :: test_state
  rw_mem :: mem
  rw_shared :: shared_state
  rw_atexit :: atexit

definition upd_state :: "(test_state \<Rightarrow> test_state) \<Rightarrow> runtime_world \<Rightarrow> runtime_world" where
  "upd_state f w = w\<lparr>rw_state := f (rw_state w)\<rparr>"

definition case_global_constructor :: "runtime_world test_case" where
  "case_global_constructor = (\<lambda>(w, s).
     Inr (w, expects [global_ctor_count (rw_state w) = 1, global_dtor_count (rw_state w) = 0] s))"

definition case_local_lifetime :: "runtime_world test_case" where
  "case_local_lifetime = (\<lambda>(w, s).
     let ctor_before = local_ctor_count (rw_state w); dtor_before = local_dtor_count (rw_state w);
         magic = 0xC0FFEE00 :: u32;
         w = upd_state (\<lambda>st. st\<lparr>local_ctor_count := local_ctor_count st + 1\<rparr>) w;
         s = expects [magic = 0xC0FFEE00] s;
         w = upd_state (\<lambda>st. st\<lparr>local_dtor_count := local_dtor_count st + 1\<rparr>) w
     in Inr (w, expects [local_ctor_count (rw_state w) = ctor_before + 1, local_dtor_count (rw_state w) = dtor_before + 1] s))"

text \<open>
  \<^verbatim>\<open>new SharedLifetimeProbe(v)\<close> at the address \<open>p\<close> that \<^verbatim>\<open>operator new\<close> returns, an operation on the
  shared pointers, which runs the destructor of every object it deletes, and a read through \<^verbatim>\<open>->\<close>.
\<close>

definition new_shared_probe :: "u32 \<Rightarrow> u32 \<Rightarrow> runtime_world \<Rightarrow> runtime_world" where
  "new_shared_probe p v w =
     upd_state (\<lambda>st. st\<lparr>shared_ctor_count := shared_ctor_count st + 1\<rparr>) w\<lparr>rw_mem := store32 (rw_mem w) p v\<rparr>"

definition shared_do :: "sp_op \<Rightarrow> runtime_world \<Rightarrow> runtime_world kres" where
  "shared_do op w = bindR (sp_step op (rw_shared w)) (\<lambda>sh.
     let n = length (sp_deleted sh) - length (sp_deleted (rw_shared w)) in
     Inr (upd_state (\<lambda>st. st\<lparr>shared_dtor_count := shared_dtor_count st + word_of_nat n\<rparr>) w\<lparr>rw_shared := sh\<rparr>))"

definition shared_value :: "nat \<Rightarrow> runtime_world \<Rightarrow> u32 kres" where
  "shared_value i w = bindR (sp_get i (rw_shared w)) (\<lambda>p. Inr (load32 (rw_mem w) p))"

text \<open>The variables of a case are the next ones; they are destroyed in reverse order at its end.\<close>

definition case_shared_ptr :: "u32 \<Rightarrow> runtime_world test_case" where
  "case_shared_ptr p = (\<lambda>(w, s).
     let ctor_before = shared_ctor_count (rw_state w); dtor_before = shared_dtor_count (rw_state w);
         ptr0 = length (sp_vars (rw_shared w)); ptr1 = Suc ptr0 in
     bindR (shared_do (CtorPtr p) (new_shared_probe p 0xCAFEBABE w)) (\<lambda>w.
     bindR (sp_get ptr0 (rw_shared w)) (\<lambda>g.
     ktest_assert (g \<noteq> 0) w s (\<lambda>s.
     bindR (shared_value ptr0 w) (\<lambda>v.
     bindR (sp_use_count ptr0 (rw_shared w)) (\<lambda>u0.
     let s = expects [v = 0xCAFEBABE, u0 = 1] s in
     bindR (shared_do (CtorCopy ptr0) w) (\<lambda>w.
     bindR (sp_use_count ptr0 (rw_shared w)) (\<lambda>u0. bindR (sp_use_count ptr1 (rw_shared w)) (\<lambda>u1.
     let s = expects [u0 = 2, u1 = 2] s in
     bindR (shared_do (Reset ptr1) w) (\<lambda>w.
     bindR (sp_use_count ptr0 (rw_shared w)) (\<lambda>u0.
     let s = expects [u0 = 1, shared_dtor_count (rw_state w) = dtor_before] s in
     bindR (shared_do (Reset ptr0) w) (\<lambda>w.
     let s = expects [shared_ctor_count (rw_state w) = ctor_before + 1, shared_dtor_count (rw_state w) = dtor_before + 1] s in
     bindR (shared_do (Dtor ptr1) w) (\<lambda>w. bindR (shared_do (Dtor ptr0) w) (\<lambda>w. Inr (w, s)))))))))))))))"

definition case_shared_ptr_edges :: "u32 \<Rightarrow> runtime_world test_case" where
  "case_shared_ptr_edges p = (\<lambda>(w, s).
     let ctor_before = shared_ctor_count (rw_state w); dtor_before = shared_dtor_count (rw_state w);
         empty = length (sp_vars (rw_shared w)); moved = Suc empty in
     bindR (shared_do Ctor w) (\<lambda>w.
     bindR (sp_get empty (rw_shared w)) (\<lambda>g. bindR (sp_use_count empty (rw_shared w)) (\<lambda>u.
     let s = expects [g = 0, u = 0] s in
     bindR (shared_do (ResetPtr empty p) (new_shared_probe p 0xABCD1234 w)) (\<lambda>w.
     bindR (sp_get empty (rw_shared w)) (\<lambda>g.
     ktest_assert (g \<noteq> 0) w s (\<lambda>s.
     bindR (sp_use_count empty (rw_shared w)) (\<lambda>u. bindR (shared_value empty w) (\<lambda>v.
     let s = expects [u = 1, v = 0xABCD1234] s in
     bindR (shared_do (CtorMove empty) w) (\<lambda>w.
     bindR (sp_get empty (rw_shared w)) (\<lambda>g. bindR (sp_use_count empty (rw_shared w)) (\<lambda>u.
     bindR (sp_get moved (rw_shared w)) (\<lambda>g'. bindR (sp_use_count moved (rw_shared w)) (\<lambda>u'.
     let s = expects [g = 0, u = 0, g' \<noteq> 0, u' = 1] s in
     bindR (shared_do (ResetPtr moved 0) w) (\<lambda>w.
     bindR (sp_get moved (rw_shared w)) (\<lambda>g'. bindR (sp_use_count moved (rw_shared w)) (\<lambda>u'.
     let s = expects [g' = 0, u' = 0, shared_ctor_count (rw_state w) = ctor_before + 1,
               shared_dtor_count (rw_state w) = dtor_before + 1] s in
     bindR (shared_do (Dtor moved) w) (\<lambda>w. bindR (shared_do (Dtor empty) w) (\<lambda>w. Inr (w, s))))))))))))))))))))"

text \<open>
  \<^verbatim>\<open>kstd::atexit\<close> of \<^verbatim>\<open>kstd.hpp\<close>: the entry of \<^verbatim>\<open>__cxa_atexit\<close> is a wrapper, at the address \<open>wrapper\<close>, that
  calls its argument.
\<close>

definition kstd_atexit :: "u32 \<Rightarrow> u32 \<Rightarrow> atexit \<Rightarrow> atexit" where
  "kstd_atexit wrapper func t = snd (cxa_atexit wrapper func 0 t)"

definition case_atexit_registration :: "u32 \<Rightarrow> u32 \<Rightarrow> runtime_world test_case" where
  "case_atexit_registration wrapper on_atexit = (\<lambda>(w, s).
     let w = upd_state (\<lambda>st. st\<lparr>atexit_calls := 0, atexit_registered := True\<rparr>) w;
         w = w\<lparr>rw_atexit := kstd_atexit wrapper on_atexit (rw_atexit w)\<rparr>
     in Inr (w, expects [atexit_calls (rw_state w) = 0] s))"

lemma case_global_constructor_passes:
  "global_ctor_count (rw_state w) = 1 \<Longrightarrow> global_dtor_count (rw_state w) = 0 \<Longrightarrow>
   case_global_constructor (w, s) = Inr (w, passed 2 s)"
  by (simp add: case_global_constructor_def)

lemma case_local_lifetime_passes: "\<exists>w'. case_local_lifetime (w, s) = Inr (w', passed 3 s)"
  by (simp add: case_local_lifetime_def upd_state_def)

lemmas shared_eval = shared_do_def new_shared_probe_def upd_state_def shared_value_def sp_get_def sp_use_count_def
  sp_ctor_def sp_ctor_ptr_def sp_ctor_copy_def sp_ctor_move_def sp_reset_def sp_reset_ptr_def sp_release_def sp_retain_def
  sp_new_block_def add_var_def set_var_def put_block_def fetch_add_def fetch_sub_def atomic_load_def nth_append list_update_append

lemma case_shared_ptr_passes:
  assumes "p \<noteq> 0"
  shows "\<exists>w'. case_shared_ptr p (w, s) = Inr (w', passed 9 s)"
  using assms by (simp add: case_shared_ptr_def shared_eval)

lemma case_shared_ptr_edges_passes:
  assumes "p \<noteq> 0"
  shows "\<exists>w'. case_shared_ptr_edges p (w, s) = Inr (w', passed 13 s)"
  using assms by (simp add: case_shared_ptr_edges_def shared_eval)

section \<open>Shutdown\<close>

definition finalize :: "test_state test_case" where
  "finalize = (\<lambda>(st, s).
     if \<not> ran_immediate st \<or> ran_finalize st then Inr (st, s)
     else
       let st = st\<lparr>ran_finalize := True\<rparr>;
           s = begin_suite ''shutdown'' s in
       bindR (run_case ''atexit-callback'' (\<lambda>(st, s).
           Inr (st, if atexit_registered st then expects [atexit_calls st = 1] s else expects [atexit_calls st = 0] s))
         (st, s)) (\<lambda>ws.
       bindR (run_case ''global-destructor'' (\<lambda>(st, s). Inr (st, expects [global_dtor_count st = 1] s)) ws) (\<lambda>(st, s).
       let s = complete_session (end_suite s) in
       if failure_count s \<noteq> 0 then Inl (Panic ''kernel self-tests failed'') else Inr (st, s))))"

text \<open>
  What the registered functions do to the state of the tests: \<open>probe_dtor\<close> is the destructor of the
  global probe, \<open>wrapper\<close> the wrapper of \<^verbatim>\<open>atexit\<close>, called with \<open>on_atexit\<close>; the others leave it alone.
\<close>

definition exit_act :: "u32 \<Rightarrow> u32 \<Rightarrow> u32 \<Rightarrow> u32 \<Rightarrow> u32 \<Rightarrow> test_state \<Rightarrow> test_state kres" where
  "exit_act probe_dtor wrapper on_atexit f obj st = Inr (
     if f = probe_dtor then st\<lparr>global_dtor_count := global_dtor_count st + 1\<rparr>
     else if f = wrapper \<and> obj = on_atexit then st\<lparr>atexit_calls := atexit_calls st + 1\<rparr>
     else st)"

abbreviation entries_of :: "atexit \<Rightarrow> atexit_func_entry_t list" where
  "entries_of t \<equiv> take (unat (atexit_func_count t)) (atexit_funcs t)"

lemma kstd_atexit_entries:
  assumes "atexit_wf t" "atexit_func_count t < 128"
  shows "atexit_wf (kstd_atexit f obj t)"
    "entries_of (kstd_atexit f obj t) = entries_of t @ [\<lparr>destructor_func = f, obj_ptr = obj, dso_handle = 0\<rparr>]"
proof -
  show "atexit_wf (kstd_atexit f obj t)" unfolding kstd_atexit_def by (rule cxa_atexit_wf [OF assms(1)])
  have n: "unat (atexit_func_count t) < length (atexit_funcs t)" "unat (atexit_func_count t + 1) = Suc (unat (atexit_func_count t))"
    using assms unat_Suc_u32 [OF assms(2)] by (simp_all add: atexit_wf_def u32_less_iff)
  then show "entries_of (kstd_atexit f obj t) = entries_of t @ [\<lparr>destructor_func = f, obj_ptr = obj, dso_handle = 0\<rparr>]"
    using assms(2) by (simp add: kstd_atexit_def cxa_atexit_def ATEXIT_MAX_FUNCS_def take_Suc_conv_app_nth linorder_not_le)
qed

text \<open>Running entries counts those of the two functions.\<close>

lemma run_entries_counts:
  assumes "probe_dtor \<noteq> 0" "wrapper \<noteq> 0" "wrapper \<noteq> probe_dtor"
  shows "run_entries (exit_act probe_dtor wrapper on_atexit) es st = Inr (st
    \<lparr>global_dtor_count := global_dtor_count st + word_of_nat (length (filter (\<lambda>e. destructor_func e = probe_dtor) es)),
     atexit_calls := atexit_calls st +
       word_of_nat (length (filter (\<lambda>e. destructor_func e = wrapper \<and> obj_ptr e = on_atexit) es))\<rparr>)"
  using assms by (induction es arbitrary: st) (auto simp: run_entry_def exit_act_def add_ac)

lemma finalize_passes:
  assumes "ran_immediate st" "\<not> ran_finalize st" "atexit_registered st" "atexit_calls st = 1" "global_dtor_count st = 1"
  shows "failure_count s = 0 \<Longrightarrow> \<exists>st' s'. finalize (st, s) = Inr (st', s') \<and> completed s' \<and> failure_count s' = 0"
    "failure_count s \<noteq> 0 \<Longrightarrow> finalize (st, s) = Inl (Panic ''kernel self-tests failed'')"
  using assms by (simp_all add: finalize_def run_case_def complete_session_def session_defs Let_def)

theorem shutdown_tests_pass:
  assumes "atexit_wf t" "atexit_func_count t < 128" "probe_dtor \<noteq> 0" "wrapper \<noteq> 0" "wrapper \<noteq> probe_dtor"
    and "length (filter (\<lambda>e. destructor_func e = probe_dtor) (entries_of t)) = 1"
    and "\<forall>e \<in> set (entries_of t). \<not> (destructor_func e = wrapper \<and> obj_ptr e = on_atexit)"
    and "rw_atexit w = t" "ran_immediate (rw_state w)" "\<not> ran_finalize (rw_state w)" "global_dtor_count (rw_state w) = 0"
  shows "\<exists>w' t' st'. case_atexit_registration wrapper on_atexit (w, s) = Inr (w', passed 1 s) \<and>
    cxa_finalize (lift_act (exit_act probe_dtor wrapper on_atexit)) 0 (rw_atexit w', rw_state w') = Inr (t', st') \<and>
    atexit_func_count t' = 0 \<and>
    (\<forall>s'. failure_count s' = 0 \<longrightarrow> (\<exists>st'' s''. finalize (st', s') = Inr (st'', s'') \<and> completed s'' \<and> failure_count s'' = 0))"
proof -
  let ?st = "(rw_state w)\<lparr>atexit_calls := 0, atexit_registered := True\<rparr>"
  let ?w = "w\<lparr>rw_state := ?st, rw_atexit := kstd_atexit wrapper on_atexit t\<rparr>"
  have reg: "case_atexit_registration wrapper on_atexit (w, s) = Inr (?w, passed 1 s)"
    using assms(8) by (simp add: case_atexit_registration_def upd_state_def)
  note ke = kstd_atexit_entries [OF assms(1,2), of wrapper on_atexit]
  obtain t' where t': "atexit_func_count t' = 0" "cxa_finalize (lift_act (exit_act probe_dtor wrapper on_atexit)) 0 (rw_atexit ?w, ?st) =
      bindR (run_entries (exit_act probe_dtor wrapper on_atexit) (rev (entries_of (rw_atexit ?w))) ?st) (\<lambda>s. Inr (t', s))"
    using finalize_runs_lifo [OF ke(1), of "exit_act probe_dtor wrapper on_atexit" ?st] by auto
  have f: "filter (\<lambda>e. destructor_func e = wrapper \<and> obj_ptr e = on_atexit) (entries_of t) = []" using assms(7) by (simp add: filter_empty_conv)
  let ?st' = "?st\<lparr>global_dtor_count := 1, atexit_calls := 1\<rparr>"
  have run: "run_entries (exit_act probe_dtor wrapper on_atexit) (rev (entries_of (rw_atexit ?w))) ?st = Inr ?st'"
    unfolding run_entries_counts [OF assms(3-5)] using assms(5,6,11) f by (simp add: ke(2) rev_filter [symmetric])
  have "\<exists>st'' s''. finalize (?st', s') = Inr (st'', s'') \<and> completed s'' \<and> failure_count s'' = 0" if "failure_count s' = 0" for s'
    by (rule finalize_passes(1)) (use that assms(9,10) in simp_all)
  then show ?thesis using reg t' run by (intro exI [of _ ?w] exI [of _ t'] exI [of _ ?st']) simp
qed

end
