(* ===== verification/Memory_Tests.thy ===== *)
theory Memory_Tests
  imports Self_Tests VMM
begin

text \<open>
  The cases of the \<^verbatim>\<open>mm\<close> suite of \<^verbatim>\<open>ktest/builtin.hpp\<close> on the physical and the virtual memory manager.
  They run on the live allocator and on the live page tables, so that the lemmas state for which
  states of the two they pass.
\<close>

section \<open>Physical memory\<close>

definition case_pmm_accounting :: "mem \<Rightarrow> multiboot_info \<Rightarrow> u32 \<Rightarrow> pmm test_case" where
  "case_pmm_accounting m mboot kernel_end = (\<lambda>(p, s).
     bindR (low_boot_reserved_end m mboot kernel_end) (\<lambda>reserved_end.
     let free_before = free_memory p; used_before = used_memory p; total_before = total_memory p in
     bindR (alloc_frame p) (\<lambda>(frame, p).
     ktest_assert (frame \<noteq> 0) p s (\<lambda>s.
     let s = expects [frame mod PAGE_SIZE = 0, frame \<ge> reserved_end, total_before = free_before + used_before,
               used_memory p = used_before + PAGE_SIZE, free_memory p = free_before - PAGE_SIZE,
               total_memory p = total_before] s in
     bindR (free_frame p frame) (\<lambda>p.
     Inr (p, expects [used_memory p = used_before, free_memory p = free_before, total_memory p = total_before] s))))))"

text \<open>
  \<^verbatim>\<open>pmm-low-bootstrap-pages-reserved\<close>: the range an entry of the memory map contributes, the loop over its
  pages and the loop over the map, which both count the pages that were looked at. \<open>m\<close> is the memory
  that holds the structures of the boot loader.
\<close>

definition low_range :: "u32 \<Rightarrow> mmap_entry \<Rightarrow> u32 \<times> u32" where
  "low_range reserved_end e =
     (let base = ucast (me_addr e); fin = base + ucast (me_len e);
          base = (if base < LOW_USABLE_BASE then LOW_USABLE_BASE else base);
          fin = (if fin > reserved_end then reserved_end else fin)
      in (align_up base PAGE_SIZE, align_down fin PAGE_SIZE))"

partial_function (option) low_pages_loop :: "pmm \<Rightarrow> u32 \<Rightarrow> u32 \<Rightarrow> u32 \<times> session \<Rightarrow> (u32 \<times> session) krun" where
  [code]: "low_pages_loop p addr fin x =
     (if addr < fin then
        case frame_used p addr of
          Inl e \<Rightarrow> Some (Inl e)
        | Inr b \<Rightarrow> low_pages_loop p (addr + PAGE_SIZE) fin (fst x + 1, expects [b] (snd x))
      else Some (Inr x))"

partial_function (option) low_entries_loop :: "mem \<Rightarrow> pmm \<Rightarrow> u32 \<Rightarrow> u32 \<Rightarrow> u32 \<Rightarrow> u32 \<times> session \<Rightarrow> (u32 \<times> session) krun" where
  [code]: "low_entries_loop m p reserved_end mmap mmap_end x =
     (if mmap < mmap_end then
        let e = load_mmap_entry m mmap in
        case (if me_type e = MULTIBOOT_MEMORY_AVAILABLE
              then low_pages_loop p (fst (low_range reserved_end e)) (snd (low_range reserved_end e)) x else Some (Inr x)) of
          None \<Rightarrow> None
        | Some (Inl err) \<Rightarrow> Some (Inl err)
        | Some (Inr x) \<Rightarrow> low_entries_loop m p reserved_end (mmap + me_size e + 4) mmap_end x
      else Some (Inr x))"

definition case_pmm_low_pages :: "mem \<Rightarrow> multiboot_info \<Rightarrow> u32 \<Rightarrow> pmm \<times> session \<Rightarrow> (pmm \<times> session) krun" where
  "case_pmm_low_pages m mboot kernel_end = (\<lambda>(p, s).
     bindK (Some (low_boot_reserved_end m mboot kernel_end)) (\<lambda>reserved_end.
     bindK (low_entries_loop m p reserved_end (mmap_addr mboot) (mmap_addr mboot + mmap_length mboot) (0, s)) (\<lambda>(checked, s).
     retK (p, expects [checked > 0] s))))"

text \<open>The frames below \<open>low\<close>, the end of what boot reserves, are in use.\<close>

definition low_reserved :: "u32 \<Rightarrow> pmm \<Rightarrow> bool" where
  "low_reserved low p \<longleftrightarrow> page_aligned low \<and> low \<noteq> 0 \<and> {..<unat low div 4096} \<subseteq> pmm_used p"

lemma case_pmm_accounting_passes:
  assumes "bm_wf PMM_params (mem_mngr p)" "low_boot_reserved_end m mboot kernel_end = Inr low" "low_reserved low p"
    and "k < 1048576" "k \<notin> pmm_used p"
  shows "\<exists>p'. case_pmm_accounting m mboot kernel_end (p, s) = Inr (p', passed 10 s) \<and> bm_wf PMM_params (mem_mngr p') \<and>
    pmm_used p' = pmm_used p \<and> free_memory p' = free_memory p"
proof -
  have pos: "0 < unat low div 4096" using assms(3) page_aligned_div [of low 0] by (auto simp: low_reserved_def page_aligned_def)
  then have "0 \<in> pmm_used p" using assms(3) by (auto simp: low_reserved_def)
  then obtain a p1 where a: "alloc_frame p = Inr (a, p1)" "a \<noteq> 0" using alloc_frame_nonzero [OF assms(1) _ assms(4,5)] by blast
  note r = alloc_frame_result [OF assms(1) a(1)]
  obtain p2 where p2: "free_frame p1 a = Inr p2" "bm_wf PMM_params (mem_mngr p2)" "pmm_used p2 = pmm_used p"
    using free_frame_result [OF r(4,1)] r(2,3) by auto
  have "unat low div 4096 \<le> unat a div 4096" using r(2) assms(3) by (auto simp: low_reserved_def not_le)
  then have "unat low div 4096 * 4096 \<le> unat a div 4096 * 4096" by simp
  then have le: "low \<le> a" using r(1) assms(3) by (auto simp: low_reserved_def page_aligned_def u32_le_iff)
  have al: "a mod PAGE_SIZE = 0" using r(1) by (simp add: page_aligned_def PAGE_SIZE_def u32_eq_iff unat_mod)
  have c1: "used_frames p1 = used_frames p + 1" "available_frames p1 = available_frames p"
    using a(1) by (auto simp: alloc_frame_def alloc_frames_def bindR_eq_Inr)
  have c2: "used_frames p2 = used_frames p1 - 1" "available_frames p2 = available_frames p1"
    using p2(1) by (auto simp: free_frame_def free_frames_def bindR_eq_Inr)
  have m: "total_memory p = free_memory p + used_memory p" "used_memory p1 = used_memory p + PAGE_SIZE"
      "free_memory p1 = free_memory p - PAGE_SIZE" "total_memory p1 = total_memory p"
      "used_memory p2 = used_memory p" "free_memory p2 = free_memory p" "total_memory p2 = total_memory p"
    unfolding total_memory_def free_memory_def used_memory_def c1 c2 by (simp_all add: algebra_simps)
  have "case_pmm_accounting m mboot kernel_end (p, s) = Inr (p2, passed 10 s)"
    unfolding case_pmm_accounting_def by (simp add: assms(2) a p2(1) le al m(2-7) flip: m(1))
  moreover have "free_memory p2 = free_memory p" by (rule m(6))
  ultimately show ?thesis using p2 by blast
qed

text \<open>The number of pages the case looks at: those of available entries between the first megabyte and \<open>low\<close>.\<close>

definition low_page_count :: "u32 \<Rightarrow> mmap_entry list \<Rightarrow> nat" where
  "low_page_count low es = sum_list (map (\<lambda>e. if me_type e = MULTIBOOT_MEMORY_AVAILABLE
     then unat (snd (low_range low e)) div 4096 - unat (fst (low_range low e)) div 4096 else 0) es)"

lemma frame_used_low:
  assumes "bm_wf PMM_params (mem_mngr p)" "low_reserved low p" "unat addr mod 4096 = 0" "addr < low"
  shows "frame_used p addr = Inr True"
proof -
  let ?i = "unat addr div 4096"
  have lt: "?i < 1048576" using unat_u32_lt [of addr] by (simp del: unat_u32_lt add: div_less_iff_less_mult)
  have "unat addr = ?i * 4096" using assms(3) by auto
  then have "(word_of_nat (unat addr) :: u32) = word_of_nat (?i * 4096)" by (rule arg_cong)
  then have a: "unit_addr PMM_params ?i = addr" by (simp add: unit_addr_def)
  have "unat addr < unat low" using assms(4) by (simp add: u32_less_iff)
  moreover have "unat low div 4096 * 4096 = unat low" using assms(2) by (auto simp: low_reserved_def page_aligned_def)
  ultimately have "?i < unat low div 4096" by (simp only: div_less_iff_less_mult zero_less_numeral)
  then have "?i \<in> bm_used PMM_params (mem_mngr p)" using assms(2) by (auto simp: low_reserved_def pmm_used_def)
  then show ?thesis using bm_allocated_unit [OF assms(1), of ?i] lt unfolding frame_used_def a by simp
qed

lemma low_range_facts:
  "unat (fst (low_range low e)) mod 4096 = 0" "unat (snd (low_range low e)) mod 4096 = 0"
  "unat low mod 4096 = 0 \<Longrightarrow> snd (low_range low e) \<le> low"
proof -
  show "unat (fst (low_range low e)) mod 4096 = 0" "unat (snd (low_range low e)) mod 4096 = 0"
    by (simp_all add: low_range_def Let_def unat_align_up_page_wrap unat_align_down_page)
  have "unat (align_down x PAGE_SIZE) \<le> unat low" if "x \<le> low" for x
    using that by (simp add: unat_align_down_page u32_le_iff)
  then show "snd (low_range low e) \<le> low" by (auto simp: low_range_def Let_def u32_le_iff not_less u32_less_iff)
qed

lemma low_pages_loop_passes:
  assumes "bm_wf PMM_params (mem_mngr p)" "low_reserved low p" "unat fin mod 4096 = 0" "fin \<le> low" "unat addr mod 4096 = 0"
  shows "low_pages_loop p addr fin (c, s) = Some (Inr
    (c + word_of_nat (unat fin div 4096 - unat addr div 4096), passed (word_of_nat (unat fin div 4096 - unat addr div 4096)) s))"
  using assms(5)
proof (induction "unat fin div 4096 - unat addr div 4096" arbitrary: addr c s)
  case 0
  then have "unat fin div 4096 \<le> unat addr div 4096" by simp
  then have "unat fin div 4096 * 4096 \<le> unat addr div 4096 * 4096" by simp
  moreover have "unat fin div 4096 * 4096 = unat fin" "unat addr div 4096 * 4096 = unat addr" using 0(2) assms(3) by auto
  ultimately have "\<not> addr < fin" by (simp only: u32_less_iff not_less)
  then show ?case using 0(1) by (subst low_pages_loop.simps) (simp add: passed_def)
next
  case (Suc n)
  have d: "unat addr div 4096 < unat fin div 4096" using Suc(2) by linarith
  have lt: "unat addr < unat fin" using d by (metis div_le_mono not_le)
  have "unat addr + 4096 \<le> unat fin"
  proof -
    have "(unat addr div 4096 + 1) * 4096 \<le> unat fin div 4096 * 4096" using d by (intro mult_le_mono1) simp
    moreover have "unat fin div 4096 * 4096 = unat fin" "unat addr div 4096 * 4096 = unat addr" using Suc(3) assms(3) by auto
    ultimately show ?thesis by (simp only: add_mult_distrib mult_1)
  qed
  then have nx: "unat (addr + PAGE_SIZE) = unat addr + 4096"
    using unat_u32_lt [of fin] by (subst unat_add_u32) (simp_all add: PAGE_SIZE_def del: unat_u32_lt)
  then have q: "unat (addr + PAGE_SIZE) div 4096 = unat addr div 4096 + 1" "unat (addr + PAGE_SIZE) mod 4096 = 0"
    using Suc(3) by simp_all
  have n: "n = unat fin div 4096 - unat (addr + PAGE_SIZE) div 4096" using Suc(2) q(1) by simp
  have lo: "addr < low" using lt assms(4) by (simp add: u32_less_iff u32_le_iff)
  have "low_pages_loop p addr fin (c, s) = low_pages_loop p (addr + PAGE_SIZE) fin (c + 1, passed 1 s)"
    using lt frame_used_low [OF assms(1,2) Suc(3) lo] by (subst low_pages_loop.simps) (simp add: u32_less_iff)
  also have "\<dots> = Some (Inr (c + 1 + word_of_nat n, passed (word_of_nat n) (passed 1 s)))"
    using Suc(1) [OF n q(2)] n by simp
  finally show ?case using Suc(2) by (simp flip: Suc(2) add: add.assoc)
qed

lemma low_entries_loop_passes:
  assumes "bm_wf PMM_params (mem_mngr p)" "low_reserved low p" "mmap_visits m mmap mmap_end es"
  shows "low_entries_loop m p low mmap mmap_end (c, s) = Some (Inr
    (c + word_of_nat (low_page_count low es), passed (word_of_nat (low_page_count low es)) s))"
  using assms(3)
proof (induction es arbitrary: mmap c s)
  case Nil
  then show ?case by (subst low_entries_loop.simps) (simp add: low_page_count_def passed_def)
next
  case (Cons e es)
  have v: "mmap < mmap_end" "e = load_mmap_entry m mmap" "mmap_visits m (mmap + me_size e + 4) mmap_end es"
    using Cons.prems unfolding mmap_visits.simps by blast+
  have low: "unat low mod 4096 = 0" using assms(2) by (simp add: low_reserved_def page_aligned_def)
  note pages = low_pages_loop_passes [OF assms(1,2) low_range_facts(2) [of low e] low_range_facts(3) [OF low] low_range_facts(1) [of low e], of c s]
  let ?n = "low_page_count low [e]"
  have "low_entries_loop m p low mmap mmap_end (c, s) =
      low_entries_loop m p low (mmap + me_size e + 4) mmap_end (c + word_of_nat ?n, passed (word_of_nat ?n) s)"
    using v(1) pages by (subst low_entries_loop.simps) (simp add: Let_def low_page_count_def passed_def flip: v(2))
  moreover have "low_page_count low (e # es) = ?n + low_page_count low es" by (simp add: low_page_count_def)
  ultimately show ?case using Cons.IH [OF v(3)] by (simp add: add.assoc)
qed

lemma case_pmm_low_pages_passes:
  assumes "bm_wf PMM_params (mem_mngr p)" "low_boot_reserved_end m mboot kernel_end = Inr low" "low_reserved low p"
    and "mmap_visits m (mmap_addr mboot) (mmap_addr mboot + mmap_length mboot) es"
    and "word_of_nat (low_page_count low es) \<noteq> (0 :: u32)"
  shows "case_pmm_low_pages m mboot kernel_end (p, s) = Some (Inr (p, passed (word_of_nat (low_page_count low es) + 1) s))"
  using low_entries_loop_passes [OF assms(1,3,4), of 0 s] assms(5)
  by (simp add: case_pmm_low_pages_def assms(2) retK_def word_gt_0)

section \<open>Virtual memory\<close>

definition search_min :: u32 where
  "search_min = ucast (region_end (Layout.region BootstrapIdentity))"

lemma next_window:
  assumes "addr < RECURSIVE_PT_BASE"
  shows "unat (addr + IDENTITY_WINDOW_SIZE) = unat addr + 0x400000" "unat addr < 0xFFC00000"
proof -
  show "unat addr < 0xFFC00000" using assms by (simp add: u32_less_iff RECURSIVE_PT_BASE_def)
  then show "unat (addr + IDENTITY_WINDOW_SIZE) = unat addr + 0x400000"
    by (subst unat_add_u32) (simp_all add: IDENTITY_WINDOW_SIZE_def)
qed

function find_fresh_from :: "vmm \<Rightarrow> u32 \<Rightarrow> u32 kres" where
  "find_fresh_from v addr =
     (if addr < RECURSIVE_PT_BASE
      then if occupied addr then find_fresh_from v (addr + IDENTITY_WINDOW_SIZE)
        else bindR (vload32 v (pde_entry addr)) (\<lambda>e.
          if \<not> entry_has_flag e PG_Present then Inr addr else find_fresh_from v (addr + IDENTITY_WINDOW_SIZE))
      else Inl (Panic ''ktest: unable to find unmapped PDE for VMM tests''))"
  by pat_completeness auto
termination
proof (relation "measure (\<lambda>(v, addr). 4294967296 - unat addr)", goal_cases)
  case (2 v addr)
  then show ?case using next_window(1) [of addr] next_window(2) [of addr] by simp
next
  case (3 v addr x)
  then show ?case using next_window(1) [of addr] next_window(2) [of addr] by simp
qed simp

declare find_fresh_from.simps [simp del]

definition find_fresh_test_page_base :: "vmm \<Rightarrow> u32 kres" where
  "find_fresh_test_page_base v = find_fresh_from v search_min"

definition case_vmm_lookup :: "vmm test_case" where
  "case_vmm_lookup = (\<lambda>(v, s).
     bindR (find_fresh_test_page_base v) (\<lambda>virt.
     bindR (vload32 v (pde_entry virt)) (\<lambda>e.
     bindR (is_mapped v virt) (\<lambda>mp.
     bindR (virt_to_phys v virt) (\<lambda>pa.
     bindR (vload32 v (pde_entry virt)) (\<lambda>e'.
     Inr (v, expects [\<not> entry_has_flag e PG_Present, \<not> mp, pa = 0xFFFFFFFF, \<not> entry_has_flag e' PG_Present] s)))))))"

definition case_vmm_map_unmap :: "vmm test_case" where
  "case_vmm_map_unmap = (\<lambda>(v, s).
     bindR (find_fresh_test_page_base v) (\<lambda>virt.
     bindR (alloc_frame (vpmm v)) (\<lambda>(frame, p).
     let v = v\<lparr>vpmm := p\<rparr> in
     ktest_assert (frame \<noteq> 0) v s (\<lambda>s.
     bindR (is_mapped v virt) (\<lambda>mp.
     let s = expects [\<not> mp] s in
     bindR (map_page v virt frame (PG_Present OR PG_Writable)) (\<lambda>v.
     bindR (vload32 v (pde_entry virt)) (\<lambda>e. bindR (is_mapped v virt) (\<lambda>mp. bindR (virt_to_phys v virt) (\<lambda>pa.
     bindR (is_mapped v (virt + PAGE_SIZE)) (\<lambda>mp'. bindR (virt_to_phys v (virt + PAGE_SIZE)) (\<lambda>pa'.
     let s = expects [entry_has_flag e PG_Present, mp, pa = frame, \<not> mp', pa' = 0xFFFFFFFF] s in
     bindR (vstore32 v (virt + 0x40) 0xA5A55A5A) (\<lambda>v.
     bindR (vload32 v (virt + 0x40)) (\<lambda>x.
     let s = expects [x = 0xA5A55A5A] s in
     bindR (unmap_page v virt) (\<lambda>v.
     bindR (is_mapped v virt) (\<lambda>mp. bindR (virt_to_phys v virt) (\<lambda>pa.
     Inr (v, expects [\<not> mp, pa = 0xFFFFFFFF] s)))))))))))))))))"

text \<open>A page whose part of the page directory is unused and outside every region of the layout.\<close>

definition fresh_window :: "vmm \<Rightarrow> u32 \<Rightarrow> bool" where
  "fresh_window v c \<longleftrightarrow> 0x400000 dvd unat c \<and> below_window c \<and> \<not> occupied c \<and> \<not> present (pde v (pde_index c))"

lemma find_fresh_from_ok:
  assumes "self_mapped v" "fresh_window v c" "0x400000 dvd unat addr" "addr \<le> c"
  shows "\<exists>virt. find_fresh_from v addr = Inr virt \<and> fresh_window v virt"
  using assms
proof (induction v addr rule: find_fresh_from.induct)
  case (1 v addr)
  have lt: "addr < RECURSIVE_PT_BASE"
    using 1(4,6) order_le_less_trans [of addr c] by (simp add: fresh_window_def below_window_def PT_BASE_def)
  note nw = next_window [OF lt]
  show ?case
  proof (cases "\<not> occupied addr \<and> \<not> present (pde v (pde_index addr))")
    case True
    then have "find_fresh_from v addr = Inr addr"
      using lt by (subst find_fresh_from.simps) (simp add: vload_pde [OF 1(3)] present_flag)
    moreover have "fresh_window v addr" using True lt 1(5) by (simp add: fresh_window_def below_window_def PT_BASE_def)
    ultimately show ?thesis by blast
  next
    case False
    then have "addr \<noteq> c" using 1(4) by (auto simp: fresh_window_def)
    then have less: "unat addr < unat c" using 1(6) by (simp add: u32_le_iff u32_eq_iff)
    obtain q r where q: "unat addr = 0x400000 * q" "unat c = 0x400000 * r" using 1(4,5) by (auto simp: fresh_window_def elim!: dvdE)
    then have "unat addr + 0x400000 \<le> unat c" using less by simp
    then have le: "addr + IDENTITY_WINDOW_SIZE \<le> c" using nw(1) by (simp add: u32_le_iff)
    have al: "0x400000 dvd unat (addr + IDENTITY_WINDOW_SIZE)" using 1(5) nw(1) by simp
    have "find_fresh_from v addr = find_fresh_from v (addr + IDENTITY_WINDOW_SIZE)"
      using lt False by (subst find_fresh_from.simps) (auto simp: vload_pde [OF 1(3)] present_flag)
    moreover have "\<exists>virt. find_fresh_from v (addr + IDENTITY_WINDOW_SIZE) = Inr virt \<and> fresh_window v virt"
    proof (cases "occupied addr")
      case True
      show ?thesis by (rule 1(1) [OF lt True 1(3,4) al le])
    next
      case no: False
      then have "entry_has_flag (pde v (pde_index addr)) PG_Present" using False by (simp add: present_flag)
      then show ?thesis using 1(2) [OF lt no vload_pde [OF 1(3)] _ 1(3,4) al le] by blast
    qed
    ultimately show ?thesis by simp
  qed
qed

lemma find_fresh_ok:
  assumes "self_mapped v" "fresh_window v c"
  shows "\<exists>virt. find_fresh_test_page_base v = Inr virt \<and> fresh_window v virt"
proof -
  have sm: "search_min = 0x400000" by code_simp
  have "\<not> c < 0x400000"
  proof
    assume "c < 0x400000"
    then have "occupied c"
      by (simp add: occupied_def find_region_addr_def REGIONS_def region_contains_nat IDENTITY_WINDOW_BASE_def
          IDENTITY_WINDOW_SIZE_def u32_less_iff)
    then show False using assms(2) by (simp add: fresh_window_def)
  qed
  then show ?thesis unfolding find_fresh_test_page_base_def
    by (intro find_fresh_from_ok [OF assms]) (simp_all add: sm)
qed

lemma case_vmm_lookup_passes:
  assumes "vmm_wf v" "fresh_window v c"
  shows "case_vmm_lookup (v, s) = Inr (v, passed 4 s)"
proof -
  note sm = vmm_wf_facts(1) [OF assms(1)]
  obtain virt where virt: "find_fresh_test_page_base v = Inr virt" "fresh_window v virt" using find_fresh_ok [OF sm assms(2)] by blast
  then have "mapping v virt = None" by (simp add: fresh_window_def mapping_def)
  then show ?thesis using virt
    by (simp add: case_vmm_lookup_def vload_pde [OF sm] virt_to_phys_mapping [OF assms(1)] fresh_window_def present_flag)
qed

text \<open>A write to a frame that holds no page table leaves the page tables alone.\<close>

lemma data_write:
  assumes wf: "vmm_wf v" and P: "page_aligned P" "data_frame v P" and j: "unat j < 1024"
  shows "vmm_wf (v\<lparr>phys := store32 (phys v) (P + 4 * j) x\<rparr>)" (is "vmm_wf ?v")
    and "\<And>i. unat i < 1024 \<Longrightarrow> pde (v\<lparr>phys := store32 (phys v) (P + 4 * j) x\<rparr>) i = pde v i"
    and "\<And>va. below_window va \<Longrightarrow> mapping (v\<lparr>phys := store32 (phys v) (P + 4 * j) x\<rparr>) va = mapping v va"
proof -
  note f = vmm_wf_facts [OF wf]
  show pde: "pde ?v i = pde v i" if "unat i < 1024" for i
    using load32_slot [OF P(1) f(3) j that] P(2) by (simp add: pde_def data_frame_def)
  have "self_mapped ?v" using f(1) pde [of 1023] by (simp add: self_mapped_def)
  then show "vmm_wf ?v" using wf pde by (auto simp: vmm_wf_def)
  show "mapping ?v va = mapping v va" if "below_window va" for va
  proof (cases "present (pde v (pde_index va))")
    case True
    then have "entry_address (pde v (pde_index va)) \<noteq> P" using P(2) that by (simp add: data_frame_def below_window_index)
    then have "raw_pte ?v va = raw_pte v va"
      using load32_slot [OF P(1) page_aligned_and(2) j pte_index_lt] pde [OF pde_index_lt] by (simp add: raw_pte_def)
    then show ?thesis by (simp add: mapping_def pde [OF pde_index_lt])
  qed (simp add: mapping_def pde [OF pde_index_lt])
qed

lemma vmm_wf_alloc:
  assumes "vmm_wf v" "alloc_frame (vpmm v) = Inr (a, p)"
  shows "vmm_wf (v\<lparr>vpmm := p\<rparr>)" "data_frame (v\<lparr>vpmm := p\<rparr>) a" "pde (v\<lparr>vpmm := p\<rparr>) = pde v" "mapping (v\<lparr>vpmm := p\<rparr>) = mapping v"
proof -
  note f = vmm_wf_facts [OF assms(1)] and r = alloc_frame_result [OF vmm_wf_facts(4) [OF assms(1)] assms(2)]
  show same: "pde (v\<lparr>vpmm := p\<rparr>) = pde v" "mapping (v\<lparr>vpmm := p\<rparr>) = mapping v"
    by (auto simp: pde_def mapping_def raw_pte_def fun_eq_iff)
  then show "vmm_wf (v\<lparr>vpmm := p\<rparr>)" using assms(1) r(3,4) by (auto simp: vmm_wf_def self_mapped_def)
  show "data_frame (v\<lparr>vpmm := p\<rparr>) a" unfolding data_frame_def same using f(5,7) r(2) by auto
qed

lemma window_page:
  assumes "0x400000 dvd unat virt" "below_window virt" "unat d < 0x400000"
  shows "unat (virt + d) = unat virt + unat d" "pde_index (virt + d) = pde_index virt" "below_window (virt + d)"
    "(virt + d) AND 0xFFF = d AND 0xFFF"
proof -
  obtain q where q: "unat virt = 0x400000 * q" using assms(1) by (elim dvdE)
  have "q < 1023" using assms(2) q by (simp add: below_window_def PT_BASE_def RECURSIVE_PT_BASE_def u32_less_iff)
  then show u: "unat (virt + d) = unat virt + unat d" using q assms(3) by (subst unat_add_u32) simp_all
  have "unat (virt + d) div 4194304 = q" "unat virt div 4194304 = q" using u q assms(3) by simp_all
  then show i: "pde_index (virt + d) = pde_index virt" by (simp add: u32_eq_iff unat_pde_index)
  then show "below_window (virt + d)" using assms(2) by (simp add: below_window_index)
  have "(0x400000 * q + unat d) mod 4096 = unat d mod 4096" using mod_mult_self2 [of "unat d" 4096 "1024 * q"] by (simp add: add.commute)
  then show "(virt + d) AND 0xFFF = d AND 0xFFF" using u q by (simp add: u32_eq_iff unat_and_FFF)
qed

text \<open>
  The case maps a fresh frame at a fresh page, through a new page table, writes to it and takes
  everything back but the page table.
\<close>

lemma case_vmm_map_unmap_passes:
  assumes wf: "vmm_wf v" and c: "fresh_window v c" and a: "alloc_frame (vpmm v) = Inr (a, p)" "a \<noteq> 0"
    and b: "alloc_frame p = Inr (b, p')" "b \<noteq> 0"
  shows "\<exists>v'. case_vmm_map_unmap (v, s) = Inr (v', passed 10 s) \<and> vmm_wf v' \<and>
    (\<forall>va. below_window va \<longrightarrow> translate v' va = translate v va) \<and> unat a div 4096 \<notin> pmm_used (vpmm v')"
proof -
  obtain virt where virt: "find_fresh_test_page_base v = Inr virt" "fresh_window v virt"
    using find_fresh_ok [OF vmm_wf_facts(1) [OF wf] c] by blast
  let ?v0 = "v\<lparr>vpmm := p\<rparr>" and ?fl = "PG_Present OR PG_Writable"
  note wa = vmm_wf_alloc [OF wf a(1)] and ar = alloc_frame_result [OF vmm_wf_facts(4) [OF wf] a(1)]
  have bw: "below_window virt" and al: "0x400000 dvd unat virt" using virt(2) by (simp_all add: fresh_window_def)
  note np = window_page [OF al bw, of PAGE_SIZE] and wp = window_page [OF al bw, of "0x40"]
  have m0: "mapping v va = None" if "pde_index va = pde_index virt" for va
    using virt(2) that by (simp add: fresh_window_def mapping_def)
  have "table_available ?v0 virt" using b by (auto simp: table_available_def)
  from map_page_result [OF wa(1) bw this, of a ?fl] ar(3) wa(2)
  obtain v1 where v1: "map_page ?v0 virt a ?fl = Inr v1" "vmm_wf v1" "pmm_used p \<subseteq> pmm_used (vpmm v1)" "data_frame v1 a"
      "\<And>va. below_window va \<Longrightarrow> mapping v1 va = (if same_page virt va then mapped_entry a ?fl else mapping v va)"
    by (auto simp: map_page_def wa(4))
  have fl: "mapped_entry a ?fl = Some (entry_update_flags ?fl a)" "entry_address (entry_update_flags ?fl a) = a"
    using entry_address_aligned [OF ar(1)] by (simp_all add: mapped_entry_def present_def PG_Present_def PG_Writable_def)
  have sp: "same_page virt (virt + 0x40)" "\<not> same_page virt (virt + PAGE_SIZE)"
    using wp(1) np(1) al by (auto simp: same_page_def PAGE_SIZE_def elim!: dvdE)
  have m1: "mapping v1 virt = Some (entry_update_flags ?fl a)" "mapping v1 (virt + 0x40) = Some (entry_update_flags ?fl a)"
      "mapping v1 (virt + PAGE_SIZE) = None"
    using v1(5) [OF bw] v1(5) [OF wp(3)] v1(5) [OF np(3)] fl(1) sp m0 [OF np(2)] by (simp_all add: same_page_def PAGE_SIZE_def)
  define v2 where "v2 = v1\<lparr>phys := store32 (phys v1) (a + 4 * 0x10) 0xA5A55A5A\<rparr>"
  have "unat (0x10 :: u32) < 1024" by simp
  note dw = data_write [OF v1(2) ar(1) v1(4) this, where x = "0xA5A55A5A", folded v2_def]
  have m2: "mapping v2 va = mapping v1 va" if "below_window va" for va by (rule dw(3) [OF that])
  have st: "vstore32 v1 (virt + 0x40) 0xA5A55A5A = Inr v2"
    using translate_mapping [OF v1(2), of "virt + 0x40"] m1(2) fl(2) wp(4) by (simp add: vstore32_def v2_def)
  have ld: "vload32 v2 (virt + 0x40) = Inr 0xA5A55A5A"
    using translate_mapping [OF dw(1), of "virt + 0x40"] m2 [OF wp(3)] m1(2) fl(2) wp(4) by (simp add: vload32_def v2_def)
  have df: "data_frame v2 a" using v1(4) dw(2) by (simp add: data_frame_def v2_def)
  have "unat a div 4096 \<in> pmm_used (vpmm v2)" using v1(3) ar(3) by (auto simp: v2_def)
  then obtain v3 where v3: "unmap_page v2 virt = Inr v3" "vmm_wf v3" "pmm_used (vpmm v3) = pmm_used (vpmm v2) - {unat a div 4096}"
      "\<And>va. below_window va \<Longrightarrow> mapping v3 va = (if same_page virt va then None else mapping v2 va)"
    using unmap_page_result [OF dw(1) bw] m2 [OF bw] m1(1) fl(2) df by (auto simp: unmap_page_def)
  have m3: "mapping v3 va = mapping v va" if "below_window va" for va
    using v3(4) [OF that] m2 [OF that] v1(5) [OF that] m0 [of va] by (auto simp: same_page_index)
  have n: "mapping v virt = None" "mapping v3 virt = None" using m0 [of virt] m3 [OF bw] by simp_all
  have pr: "entry_has_flag (pde v1 (pde_index virt)) PG_Present" using m1(1) by (auto simp: mapping_def present_flag split: if_splits)
  have "virt AND 0xFFF = 0" using window_page(4) [OF al bw, of 0] by simp
  then have "case_vmm_map_unmap (v, s) = Inr (v3, passed 10 s)"
    using a fl(2) m1 n pr virt(1) v1(1) st ld v3(1) wa(4)
    by (simp add: case_vmm_map_unmap_def vload_pde [OF vmm_wf_facts(1) [OF v1(2)]] virt_to_phys_mapping [OF v1(2)]
        virt_to_phys_mapping [OF wa(1)] virt_to_phys_mapping [OF v3(2)] PAGE_SIZE_def)
  moreover have "translate v3 va = translate v va" if "below_window va" for va
    using translate_mapping [OF v3(2)] translate_mapping [OF wf] m3 [OF that] by simp
  ultimately show ?thesis using v3(2,3) by auto
qed

section \<open>The cases after boot\<close>

text \<open>The first four cases of the suite, one after the other, on the allocator inside the machine.\<close>

definition run_caseK :: "string \<Rightarrow> ('w \<times> session \<Rightarrow> ('w \<times> session) krun) \<Rightarrow> 'w \<times> session \<Rightarrow> ('w \<times> session) krun" where
  "run_caseK name fn = (\<lambda>(w, s). bindK (fn (w, begin_case name s)) (\<lambda>(w, s). retK (w, end_case s)))"

definition run_memory_cases :: "mem \<Rightarrow> multiboot_info \<Rightarrow> u32 \<Rightarrow> vmm \<times> session \<Rightarrow> (vmm \<times> session) krun" where
  "run_memory_cases m mboot kernel_end = (\<lambda>(v, s).
     bindK (Some (run_case ''pmm-accounting-and-reserved-ranges'' (case_pmm_accounting m mboot kernel_end) (vpmm v, s))) (\<lambda>ps.
     bindK (run_caseK ''pmm-low-bootstrap-pages-reserved'' (case_pmm_low_pages m mboot kernel_end) ps) (\<lambda>(p, s).
     bindK (Some (run_case ''vmm-lookup-no-side-effects'' case_vmm_lookup (v\<lparr>vpmm := p\<rparr>, s))) (\<lambda>vs.
     Some (run_case ''vmm-map-unmap'' case_vmm_map_unmap vs)))))"

abbreviation free_set :: "pmm \<Rightarrow> nat set" where
  "free_set p \<equiv> {..<1048576} - pmm_used p"

lemma alloc_from:
  assumes "bm_wf PMM_params (mem_mngr p)" "0 \<in> pmm_used p" "Suc n \<le> card (free_set p)"
  shows "\<exists>a p'. alloc_frame p = Inr (a, p') \<and> a \<noteq> 0 \<and> bm_wf PMM_params (mem_mngr p') \<and> pmm_used p \<subseteq> pmm_used p' \<and>
    n \<le> card (free_set p')"
proof -
  have "free_set p \<noteq> {}" using assms(3) by (metis card.empty not_less_eq_eq zero_le)
  then obtain k where "k < 1048576" "k \<notin> pmm_used p" by blast
  then obtain a p' where a: "alloc_frame p = Inr (a, p')" "a \<noteq> 0" using alloc_frame_nonzero [OF assms(1,2)] by blast
  note r = alloc_frame_result [OF assms(1) a(1)]
  have "free_set p' = free_set p - {unat a div 4096}" using r(3) by auto
  then have "n \<le> card (free_set p')" using assms(3) card_Diff1_le [of "free_set p" "unat a div 4096"]
    by (cases "unat a div 4096 \<in> free_set p") simp_all
  then show ?thesis using a r(3,4) by blast
qed

lemma low_reserved_zero: "low_reserved low p \<Longrightarrow> 0 \<in> pmm_used p"
  using page_aligned_div [of low 0] by (auto simp: low_reserved_def page_aligned_def)

lemma memory_cases:
  assumes wf: "vmm_wf v" and low: "low_boot_reserved_end m mboot kernel_end = Inr low" "low_reserved low (vpmm v)"
    and es: "mmap_visits m (mmap_addr mboot) (mmap_addr mboot + mmap_length mboot) es" "0 < low_page_count low es" "low_page_count low es < 4294967296"
    and c: "fresh_window v c" and free: "2 \<le> card (free_set (vpmm v))"
  shows "\<exists>v' s'. run_memory_cases m mboot kernel_end (v, s) = Some (Inr (v', s')) \<and> vmm_wf v' \<and>
    case_count s' = case_count s + 4 \<and> check_count s' = check_count s + (word_of_nat (low_page_count low es) + 25) \<and>
    failure_count s' = failure_count s \<and>
    (\<forall>va. below_window va \<longrightarrow> translate v' va = translate v va)"
proof -
  note bm = vmm_wf_facts(4) [OF wf] and z = low_reserved_zero [OF low(2)]
  define s1 where "s1 = begin_case ''pmm-accounting-and-reserved-ranges'' s"
  have "free_set (vpmm v) \<noteq> {}" using free by (metis card.empty not_numeral_le_zero)
  then obtain k where "k < 1048576" "k \<notin> pmm_used (vpmm v)" by blast
  then obtain p where p: "case_pmm_accounting m mboot kernel_end (vpmm v, s1) = Inr (p, passed 10 s1)"
      "bm_wf PMM_params (mem_mngr p)" "pmm_used p = pmm_used (vpmm v)"
    using case_pmm_accounting_passes [OF bm low] by blast
  let ?v = "v\<lparr>vpmm := p\<rparr>"
  have same: "pde ?v = pde v" "\<And>va. translate ?v va = translate v va"
    by (simp_all add: pde_def translate_def fun_eq_iff Let_def)
  have wf': "vmm_wf ?v" using wf p(2,3) same(1) by (auto simp: vmm_wf_def self_mapped_def)
  have c': "fresh_window ?v c" using c same(1) by (simp add: fresh_window_def)
  obtain a q where a: "alloc_frame p = Inr (a, q)" "a \<noteq> 0" "bm_wf PMM_params (mem_mngr q)" "pmm_used p \<subseteq> pmm_used q"
      "1 \<le> card (free_set q)"
    using alloc_from [OF p(2), of 1] z free p(3) by auto
  obtain b q' where b: "alloc_frame q = Inr (b, q')" "b \<noteq> 0" using alloc_from [OF a(3), of 0] z a(4,5) p(3) by auto
  let ?n = "word_of_nat (low_page_count low es) :: u32"
  define s1' where "s1' = begin_case ''pmm-low-bootstrap-pages-reserved'' (end_case (passed 10 s1))"
  have "?n \<noteq> 0" using es(2,3) by (simp add: u32_eq_iff unat_of_nat)
  moreover have "low_reserved low p" using low(2) p(3) by (simp add: low_reserved_def)
  ultimately have lp: "case_pmm_low_pages m mboot kernel_end (p, s1') = Some (Inr (p, passed (?n + 1) s1'))"
    using case_pmm_low_pages_passes [OF p(2) low(1) _ es(1)] by blast
  define s2 where "s2 = begin_case ''vmm-lookup-no-side-effects'' (end_case (passed (?n + 1) s1'))"
  define s3 where "s3 = begin_case ''vmm-map-unmap'' (end_case (passed 4 s2))"
  obtain v' where v': "case_vmm_map_unmap (?v, s3) = Inr (v', passed 10 s3)" "vmm_wf v'"
      "\<forall>va. below_window va \<longrightarrow> translate v' va = translate ?v va"
    using case_vmm_map_unmap_passes [OF wf' c', of a q b q' s3] a(1,2) b by auto
  have "run_memory_cases m mboot kernel_end (v, s) = Some (Inr (v', end_case (passed 10 s3)))"
    using p(1) lp v'(1) case_vmm_lookup_passes [OF wf' c']
    by (simp add: run_memory_cases_def run_case_def run_caseK_def retK_def s1_def [symmetric] s1'_def [symmetric] s2_def [symmetric] s3_def [symmetric])
  moreover have "case_count s3 = case_count s + 4" "check_count (passed 10 s3) = check_count s + (?n + 25)" "failure_count s3 = failure_count s"
    by (simp_all add: s3_def s2_def s1'_def s1_def session_defs)
  ultimately show ?thesis using v'(2,3) same(2) by (simp add: end_case_def passed_def)
qed

lemma pmm_init_low_reserved:
  assumes "TEST_MASK (mb_flags mboot) MULTIBOOT_INFO_MEM_MAP" and "bm_wf PMM_params (mem_mngr p0)"
    and "mmap_visits m (mmap_addr mboot) (mmap_addr mboot + mmap_length mboot) es"
    and "\<forall>e \<in> set es. me_type e \<le> 5"
    and "low_boot_reserved_end m mboot kernel_end = Inr low" "0 < kernel_end" "unat kernel_end + 4095 < 4294967296"
  shows "\<exists>p. pmm_init m mboot kernel_start kernel_end p0 = Some (Inr p) \<and> bm_wf PMM_params (mem_mngr p) \<and> low_reserved low p \<and>
    free_set p = (\<Union>e \<in> set es. entry_frames e) - boot_reserved m mboot kernel_start kernel_end low"
proof -
  let ?E = "\<Union>e \<in> set es. entry_frames e"
  obtain s1 p where p: "pmm_init m mboot kernel_start kernel_end p0 = Some (Inr p)" "pmm_used s1 = {..<1048576} - ?E"
      "reserved_from s1 (boot_reserved m mboot kernel_start kernel_end low) p"
    using pmm_init_result [OF assms(1-4), of kernel_end kernel_start] assms(5) by auto
  have E: "?E \<subseteq> {256..<1048576}" using entry_frames_bound by blast
  have u: "pmm_used p = ({..<1048576} - ?E) \<union> boot_reserved m mboot kernel_start kernel_end low"
    using p(2,3) by (simp add: reserved_from_def)
  have low: "unat low mod 4096 = 0" "align_up kernel_end PAGE_SIZE \<le> low"
    using low_boot_reserved_end_result [of m mboot kernel_end] assms(5) by auto
  have "unat kernel_end \<le> unat low" using align_up_page_ge [OF assms(7)] low(2) by (simp add: u32_le_iff)
  then have nz: "low \<noteq> 0" using assms(6) by (auto simp: u32_less_iff)
  have "k \<in> pmm_used p" if "k < unat low div 4096" for k
  proof -
    have "unat low div 4096 < 1048576" using unat_u32_lt [of low] by (simp del: unat_u32_lt add: div_less_iff_less_mult)
    then have "k < 1048576" using that by linarith
    then show ?thesis unfolding u using that E by (cases "k < 256") (auto simp: boot_reserved_def)
  qed
  then have "low_reserved low p" using low(1) nz by (auto simp: low_reserved_def page_aligned_def)
  moreover have "free_set p = ?E - boot_reserved m mboot kernel_start kernel_end low" unfolding u using E by auto
  ultimately show ?thesis using p(1) reserved_from_wf [OF p(3)] by blast
qed



end
