(* ===== verification/Task_Switch.thy ===== *)
theory Task_Switch
  imports Scheduler
begin

text \<open>
  A whole context switch: the stub \<^verbatim>\<open>context_switch<N>\<close> of \<^verbatim>\<open>int/idt.hpp\<close>, the dispatcher it calls and the
  scheduler, which reads the frame of the interrupted task from the stack and writes that of the
  next one over it. The stack below the arguments, which the compiled functions use while
  they run, is dead when they return and is left out.
\<close>

section \<open>The frame in memory\<close>

definition frame_dwords :: "interrupt_frame \<Rightarrow> u32 list" where
  "frame_dwords f = [f_ds f, f_es f, f_fs f, f_gs f, f_edi f, f_esi f, f_ebp f, f_esp f, f_ebx f, f_edx f, f_ecx f,
     f_eax f, f_int_no f, f_err_code f, f_eip f, f_cs f, f_eflags f, f_user_esp f, f_user_ss f]"

primrec store_dwords :: "mem \<Rightarrow> u32 \<Rightarrow> u32 list \<Rightarrow> mem" where
  "store_dwords m p [] = m"
| "store_dwords m p (v # vs) = store_dwords (store32 m p v) (p + 4) vs"

text \<open>\<^verbatim>\<open>memcpy\<close> of a frame to \<open>p\<close>.\<close>

definition store_frame :: "mem \<Rightarrow> u32 \<Rightarrow> interrupt_frame \<Rightarrow> mem" where
  "store_frame m p f = store_dwords m p (frame_dwords f)"

lemma store_dwords_other:
  assumes "word_aligned p" "word_aligned a" "\<And>i. i < length vs \<Longrightarrow> a \<noteq> p + 4 * word_of_nat i"
  shows "load32 (store_dwords m p vs) a = load32 m a"
  using assms
proof (induction vs arbitrary: p m)
  case (Cons v vs)
  have al: "word_aligned (p + 4)" using Cons.prems(1) word_aligned_mult4 [of 1] by (simp add: word_aligned_add)
  have "a \<noteq> p + 4 + 4 * word_of_nat i" if "i < length vs" for i
    using Cons.prems(3) [of "Suc i"] that by (simp add: algebra_simps)
  moreover have "a \<noteq> p" using Cons.prems(3) [of 0] by simp
  ultimately show ?case using Cons.IH [OF al Cons.prems(2)] load32_store32_other [OF Cons.prems(1,2)] by simp
qed simp

lemma store_dwords_nth:
  assumes "word_aligned p" "length vs < 1073741824" "i < length vs"
  shows "load32 (store_dwords m p vs) (p + 4 * word_of_nat i) = vs ! i"
  using assms
proof (induction vs arbitrary: p m i)
  case (Cons v vs)
  have al: "word_aligned (p + 4)" using Cons.prems(1) word_aligned_mult4 [of 1] by (simp add: word_aligned_add)
  show ?case
  proof (cases i)
    case 0
    have "p \<noteq> p + 4 + 4 * word_of_nat j" if "j < length vs" for j
    proof
      assume "p = p + 4 + 4 * word_of_nat j"
      then have "4 * word_of_nat (Suc j) = (0 :: u32)" by (simp add: algebra_simps)
      then have "unat (4 * word_of_nat (Suc j) :: u32) = 0" by simp
      moreover have "Suc j < 1073741824" using that Cons.prems(2) by simp
      ultimately show False using unat_nat_mult4 [of "Suc j"] by (simp del: of_nat_Suc)
    qed
    then show ?thesis using 0 store_dwords_other [OF al Cons.prems(1)] by simp
  next
    case (Suc j)
    have "length vs < 1073741824" "j < length vs" using Cons.prems(2,3) Suc by simp_all
    from Cons.IH [OF al this] show ?thesis using Suc by (simp add: algebra_simps)
  qed
qed simp

lemma load_store_frame:
  assumes "word_aligned p"
  shows "load_frame (store_frame m p f) p = f"
proof -
  have n: "load32 (store_dwords m p (frame_dwords f)) (p + 4 * word_of_nat i) = frame_dwords f ! i" if "i < 19" for i
    using that by (intro store_dwords_nth [OF assms]) (simp_all add: frame_dwords_def)
  show ?thesis unfolding load_frame_def store_frame_def
    using n [of 0] n [of 1] n [of 2] n [of 3] n [of 4] n [of 5] n [of 6] n [of 7] n [of 8] n [of 9] n [of 10] n [of 11]
      n [of 12] n [of 13] n [of 14] n [of 15] n [of 16] n [of 17] n [of 18]
    by (simp add: frame_dwords_def)
qed

section \<open>The switch\<close>

text \<open>\<^verbatim>\<open>schedule(ctx)\<close> on the frame at \<open>ctx\<close>.\<close>

definition schedule_at :: "image \<Rightarrow> interrupt_frame \<Rightarrow> u32 \<Rightarrow> scheduler \<times> mem \<Rightarrow> (scheduler \<times> mem) kres" where
  "schedule_at img junk ctx w =
     bindR (schedule img junk ctx (load_frame (snd w) ctx) (fst w)) (\<lambda>(f, s). Inr (s, store_frame (snd w) ctx f))"

text \<open>The call of \<^verbatim>\<open>isr_handler\<close> with the three arguments on the stack.\<close>

definition call_isr_handler ::
  "(scheduler \<times> mem, 'f) idt \<Rightarrow> bool \<Rightarrow> cpu \<times> (scheduler \<times> mem, 'f) isr_env \<Rightarrow> (cpu \<times> (scheduler \<times> mem, 'f) isr_env) kres" where
  "call_isr_handler t core w =
     (let (c, env) = w; m = cmem c; sp = r_esp c in
      bindR (isr_handler t core (ucast (load32 m sp)) (load32 m (sp + 4)) (load32 m (sp + 8)) (env\<lparr>env_rest := (fst (env_rest env), m)\<rparr>))
        (\<lambda>env. Inr (c\<lparr>cmem := snd (env_rest env)\<rparr>, env)))"

definition interrupt_switch ::
  "u32 \<Rightarrow> (scheduler \<times> mem, 'f) idt \<Rightarrow> bool \<Rightarrow> cpu \<times> (scheduler \<times> mem, 'f) isr_env \<Rightarrow> (cpu \<times> (scheduler \<times> mem, 'f) isr_env) kres" where
  "interrupt_switch n t core w =
     bindR (call_isr_handler t core (context_switch_enter n (interrupt (fst w)), snd w)) (\<lambda>(c, env).
     Inr (context_switch_leave c, env))"

text \<open>The registers of a frame, but for the stack pointer, and the registers of the processor.\<close>

definition same_registers :: "cpu \<Rightarrow> interrupt_frame \<Rightarrow> bool" where
  "same_registers c f \<longleftrightarrow> r_eax c = f_eax f \<and> r_ecx c = f_ecx f \<and> r_edx c = f_edx f \<and> r_ebx c = f_ebx f \<and>
     r_ebp c = f_ebp f \<and> r_esi c = f_esi f \<and> r_edi c = f_edi f \<and> r_eip c = f_eip f \<and> r_eflags c = f_eflags f \<and>
     s_cs c = ucast (f_cs f) \<and> s_ds c = ucast (f_ds f) \<and> s_es c = ucast (f_es f) \<and> s_fs c = ucast (f_fs f) \<and> s_gs c = ucast (f_gs f)"

lemma enter_arguments:
  assumes "word_aligned (r_esp c)" "e = context_switch_enter n (interrupt c)"
  shows "r_esp e = r_esp c - 80" "load32 (cmem e) (r_esp e) = n" "load32 (cmem e) (r_esp e + 8) = r_esp c - 12"
proof -
  have al: "word_aligned (r_esp c - 12)"
    using assms(1) word_aligned_mult4 [of 3] by (simp add: word_aligned_diff)
  show esp: "r_esp e = r_esp c - 80" unfolding assms(2) by (simp add: context_switch_enter_eq interrupt_def)
  note nth = push_mem_nth [OF al, of "[0, n, r_eax c, r_ecx c, r_edx c, r_ebx c, r_esp c - 20, r_ebp c,
        r_esi c, r_edi c, ucast (s_gs c), ucast (s_fs c), ucast (s_es c), ucast (s_ds c), r_esp c - 12, 0, n]"]
  show "load32 (cmem e) (r_esp e) = n" "load32 (cmem e) (r_esp e + 8) = r_esp c - 12"
    using nth [of 16] nth [of 14] unfolding esp unfolding assms(2)
    by (simp_all add: context_switch_enter_eq interrupt_def algebra_simps)
qed

lemma leave_registers:
  "same_registers (context_switch_leave c) (load_frame (cmem c) (r_esp c + 12))"
  "r_esp (context_switch_leave c) = r_esp c + 80" "cmem (context_switch_leave c) = cmem c"
  by (simp_all add: same_registers_def context_switch_leave_eq Let_def)

lemma interrupt_switch_runs:
  assumes al: "word_aligned (r_esp c)" and wf: "idt_tables_wf t"
    and sch: "schedule img junk (r_esp c - 68) (load_frame (cmem (context_switch_enter 48 (interrupt c))) (r_esp c - 68)) (fst (env_rest env)) = Inr (f, s')"
  shows "\<exists>c' env'. interrupt_switch 48 (register_isr t 48 (reschedule_isr (schedule_at img junk))) core (c, env) = Inr (c', env') \<and>
    fst (env_rest env') = s' \<and> env_fpu env' = env_fpu env \<and> same_registers c' f \<and> r_esp c' = r_esp c \<and>
    load32 (cmem c') (r_esp c) = f_user_esp f \<and> load32 (cmem c') (r_esp c + 4) = f_user_ss f"
proof -
  define e where "e = context_switch_enter 48 (interrupt c)"
  note arg = enter_arguments [OF al e_def]
  have a: "load32 (cmem e) (r_esp c - 80) = 48" "load32 (cmem e) (r_esp c - 72) = r_esp c - 12" using arg by simp_all
  let ?t = "register_isr t 48 (reschedule_isr (schedule_at img junk))" and ?p = "r_esp c - 68"
  let ?m = "store_frame (cmem e) ?p f"
  let ?env = "env\<lparr>env_rest := (fst (env_rest env), cmem e)\<rparr>"
  have k: "isr_kind (isr_table ! 48) = ContextSwitch" by (simp add: isr_table_def get_isr_wrapper_def)
  have h: "isr_handlers ?t ! 48 = Some (reschedule_isr (schedule_at img junk))"
    using wf by (simp add: register_isr_def idt_tables_wf_def)
  have "schedule_at img junk ?p (fst (env_rest env), cmem e) = Inr (s', ?m)"
    using sch by (simp add: schedule_at_def e_def)
  then have r: "reschedule_isr (schedule_at img junk) x (r_esp c - 12) ?env = Inr (?env\<lparr>env_rest := (s', ?m)\<rparr>)" for x
    using k by (simp add: reschedule_isr_def from_base_def base_offset_def)
  have i: "isr_handler ?t core 48 x (r_esp c - 12) ?env = Inr (?env\<lparr>env_rest := (s', ?m), env_fpu := env_fpu env,
      env_lapic_eoi := env_lapic_eoi env + (if core then 1 else 0)\<rparr>)" for x
    using h r [of x] by (simp add: isr_handler_def Let_def)
  let ?c = "e\<lparr>cmem := ?m\<rparr>"
  obtain env' where run: "interrupt_switch 48 ?t core (c, env) = Inr (context_switch_leave ?c, env')"
      "fst (env_rest env') = s'" "env_fpu env' = env_fpu env"
    using i by (simp add: interrupt_switch_def call_isr_handler_def Let_def arg(1) a e_def [symmetric])
  have alp: "word_aligned ?p" using al word_aligned_mult4 [of 17] by (simp add: word_aligned_diff)
  have f: "load_frame ?m ?p = f" by (rule load_store_frame [OF alp])
  have "f_user_esp (load_frame ?m ?p) = load32 ?m (r_esp c)" "f_user_ss (load_frame ?m ?p) = load32 ?m (r_esp c + 4)"
    by (simp_all add: load_frame_def add.commute)
  then have u: "load32 ?m (r_esp c) = f_user_esp f" "load32 ?m (r_esp c + 4) = f_user_ss f" unfolding f by simp_all
  have "same_registers (context_switch_leave ?c) f" using leave_registers(1) [of ?c] f arg(1) by simp
  moreover have "r_esp (context_switch_leave ?c) = r_esp c" using leave_registers(2) [of ?c] arg(1) by simp
  ultimately show ?thesis using run u leave_registers(3) [of ?c]
    by (intro exI [of _ "context_switch_leave ?c"] exI [of _ env']) simp
qed


section \<open>What a task finds when it runs again\<close>

text \<open>
  Property C17 (functional): a context switch exchanges every register but the stack pointer. When
  a task is interrupted by the reschedule vector and the scheduler picks the task of slot \<open>j\<close>,
  the whole path of stub, dispatcher and scheduler returns, the registers of the interrupted
  task are saved in its slot with the two words on top of its stack, and the processor continues with
  the registers saved in slot \<open>j\<close>. But it continues on the stack of the task it has just
  interrupted: the stack pointer is the interrupted one, the saved stack pointer of slot \<open>j\<close> is
  not used, the one saved for the interrupted task lies eight bytes above its stack, the two words on
  top of the interrupted stack have become those that were saved in slot \<open>j\<close>, and the floating
  point state is that of the interrupted task.
\<close>

theorem switch_keeps_interrupted_stack:
  assumes "word_aligned (r_esp c)" and "idt_tables_wf t" and "env_rest env = (s, m)"
    and "sched_wf s" and "only_running (unat (current_task_index s)) (task_tab s)"
    and "task_tab s (unat (current_task_index s)) = Some a" "task_state a = RUNNING"
    and "\<not> (r_eax c = 0xDEADDEAD \<and> r_ebp c = 0)"
  shows "\<exists>c' env' s' i j a' b. interrupt_switch 48 (register_isr t 48 (reschedule_isr (schedule_at img junk))) core (c, env) = Inr (c', env') \<and>
    s' = fst (env_rest env') \<and> i = unat (current_task_index s) \<and> j = unat (current_task_index s') \<and>
    task_tab s' i = Some a' \<and> same_registers c (task_ctx a') \<and> stack_ptr a' = r_esp c + 8 \<and>
    f_user_esp (task_ctx a') = load32 (cmem c) (r_esp c) \<and> f_user_ss (task_ctx a') = load32 (cmem c) (r_esp c + 4) \<and>
    task_tab s' j = Some b \<and> task_state b = RUNNING \<and> (i \<noteq> j \<longrightarrow> map_option task_ctx (task_tab s j) = Some (task_ctx b)) \<and>
    same_registers c' (task_ctx b) \<and> r_esp c' = r_esp c \<and>
    load32 (cmem c') (r_esp c) = f_user_esp (task_ctx b) \<and> load32 (cmem c') (r_esp c + 4) = f_user_ss (task_ctx b) \<and>
    env_fpu env' = env_fpu env"
proof -
  let ?ctx = "load_frame (cmem (context_switch_enter 48 (interrupt c))) (r_esp c - 68)"
  note fr = context_switch_frame [OF assms(1), of 48]
  have alive: "\<not> (f_eax ?ctx = 0xDEADDEAD \<and> f_ebp ?ctx = 0)" using assms(8) by (simp add: fr)
  obtain f s' where s': "schedule img junk (r_esp c - 68) ?ctx s = Inr (f, s')"
    and p: "in_state (task_tab s') RUNNING (unat (current_task_index s'))"
      "map_option task_ctx (task_tab s' (unat (current_task_index s))) = Some ?ctx"
      "map_option task_ctx (task_tab s' (unat (current_task_index s'))) = Some f"
      "map_option stack_ptr (task_tab s' (unat (current_task_index s))) = Some (r_esp c - 68 + frame_size)"
      "unat (current_task_index s') \<noteq> unat (current_task_index s) \<longrightarrow>
        map_option task_ctx (task_tab s (unat (current_task_index s'))) = Some f"
    using schedule_preempted [OF assms(4-7) alive, of img junk "r_esp c - 68"] unfolding Let_def by blast
  obtain a' b where ab: "task_tab s' (unat (current_task_index s)) = Some a'" "task_ctx a' = ?ctx" "stack_ptr a' = r_esp c + 8"
      "task_tab s' (unat (current_task_index s')) = Some b" "task_ctx b = f" "task_state b = RUNNING"
    using p(1-4) by (auto simp: in_state_def frame_size_def split: option.splits)
  have regs: "same_registers c (task_ctx a')" "f_user_esp (task_ctx a') = load32 (cmem c) (r_esp c)"
      "f_user_ss (task_ctx a') = load32 (cmem c) (r_esp c + 4)"
    unfolding ab(2) fr by (simp_all add: same_registers_def ucast_u16_u32_u16)
  have "schedule img junk (r_esp c - 68) ?ctx (fst (env_rest env)) = Inr (f, s')" using s' assms(3) by simp
  from interrupt_switch_runs [OF assms(1,2) this, of core] obtain c' env' where
    r: "interrupt_switch 48 (register_isr t 48 (reschedule_isr (schedule_at img junk))) core (c, env) = Inr (c', env')"
      "fst (env_rest env') = s'" "env_fpu env' = env_fpu env" "same_registers c' f" "r_esp c' = r_esp c"
      "load32 (cmem c') (r_esp c) = f_user_esp f" "load32 (cmem c') (r_esp c + 4) = f_user_ss f"
    by blast
  show ?thesis
    by (intro exI [of _ c'] exI [of _ env'] exI [of _ s'] exI [of _ "unat (current_task_index s)"]
        exI [of _ "unat (current_task_index s')"] exI [of _ a'] exI [of _ b])
      (use r ab regs p(5) in simp)
qed

text \<open>Two tasks; the processor is in the second one, with its stack at 0x9000.\<close>

definition example_switch_env :: "(scheduler \<times> mem, nat) isr_env" where
  "example_switch_env = \<lparr>env_rest = (example_sched, \<lambda>_. 0), env_fpu = 7, env_io = [], env_lapic_eoi = 0\<rparr>"

definition example_switch_idt :: "(scheduler \<times> mem, nat) idt" where
  "example_switch_idt = \<lparr>isr_handlers = replicate 256 None, irq_handlers = replicate 16 None\<rparr>"

theorem switch_keeps_interrupted_stack_witness:
  "\<exists>c' env'. interrupt_switch 48 (register_isr example_switch_idt 48 (reschedule_isr (schedule_at example_image example_frame))) True
      (example_cpu, example_switch_env) = Inr (c', env') \<and> r_esp c' = 0x9000 \<and> env_fpu env' = 7"
proof -
  have al: "word_aligned (r_esp example_cpu)" by (simp add: word_aligned_def example_cpu_sel)
  have t: "idt_tables_wf example_switch_idt" by (simp add: idt_tables_wf_def example_switch_idt_def)
  have e: "env_rest example_switch_env = (example_sched, \<lambda>_. 0)" "env_fpu example_switch_env = 7" by (simp_all add: example_switch_env_def)
  have c: "unat (current_task_index example_sched) = 1" by (simp add: example_sched_def)
  have o: "only_running (unat (current_task_index example_sched)) (task_tab example_sched)"
    unfolding c by (simp add: only_running_def in_state_def example_sched_tab example_task_def)
  have a: "task_tab example_sched (unat (current_task_index example_sched)) = Some (example_task 2 RUNNING 0x102000)"
      "task_state (example_task 2 RUNNING 0x102000) = RUNNING"
    unfolding c by (simp_all add: example_sched_tab example_task_def)
  have r: "\<not> (r_eax example_cpu = 0xDEADDEAD \<and> r_ebp example_cpu = 0)" by (simp add: example_cpu_def)
  from switch_keeps_interrupted_stack [OF al t e(1) example_sched_wf o a r, of example_image example_frame True]
  show ?thesis unfolding e(2) example_cpu_sel(3) by blast
qed

end
