(* ===== verification/Compile_Time.thy ===== *)
theory Compile_Time
  imports Heap Task_Switch
begin

text \<open>
  The assertions of \<^verbatim>\<open>ktest/compile_time.hpp\<close> that are about values: the constants, layouts and functions
  the compiler evaluates. They hold of the definitions of this library, so that these agree
  with the code wherever its authors fixed a value. The assertions on types are left out, as
  are sizes of structures that are not modelled byte by byte.
\<close>

definition TinyBitmap :: bm_params where
  "TinyBitmap = \<lparr>BASE_ADDR = 0x1000, MAX_UNITS = 64, UNIT_SIZE = 0x1000\<rparr>"

definition bitmap_asserts :: "bool list" where
  "bitmap_asserts = [BASE_ADDR TinyBitmap = 0x1000, MAX_UNITS TinyBitmap = 64, UNIT_SIZE TinyBitmap = 0x1000, BITMAP_SIZE TinyBitmap = 2,
     BASE_ADDR PMM_params = 0, MAX_UNITS PMM_params = MAX_FRAMES, UNIT_SIZE PMM_params = PAGE_SIZE]"

definition paging_asserts :: "bool list" where
  "paging_asserts = [PAGE_SIZE = 4096, MAX_FRAMES = push_bit 20 1,
     align_down PAGE_SIZE PAGE_SIZE = PAGE_SIZE, align_down 0x1234 0x1000 = 0x1000,
     align_up PAGE_SIZE PAGE_SIZE = PAGE_SIZE, align_up 0x1234 0x1000 = 0x2000,
     PDE_BASE = 0xFFFFF000, PT_BASE = 0xFFC00000, PAGE_MASK = 0xFFFFF000, HEAPCHUNK_SIZE = 16]"

definition layout_asserts :: "bool list" where
  "layout_asserts = [validate, rid (Layout.region KernelHeap) = KernelHeap,
     map_option rid (find_region_addr KERNEL_HEAP_BASE) = Some KernelHeap, find_region_addr 0x00800000 = None,
     rbase (Layout.region KernelHeap) = HEAP_START, rsize (Layout.region KernelHeap) = HEAP_MAX_ADDR - HEAP_START,
     region_contains (Layout.region KernelHeap) HEAP_START, region_contains_span (Layout.region KernelHeap) HEAP_START HEAP_MIN_SIZE,
     rbase (Layout.region ModuleSpace) = MODULE_SPACE_BASE, rbase (Layout.region RecursivePageTables) = PT_BASE,
     LOW_USABLE_BASE = 0x00100000, ACPI_SCAN_BASE = 0x000E0000, ACPI_SCAN_END = 0x00100000,
     HEAP_MIN_SIZE mod PAGE_SIZE = 0, HEAP_MIN_SIZE \<ge> PAGE_SIZE]"

definition interrupt_asserts :: "bool list" where
  "interrupt_asserts = [frame_size = 76, base_offset = 56, has_error_code (get_isr_wrapper 14), isr_kind (get_isr_wrapper 14) = Base,
     isr_kind (get_isr_wrapper 32) = ContextSwitch, isr_kind (get_isr_wrapper 48) = ContextSwitch,
     isr_kind (get_isr_wrapper (unat TLB_SHOOTDOWN_VECTOR)) = Base, \<not> has_error_code (get_isr_wrapper 3)]"

definition stack_asserts :: "bool list" where
  "stack_asserts = [STACK_MAGIC = 0x434F5245, npos = - 1]"

theorem compile_time_asserts_hold:
  "list_all id bitmap_asserts" "list_all id paging_asserts" "list_all id layout_asserts" "list_all id interrupt_asserts" "list_all id stack_asserts"
  by code_simp+

text \<open>The frame on the stack is as long as the structure that is copied over it, and begins where the stub says.\<close>

lemma frame_dwords_size: "4 * length (frame_dwords f) = unat frame_size"
  by (simp add: frame_dwords_def frame_size_def)

end
