(* ===== verification/Registers.thy ===== *)
theory Registers
  imports APIC Serial
begin

text \<open>
  \<^verbatim>\<open>register.hpp\<close>: the operators that make a register of a device look like a variable. A register is
  given by its two members \<^verbatim>\<open>read\<close> and \<^verbatim>\<open>write\<close>, on the state of the machine; reading a port may change the
  state of the device. The locale \<open>register_cell\<close> is the contract of a register that keeps what
  is written; the registers of both interrupt controllers fulfil it.
\<close>

unbundle bit_operations_syntax

section \<open>RegisterBase\<close>

record ('s, 'w) register =
  reg_read :: "'s \<Rightarrow> 'w \<times> 's"
  reg_write :: "'w \<Rightarrow> 's \<Rightarrow> 's"

definition reg_value :: "('s, 'w) register \<Rightarrow> 's \<Rightarrow> 'w \<times> 's" where
  "reg_value r s = reg_read r s"

definition reg_set_value :: "('s, 'w) register \<Rightarrow> 'w \<Rightarrow> 's \<Rightarrow> 's" where
  "reg_set_value r val s = reg_write r val s"

definition reg_assign :: "('s, 'w) register \<Rightarrow> 'w \<Rightarrow> 's \<Rightarrow> 's" where
  "reg_assign r val s = reg_set_value r val s"

text \<open>\<^verbatim>\<open>value(f(value()))\<close>.\<close>

definition reg_modify :: "('s, 'w) register \<Rightarrow> ('w \<Rightarrow> 'w) \<Rightarrow> 's \<Rightarrow> 's" where
  "reg_modify r f s = (let (v, s) = reg_value r s in reg_set_value r (f v) s)"

definition reg_add :: "('s, 'a :: len word) register \<Rightarrow> 'a word \<Rightarrow> 's \<Rightarrow> 's" where
  "reg_add r rhs = reg_modify r (\<lambda>v. v + rhs)"

definition reg_sub :: "('s, 'a :: len word) register \<Rightarrow> 'a word \<Rightarrow> 's \<Rightarrow> 's" where
  "reg_sub r rhs = reg_modify r (\<lambda>v. v - rhs)"

definition reg_mul :: "('s, 'a :: len word) register \<Rightarrow> 'a word \<Rightarrow> 's \<Rightarrow> 's" where
  "reg_mul r rhs = reg_modify r (\<lambda>v. v * rhs)"

text \<open>A division by zero, after the register was read, is a fault of the processor; a shift by 32 or more is undefined.\<close>

definition reg_div :: "('s, 'a :: len word) register \<Rightarrow> 'a word \<Rightarrow> 's \<Rightarrow> 's kres" where
  "reg_div r rhs s = (if rhs = 0 then Inl Undefined else Inr (reg_modify r (\<lambda>v. v div rhs) s))"

definition reg_mod :: "('s, 'a :: len word) register \<Rightarrow> 'a word \<Rightarrow> 's \<Rightarrow> 's kres" where
  "reg_mod r rhs s = (if rhs = 0 then Inl Undefined else Inr (reg_modify r (\<lambda>v. v mod rhs) s))"

definition reg_or :: "('s, 'a :: len word) register \<Rightarrow> 'a word \<Rightarrow> 's \<Rightarrow> 's" where
  "reg_or r rhs = reg_modify r (\<lambda>v. v OR rhs)"

definition reg_and :: "('s, 'a :: len word) register \<Rightarrow> 'a word \<Rightarrow> 's \<Rightarrow> 's" where
  "reg_and r rhs = reg_modify r (\<lambda>v. v AND rhs)"

definition reg_xor :: "('s, 'a :: len word) register \<Rightarrow> 'a word \<Rightarrow> 's \<Rightarrow> 's" where
  "reg_xor r rhs = reg_modify r (\<lambda>v. v XOR rhs)"

definition reg_shl :: "('s, 'a :: len word) register \<Rightarrow> 'a word \<Rightarrow> 's \<Rightarrow> 's kres" where
  "reg_shl r rhs s = (if unat rhs < 32 then Inr (reg_modify r (push_bit (unat rhs)) s) else Inl Undefined)"

definition reg_shr :: "('s, 'a :: len word) register \<Rightarrow> 'a word \<Rightarrow> 's \<Rightarrow> 's kres" where
  "reg_shr r rhs s = (if unat rhs < 32 then Inr (reg_modify r (drop_bit (unat rhs)) s) else Inl Undefined)"

definition reg_not :: "('s, 'a :: len word) register \<Rightarrow> 's \<Rightarrow> 'a word \<times> 's" where
  "reg_not r s = (let (v, s) = reg_value r s in (NOT v, s))"

definition reg_neg :: "('s, 'a :: len word) register \<Rightarrow> 's \<Rightarrow> 'a word \<times> 's" where
  "reg_neg r s = (let (v, s) = reg_value r s in (- v, s))"

definition reg_inc :: "('s, 'a :: len word) register \<Rightarrow> 's \<Rightarrow> 's" where
  "reg_inc r = reg_modify r (\<lambda>v. v + 1)"

definition reg_dec :: "('s, 'a :: len word) register \<Rightarrow> 's \<Rightarrow> 's" where
  "reg_dec r = reg_modify r (\<lambda>v. v - 1)"

section \<open>The registers of the devices\<close>

definition lapic_register :: "u32 \<Rightarrow> (apic_hw, u32) register" where
  "lapic_register reg = \<lparr>reg_read = (\<lambda>hw. (lapic_read hw reg, hw)), reg_write = (\<lambda>data hw. lapic_write hw reg data)\<rparr>"

definition ioapic_register :: "u32 \<Rightarrow> u32 \<Rightarrow> (apic_hw, u32) register" where
  "ioapic_register base reg = \<lparr>reg_read = (\<lambda>hw. (ioapic_read hw base reg, hw)), reg_write = (\<lambda>data hw. ioapic_write hw base reg data)\<rparr>"

definition port8 :: "'s port_dev \<Rightarrow> u16 \<Rightarrow> ('s, u8) register" where
  "port8 dv address = \<lparr>reg_read = dv_in dv address, reg_write = dv_out dv address\<rparr>"

section \<open>Registers that keep what is written\<close>

locale register_cell =
  fixes r :: "('s, 'a :: len word) register"
  assumes read_keeps: "snd (reg_read r s) = s"
    and read_write: "fst (reg_read r (reg_write r v s)) = v"
begin

lemma modify_value: "fst (reg_read r (reg_modify r f s)) = f (fst (reg_read r s))"
  by (simp add: reg_modify_def reg_value_def reg_set_value_def case_prod_beta read_write)

lemma assign_value: "fst (reg_read r (reg_assign r v s)) = v"
  by (simp add: reg_assign_def reg_set_value_def read_write)

lemma or_sets_bits:
  "bit (fst (reg_read r (reg_or r x s))) n \<longleftrightarrow> bit (fst (reg_read r s)) n \<or> bit x n"
  by (simp add: reg_or_def modify_value bit_or_iff)

lemma and_not_clears_bits:
  "n < LENGTH('a) \<Longrightarrow> bit (fst (reg_read r (reg_and r (NOT x) s))) n \<longleftrightarrow> bit (fst (reg_read r s)) n \<and> \<not> bit x n"
  by (auto simp: reg_and_def modify_value bit_and_iff bit_not_iff possible_bit_word)

lemma set_then_clear:
  "fst (reg_read r s) AND x = 0 \<Longrightarrow> fst (reg_read r (reg_and r (NOT x) (reg_or r x s))) = fst (reg_read r s)"
  by (rule bit_word_eqI)
    (metis and_not_clears_bits or_sets_bits bit_and_iff bit_0_eq bot_apply bot_bool_def)

lemma xor_twice: "fst (reg_read r (reg_xor r x (reg_xor r x s))) = fst (reg_read r s)"
  by (simp add: reg_xor_def modify_value xor.assoc)

lemma inc_dec: "fst (reg_read r (reg_dec r (reg_inc r s))) = fst (reg_read r s)"
  by (simp add: reg_inc_def reg_dec_def modify_value)

lemma add_sub: "fst (reg_read r (reg_sub r x (reg_add r x s))) = fst (reg_read r s)"
  by (simp add: reg_add_def reg_sub_def modify_value)

lemma div_mod_value:
  "x \<noteq> 0 \<Longrightarrow> \<exists>s1 s2. reg_div r x s = Inr s1 \<and> reg_mod r x s = Inr s2 \<and>
     fst (reg_read r s1) * x + fst (reg_read r s2) = fst (reg_read r s)"
  by (simp add: reg_div_def reg_mod_def modify_value word_mod_div_equality)

end

interpretation lapic_cell: register_cell "lapic_register reg" for reg
  by unfold_locales (simp_all add: lapic_register_def lapic_read_def lapic_write_def Let_def)

interpretation ioapic_cell: register_cell "ioapic_register base reg" for base reg
  by unfold_locales (simp_all add: ioapic_register_def ioapic_read_def ioapic_write_def)

text \<open>
  \<^verbatim>\<open>LAPIC::enable\<close> is written with \<open>|=\<close> on the spurious-interrupt register: it sets the nine low bits,
  which enable the controller and choose vector 255, and keeps the others.
\<close>

lemma lapic_enable_register:
  "lapic_enable hw = reg_or (lapic_register LAPIC_SIVR) 0x1FF
     (write_msr hw 0x1B ((read_msr hw 0x1B OR 0x800) AND NOT (push_bit 10 1)))"
  by (simp add: lapic_enable_def reg_or_def reg_modify_def reg_value_def reg_set_value_def lapic_register_def Let_def)

lemma lapic_enable_bits:
  "bit (lapic_read (lapic_enable hw) LAPIC_SIVR) n \<longleftrightarrow> bit (lapic_read hw LAPIC_SIVR) n \<or> n < 9"
proof -
  let ?hw = "write_msr hw 0x1B ((read_msr hw 0x1B OR 0x800) AND NOT (push_bit 10 1))"
  have k: "lapic_read ?hw LAPIC_SIVR = lapic_read hw LAPIC_SIVR" by (simp add: lapic_read_def write_msr_def)
  have e: "(0x1FF :: u32) = mask 9" by (simp add: mask_eq_exp_minus_1)
  have m: "bit (0x1FF :: u32) n \<longleftrightarrow> n < 9" unfolding e by (auto simp: bit_mask_iff)
  have v: "fst (reg_read (lapic_register LAPIC_SIVR) x) = lapic_read x LAPIC_SIVR" for x by (simp add: lapic_register_def)
  show ?thesis using lapic_cell.or_sets_bits [of LAPIC_SIVR "0x1FF" ?hw n] unfolding lapic_enable_register [symmetric] v k m .
qed

end
