(* ===== verification/CList_Walks.thy ===== *)
theory CList_Walks
  imports CList
begin

text \<open>
  The other two loops of \<^verbatim>\<open>cllist.hpp\<close>: \<^verbatim>\<open>list_for_each_prev\<close> runs through a list backwards, and
  \<^verbatim>\<open>list_for_each_safe\<close> fetches the next node before the body may remove the current one.
\<close>

section \<open>The loops\<close>

partial_function (option) list_walk_prev ::
  "dmem \<Rightarrow> u32 \<Rightarrow> (u32 \<Rightarrow> 's \<Rightarrow> (bool \<times> 's) kres) \<Rightarrow> u32 \<Rightarrow> 's \<Rightarrow> (u32 \<times> 's) kres option" where
  [code]: "list_walk_prev m h body pos s =
     (if pos = h then Some (Inr (h, s))
      else case body pos s of
        Inl e \<Rightarrow> Some (Inl e)
      | Inr (stop, s') \<Rightarrow>
          if stop then Some (Inr (pos, s'))
          else case get_prev m pos of
            Inl e \<Rightarrow> Some (Inl e)
          | Inr prev \<Rightarrow> list_walk_prev m h body prev s')"

definition list_for_each_prev ::
  "dmem \<Rightarrow> u32 \<Rightarrow> (u32 \<Rightarrow> 's \<Rightarrow> (bool \<times> 's) kres) \<Rightarrow> 's \<Rightarrow> (u32 \<times> 's) kres option" where
  "list_for_each_prev m h body s =
     (case get_prev m h of Inl e \<Rightarrow> Some (Inl e) | Inr pos \<Rightarrow> list_walk_prev m h body pos s)"

text \<open>The body of the safe loop may change the memory, which is part of the state.\<close>

partial_function (option) list_walk_safe ::
  "u32 \<Rightarrow> (u32 \<Rightarrow> dmem \<times> 's \<Rightarrow> (dmem \<times> 's) kres) \<Rightarrow> u32 \<Rightarrow> u32 \<Rightarrow> dmem \<times> 's \<Rightarrow> (dmem \<times> 's) kres option" where
  [code]: "list_walk_safe h body pos n w =
     (if pos = h then Some (Inr w)
      else case body pos w of
        Inl e \<Rightarrow> Some (Inl e)
      | Inr w' \<Rightarrow>
          (case get_next (fst w') n of
             Inl e \<Rightarrow> Some (Inl e)
           | Inr n' \<Rightarrow> list_walk_safe h body n n' w'))"

definition list_for_each_safe :: "u32 \<Rightarrow> (u32 \<Rightarrow> dmem \<times> 's \<Rightarrow> (dmem \<times> 's) kres) \<Rightarrow> dmem \<times> 's \<Rightarrow> (dmem \<times> 's) kres option" where
  "list_for_each_safe h body w =
     (case get_next (fst w) h of
        Inl e \<Rightarrow> Some (Inl e)
      | Inr pos \<Rightarrow> (case get_next (fst w) pos of Inl e \<Rightarrow> Some (Inl e) | Inr n \<Rightarrow> list_walk_safe h body pos n w))"

section \<open>Backwards\<close>

lemma list_walk_prev_eq:
  assumes "h \<notin> set (xs @ [x])" "dpath m h (xs @ [x])"
  shows "list_walk_prev m h body x s = Some (walk_list h body (x # rev xs) s)"
  using assms
proof (induction xs arbitrary: x s rule: rev_induct)
  case Nil
  then have "list_walk_prev m h body h s' = Some (Inr (h, s'))" for s' by (subst list_walk_prev.simps) simp
  then show ?case using Nil
    by (subst list_walk_prev.simps) (auto simp: get_prev_def link_def split: sum.splits)
next
  case (snoc y ys)
  have "dpath m h (ys @ [y])" "link m y x" using snoc.prems(2) by (auto simp: dpath_append)
  then have "list_walk_prev m h body y s' = Some (walk_list h body (y # rev ys) s')" for s'
    using snoc.IH [of y s'] snoc.prems(1) by auto
  then show ?case using snoc.prems \<open>link m y x\<close>
    by (subst list_walk_prev.simps) (auto simp: get_prev_def link_def split: sum.splits)
qed

lemma list_for_each_prev_eq:
  assumes "dlist m h xs"
  shows "list_for_each_prev m h body s = Some (walk_list h body (rev xs) s)"
proof (cases xs rule: rev_cases)
  case Nil
  then show ?thesis using assms
    by (simp add: list_for_each_prev_def dlist_def get_prev_def link_def list_walk_prev.simps)
next
  case (snoc ys y)
  have "link m y h" "dpath m h (ys @ [y])" using assms snoc by (auto simp: dlist_def dpath_append)
  then show ?thesis using list_walk_prev_eq [of h ys y m body s] assms snoc
    by (simp add: list_for_each_prev_def dlist_def get_prev_def link_def)
qed

section \<open>Removal of every node\<close>

lemma dpath_next: "dpath m a (ys @ [h]) \<Longrightarrow> m a = Some (hd (ys @ [h]))"
  by (cases ys) (simp_all add: link_def)

lemma first_has_next: "dlist m h xs \<Longrightarrow> \<exists>n. get_next m (hd (xs @ [h])) = Inr n"
  by (cases xs) (auto simp: dlist_def link_def get_next_def dload_def dest: dpath_next)

lemma list_del_first:
  assumes l: "dlist m h (x # xs)"
  shows "\<exists>m'. list_del m x = Inr m' \<and> dlist m' h xs"
proof -
  let ?m = "unlinked m h (hd (xs @ [h]))"
  have d: "list_del_entry m x = Inr ?m" "dlist ?m h xs" using list_del_entry_at [of m h "[]" x xs] l by simp_all
  have x: "?m x \<noteq> None" "?m (x + 4) \<noteq> None"
    using l by (auto simp: dlist_def link_def unlinked_def dest: dpath_next)
  let ?m' = "?m(x \<mapsto> 0, x + 4 \<mapsto> 0)"
  have "list_del m x = Inr ?m'"
    using d(1) x by (auto simp: list_del_def set_next_def set_prev_def dstore_def split: option.splits)
  moreover have "dlist ?m' h xs"
  proof -
    have nx: "node x" "node h" "\<forall>p \<in> set xs. node p" "x \<noteq> h" "x \<notin> set xs" using l by (auto simp: dlist_def)
    have other: "?m' q = ?m q" "?m' (q + 4) = ?m (q + 4)" if "q \<in> set (h # xs)" for q
    proof -
      have q: "node q" "q \<noteq> x" using that nx by auto
      show "?m' q = ?m q" "?m' (q + 4) = ?m (q + 4)" using q nx(1) node_fields [of q x] node_fields [of x q] by auto
    qed
    have "dpath ?m h (xs @ [h])" using d(2) by (simp add: dlist_def)
    then have "dpath ?m' h (xs @ [h])" by (rule dpath_frame) (use other in \<open>auto dest: in_set_butlastD\<close>)
    then show ?thesis using d(2) by (simp add: dlist_def)
  qed
  ultimately show ?thesis by blast
qed

text \<open>
  The loop that takes every node off the list, and counts them, ends with an empty list although
  \<^verbatim>\<open>list_del\<close> clears the links of the node the loop stands on.
\<close>

definition del_body :: "u32 \<Rightarrow> dmem \<times> u32 list \<Rightarrow> (dmem \<times> u32 list) kres" where
  "del_body pos w = bindR (list_del (fst w) pos) (\<lambda>m. Inr (m, snd w @ [pos]))"

lemma list_walk_safe_empties:
  assumes "dlist m h xs" "get_next m (hd (xs @ [h])) = Inr n"
  shows "\<exists>m'. list_walk_safe h del_body (hd (xs @ [h])) n (m, s) = Some (Inr (m', s @ xs)) \<and> dlist m' h []"
  using assms
proof (induction xs arbitrary: m s n)
  case Nil
  then show ?case by (subst list_walk_safe.simps) simp
next
  case (Cons x xs)
  have n: "n = hd (xs @ [h])" using Cons.prems by (cases xs) (auto simp: dlist_def link_def get_next_def)
  obtain m' where m': "list_del m x = Inr m'" "dlist m' h xs" using list_del_first [OF Cons.prems(1)] by blast
  have "x \<noteq> h" using Cons.prems(1) by (auto simp: dlist_def)
  obtain n' where n': "get_next m' n = Inr n'" using first_has_next [OF m'(2)] n by blast
  have "list_walk_safe h del_body x n (m, s) = list_walk_safe h del_body n n' (m', s @ [x])"
    using \<open>x \<noteq> h\<close> m'(1) n' by (subst list_walk_safe.simps) (simp add: del_body_def)
  then show ?case using Cons.IH [OF m'(2) n' [unfolded n], of "s @ [x]"] n by simp
qed

theorem list_for_each_safe_empties:
  assumes "dlist m h xs"
  shows "\<exists>m'. list_for_each_safe h del_body (m, []) = Some (Inr (m', xs)) \<and> list_empty m' h = Inr True"
proof -
  have p: "get_next m h = Inr (hd (xs @ [h]))" using assms by (cases xs) (simp_all add: dlist_def link_def get_next_def)
  obtain n where n: "get_next m (hd (xs @ [h])) = Inr n" using first_has_next [OF assms] by blast
  obtain m' where m': "list_walk_safe h del_body (hd (xs @ [h])) n (m, []) = Some (Inr (m', xs))" "dlist m' h []"
    using list_walk_safe_empties [OF assms n, of "[]"] by auto
  have "list_empty m' h = Inr True" using m'(2) by (simp add: list_empty_def dlist_def link_def get_next_def)
  then show ?thesis using p n m'(1) by (simp add: list_for_each_safe_def)
qed

end
