(* ===== verification/Linker.thy ===== *)
theory Linker
  imports ELF Static_Array
begin

text \<open>
  \<^verbatim>\<open>sys/ld.hpp\<close>, \<^verbatim>\<open>sys/ld.cpp\<close> and \<^verbatim>\<open>sys/module.hpp\<close>: loading a relocatable object into the module
  space, resolving its relocations, and the table of modules. The sections of a region are a
  list, and a pointer to one is its number in it; the objects that \<^verbatim>\<open>new\<close> and \<^verbatim>\<open>delete\<close> manage
  (objects, sections, section maps) are values. Log messages are left out. A hash of a name
  without a terminator runs forever (\<open>None\<close>).
\<close>

section \<open>State\<close>

definition LMM_params :: bm_params where
  "LMM_params = \<lparr>BASE_ADDR = MODULE_SPACE_BASE, MAX_UNITS = MODULE_SPACE_PAGE_COUNT, UNIT_SIZE = PAGE_SIZE\<rparr>"

datatype access = AccN | AccR | AccW | AccRW | AccX | AccRX | AccWX | AccRWX

datatype sec_kind = UNKNOWN | PROGBITS | NOBITS

record ld_section =
  sec_access :: access
  sec_kind :: sec_kind
  sec_align :: u32
  sec_file_off :: u32
  sec_reg_off :: u32
  sec_size :: u32
  sec_sh_flags :: u32

definition sec_has_flag :: "ld_section \<Rightarrow> u32 \<Rightarrow> bool" where
  "sec_has_flag sec flag \<longleftrightarrow> sec_sh_flags sec AND flag = flag"

record ld_region =
  reg_base :: u32
  reg_size :: u32
  reg_access :: access
  reg_index :: u32
  reg_sections :: "ld_section list"

definition region_append :: "ld_region \<Rightarrow> ld_section \<Rightarrow> ld_region" where
  "region_append reg sec =
     (let off = align_up (reg_size reg) (sec_align sec) in
      reg\<lparr>reg_sections := reg_sections reg @ [sec\<lparr>sec_reg_off := off\<rparr>], reg_size := off + sec_size sec\<rparr>)"

datatype region_id = RX | RW

text \<open>\<^verbatim>\<open>SecMap\<close>: the region and the section a section header went to.\<close>

type_synonym sec_map = "(region_id \<times> nat) option"

record layout =
  lay_obj :: elf_object
  lay_rx :: ld_region
  lay_rw :: ld_region
  lay_map :: "sec_map list option"

definition region_init :: "access \<Rightarrow> u32 \<Rightarrow> ld_region" where
  "region_init a i = \<lparr>reg_base = 0, reg_size = 0, reg_access = a, reg_index = i, reg_sections = []\<rparr>"

definition layout_init :: "elf_object \<Rightarrow> layout" where
  "layout_init obj = \<lparr>lay_obj = obj, lay_rx = region_init AccRX 0, lay_rw = region_init AccRW 1, lay_map = None\<rparr>"

definition lay_region :: "layout \<Rightarrow> region_id \<Rightarrow> ld_region" where
  "lay_region l r = (case r of RX \<Rightarrow> lay_rx l | RW \<Rightarrow> lay_rw l)"

definition set_region :: "layout \<Rightarrow> region_id \<Rightarrow> ld_region \<Rightarrow> layout" where
  "set_region l r reg = (case r of RX \<Rightarrow> l\<lparr>lay_rx := reg\<rparr> | RW \<Rightarrow> l\<lparr>lay_rw := reg\<rparr>)"

record linker =
  lk_layouts :: "layout static_array"
  lk_mem :: bitmap_alloc

definition linker_ctor :: linker where
  "linker_ctor = \<lparr>lk_layouts = sa_init 64, lk_mem = bm_clear (bm_init LMM_params)\<rparr>"

section \<open>Loading\<close>

definition access_is_loadable :: "access \<Rightarrow> bool" where
  "access_is_loadable a = (case a of AccRX \<Rightarrow> True | AccR \<Rightarrow> True | AccRW \<Rightarrow> True | _ \<Rightarrow> False)"

definition validate_region_section_bounds :: "ld_region \<Rightarrow> ld_section \<Rightarrow> u32 \<Rightarrow> bool" where
  "validate_region_section_bounds reg sec extra =
     (if sec_reg_off sec > reg_size reg then False
      else if sec_size sec > reg_size reg then False
      else if sec_reg_off sec + sec_size sec > reg_size reg then False
      else if extra \<noteq> 0 \<and> sec_reg_off sec + extra > reg_size reg then False
      else True)"

definition new_section :: "section_header \<Rightarrow> ld_section" where
  "new_section sh =
     (let sec = \<lparr>sec_access = AccN,
          sec_kind = (if sh_type sh = SHT_PROGBITS then PROGBITS else if sh_type sh = SHT_NOBITS then NOBITS else UNKNOWN),
          sec_align = (if sh_addralign sh \<noteq> 0 then sh_addralign sh else 1),
          sec_file_off = sh_offset sh, sec_reg_off = 0, sec_size = sh_size sh, sec_sh_flags = sh_flags sh\<rparr>
      in sec\<lparr>sec_access := (if sec_has_flag sec SHF_EXECINSTR then AccRX
                            else if sec_has_flag sec SHF_WRITE then AccRW else AccR)\<rparr>)"

text \<open>The body of the loop of \<^verbatim>\<open>stage0\<close>, for header \<open>i\<close>.\<close>

definition place_section :: "section_header \<Rightarrow> nat \<Rightarrow> layout \<times> sec_map list \<Rightarrow> layout \<times> sec_map list" where
  "place_section sh i w =
     (let (l, mp) = w in
      if sh_flags sh AND SHF_ALLOC = 0 then w
      else if sh_type sh = SHT_NULL \<or> sh_size sh = 0 then w
      else
        let sec = new_section sh in
        if \<not> access_is_loadable (sec_access sec) then w
        else case sec_access sec of
            AccRX \<Rightarrow> (l\<lparr>lay_rx := region_append (lay_rx l) sec\<rparr>, mp[i := Some (RX, length (reg_sections (lay_rx l)))])
          | AccR \<Rightarrow> (l\<lparr>lay_rw := region_append (lay_rw l) sec\<rparr>, mp[i := Some (RW, length (reg_sections (lay_rw l)))])
          | AccRW \<Rightarrow> (l\<lparr>lay_rw := region_append (lay_rw l) sec\<rparr>, mp[i := Some (RW, length (reg_sections (lay_rw l)))])
          | _ \<Rightarrow> w)"

primrec place_sections :: "vmm \<Rightarrow> elf_object \<Rightarrow> nat list \<Rightarrow> layout \<times> sec_map list \<Rightarrow> (layout \<times> sec_map list) kres" where
  "place_sections s obj [] w = Inr w"
| "place_sections s obj (i # is) w =
     bindR (read_section_header s (sec_hdr_at obj i)) (\<lambda>sh. place_sections s obj is (place_section sh i w))"

definition stage0 :: "vmm \<Rightarrow> layout \<Rightarrow> elf_object \<Rightarrow> (bool \<times> layout) kres" where
  "stage0 s l obj =
     (if sec_hdrs obj = 0 \<or> sec_hdrs_num obj = 0 then Inr (False, l)
      else let n = unat (sec_hdrs_num obj) in
        bindR (place_sections s obj [0..<n] (l, replicate n None)) (\<lambda>(l, mp).
        Inr (True, l\<lparr>lay_rx := (lay_rx l)\<lparr>reg_size := align_up (reg_size (lay_rx l)) PAGE_SIZE\<rparr>,
                     lay_rw := (lay_rw l)\<lparr>reg_size := align_up (reg_size (lay_rw l)) PAGE_SIZE\<rparr>,
                     lay_map := Some mp\<rparr>)))"

text \<open>The copy of \<^verbatim>\<open>stage1\<close>: false when a section fails its check.\<close>

primrec fill_sections :: "vmm \<Rightarrow> elf_object \<Rightarrow> ld_region \<Rightarrow> ld_section list \<Rightarrow> (bool \<times> vmm) kres" where
  "fill_sections s obj reg [] = Inr (True, s)"
| "fill_sections s obj reg (sec # secs) =
     (if \<not> validate_region_section_bounds reg sec 0 then Inr (False, s)
      else
        let dst = reg_base reg + sec_reg_off sec; src = header_offset obj (sec_file_off sec) in
        if sec_kind sec = PROGBITS
        then (if src = 0 then Inr (False, s)
              else bindR (memcpy_virt s dst src (sec_size sec)) (\<lambda>s. fill_sections s obj reg secs))
        else bindR (memset_virt s dst 0 (sec_size sec)) (\<lambda>s. fill_sections s obj reg secs))"

definition stage1 :: "linker \<times> vmm \<Rightarrow> ld_region \<Rightarrow> elf_object \<Rightarrow> (bool \<times> ld_region \<times> linker \<times> vmm) kres" where
  "stage1 w reg obj =
     (let (lk, s) = w in
      if reg_size reg = 0 then Inr (True, reg, lk, s)
      else
        let pages = reg_size reg div PAGE_SIZE in
        bindR (alloc_units LMM_params (lk_mem lk) pages) (\<lambda>(base, b).
        bindR (alloc_frames (vpmm s) pages) (\<lambda>(phys, p).
        let s = s\<lparr>vpmm := p\<rparr> in
        if phys = 0
        then bindR (free_units LMM_params b base pages) (\<lambda>b.
             Inr (False, reg\<lparr>reg_base := 0\<rparr>, lk\<lparr>lk_mem := b\<rparr>, s))
        else
          let reg = reg\<lparr>reg_base := base\<rparr>; lk = lk\<lparr>lk_mem := b\<rparr> in
          bindR (map_pages s base phys pages (PG_Present OR PG_Writable)) (\<lambda>s.
          bindR (fill_sections s obj reg (reg_sections reg)) (\<lambda>(ok, s). Inr (ok, reg, lk, s))))))"

section \<open>Relocation\<close>

definition SHN_UNDEF :: u16 where "SHN_UNDEF = 0"
definition SHN_ABS :: u16 where "SHN_ABS = 0xfff1"
definition SHN_COMMON :: u16 where "SHN_COMMON = 0xfff2"

text \<open>\<^verbatim>\<open>r.offset + sizeof(uint32_t) > target_map.section->size\<close>, in 32 bits.\<close>

definition rel_offset_oob :: "u32 \<Rightarrow> u32 \<Rightarrow> bool" where
  "rel_offset_oob off sz \<longleftrightarrow> off + 4 > sz"

text \<open>The value stored at the place \<open>P\<close>; none for an unsupported type.\<close>

definition rel_value :: "u32 \<Rightarrow> u32 \<Rightarrow> u32 \<Rightarrow> u32 \<Rightarrow> u32 option" where
  "rel_value ty S A P = (if ty = R_386_32 then Some (S + A) else if ty = R_386_PC32 then Some (S + A - P) else None)"

datatype sym_value = Resolved u32 | Skip | Bad

definition resolve_symbol :: "kexp_entry list \<Rightarrow> vmm \<Rightarrow> layout \<Rightarrow> sec_map list \<Rightarrow> elf_symbol \<Rightarrow> sym_value krun" where
  "resolve_symbol tab s l mp symb =
     (let obj = lay_obj l in
      if st_shndx symb = SHN_UNDEF
      then (if obj_strtab obj = 0 then Some (Inl Undefined)
            else bindK (Some (read_section_header s (obj_strtab obj))) (\<lambda>str.
                 bindK (kexp_lookup tab s (header_offset obj (sh_offset str) + st_name symb)) (\<lambda>e.
                 retK (case e of Some e \<Rightarrow> Resolved (kexp_addr e) | None \<Rightarrow> Skip))))
      else if st_shndx symb = SHN_ABS then retK (Resolved (st_value symb))
      else if st_shndx symb = SHN_COMMON then retK Skip
      else if st_shndx symb \<ge> sec_hdrs_num obj then retK Bad
      else case mp ! unat (st_shndx symb) of
             None \<Rightarrow> retK Bad
           | Some (r, k) \<Rightarrow>
               if reg_base (lay_region l r) = 0 then retK Bad
               else retK (Resolved (reg_base (lay_region l r) + sec_reg_off (reg_sections (lay_region l r) ! k) +
                 st_value symb)))"

text \<open>One relocation, the body of the inner loop of \<^verbatim>\<open>stage2\<close>: false stops the load.\<close>

definition apply_rel :: "kexp_entry list \<Rightarrow> layout \<Rightarrow> sec_map list \<Rightarrow> region_id \<times> nat \<Rightarrow> u32 \<Rightarrow> vmm \<Rightarrow> (bool \<times> vmm) krun" where
  "apply_rel tab l mp target p s =
     (let obj = lay_obj l; reg = lay_region l (fst target); sec = reg_sections reg ! snd target in
      bindK (Some (read_rel s p)) (\<lambda>r.
      bindK (Some (symbol_by_index s obj (REL_SYM (r_info r)))) (\<lambda>symp.
      if symp = 0 then retK (False, s)
      else if rel_offset_oob (r_offset r) (sec_size sec) then retK (False, s)
      else
        let P = reg_base reg + sec_reg_off sec + r_offset r in
        bindK (Some (vread32 s P)) (\<lambda>A.
        bindK (Some (read_symbol s symp)) (\<lambda>sym.
        bindK (resolve_symbol tab s l mp sym) (\<lambda>v.
        case v of
          Skip \<Rightarrow> retK (True, s)
        | Bad \<Rightarrow> retK (False, s)
        | Resolved S \<Rightarrow>
            (case rel_value (REL_TYPE (r_info r)) S A P of
               None \<Rightarrow> retK (False, s)
             | Some x \<Rightarrow> bindK (Some (vwrite32 s P x)) (\<lambda>s. retK (True, s)))))))))"

primrec apply_rels :: "kexp_entry list \<Rightarrow> layout \<Rightarrow> sec_map list \<Rightarrow> region_id \<times> nat \<Rightarrow> u32 \<Rightarrow> nat list \<Rightarrow> vmm \<Rightarrow>
    (bool \<times> vmm) krun" where
  "apply_rels tab l mp target rel [] s = retK (True, s)"
| "apply_rels tab l mp target rel (j # js) s =
     bindK (apply_rel tab l mp target (rel + 8 * word_of_nat j) s) (\<lambda>(ok, s).
     if ok then apply_rels tab l mp target rel js s else retK (False, s))"

primrec rel_sections :: "kexp_entry list \<Rightarrow> layout \<Rightarrow> sec_map list \<Rightarrow> nat list \<Rightarrow> vmm \<Rightarrow> (bool \<times> vmm) krun" where
  "rel_sections tab l mp [] s = retK (True, s)"
| "rel_sections tab l mp (i # is) s =
     (let obj = lay_obj l in
      bindK (Some (read_section_header s (sec_hdr_at obj i))) (\<lambda>sh.
      if sh_type sh \<noteq> SHT_REL then rel_sections tab l mp is s
      else
        let target_idx = ucast (sh_info sh) :: u16 in
        if target_idx \<ge> sec_hdrs_num obj then retK (False, s)
        else case mp ! unat target_idx of
            None \<Rightarrow> rel_sections tab l mp is s
          | Some target \<Rightarrow>
              if reg_base (lay_region l (fst target)) = 0 then retK (False, s)
              else
                let rel = header_offset obj (sh_offset sh) in
                if rel = 0 \<and> sh_size sh \<noteq> 0 then retK (False, s)
                else bindK (apply_rels tab l mp target rel [0..<unat (sh_size sh div 8)] s) (\<lambda>(ok, s).
                     if ok then rel_sections tab l mp is s else retK (False, s))))"

definition stage2 :: "kexp_entry list \<Rightarrow> layout \<Rightarrow> vmm \<Rightarrow> (bool \<times> vmm) krun" where
  "stage2 tab l s =
     (case lay_map l of None \<Rightarrow> retK (False, s)
      | Some mp \<Rightarrow> rel_sections tab l mp [0..<unat (sec_hdrs_num (lay_obj l))] s)"

section \<open>Unloading\<close>

definition unload_region_locked :: "linker \<times> vmm \<Rightarrow> ld_region \<Rightarrow> (ld_region \<times> linker \<times> vmm) kres" where
  "unload_region_locked w reg =
     (let (lk, s) = w in
      if reg_base reg = 0 \<or> reg_size reg = 0 then Inr (reg, lk, s)
      else
        let pages = reg_size reg div PAGE_SIZE in
        bindR (unmap_pages s (reg_base reg) pages) (\<lambda>s.
        bindR (free_units LMM_params (lk_mem lk) (reg_base reg) pages) (\<lambda>b.
        Inr (reg\<lparr>reg_base := 0\<rparr>, lk\<lparr>lk_mem := b\<rparr>, s))))"

text \<open>\<open>idx\<close> is the slot whose address the layout pointer is.\<close>

definition unload_locked :: "linker \<times> vmm \<Rightarrow> nat \<Rightarrow> (linker \<times> vmm) kres" where
  "unload_locked w idx =
     bindR (sa_get (lk_layouts (fst w)) (word_of_nat idx)) (\<lambda>l.
     bindR (unload_region_locked w (lay_rw l)) (\<lambda>(rw, lk, s).
     bindR (unload_region_locked (lk, s) (lay_rx l)) (\<lambda>(rx, lk, s).
     bindR (sa_put (lk_layouts lk) (word_of_nat idx) (l\<lparr>lay_rw := rw, lay_rx := rx\<rparr>)) (\<lambda>ls.
     let index = sa_index_of ls (Some idx) in
     if index = npos then Inr (lk\<lparr>lk_layouts := ls\<rparr>, s)
     else bindR (sa_erase ls index) (\<lambda>(_, _, ls). Inr (lk\<lparr>lk_layouts := ls\<rparr>, s))))))"

definition unload :: "linker \<times> vmm \<Rightarrow> nat \<Rightarrow> (linker \<times> vmm) kres" where
  "unload w idx = unload_locked w idx"

text \<open>\<open>load\<close> returns the slot of the layout, none for \<^verbatim>\<open>nullptr\<close>.\<close>

definition link_layout :: "kexp_entry list \<Rightarrow> linker \<times> vmm \<Rightarrow> layout \<Rightarrow> (bool \<times> layout \<times> linker \<times> vmm) krun" where
  "link_layout tab w l =
     (let (lk, s) = w; obj = lay_obj l in
      bindK (Some (stage0 s l obj)) (\<lambda>(ok, l).
      if \<not> ok then retK (False, l, lk, s)
      else bindK (Some (stage1 (lk, s) (lay_rx l) obj)) (\<lambda>(ok, rx, lk, s).
        let l = l\<lparr>lay_rx := rx\<rparr> in
        if \<not> ok then retK (False, l, lk, s)
        else bindK (Some (stage1 (lk, s) (lay_rw l) obj)) (\<lambda>(ok, rw, lk, s).
          let l = l\<lparr>lay_rw := rw\<rparr> in
          if \<not> ok then retK (False, l, lk, s)
          else bindK (stage2 tab l s) (\<lambda>(ok, s). retK (ok, l, lk, s))))))"

definition load :: "kexp_entry list \<Rightarrow> linker \<times> vmm \<Rightarrow> elf_object \<Rightarrow> (nat option \<times> linker \<times> vmm) krun" where
  "load tab w obj =
     (let (lk, s) = w in
      bindK (Some (sa_emplace (lk_layouts lk) (layout_init obj))) (\<lambda>(idx, ls).
      bindK (link_layout tab (lk\<lparr>lk_layouts := ls\<rparr>, s) (layout_init obj)) (\<lambda>(ok, l, lk, s).
      bindK (Some (sa_put (lk_layouts lk) idx l)) (\<lambda>ls.
      let lk = lk\<lparr>lk_layouts := ls\<rparr> in
      if ok then retK (Some (unat idx), lk, s)
      else bindK (Some (unload_locked (lk, s) (unat idx))) (\<lambda>(lk, s). retK (None, lk, s))))))"

text \<open>
  The destructor unloads the first layout until none is left; \<open>n\<close> bounds its turns by the
  number of slots.
\<close>

primrec linker_dtor :: "nat \<Rightarrow> linker \<times> vmm \<Rightarrow> (linker \<times> vmm) krun" where
  "linker_dtor 0 w = (if sa_empty (lk_layouts (fst w)) then retK w else None)"
| "linker_dtor (Suc n) w =
     (if sa_empty (lk_layouts (fst w)) then retK w
      else case find (\<lambda>i. sa_ptr (lk_layouts (fst w)) (word_of_nat i) \<noteq> None) [0..<length (slots (lk_layouts (fst w)))] of
             None \<Rightarrow> linker_dtor n w
           | Some i \<Rightarrow> bindK (Some (unload_locked w i)) (linker_dtor n))"

text \<open>\<^verbatim>\<open>Layout::find_symbol\<close>: zero for \<^verbatim>\<open>nullptr\<close>.\<close>

definition layout_find_symbol :: "vmm \<Rightarrow> layout \<Rightarrow> u8 list \<Rightarrow> u32 kres" where
  "layout_find_symbol s l name =
     (case lay_map l of None \<Rightarrow> Inr 0
      | Some mp \<Rightarrow>
          bindR (find_symbol s (lay_obj l) name) (\<lambda>found.
          case found of None \<Rightarrow> Inr 0
          | Some symb \<Rightarrow>
              if st_shndx symb = SHN_UNDEF then Inr 0
              else if st_shndx symb = SHN_COMMON then Inr 0
              else if st_shndx symb \<ge> sec_hdrs_num (lay_obj l) then Inr 0
              else (case mp ! unat (st_shndx symb) of
                  None \<Rightarrow> Inr 0
                | Some (r, k) \<Rightarrow>
                    Inr (reg_base (lay_region l r) + sec_reg_off (reg_sections (lay_region l r) ! k) + st_value symb))))"

section \<open>Modules\<close>

record kmodule =
  m_layout :: nat
  m_enter :: u32
  m_exit :: u32

record module_manager =
  mm_linker :: linker
  mm_modules :: "kmodule static_array"

text \<open>What a call of a module's entry point does; its argument and its result are numbers.\<close>

type_synonym module_call = "u32 \<Rightarrow> u32 \<Rightarrow> linker \<times> vmm \<Rightarrow> (u32 \<times> linker \<times> vmm) krun"

definition registerModule :: "kexp_entry list \<Rightarrow> module_call \<Rightarrow> module_manager \<times> vmm \<Rightarrow> u32 \<Rightarrow>
    (bool \<times> module_manager \<times> vmm) krun" where
  "registerModule tab call w ptr =
     (let (mm, s) = w in
      bindK (Some (object_create s ptr)) (\<lambda>obj.
      case obj of None \<Rightarrow> retK (False, mm, s)
      | Some obj \<Rightarrow>
          bindK (load tab (mm_linker mm, s) obj) (\<lambda>(lay, lk, s).
          case lay of None \<Rightarrow> retK (False, mm\<lparr>mm_linker := lk\<rparr>, s)
          | Some idx \<Rightarrow>
              bindK (Some (sa_get (lk_layouts lk) (word_of_nat idx))) (\<lambda>l.
              bindK (Some (layout_find_symbol s l (lit ''module_enter''))) (\<lambda>ent.
              bindK (Some (layout_find_symbol s l (lit ''module_exit''))) (\<lambda>ext.
              if ent < 0x1000
              then bindK (Some (unload (lk, s) idx)) (\<lambda>(lk, s). retK (False, mm\<lparr>mm_linker := lk\<rparr>, s))
              else if ext \<noteq> 0 \<and> ext < 0x1000
              then bindK (Some (unload (lk, s) idx)) (\<lambda>(lk, s). retK (False, mm\<lparr>mm_linker := lk\<rparr>, s))
              else bindK (call ent 0xdeaddead (lk, s)) (\<lambda>(_, lk, s).
                   bindK (Some (sa_emplace (mm_modules mm) \<lparr>m_layout = idx, m_enter = ent, m_exit = ext\<rparr>)) (\<lambda>(_, ms).
                   retK (True, mm\<lparr>mm_linker := lk, mm_modules := ms\<rparr>, s)))))))))"

primrec exit_modules :: "module_call \<Rightarrow> kmodule list \<Rightarrow> linker \<times> vmm \<Rightarrow> (linker \<times> vmm) krun" where
  "exit_modules call [] w = retK w"
| "exit_modules call (m # ms) w =
     bindK (if m_exit m \<ge> 0x1000 then bindK (call (m_exit m) 0xdeaddead w) (\<lambda>(_, w). retK w) else retK w) (\<lambda>w.
     bindK (Some (unload w (m_layout m))) (exit_modules call ms))"

definition module_manager_dtor :: "module_call \<Rightarrow> module_manager \<times> vmm \<Rightarrow> (module_manager \<times> vmm) krun" where
  "module_manager_dtor call w =
     (let (mm, s) = w; ms = mm_modules mm in
      bindK (exit_modules call (map (\<lambda>i. the (sa_ptr ms i)) (sa_visit ms (sa_begin ms))) (mm_linker mm, s)) (\<lambda>(lk, s).
      bindK (Some (sa_clear ms)) (\<lambda>(_, ms). retK (mm\<lparr>mm_linker := lk, mm_modules := ms\<rparr>, s))))"

section \<open>The module space\<close>

lemma LMM_sel [simp]:
  "BASE_ADDR LMM_params = 0xA000000" "MAX_UNITS LMM_params = 128" "UNIT_SIZE LMM_params = 4096"
  by (simp_all add: LMM_params_def MODULE_SPACE_BASE_def MODULE_SPACE_PAGE_COUNT_def MODULE_SPACE_SIZE_def PAGE_SIZE_def)

lemma LMM_geometry: "bm_geometry LMM_params"
  by (simp add: bm_geometry_def u32_less_iff)

interpretation module_space: unit_allocator "bm_wf LMM_params" "bm_used LMM_params"
  "unat (MAX_UNITS LMM_params)" "unit_addr LMM_params" "alloc_units LMM_params" "free_units LMM_params"
  by (rule bm_unit_allocator [OF LMM_geometry])

lemma unat_LMM_addr: "i < 128 \<Longrightarrow> unat (unit_addr LMM_params i) = 0xA000000 + i * 4096"
proof -
  assume i: "i < 128"
  then have m: "unat (word_of_nat i * 4096 :: u32) = i * 4096"
    by (subst unat_mult_u32) (simp_all add: unat_of_nat_u32 del: unsigned_of_nat)
  show ?thesis unfolding unit_addr_def LMM_sel
    by (subst unat_add_u32) (use m i in simp_all)
qed

text \<open>The pages of the module space that a region occupies.\<close>

definition reg_pages :: "ld_region \<Rightarrow> u32" where
  "reg_pages reg = reg_size reg div PAGE_SIZE"

definition reg_units :: "ld_region \<Rightarrow> nat set" where
  "reg_units reg =
     (if reg_base reg = 0 \<or> reg_size reg = 0 then {}
      else let i = (unat (reg_base reg) - 0xA000000) div 4096 in {i..<i + unat (reg_pages reg)})"

definition region_ok :: "ld_region \<Rightarrow> bool" where
  "region_ok reg \<longleftrightarrow> unat (reg_size reg) mod 4096 = 0 \<and>
     (reg_base reg = 0 \<or> (\<exists>i. reg_base reg = unit_addr LMM_params i \<and> i + unat (reg_pages reg) \<le> 128))"

lemma reg_pages_pos: "unat (reg_size reg) mod 4096 = 0 \<Longrightarrow> reg_size reg \<noteq> 0 \<Longrightarrow> 0 < reg_pages reg"
proof -
  assume "unat (reg_size reg) mod 4096 = 0" "reg_size reg \<noteq> 0"
  then have "0 < unat (reg_size reg) div 4096"
    by (metis div_mult_mod_eq add_0_right gr0I mult_zero_left unat_eq_zero)
  then show ?thesis by (simp add: reg_pages_def PAGE_SIZE_def u32_less_iff unat_div)
qed

lemma reg_units_addr:
  assumes "reg_base reg = unit_addr LMM_params i" "i < 128" "reg_size reg \<noteq> 0"
  shows "reg_base reg \<noteq> 0" "reg_units reg = {i..<i + unat (reg_pages reg)}"
proof -
  have u: "unat (reg_base reg) = 0xA000000 + i * 4096" using unat_LMM_addr [OF assms(2)] assms(1) by simp
  then show "reg_base reg \<noteq> 0" by auto
  then show "reg_units reg = {i..<i + unat (reg_pages reg)}" using u assms(3) by (simp add: reg_units_def)
qed

lemma region_ok_cases:
  assumes "region_ok reg" "reg_base reg \<noteq> 0" "reg_size reg \<noteq> 0"
  obtains i where "reg_base reg = unit_addr LMM_params i" "i + unat (reg_pages reg) \<le> 128"
    "0 < reg_pages reg" "reg_units reg = {i..<i + unat (reg_pages reg)}"
proof -
  obtain i where i: "reg_base reg = unit_addr LMM_params i" "i + unat (reg_pages reg) \<le> 128"
    using assms by (auto simp: region_ok_def)
  have p: "0 < reg_pages reg" using assms by (intro reg_pages_pos) (simp_all add: region_ok_def)
  then have "i < 128" using i(2) by (simp add: u32_less_iff)
  then show ?thesis using i p reg_units_addr(2) [OF i(1) _ assms(3)] that by blast
qed

section \<open>What each stage does to the module space\<close>

lemma stage1_units:
  assumes st: "stage1 (lk, s) reg obj = Inr (ok, reg', lk', s')"
    and wf: "bm_wf LMM_params (lk_mem lk)" and reg: "region_ok reg" "reg_base reg = 0"
  shows "lk_layouts lk' = lk_layouts lk" "bm_wf LMM_params (lk_mem lk')" "region_ok reg'"
    "bm_used LMM_params (lk_mem lk') = bm_used LMM_params (lk_mem lk) \<union> reg_units reg'"
    "bm_used LMM_params (lk_mem lk) \<inter> reg_units reg' = {}"
proof -
  have "lk_layouts lk' = lk_layouts lk \<and> bm_wf LMM_params (lk_mem lk') \<and> region_ok reg' \<and>
    bm_used LMM_params (lk_mem lk') = bm_used LMM_params (lk_mem lk) \<union> reg_units reg' \<and>
    bm_used LMM_params (lk_mem lk) \<inter> reg_units reg' = {}"
  proof (cases "reg_size reg = 0")
    case True
    then show ?thesis using st wf reg by (auto simp: stage1_def reg_units_def)
  next
    case False
    have pos: "0 < reg_pages reg" using reg(1) False by (intro reg_pages_pos) (simp_all add: region_ok_def)
    obtain base b where b: "alloc_units LMM_params (lk_mem lk) (reg_pages reg) = Inr (base, b)"
      using st False by (auto simp: stage1_def Let_def kres_iffs reg_pages_def [symmetric])
    obtain ph p where p: "alloc_frames (vpmm s) (reg_pages reg) = Inr (ph, p)"
      using st False b by (auto simp: stage1_def Let_def kres_iffs reg_pages_def [symmetric])
    show ?thesis
    proof (cases "ph = 0")
      case True
      obtain b2 where b2: "free_units LMM_params b base (reg_pages reg) = Inr b2"
        "bm_used LMM_params b2 = bm_used LMM_params (lk_mem lk)" "bm_wf LMM_params b2"
        using module_space.alloc_release [OF wf pos b] by blast
      then have "reg' = reg\<lparr>reg_base := 0\<rparr> \<and> lk' = lk\<lparr>lk_mem := b2\<rparr>"
        using st False b p True by (simp add: stage1_def Let_def kres_iffs reg_pages_def [symmetric])
      then show ?thesis using b2 reg by (simp add: reg_units_def region_ok_def)
    next
      case nz: False
      obtain i where i: "i + unat (reg_pages reg) \<le> 128" "base = unit_addr LMM_params i"
        "{i..<i + unat (reg_pages reg)} \<inter> bm_used LMM_params (lk_mem lk) = {}"
        "bm_used LMM_params b = bm_used LMM_params (lk_mem lk) \<union> {i..<i + unat (reg_pages reg)}" "bm_wf LMM_params b"
        using module_space.alloc_ok [OF wf pos b] by auto
      have r: "reg' = reg\<lparr>reg_base := base\<rparr> \<and> lk' = lk\<lparr>lk_mem := b\<rparr>"
        using st False b p nz by (auto simp: stage1_def Let_def kres_iffs reg_pages_def [symmetric])
      have pg: "reg_pages (reg\<lparr>reg_base := base\<rparr>) = reg_pages reg" by (simp add: reg_pages_def)
      have "i < 128" using i(1) pos by (simp add: u32_less_iff)
      then have "reg_units (reg\<lparr>reg_base := base\<rparr>) = {i..<i + unat (reg_pages reg)}"
        using reg_units_addr(2) [of "reg\<lparr>reg_base := base\<rparr>" i] False i(2) pg by simp
      moreover have "region_ok (reg\<lparr>reg_base := base\<rparr>)" using reg i(1,2) pg by (auto simp: region_ok_def)
      ultimately show ?thesis using r i by auto
    qed
  qed
  then show "lk_layouts lk' = lk_layouts lk" "bm_wf LMM_params (lk_mem lk')" "region_ok reg'"
    "bm_used LMM_params (lk_mem lk') = bm_used LMM_params (lk_mem lk) \<union> reg_units reg'"
    "bm_used LMM_params (lk_mem lk) \<inter> reg_units reg' = {}" by blast+
qed

lemma unload_region_units:
  assumes un: "unload_region_locked (lk, s) reg = Inr (reg', lk', s')"
    and wf: "bm_wf LMM_params (lk_mem lk)" and reg: "region_ok reg" "reg_units reg \<subseteq> bm_used LMM_params (lk_mem lk)"
  shows "lk_layouts lk' = lk_layouts lk \<and> bm_wf LMM_params (lk_mem lk') \<and>
    bm_used LMM_params (lk_mem lk') = bm_used LMM_params (lk_mem lk) - reg_units reg"
proof (cases "reg_base reg = 0 \<or> reg_size reg = 0")
  case True
  then show ?thesis using un wf by (auto simp: unload_region_locked_def reg_units_def)
next
  case False
  then obtain i where i: "reg_base reg = unit_addr LMM_params i" "i + unat (reg_pages reg) \<le> 128"
    "0 < reg_pages reg" "reg_units reg = {i..<i + unat (reg_pages reg)}"
    using region_ok_cases [OF reg(1)] by metis
  have c: "i + unat (reg_pages reg) \<le> unat (MAX_UNITS LMM_params)"
    "{i..<i + unat (reg_pages reg)} \<subseteq> bm_used LMM_params (lk_mem lk)" using i(2,4) reg(2) by simp_all
  obtain b where b: "free_units LMM_params (lk_mem lk) (reg_base reg) (reg_pages reg) = Inr b"
    "bm_used LMM_params b = bm_used LMM_params (lk_mem lk) - reg_units reg" "bm_wf LMM_params b"
    using module_space.release_ok [OF wf i(3) c] i(1,4) by auto
  then have "lk' = lk\<lparr>lk_mem := b\<rparr>"
    using un False by (auto simp: unload_region_locked_def Let_def kres_iffs reg_pages_def [symmetric])
  then show ?thesis using b by simp
qed

lemma place_section_base:
  "reg_base (lay_rx (fst (place_section sh i w))) = reg_base (lay_rx (fst w)) \<and>
   reg_base (lay_rw (fst (place_section sh i w))) = reg_base (lay_rw (fst w)) \<and>
   lay_obj (fst (place_section sh i w)) = lay_obj (fst w)"
  by (cases w) (simp add: place_section_def region_append_def Let_def split: access.split)

lemma place_sections_base:
  "place_sections s obj is w = Inr w' \<Longrightarrow>
   reg_base (lay_rx (fst w')) = reg_base (lay_rx (fst w)) \<and> reg_base (lay_rw (fst w')) = reg_base (lay_rw (fst w)) \<and>
   lay_obj (fst w') = lay_obj (fst w)"
proof (induction "is" arbitrary: w)
  case (Cons i "is")
  then obtain sh where "place_sections s obj is (place_section sh i w) = Inr w'" by (auto simp: kres_iffs)
  from Cons.IH [OF this] show ?case by (simp add: place_section_base)
qed simp

lemma align_up_page_mod: "unat (align_up v PAGE_SIZE) mod 4096 = 0"
  by (simp add: unat_align_up_page_wrap)

lemma stage0_regions:
  assumes "stage0 s (layout_init obj) obj = Inr (ok, l)"
  shows "region_ok (lay_rx l) \<and> reg_base (lay_rx l) = 0 \<and> region_ok (lay_rw l) \<and> reg_base (lay_rw l) = 0 \<and> lay_obj l = obj"
proof -
  have init: "reg_base (lay_rx (layout_init obj)) = 0" "reg_base (lay_rw (layout_init obj)) = 0" "lay_obj (layout_init obj) = obj"
    "reg_size (lay_rx (layout_init obj)) = 0" "reg_size (lay_rw (layout_init obj)) = 0"
    by (simp_all add: layout_init_def region_init_def)
  show ?thesis
  proof (cases "sec_hdrs obj = 0 \<or> sec_hdrs_num obj = 0")
    case True
    then show ?thesis using assms init by (auto simp: stage0_def region_ok_def)
  next
    case False
    then obtain l1 mp where "place_sections s obj [0..<unat (sec_hdrs_num obj)]
        (layout_init obj, replicate (unat (sec_hdrs_num obj)) None) = Inr (l1, mp)"
      and l: "l = l1\<lparr>lay_rx := (lay_rx l1)\<lparr>reg_size := align_up (reg_size (lay_rx l1)) PAGE_SIZE\<rparr>,
                     lay_rw := (lay_rw l1)\<lparr>reg_size := align_up (reg_size (lay_rw l1)) PAGE_SIZE\<rparr>,
                     lay_map := Some mp\<rparr>"
      using assms by (auto simp: stage0_def Let_def kres_iffs simp del: upt_Suc)
    from place_sections_base [OF this(1)] l init show ?thesis by (simp add: region_ok_def align_up_page_mod)
  qed
qed

lemma link_layout_units:
  assumes ln: "link_layout tab (lk, s) (layout_init obj) = Some (Inr (ok, l, lk', s'))"
    and wf: "bm_wf LMM_params (lk_mem lk)"
  shows "lk_layouts lk' = lk_layouts lk \<and> bm_wf LMM_params (lk_mem lk') \<and> region_ok (lay_rx l) \<and> region_ok (lay_rw l) \<and>
    bm_used LMM_params (lk_mem lk') = bm_used LMM_params (lk_mem lk) \<union> reg_units (lay_rx l) \<union> reg_units (lay_rw l) \<and>
    bm_used LMM_params (lk_mem lk) \<inter> (reg_units (lay_rx l) \<union> reg_units (lay_rw l)) = {} \<and>
    reg_units (lay_rx l) \<inter> reg_units (lay_rw l) = {}"
proof -
  have obj: "lay_obj (layout_init obj) = obj" by (simp add: layout_init_def)
  obtain ok0 l0 where s0: "stage0 s (layout_init obj) obj = Inr (ok0, l0)"
    using ln by (auto simp: link_layout_def obj bindK_eq_Some)
  note r0 = stage0_regions [OF s0]
  have none: "reg_units (lay_rx l0) = {}" "reg_units (lay_rw l0) = {}" using r0 by (simp_all add: reg_units_def)
  show ?thesis
  proof (cases ok0)
    case False
    then show ?thesis using ln s0 obj wf r0 none by (auto simp: link_layout_def bindK_eq_Some retK_def)
  next
    case True
    then obtain ok1 rx lk1 s1 where s1: "stage1 (lk, s) (lay_rx l0) obj = Inr (ok1, rx, lk1, s1)"
      using ln s0 by (auto simp: link_layout_def obj bindK_eq_Some)
    note r1 = stage1_units [OF s1 wf]
    show ?thesis
    proof (cases ok1)
      case False
      then have "l = l0\<lparr>lay_rx := rx\<rparr> \<and> lk' = lk1"
        using ln s0 s1 True by (auto simp: link_layout_def obj bindK_eq_Some retK_def)
      then show ?thesis using r0 r1 none by auto
    next
      case t1: True
      then obtain ok2 rw lk2 s2 where s2: "stage1 (lk1, s1) (lay_rw l0) obj = Inr (ok2, rw, lk2, s2)"
        using ln s0 s1 True by (auto simp: link_layout_def obj bindK_eq_Some)
      have "bm_wf LMM_params (lk_mem lk1)" using r0 by (intro r1(2)) simp_all
      note r2 = stage1_units [OF s2 this]
      have "l = l0\<lparr>lay_rx := rx, lay_rw := rw\<rparr> \<and> lk' = lk2"
        using ln s0 s1 s2 True t1 by (auto simp: link_layout_def Let_def obj bindK_eq_Some retK_def split: if_splits)
      then show ?thesis using r0 r1 r2 by auto
    qed
  qed
qed


section \<open>The invariant of the linker\<close>

text \<open>
  The pages of the module space in use are those of the layouts in the table, and no two regions
  share one.
\<close>

definition lay_units :: "layout \<Rightarrow> nat set" where
  "lay_units l = reg_units (lay_rx l) \<union> reg_units (lay_rw l)"

definition layout_ok :: "layout \<Rightarrow> bool" where
  "layout_ok l \<longleftrightarrow> region_ok (lay_rx l) \<and> region_ok (lay_rw l) \<and> reg_units (lay_rx l) \<inter> reg_units (lay_rw l) = {}"

definition linker_inv :: "linker \<Rightarrow> bool" where
  "linker_inv lk \<longleftrightarrow> sa_wf (lk_layouts lk) \<and> bm_wf LMM_params (lk_mem lk) \<and>
     (\<forall>i l. sa_map (lk_layouts lk) i = Some l \<longrightarrow> layout_ok l) \<and>
     (\<forall>i j l m. i \<noteq> j \<and> sa_map (lk_layouts lk) i = Some l \<and> sa_map (lk_layouts lk) j = Some m \<longrightarrow>
        lay_units l \<inter> lay_units m = {}) \<and>
     bm_used LMM_params (lk_mem lk) = (\<Union>l \<in> ran (sa_map (lk_layouts lk)). lay_units l)"

lemma linker_invD:
  assumes "linker_inv lk"
  shows "sa_wf (lk_layouts lk)" "bm_wf LMM_params (lk_mem lk)"
    "sa_map (lk_layouts lk) i = Some l \<Longrightarrow> layout_ok l"
    "i \<noteq> j \<Longrightarrow> sa_map (lk_layouts lk) i = Some l \<Longrightarrow> sa_map (lk_layouts lk) j = Some m \<Longrightarrow>
       lay_units l \<inter> lay_units m = {}"
    "bm_used LMM_params (lk_mem lk) = (\<Union>l \<in> ran (sa_map (lk_layouts lk)). lay_units l)"
  using assms unfolding linker_inv_def by blast+

lemma bm_init_LMM: "bm_wf LMM_params (bm_clear (bm_init LMM_params)) \<and> bm_used LMM_params (bm_clear (bm_init LMM_params)) = {}"
proof -
  have len: "length (bitmap (bm_clear (bm_init LMM_params))) = unat (BITMAP_SIZE LMM_params)"
    by (simp add: bm_clear_def bm_init_def)
  have "\<not> bm_bits (bm_clear (bm_init LMM_params)) n" for n
    by (auto simp: bm_bits_def bm_clear_def bm_init_def)
  then have "bm_used LMM_params (bm_clear (bm_init LMM_params)) = {}" by (simp add: bm_used_def)
  then show ?thesis using len LMM_geometry by (simp add: bm_wf_def bm_clear_def)
qed

lemma linker_ctor_inv: "linker_inv linker_ctor"
proof -
  have "sa_wf (lk_layouts linker_ctor) \<and> sa_map (lk_layouts linker_ctor) = Map.empty"
    unfolding linker_ctor_def linker.select_convs by (rule sa_init_wf) simp
  then show ?thesis using bm_init_LMM by (simp add: linker_inv_def) (simp add: linker_ctor_def)
qed

lemma linker_inv_add:
  assumes inv: "linker_inv lk" and fresh: "sa_map (lk_layouts lk) i = None" and l: "layout_ok l"
    and lk': "sa_wf (lk_layouts lk')" "bm_wf LMM_params (lk_mem lk')"
      "sa_map (lk_layouts lk') = (sa_map (lk_layouts lk))(i \<mapsto> l)"
      "bm_used LMM_params (lk_mem lk') = bm_used LMM_params (lk_mem lk) \<union> lay_units l"
      "bm_used LMM_params (lk_mem lk) \<inter> lay_units l = {}"
  shows "linker_inv lk'"
proof -
  have sub: "lay_units m \<inter> lay_units l = {}" if "sa_map (lk_layouts lk) j = Some m" for j m
    using lk'(5) linker_invD(5) [OF inv] that by (auto simp: ran_def)
  have "lay_units m \<inter> lay_units k = {}"
    if "a \<noteq> b" "sa_map (lk_layouts lk') a = Some m" "sa_map (lk_layouts lk') b = Some k" for a b m k
    using that sub [of a m] sub [of b k] linker_invD(4) [OF inv, of a b m k] unfolding lk'(3)
    by (auto split: if_splits)
  moreover have "layout_ok m" if "sa_map (lk_layouts lk') a = Some m" for a m
    using that l linker_invD(3) [OF inv, of a m] unfolding lk'(3) by (auto split: if_splits)
  moreover have "bm_used LMM_params (lk_mem lk') = (\<Union>l \<in> ran (sa_map (lk_layouts lk')). lay_units l)"
    unfolding lk'(3,4) linker_invD(5) [OF inv] ran_map_upd [of "sa_map (lk_layouts lk)" i l, OF fresh] by blast
  ultimately show ?thesis using lk'(1,2) unfolding linker_inv_def by blast
qed

lemma linker_inv_remove:
  assumes inv: "linker_inv lk" and at: "sa_map (lk_layouts lk) i = Some l"
    and lk': "sa_wf (lk_layouts lk')" "bm_wf LMM_params (lk_mem lk')"
      "sa_map (lk_layouts lk') = (sa_map (lk_layouts lk))(i := None)"
      "bm_used LMM_params (lk_mem lk') = bm_used LMM_params (lk_mem lk) - lay_units l"
  shows "linker_inv lk'"
proof -
  have "(\<Union>m \<in> ran (sa_map (lk_layouts lk)). lay_units m) - lay_units l =
    (\<Union>m \<in> ran ((sa_map (lk_layouts lk))(i := None)). lay_units m)" (is "?A = ?B")
  proof
    show "?A \<subseteq> ?B"
    proof
      fix x assume "x \<in> ?A"
      then obtain j m where j: "sa_map (lk_layouts lk) j = Some m" "x \<in> lay_units m" "x \<notin> lay_units l"
        by (auto simp: ran_def)
      then have "j \<noteq> i" using at by auto
      with j(1) have "m \<in> ran ((sa_map (lk_layouts lk))(i := None))" by (intro ranI [of _ j]) simp
      with j(2) show "x \<in> ?B" by blast
    qed
    show "?B \<subseteq> ?A"
    proof
      fix x assume "x \<in> ?B"
      then obtain j m where j: "j \<noteq> i" "sa_map (lk_layouts lk) j = Some m" "x \<in> lay_units m"
        by (auto simp: ran_def split: if_splits)
      then have "x \<notin> lay_units l" using linker_invD(4) [OF inv j(1,2) at] by blast
      with j show "x \<in> ?A" by (auto simp: ran_def)
    qed
  qed
  moreover have "layout_ok m" if "sa_map (lk_layouts lk') a = Some m" for a m
    using that linker_invD(3) [OF inv, of a m] unfolding lk'(3) by (auto split: if_splits)
  moreover have "lay_units m \<inter> lay_units k = {}"
    if "a \<noteq> b" "sa_map (lk_layouts lk') a = Some m" "sa_map (lk_layouts lk') b = Some k" for a b m k
    using that linker_invD(4) [OF inv, of a b m k] unfolding lk'(3) by (auto split: if_splits)
  ultimately show ?thesis
    using lk' linker_invD(5) [OF inv] unfolding linker_inv_def by metis
qed

lemma sa_word: "sa_wf a \<Longrightarrow> i < length (slots a) \<Longrightarrow> unat (word_of_nat i :: u32) = i"
  using sa_wf_length [of a] by (simp add: unat_of_nat_u32 del: unsigned_of_nat)

lemma unload_locked_result:
  assumes inv: "linker_inv lk" and at: "sa_map (lk_layouts lk) i = Some l"
    and un: "unload_locked (lk, s) i = Inr (lk', s')"
  shows "linker_inv lk' \<and> sa_map (lk_layouts lk') = (sa_map (lk_layouts lk))(i := None) \<and>
    bm_used LMM_params (lk_mem lk') = bm_used LMM_params (lk_mem lk) - lay_units l"
proof -
  note wf = linker_invD(1,2) [OF inv]
  have ok: "region_ok (lay_rx l)" "region_ok (lay_rw l)" "reg_units (lay_rx l) \<inter> reg_units (lay_rw l) = {}"
    using linker_invD(3) [OF inv at] by (simp_all add: layout_ok_def)
  have sub: "reg_units (lay_rx l) \<subseteq> bm_used LMM_params (lk_mem lk)" "reg_units (lay_rw l) \<subseteq> bm_used LMM_params (lk_mem lk)"
    using linker_invD(5) [OF inv] at by (auto simp: ran_def lay_units_def)
  have i: "unat (word_of_nat i :: u32) = i"
    using at sa_map_dom [of "lk_layouts lk"] by (intro sa_word [OF wf(1)]) auto
  have get: "sa_get (lk_layouts lk) (word_of_nat i) = Inr l" using sa.get_tab [OF wf(1), of "word_of_nat i"] at i by simp
  obtain rw lk1 s1 where u1: "unload_region_locked (lk, s) (lay_rw l) = Inr (rw, lk1, s1)"
    using un get by (auto simp: unload_locked_def kres_iffs)
  have r1: "lk_layouts lk1 = lk_layouts lk" "bm_wf LMM_params (lk_mem lk1)"
    "bm_used LMM_params (lk_mem lk1) = bm_used LMM_params (lk_mem lk) - reg_units (lay_rw l)"
    using unload_region_units [OF u1 wf(2) ok(2) sub(2)] by blast+
  obtain rx lk2 s2 where u2: "unload_region_locked (lk1, s1) (lay_rx l) = Inr (rx, lk2, s2)"
    using un get u1 by (auto simp: unload_locked_def kres_iffs)
  have "reg_units (lay_rx l) \<subseteq> bm_used LMM_params (lk_mem lk1)" using r1(3) sub(1) ok(3) by blast
  then have r2: "lk_layouts lk2 = lk_layouts lk" "bm_wf LMM_params (lk_mem lk2)"
    "bm_used LMM_params (lk_mem lk2) = bm_used LMM_params (lk_mem lk) - lay_units l"
    using unload_region_units [OF u2 r1(2) ok(1)] r1 by (auto simp: lay_units_def)
  obtain ls where ls: "sa_put (lk_layouts lk2) (word_of_nat i) (l\<lparr>lay_rw := rw, lay_rx := rx\<rparr>) = Inr ls"
    "sa_map ls = (sa_map (lk_layouts lk))(i \<mapsto> l\<lparr>lay_rw := rw, lay_rx := rx\<rparr>)" "sa_wf ls"
    using sa.put_tab [OF wf(1), of "word_of_nat i" "l\<lparr>lay_rw := rw, lay_rx := rx\<rparr>"] at i r2(1) by auto
  have idx: "sa_index_of ls (Some i) = word_of_nat i" using sa_index_of_map [OF ls(3), of i] ls(2) by simp
  have ne: "word_of_nat i \<noteq> npos"
  proof
    assume "word_of_nat i = npos"
    then have "i = 4294967295" using i by (simp add: npos_def)
    then show False using at sa_map_dom [of "lk_layouts lk"] sa_wf_length [OF wf(1)] by auto
  qed
  obtain ls' where ls': "sa_erase ls (word_of_nat i) = Inr (i \<in> dom (sa_map ls), sa_map ls i, ls')"
    "sa_map ls' = (sa_map ls)(i := None)" "sa_wf ls'"
    using sa.erase_tab [OF ls(3), of "word_of_nat i"] i by auto
  have "lk' = lk2\<lparr>lk_layouts := ls'\<rparr>"
    using un get u1 u2 ls(1) idx ne ls'(1) by (simp add: unload_locked_def Let_def kres_iffs)
  moreover have "sa_map ls' = (sa_map (lk_layouts lk))(i := None)" using ls(2) ls'(2) by simp
  ultimately have *: "sa_map (lk_layouts lk') = (sa_map (lk_layouts lk))(i := None)"
    "bm_used LMM_params (lk_mem lk') = bm_used LMM_params (lk_mem lk) - lay_units l"
    "sa_wf (lk_layouts lk')" "bm_wf LMM_params (lk_mem lk')" using r2 ls'(3) by simp_all
  then show ?thesis using linker_inv_remove [OF inv at *(3,4,1,2)] by blast
qed

lemma load_result:
  assumes inv: "linker_inv lk" and ld: "load tab (lk, s) obj = Some (Inr (r, lk', s'))"
  shows "linker_inv lk' \<and> (case r of
      None \<Rightarrow> sa_map (lk_layouts lk') = sa_map (lk_layouts lk) \<and>
        bm_used LMM_params (lk_mem lk') = bm_used LMM_params (lk_mem lk)
    | Some i \<Rightarrow> sa_map (lk_layouts lk) i = None \<and> (\<exists>l. sa_map (lk_layouts lk') = (sa_map (lk_layouts lk))(i \<mapsto> l) \<and>
        bm_used LMM_params (lk_mem lk') = bm_used LMM_params (lk_mem lk) \<union> lay_units l \<and>
        bm_used LMM_params (lk_mem lk) \<inter> lay_units l = {}))"
proof -
  note wf = linker_invD(1,2) [OF inv]
  obtain idx ls where em: "sa_emplace (lk_layouts lk) (layout_init obj) = Inr (idx, ls)"
    using ld by (auto simp: load_def bindK_eq_Some)
  note e = sa.emplace_Inr [OF wf(1) em]
  have fresh: "sa_map (lk_layouts lk) (unat idx) = None" using e(2) by auto
  obtain ok l lk1 s1 where ln: "link_layout tab (lk\<lparr>lk_layouts := ls\<rparr>, s) (layout_init obj) = Some (Inr (ok, l, lk1, s1))"
    using ld em by (auto simp: load_def bindK_eq_Some)
  have u: "lk_layouts lk1 = ls" "bm_wf LMM_params (lk_mem lk1)" "layout_ok l"
    "bm_used LMM_params (lk_mem lk1) = bm_used LMM_params (lk_mem lk) \<union> lay_units l"
    "bm_used LMM_params (lk_mem lk) \<inter> lay_units l = {}"
    using link_layout_units [OF ln] wf(2) by (auto simp: layout_ok_def lay_units_def)
  obtain ls' where ls': "sa_put ls idx l = Inr ls'" "sa_map ls' = (sa_map (lk_layouts lk))(unat idx \<mapsto> l)" "sa_wf ls'"
    using sa.put_tab [OF e(5), of idx l] e(4) by auto
  let ?lk = "lk1\<lparr>lk_layouts := ls'\<rparr>"
  have inv': "linker_inv ?lk" by (rule linker_inv_add [OF inv fresh u(3)]) (use u ls' in simp_all)
  show ?thesis
  proof (cases ok)
    case True
    then have "r = Some (unat idx)" "lk' = ?lk"
      using ld em ln u(1) ls'(1) by (simp_all add: load_def bindK_eq_Some retK_def Let_def)
    then show ?thesis using inv' fresh u ls' by auto
  next
    case False
    then obtain lk2 s2 where un: "unload_locked (?lk, s1) (unat idx) = Inr (lk2, s2)" and r: "r = None" "lk' = lk2"
      using ld em ln u(1) ls'(1) by (auto simp: load_def bindK_eq_Some retK_def Let_def)
    have "sa_map (lk_layouts ?lk) (unat idx) = Some l" using ls'(2) by simp
    from unload_locked_result [OF inv' this un] show ?thesis
      using r fresh u(4,5) ls'(2) by (auto simp: fun_upd_idem)
  qed
qed


definition empty_vmm :: vmm where
  "empty_vmm = \<lparr>phys = (\<lambda>a. 0), cr3 = 0, paging = False,
     vpmm = \<lparr>mem_mngr = bm_init PMM_params, available_frames = 0, used_frames = 0\<rparr>, kernel_dir_phys = 0\<rparr>"

definition bare_object :: elf_object where
  "bare_object = \<lparr>obj_hdr = 0x100000, prog_hdrs = 0x100000, sec_hdrs = 0x100034, prog_hdrs_num = 0, sec_hdrs_num = 1,
     obj_symtab = 0, obj_strtab = 0, obj_dynsym = 0, obj_dynstr = 0\<rparr>"

text \<open>Memory is all zero: the one section header of the object is empty and is skipped.\<close>

lemma empty_vmm_reads:
  "vload8 empty_vmm a = Inr 0" "vread32 empty_vmm a = Inr 0"
  by (simp_all add: vread32_def vload8_def translate_def empty_vmm_def)

lemma bare_link:
  "\<exists>l. link_layout [] (lk, empty_vmm) (layout_init bare_object) = Some (Inr (True, l, lk, empty_vmm))"
  by (simp add: link_layout_def layout_init_def region_init_def stage0_def stage1_def stage2_def bare_object_def
      read_section_header_def empty_vmm_reads place_section_def Let_def align_up_def PAGE_SIZE_def SHT_REL_def retK_def)

lemma bare_load: "\<exists>lk'. load [] (linker_ctor, empty_vmm) bare_object = Some (Inr (Some 0, lk', empty_vmm))"
proof -
  let ?ls = "lk_layouts linker_ctor"
  have "sa_wf ?ls \<and> sa_map ?ls = Map.empty"
    unfolding linker_ctor_def linker.select_convs by (rule sa_init_wf) simp
  then have wf: "sa_wf ?ls" and none: "sa_map ?ls = Map.empty" by blast+
  have "length (slots ?ls) = 64" by (simp add: linker_ctor_def sa_init_def)
  then have "dom (sa_map ?ls) \<noteq> {..<length (slots ?ls)}" using none lessThan_iff [of 0 64] by fastforce
  then obtain i ls where i: "sa_emplace ?ls (layout_init bare_object) = Inr (i, ls)" "\<forall>j < unat i. j \<in> dom (sa_map ?ls)"
    "sa_map ls = (sa_map ?ls)(unat i \<mapsto> layout_init bare_object)" "sa_wf ls"
    using sa.emplace_free [OF wf, of "layout_init bare_object"] none by auto
  have i0: "unat i = 0" using i(2) none by (cases "unat i") auto
  obtain l where l: "link_layout [] (linker_ctor\<lparr>lk_layouts := ls\<rparr>, empty_vmm) (layout_init bare_object) =
      Some (Inr (True, l, linker_ctor\<lparr>lk_layouts := ls\<rparr>, empty_vmm))" using bare_link by blast
  obtain ls' where "sa_put ls i l = Inr ls'" using sa.put_tab [OF i(4), of i l] i(3) by auto
  then show ?thesis using i(1) l i0 by (simp add: load_def retK_def)
qed


section \<open>Placement of sections\<close>

text \<open>The end of a section in its region, as a number, and the sections one after the other.\<close>

definition sec_end :: "ld_section \<Rightarrow> nat" where
  "sec_end sec = unat (sec_reg_off sec) + unat (sec_size sec)"

definition pow2 :: "u32 \<Rightarrow> bool" where
  "pow2 a \<longleftrightarrow> (\<exists>k < 32. a = 2 ^ k)"

lemma unat_pow2: "k < 32 \<Longrightarrow> unat (2 ^ k :: u32) = 2 ^ k"
proof -
  assume k: "k < 32"
  have "unat (push_bit k 1 :: u32) = 2 ^ k"
    using k by (simp only: unsigned_push_bit_eq) (simp add: push_bit_eq_mult take_bit_nat_eq_self)
  then show ?thesis by (simp add: push_bit_eq_mult)
qed

lemma align_up_pow2:
  assumes "pow2 a" "unat v + unat a \<le> 4294967296"
  shows "unat (align_up v a) mod unat a = 0" "v \<le> align_up v a" "unat (align_up v a) < unat v + unat a"
proof -
  obtain k where k: "k < 32" "a = 2 ^ k" using assms(1) by (auto simp: pow2_def)
  have ua: "unat a = 2 ^ k" unfolding k(2) using k(1) by (simp only: unat_pow2)
  have m: "a - 1 = mask k" using k(2) by (simp add: mask_eq_exp_minus_1)
  have pos: "1 \<le> a" by (simp add: u32_le_iff ua)
  have s: "unat (v + a - 1) = unat v + 2 ^ k - 1"
  proof -
    have "unat (a - 1) = 2 ^ k - 1" using pos by (simp add: unat_sub ua)
    moreover have "unat v + unat (a - 1) < 4294967296" using assms(2) ua calculation by (simp add: less_imp_diff_less)
    ultimately have "unat (v + (a - 1)) = unat v + 2 ^ k - 1" by (subst unat_add_u32) simp_all
    then show ?thesis by (simp add: algebra_simps)
  qed
  have e: "unat (align_up v a) = (unat v + 2 ^ k - 1) div 2 ^ k * 2 ^ k"
    unfolding align_up_def m unat_and_not_mask s ..
  show "unat (align_up v a) mod unat a = 0" by (simp add: e ua)
  have rm: "(unat v + 2 ^ k - 1) div 2 ^ k * 2 ^ k + (unat v + 2 ^ k - 1) mod 2 ^ k = unat v + 2 ^ k - 1"
    by (rule div_mult_mod_eq)
  moreover have "(unat v + 2 ^ k - 1) mod 2 ^ k < 2 ^ k" by simp
  ultimately have "unat v \<le> (unat v + 2 ^ k - 1) div 2 ^ k * 2 ^ k" by linarith
  then show "v \<le> align_up v a" by (simp add: u32_le_iff e)
  have "(0 :: nat) < 2 ^ k" by simp
  then have "(unat v + 2 ^ k - 1) div 2 ^ k * 2 ^ k < unat v + 2 ^ k" using rm by linarith
  then show "unat (align_up v a) < unat v + unat a" by (simp add: e ua)
qed


text \<open>
  The sections of a region lie one behind the other, each at a multiple of its alignment, and
  end within the region.
\<close>

definition sections_placed :: "ld_region \<Rightarrow> bool" where
  "sections_placed reg \<longleftrightarrow>
     (\<forall>sec \<in> set (reg_sections reg). sec_end sec \<le> unat (reg_size reg) \<and> unat (sec_reg_off sec) mod unat (sec_align sec) = 0) \<and>
     sorted_wrt (\<lambda>a b. sec_end a \<le> unat (sec_reg_off b)) (reg_sections reg)"

lemma sections_placed_validate:
  assumes "sections_placed reg" "sec \<in> set (reg_sections reg)"
  shows "validate_region_section_bounds reg sec 0"
proof -
  have e: "unat (sec_reg_off sec) + unat (sec_size sec) \<le> unat (reg_size reg)"
    using assms by (auto simp: sections_placed_def sec_end_def)
  moreover have "unat (reg_size reg) < 4294967296" by simp
  ultimately have "unat (sec_reg_off sec + sec_size sec) = unat (sec_reg_off sec) + unat (sec_size sec)"
    by (intro unat_add_u32) linarith
  then show ?thesis using e by (simp add: validate_region_section_bounds_def u32_less_iff u32_le_iff)
qed

lemma region_append_placed:
  assumes pl: "sections_placed reg" and al: "pow2 (sec_align sec)"
    and room: "unat (reg_size reg) + unat (sec_align sec) + unat (sec_size sec) \<le> 4294967296"
  shows "sections_placed (region_append reg sec)"
    "unat (reg_size (region_append reg sec)) < unat (reg_size reg) + unat (sec_align sec) + unat (sec_size sec)"
    "unat (reg_size reg) \<le> unat (reg_size (region_append reg sec))"
proof -
  let ?off = "align_up (reg_size reg) (sec_align sec)"
  have "unat (reg_size reg) + unat (sec_align sec) \<le> 4294967296" using room by linarith
  note a = align_up_pow2 [OF al this]
  have sz: "unat (?off + sec_size sec) = unat ?off + unat (sec_size sec)"
    using a(3) room by (intro unat_add_u32) linarith
  have le: "unat (reg_size reg) \<le> unat ?off" using a(2) by (simp add: u32_le_iff)
  have app: "reg_size (region_append reg sec) = ?off + sec_size sec"
    "reg_sections (region_append reg sec) = reg_sections reg @ [sec\<lparr>sec_reg_off := ?off\<rparr>]"
    by (simp_all add: region_append_def Let_def)
  show "unat (reg_size (region_append reg sec)) < unat (reg_size reg) + unat (sec_align sec) + unat (sec_size sec)"
    "unat (reg_size reg) \<le> unat (reg_size (region_append reg sec))"
    using a(3) le sz by (simp_all add: app)
  show "sections_placed (region_append reg sec)"
    using pl a(1) le sz unfolding sections_placed_def app
    by (auto simp: sorted_wrt_append sec_end_def)
qed

text \<open>The headers whose sections are loaded, the region one goes to, and its share of the space.\<close>

definition loadable :: "section_header \<Rightarrow> bool" where
  "loadable sh \<longleftrightarrow> sh_flags sh AND SHF_ALLOC \<noteq> 0 \<and> sh_type sh \<noteq> SHT_NULL \<and> sh_size sh \<noteq> 0"

definition hdr_region :: "section_header \<Rightarrow> region_id" where
  "hdr_region sh = (if sec_has_flag (new_section sh) SHF_EXECINSTR then RX else RW)"

definition hdr_weight :: "section_header \<Rightarrow> nat" where
  "hdr_weight sh = unat (sec_align (new_section sh)) + unat (sh_size sh)"

lemma new_section_access:
  "sec_access (new_section sh) = (if hdr_region sh = RX then AccRX else if sec_has_flag (new_section sh) SHF_WRITE then AccRW else AccR)"
  "sec_size (new_section sh) = sh_size sh"
  by (simp_all add: new_section_def Let_def hdr_region_def sec_has_flag_def)

lemma place_section_cases:
  "place_section sh i (l, mp) =
     (if loadable sh
      then (set_region l (hdr_region sh) (region_append (lay_region l (hdr_region sh)) (new_section sh)),
            mp[i := Some (hdr_region sh, length (reg_sections (lay_region l (hdr_region sh))))])
      else (l, mp))"
  by (cases "hdr_region sh")
    (auto simp: place_section_def loadable_def Let_def new_section_access access_is_loadable_def set_region_def
      lay_region_def)

text \<open>What the section map says of one header.\<close>

definition section_of :: "section_header \<Rightarrow> ld_section \<Rightarrow> bool" where
  "section_of sh sec \<longleftrightarrow> sec_size sec = sh_size sh \<and> sec_align sec = sec_align (new_section sh) \<and>
     sec_file_off sec = sh_offset sh \<and> sec_kind sec = sec_kind (new_section sh)"

definition map_entry_ok :: "layout \<Rightarrow> section_header \<Rightarrow> sec_map \<Rightarrow> bool" where
  "map_entry_ok l sh e \<longleftrightarrow>
     (if loadable sh
      then (\<exists>k. e = Some (hdr_region sh, k) \<and> k < length (reg_sections (lay_region l (hdr_region sh))) \<and>
             section_of sh (reg_sections (lay_region l (hdr_region sh)) ! k))
      else e = None)"

definition place_inv :: "(nat \<Rightarrow> section_header) \<Rightarrow> nat \<Rightarrow> nat \<Rightarrow> layout \<times> sec_map list \<Rightarrow> bool" where
  "place_inv shs n m w \<longleftrightarrow> length (snd w) = n \<and>
     (\<forall>r. sections_placed (lay_region (fst w) r) \<and> unat (reg_size (lay_region (fst w) r)) \<le> (\<Sum>i<m. hdr_weight (shs i))) \<and>
     (\<forall>i < m. map_entry_ok (fst w) (shs i) (snd w ! i)) \<and> (\<forall>i < n. m \<le> i \<longrightarrow> snd w ! i = None)"

lemma lay_region_set: "lay_region (set_region l r reg) q = (if q = r then reg else lay_region l q)"
  by (cases r; cases q) (simp_all add: lay_region_def set_region_def)

lemma map_entry_ok_append:
  assumes "map_entry_ok l sh e"
  shows "map_entry_ok (set_region l r (region_append (lay_region l r) sec)) sh e"
proof (cases "loadable sh")
  case True
  then obtain k where k: "e = Some (hdr_region sh, k)" "k < length (reg_sections (lay_region l (hdr_region sh)))"
    "section_of sh (reg_sections (lay_region l (hdr_region sh)) ! k)"
    using assms by (auto simp: map_entry_ok_def)
  have "reg_sections (region_append reg sec) = reg_sections reg @ [sec\<lparr>sec_reg_off := align_up (reg_size reg) (sec_align sec)\<rparr>]"
    for reg by (simp add: region_append_def Let_def)
  then have "k < length (reg_sections (lay_region (set_region l r (region_append (lay_region l r) sec)) (hdr_region sh))) \<and>
    section_of sh (reg_sections (lay_region (set_region l r (region_append (lay_region l r) sec)) (hdr_region sh)) ! k)"
    using k(2,3) by (auto simp: lay_region_set nth_append)
  then show ?thesis using True k(1) by (simp add: map_entry_ok_def)
next
  case False
  then show ?thesis using assms by (simp add: map_entry_ok_def)
qed

lemma place_section_inv:
  assumes inv: "place_inv shs n m w" and m: "m < n"
    and al: "loadable (shs m) \<Longrightarrow> pow2 (sec_align (new_section (shs m)))"
    and room: "(\<Sum>i<Suc m. hdr_weight (shs i)) \<le> 4294967296"
  shows "place_inv shs n (Suc m) (place_section (shs m) m w)"
proof -
  obtain l mp where w: "w = (l, mp)" by fastforce
  note I = inv [unfolded place_inv_def w fst_conv snd_conv]
  show ?thesis
  proof (cases "loadable (shs m)")
    case False
    then show ?thesis using I m unfolding place_inv_def w place_section_cases
      by (auto simp: map_entry_ok_def [of _ "shs m"] less_Suc_eq intro: trans_le_add1)
  next
    case True
    let ?r = "hdr_region (shs m)"
    let ?reg = "lay_region l ?r" and ?sec = "new_section (shs m)"
    let ?l = "set_region l ?r (region_append ?reg ?sec)"
    have pl: "sections_placed ?reg" and sm: "unat (reg_size ?reg) \<le> (\<Sum>i<m. hdr_weight (shs i))" using I by blast+
    have "(\<Sum>i<m. hdr_weight (shs i)) + (unat (sec_align ?sec) + unat (sec_size ?sec)) \<le> 4294967296"
      using room by (simp add: hdr_weight_def [of "shs m"] new_section_access)
    then have rm: "unat (reg_size ?reg) + unat (sec_align ?sec) + unat (sec_size ?sec) \<le> 4294967296"
      using sm by linarith
    note ap = region_append_placed [OF pl al [OF True] rm]
    have regs: "sections_placed (lay_region ?l q) \<and> unat (reg_size (lay_region ?l q)) \<le> (\<Sum>i<Suc m. hdr_weight (shs i))" for q
    proof (cases "q = ?r")
      case True
      have "unat (reg_size (region_append ?reg ?sec)) \<le> (\<Sum>i<m. hdr_weight (shs i)) + hdr_weight (shs m)"
        using ap(2) sm by (simp add: hdr_weight_def [of "shs m"] new_section_access)
      then show ?thesis using True ap(1) by (simp add: lay_region_set)
    next
      case False
      then show ?thesis using I by (auto simp: lay_region_set intro: trans_le_add1)
    qed
    have new: "map_entry_ok ?l (shs m) (Some (?r, length (reg_sections ?reg)))"
      using True by (auto simp: map_entry_ok_def lay_region_set region_append_def Let_def section_of_def new_section_def)
    have "place_section (shs m) m w = (?l, mp[m := Some (?r, length (reg_sections ?reg))])"
      using True by (simp add: w place_section_cases)
    then show ?thesis using I m regs new map_entry_ok_append unfolding place_inv_def
      by (auto simp: less_Suc_eq)
  qed
qed

lemma place_sections_inv:
  assumes rd: "\<And>i. i < n \<Longrightarrow> read_section_header s (sec_hdr_at obj i) = Inr (shs i)"
    and al: "\<And>i. i < n \<Longrightarrow> loadable (shs i) \<Longrightarrow> pow2 (sec_align (new_section (shs i)))"
    and room: "(\<Sum>i<n. hdr_weight (shs i)) \<le> 4294967296"
  shows "m \<le> n \<Longrightarrow> place_inv shs n (n - m) w \<Longrightarrow>
    \<exists>w'. place_sections s obj [n - m..<n] w = Inr w' \<and> place_inv shs n n w'"
proof (induction m arbitrary: w)
  case (Suc m)
  let ?i = "n - Suc m"
  have i: "?i < n" "Suc ?i = n - m" using Suc.prems(1) by simp_all
  have "(\<Sum>i<Suc ?i. hdr_weight (shs i)) \<le> (\<Sum>i<n. hdr_weight (shs i))"
    using i(1) by (intro sum_mono2) auto
  then have "place_inv shs n (Suc ?i) (place_section (shs ?i) ?i w)"
    using al [OF i(1)] room by (intro place_section_inv [OF Suc.prems(2) i(1)]) auto
  then show ?case using Suc.IH [of "place_section (shs ?i) ?i w"] Suc.prems(1) rd [OF i(1)] i
    by (simp add: upt_conv_Cons [OF i(1)] del: upt_Suc)
qed simp

lemma sections_placed_grow:
  "sections_placed reg \<Longrightarrow> unat (reg_size reg) \<le> unat z \<Longrightarrow> sections_placed (reg\<lparr>reg_size := z\<rparr>)"
  unfolding sections_placed_def by fastforce

text \<open>
  Property C23 (functional): when the alignments are powers of two and the sections fit in the
  address space together, \<^verbatim>\<open>stage0\<close> puts every section with a size that the file marks as
  allocated into the region its flags call for, at a multiple of its alignment, the sections
  of a region one behind the other without overlap and within the region's whole pages, so
  that the bounds check of \<^verbatim>\<open>stage1\<close> accepts all of them; and the section map finds them.
\<close>

theorem stage0_places_sections:
  assumes "sec_hdrs obj \<noteq> 0" "0 < n" "n = unat (sec_hdrs_num obj)"
    and rd: "\<forall>i < n. read_section_header s (sec_hdr_at obj i) = Inr (shs i)"
    and al: "\<forall>i < n. loadable (shs i) \<longrightarrow> pow2 (sec_align (new_section (shs i)))"
    and room: "(\<Sum>i<n. hdr_weight (shs i)) + 4096 \<le> 4294967296"
  shows "\<exists>l mp. stage0 s (layout_init obj) obj = Inr (True, l) \<and> lay_map l = Some mp \<and> length mp = n \<and>
    (\<forall>r. sections_placed (lay_region l r) \<and> unat (reg_size (lay_region l r)) mod 4096 = 0 \<and>
       (\<forall>sec \<in> set (reg_sections (lay_region l r)). validate_region_section_bounds (lay_region l r) sec 0)) \<and>
    (\<forall>i < n. map_entry_ok l (shs i) (mp ! i))"
proof -
  have init: "place_inv shs n (n - n) (layout_init obj, replicate n None)"
    by (auto simp: place_inv_def layout_init_def region_init_def sections_placed_def lay_region_def split: region_id.split)
  have room': "(\<Sum>i<n. hdr_weight (shs i)) \<le> 4294967296" using room by linarith
  obtain l mp where lm: "place_sections s obj [0..<n] (layout_init obj, replicate n None) = Inr (l, mp)"
    and inv: "place_inv shs n n (l, mp)"
    using place_sections_inv [OF _ _ room' order.refl init, of s obj] rd al by auto
  define l' where "l' = l\<lparr>lay_rx := (lay_rx l)\<lparr>reg_size := align_up (reg_size (lay_rx l)) PAGE_SIZE\<rparr>,
                     lay_rw := (lay_rw l)\<lparr>reg_size := align_up (reg_size (lay_rw l)) PAGE_SIZE\<rparr>,
                     lay_map := Some mp\<rparr>"
  have st: "stage0 s (layout_init obj) obj = Inr (True, l')"
    using assms(1-3) lm by (auto simp: stage0_def Let_def l'_def unat_eq_zero)
  have reg: "lay_region l' r = (lay_region l r)\<lparr>reg_size := align_up (reg_size (lay_region l r)) PAGE_SIZE\<rparr>" for r
    by (cases r) (simp_all add: l'_def lay_region_def)
  have I: "sections_placed (lay_region l r)" "unat (reg_size (lay_region l r)) + 4096 \<le> 4294967296" for r
    using inv room by (auto simp: place_inv_def intro: order.trans)
  have "pow2 PAGE_SIZE" by (auto simp: pow2_def PAGE_SIZE_def intro!: exI [of _ 12])
  then have "unat (reg_size (lay_region l r)) \<le> unat (align_up (reg_size (lay_region l r)) PAGE_SIZE)" for r
    using align_up_pow2(2) [of PAGE_SIZE "reg_size (lay_region l r)"] I(2) [of r] by (simp add: u32_le_iff PAGE_SIZE_def)
  then have pl: "sections_placed (lay_region l' r)" for r unfolding reg by (intro sections_placed_grow I(1))
  moreover have "unat (reg_size (lay_region l' r)) mod 4096 = 0" for r by (simp add: reg align_up_page_mod)
  moreover have "map_entry_ok l' (shs i) (mp ! i)" if "i < n" for i
    using inv that by (simp add: place_inv_def map_entry_ok_def reg)
  ultimately show ?thesis using st inv sections_placed_validate [OF pl]
    by (intro exI [of _ l'] exI [of _ mp]) (auto simp: place_inv_def l'_def)
qed

text \<open>An object with one section of zeros, writable, eight bytes long.\<close>

definition bss_vmm :: vmm where
  "bss_vmm = empty_vmm\<lparr>phys := (\<lambda>a. 0)(0x100038 := 8, 0x10003C := 3, 0x100048 := 8, 0x100054 := 4)\<rparr>"

definition bss_header :: section_header where
  "bss_header = \<lparr>sh_name = 0, sh_type = 8, sh_flags = 3, sh_addr = 0, sh_offset = 0, sh_size = 8, sh_link = 0,
     sh_info = 0, sh_addralign = 4, sh_entsize = 0\<rparr>"

lemma bss_read: "read_section_header bss_vmm (sec_hdr_at bare_object 0) = Inr bss_header"
  by (simp add: read_section_header_def vread32_def vload8_def translate_def bss_vmm_def empty_vmm_def bss_header_def
      sec_hdr_at_def bare_object_def)

text \<open>The theorem at the object with one section.\<close>

theorem stage0_places_sections_witness:
  "\<exists>l mp. stage0 bss_vmm (layout_init bare_object) bare_object = Inr (True, l) \<and> lay_map l = Some mp \<and>
     mp ! 0 = Some (RW, 0) \<and> sec_size (reg_sections (lay_rw l) ! 0) = 8"
proof -
  have n: "sec_hdrs bare_object \<noteq> 0" "1 = unat (sec_hdrs_num bare_object)" by (simp_all add: bare_object_def)
  have sec: "sec_align (new_section bss_header) = 4" by (simp add: new_section_def bss_header_def Let_def)
  have al: "\<forall>i < (1 :: nat). loadable bss_header \<longrightarrow> pow2 (sec_align (new_section bss_header))"
    by (auto simp: sec pow2_def intro!: exI [of _ 2])
  have rd: "\<forall>i < (1 :: nat). read_section_header bss_vmm (sec_hdr_at bare_object i) = Inr bss_header"
    using bss_read by simp
  have room: "(\<Sum>i<(1 :: nat). hdr_weight bss_header) + 4096 \<le> 4294967296"
    by (simp add: hdr_weight_def sec) (simp add: bss_header_def)
  have ld: "loadable bss_header" "hdr_region bss_header = RW"
    by (simp_all add: loadable_def hdr_region_def new_section_def sec_has_flag_def bss_header_def SHF_ALLOC_def
        SHT_NULL_def SHF_EXECINSTR_def Let_def)
  obtain l mp where l: "stage0 bss_vmm (layout_init bare_object) bare_object = Inr (True, l)" "lay_map l = Some mp"
    "map_entry_ok l bss_header (mp ! 0)" "length mp = 1"
    using stage0_places_sections [OF n(1) zero_less_one n(2) rd al room] by auto
  have "sec_hdrs_num bare_object = 1" by (simp add: bare_object_def)
  with l(1,2) n(1) have "mp ! 0 = Some (RW, 0)"
    using bss_read by (auto simp: stage0_def place_section_cases ld layout_init_def region_init_def lay_region_def)
  then show ?thesis using l ld by (auto simp: map_entry_ok_def section_of_def lay_region_def bss_header_def)
qed

section \<open>The bounds of relocations\<close>

text \<open>
  The check that a relocation lies in its section accepts exactly the places
  within the section and those of the last four offsets for which the sum wraps to a number not
  above the size, which lie before the section.
\<close>

theorem rel_offset_check:
  "\<not> rel_offset_oob off sz \<longleftrightarrow> unat off + 4 \<le> unat sz \<or> (4294967292 \<le> unat off \<and> unat off + 4 - 4294967296 \<le> unat sz)"
proof (cases "unat off + 4 < 4294967296")
  case True
  then have "unat (off + 4) = unat off + 4" by (subst unat_add_u32) simp_all
  then show ?thesis using True by (auto simp: rel_offset_oob_def u32_less_iff)
next
  case False
  have b: "unat off < 4294967296" "unat sz < 4294967296" by simp_all
  have "unat (off + 4) = (unat off + 4) mod 4294967296" by (simp add: unat_word_ariths)
  also have "\<dots> = (unat off + 4 - 4294967296) mod 4294967296" using False by (intro le_mod_geq) simp
  also have "\<dots> = unat off + 4 - 4294967296" using b(1) by (intro mod_less) linarith
  finally have "unat (off + 4) = unat off + 4 - 4294967296" .
  moreover have "4294967292 \<le> unat off" "\<not> unat off + 4 \<le> unat sz" using False b by linarith+
  ultimately show ?thesis by (auto simp: rel_offset_oob_def u32_less_iff not_less)
qed

end
