(* ===== verification/Shootdown.thy ===== *)
theory Shootdown
  imports SMP
begin

text \<open>
  The invalidation of stale translations on other cores, \<^verbatim>\<open>mm/vmm.cpp\<close>, first as the code of one
  core and then as a system of cores that use the heap: an allocation runs under an
  \<^verbatim>\<open>InterruptSpinLockGuard\<close> and may map pages, which waits for the other cores to acknowledge.
\<close>

section \<open>The code\<close>

definition shootdown_target :: "smp_core \<Rightarrow> smp_core \<Rightarrow> bool" where
  "shootdown_target self core \<longleftrightarrow>
     \<not> sc_apic_id core = sc_apic_id self \<and> atomic_load (sc_initialized core)"

text \<open>
  The counter and the interrupts that are sent by the core whose stack pointer is \<open>esp\<close>; the
  result says whether the wait for the counter follows.
\<close>

definition flush_remote_tlbs :: "core_manager option \<Rightarrow> mem \<Rightarrow> u32 \<Rightarrow> u32 \<times> apic_hw \<Rightarrow> (bool \<times> u32 \<times> apic_hw) kres" where
  "flush_remote_tlbs manager m esp w =
     (case manager of None \<Rightarrow> Inr (False, w)
      | Some cm \<Rightarrow> bindR (current_anchor m esp) (\<lambda>anchor.
          let core = anchor_core (load_anchor m anchor) in
          if core = 0 then Inr (False, w)
          else (case find (\<lambda>c. sc_addr c = core) (cm_cores cm) of None \<Rightarrow> Inl Undefined
            | Some self \<Rightarrow>
                let targets = filter (shootdown_target self) (cm_cores cm);
                    pending = word_of_nat (length targets);
                    (tlb_shootdown_pending, hw) = w
                in if pending = 0 then Inr (False, w)
                   else Inr (True, atomic_store tlb_shootdown_pending pending,
                     fold (\<lambda>core hw. send_ipi hw (sc_apic_id core) (ucast TLB_SHOOTDOWN_VECTOR)) targets hw))))"

definition tlb_shootdown_handler :: "vmm \<times> u32 \<Rightarrow> vmm \<times> u32" where
  "tlb_shootdown_handler w =
     (load_directory (fst w) (kernel_dir_phys (fst w)), snd (fetch_sub (snd w) 1))"

definition shootdown_done :: "u32 \<Rightarrow> bool" where
  "shootdown_done pending \<longleftrightarrow> \<not> atomic_load pending \<noteq> 0"

text \<open>
  When every core runs and no two have the same identifier, the counter is the number of the
  other cores and each of them is sent one interrupt, in the order of the table.
\<close>

lemma flush_remote_tlbs_all:
  assumes dist: "distinct (map sc_apic_id (cm_cores cm))" and run: "\<forall>c \<in> set (cm_cores cm). sc_initialized c"
    and i: "i < core_count cm" and n: "1 < core_count cm" "core_count cm \<le> MAX_CORES"
    and here: "current_anchor m esp = Inr a" "anchor_core (load_anchor m a) = core" "core \<noteq> 0"
      "find (\<lambda>c. sc_addr c = core) (cm_cores cm) = Some (cm_cores cm ! i)"
  shows "flush_remote_tlbs (Some cm) m esp (p, hw) = Inr (True, word_of_nat (core_count cm - 1),
    fold (\<lambda>core hw. send_ipi hw (sc_apic_id core) (ucast TLB_SHOOTDOWN_VECTOR))
      (take i (cm_cores cm) @ drop (Suc i) (cm_cores cm)) hw)"
proof -
  let ?cs = "cm_cores cm"
  have split: "?cs = take i ?cs @ ?cs ! i # drop (Suc i) ?cs"
    using i by (simp add: core_count_def id_take_nth_drop)
  have all: "filter (shootdown_target (?cs ! i)) xs = xs"
    if "set xs \<subseteq> set ?cs" "sc_apic_id (?cs ! i) \<notin> sc_apic_id ` set xs" for xs
  proof -
    have "sc_apic_id x \<noteq> sc_apic_id (?cs ! i)" if "x \<in> set xs" for x
      using that \<open>sc_apic_id (?cs ! i) \<notin> sc_apic_id ` set xs\<close> by (metis image_eqI)
    then show ?thesis using \<open>set xs \<subseteq> set ?cs\<close> run
      by (auto simp: filter_id_conv shootdown_target_def atomic_load_def)
  qed
  have "distinct (map sc_apic_id (take i ?cs) @ sc_apic_id (?cs ! i) # map sc_apic_id (drop (Suc i) ?cs))"
    using dist split by (metis list.simps(9) map_append)
  then have "filter (shootdown_target (?cs ! i)) (take i ?cs) = take i ?cs"
    "filter (shootdown_target (?cs ! i)) (drop (Suc i) ?cs) = drop (Suc i) ?cs"
    by (intro all; auto dest: in_set_takeD in_set_dropD)+
  then have targets: "filter (shootdown_target (?cs ! i)) ?cs = take i ?cs @ drop (Suc i) ?cs"
    using arg_cong [OF split, of "filter (shootdown_target (?cs ! i))"] by (simp add: shootdown_target_def)
  have len: "length (take i ?cs @ drop (Suc i) ?cs) = core_count cm - 1"
    using i by (simp add: core_count_def)
  have "unat (word_of_nat (core_count cm - 1) :: u32) = core_count cm - 1"
    using n by (intro unat_of_nat_u32) (simp add: MAX_CORES_def)
  then have "unat (word_of_nat (core_count cm - 1) :: u32) \<noteq> 0" using n by linarith
  then have "(word_of_nat (core_count cm - 1) :: u32) \<noteq> 0" by (metis unat_0)
  then show ?thesis
    using here by (simp add: flush_remote_tlbs_def targets Let_def atomic_store_def del: length_append)
      (simp only: len, simp)
qed

section \<open>Cores that share the heap\<close>

text \<open>
  A core is outside the heap, before the lock with its interrupts off, in the protected section,
  or in it and waiting for acknowledgements; \<open>tc_irr\<close> says that the interrupt is latched in its
  controller, \<open>tc_stale\<close> that it may still use the old translation.
\<close>

datatype heap_pc = HOut | HSpin | HIn | HWait

record tlb_core =
  tc_pc :: heap_pc
  tc_if :: bool
  tc_irr :: bool
  tc_stale :: bool

record tlb_sys =
  ts_locked :: bool
  ts_pending :: u32
  ts_cores :: "tlb_core list"

definition irr_count :: "tlb_core list \<Rightarrow> nat" where
  "irr_count cs = length (filter tc_irr cs)"

text \<open>The state after the counter is stored and the interrupts are latched.\<close>

definition send_shootdown :: "nat \<Rightarrow> tlb_core list \<Rightarrow> tlb_core list" where
  "send_shootdown i cs = map (\<lambda>j. if j = i then (cs ! j)\<lparr>tc_pc := HWait\<rparr> else (cs ! j)\<lparr>tc_irr := True, tc_stale := True\<rparr>)
     [0..<length cs]"

inductive tlb_step :: "tlb_sys \<Rightarrow> tlb_sys \<Rightarrow> bool" where
  ts_enter: "i < length (ts_cores s) \<Longrightarrow> tc_pc (ts_cores s ! i) = HOut \<Longrightarrow>
     tlb_step s (s\<lparr>ts_cores := (ts_cores s)[i := (ts_cores s ! i)\<lparr>tc_pc := HSpin, tc_if := False\<rparr>]\<rparr>)"
| ts_acquire: "i < length (ts_cores s) \<Longrightarrow> tc_pc (ts_cores s ! i) = HSpin \<Longrightarrow> \<not> ts_locked s \<Longrightarrow>
     tlb_step s (s\<lparr>ts_locked := True, ts_cores := (ts_cores s)[i := (ts_cores s ! i)\<lparr>tc_pc := HIn\<rparr>]\<rparr>)"
| ts_flush: "i < length (ts_cores s) \<Longrightarrow> tc_pc (ts_cores s ! i) = HIn \<Longrightarrow> 1 < length (ts_cores s) \<Longrightarrow>
     tlb_step s (s\<lparr>ts_pending := word_of_nat (length (ts_cores s) - 1), ts_cores := send_shootdown i (ts_cores s)\<rparr>)"
| ts_ack: "i < length (ts_cores s) \<Longrightarrow> tc_irr (ts_cores s ! i) \<Longrightarrow> tc_if (ts_cores s ! i) \<Longrightarrow>
     tlb_step s (s\<lparr>ts_pending := snd (fetch_sub (ts_pending s) 1),
       ts_cores := (ts_cores s)[i := (ts_cores s ! i)\<lparr>tc_irr := False, tc_stale := False\<rparr>]\<rparr>)"
| ts_done: "i < length (ts_cores s) \<Longrightarrow> tc_pc (ts_cores s ! i) = HWait \<Longrightarrow> shootdown_done (ts_pending s) \<Longrightarrow>
     tlb_step s (s\<lparr>ts_cores := (ts_cores s)[i := (ts_cores s ! i)\<lparr>tc_pc := HIn\<rparr>]\<rparr>)"
| ts_leave: "i < length (ts_cores s) \<Longrightarrow> tc_pc (ts_cores s ! i) = HIn \<Longrightarrow>
     tlb_step s (s\<lparr>ts_locked := False, ts_cores := (ts_cores s)[i := (ts_cores s ! i)\<lparr>tc_pc := HOut, tc_if := True\<rparr>]\<rparr>)"

inductive_cases tlb_stepE: "tlb_step s s'"

definition tlb_start :: "nat \<Rightarrow> tlb_sys" where
  "tlb_start n = \<lparr>ts_locked = False, ts_pending = 0,
     ts_cores = replicate n \<lparr>tc_pc = HOut, tc_if = True, tc_irr = False, tc_stale = False\<rparr>\<rparr>"

inductive tlb_reach :: "nat \<Rightarrow> tlb_sys \<Rightarrow> bool" where
  tr_start: "tlb_reach n (tlb_start n)"
| tr_step: "tlb_reach n s \<Longrightarrow> tlb_step s s' \<Longrightarrow> tlb_reach n s'"

section \<open>Safety\<close>

definition in_heap :: "tlb_core \<Rightarrow> bool" where
  "in_heap c \<longleftrightarrow> tc_pc c = HIn \<or> tc_pc c = HWait"

definition tlb_inv :: "nat \<Rightarrow> tlb_sys \<Rightarrow> bool" where
  "tlb_inv n s \<longleftrightarrow> length (ts_cores s) = n \<and> unat (ts_pending s) = irr_count (ts_cores s) \<and>
     (\<forall>i < n. \<forall>j < n. in_heap (ts_cores s ! i) \<and> in_heap (ts_cores s ! j) \<longrightarrow> i = j) \<and>
     (ts_locked s \<longleftrightarrow> (\<exists>i < n. in_heap (ts_cores s ! i))) \<and>
     (\<forall>i < n. tc_stale (ts_cores s ! i) \<longrightarrow> tc_irr (ts_cores s ! i)) \<and>
     ((\<exists>i < n. tc_irr (ts_cores s ! i)) \<longrightarrow> (\<exists>i < n. tc_pc (ts_cores s ! i) = HWait))"

lemma irr_count_update:
  "i < length cs \<Longrightarrow> irr_count (cs[i := c]) + of_bool (tc_irr (cs ! i)) = irr_count cs + of_bool (tc_irr c)"
proof (induction cs arbitrary: i)
  case (Cons x cs)
  then show ?case by (cases i) (auto simp: irr_count_def)
qed simp

lemma irr_count_0: "irr_count cs = 0 \<longleftrightarrow> (\<forall>i < length cs. \<not> tc_irr (cs ! i))"
  by (simp add: irr_count_def filter_empty_conv all_set_conv_all_nth)


lemma irr_count_card: "irr_count cs = card {j. j < length cs \<and> tc_irr (cs ! j)}"
  by (simp add: irr_count_def length_filter_conv_card)

lemma send_shootdown_nth:
  "j < length cs \<Longrightarrow> send_shootdown i cs ! j =
     (if j = i then (cs ! j)\<lparr>tc_pc := HWait\<rparr> else (cs ! j)\<lparr>tc_irr := True, tc_stale := True\<rparr>)"
  by (simp add: send_shootdown_def)

lemma length_send_shootdown [simp]: "length (send_shootdown i cs) = length cs"
  by (simp add: send_shootdown_def)

lemma irr_count_send:
  assumes "i < length cs" "\<not> tc_irr (cs ! i)"
  shows "irr_count (send_shootdown i cs) = length cs - 1"
proof -
  have "{j. j < length (send_shootdown i cs) \<and> tc_irr (send_shootdown i cs ! j)} = {..<length cs} - {i}"
    using assms by (auto simp: send_shootdown_nth)
  then show ?thesis using assms(1) by (simp add: irr_count_card)
qed

text \<open>A step that changes one core, the lock and the counter: what it must keep.\<close>

lemma tlb_inv_update:
  assumes inv: "tlb_inv n s" and i: "i < n"
    and c: "unat p + of_bool (tc_irr (ts_cores s ! i)) = irr_count (ts_cores s) + of_bool (tc_irr c)"
    and st: "tc_stale c \<longrightarrow> tc_irr c"
    and lk: "in_heap c = in_heap (ts_cores s ! i) \<and> l = ts_locked s \<or> in_heap c \<and> \<not> ts_locked s \<and> l \<or>
      \<not> in_heap c \<and> in_heap (ts_cores s ! i) \<and> \<not> l"
    and w: "tc_pc c \<noteq> HWait \<Longrightarrow> tc_pc (ts_cores s ! i) = HWait \<Longrightarrow> irr_count (ts_cores s) = 0"
    and irr: "tc_irr c \<longrightarrow> tc_irr (ts_cores s ! i)"
  shows "tlb_inv n (s\<lparr>ts_locked := l, ts_pending := p, ts_cores := (ts_cores s)[i := c]\<rparr>)"
proof -
  note I = inv [unfolded tlb_inv_def]
  have n: "length (ts_cores s) = n" using I by blast
  have cnt: "unat p = irr_count ((ts_cores s)[i := c])"
    using irr_count_update [of i "ts_cores s" c] c i n by simp
  have nth: "(ts_cores s)[i := c] ! j = (if j = i then c else ts_cores s ! j)" if "j < n" for j
    using that n by auto
  have mut: "j = k" if "j < n" "k < n" "in_heap ((ts_cores s)[i := c] ! j)" "in_heap ((ts_cores s)[i := c] ! k)" for j k
    using that I lk i unfolding nth [OF that(1)] nth [OF that(2)] by (metis (full_types))
  have lock: "l \<longleftrightarrow> (\<exists>j < n. in_heap ((ts_cores s)[i := c] ! j))"
  proof -
    have "(\<exists>j < n. in_heap ((ts_cores s)[i := c] ! j)) \<longleftrightarrow> in_heap c \<or> (\<exists>j < n. j \<noteq> i \<and> in_heap (ts_cores s ! j))"
      using i n by (metis nth)
    then show ?thesis using I lk i by (metis (full_types))
  qed
  have stI: "\<forall>j < n. tc_stale (ts_cores s ! j) \<longrightarrow> tc_irr (ts_cores s ! j)" using I by blast
  have stl: "tc_stale ((ts_cores s)[i := c] ! j) \<longrightarrow> tc_irr ((ts_cores s)[i := c] ! j)" if "j < n" for j
    using that stI st unfolding nth [OF that] by simp
  have "(\<exists>j < n. tc_pc ((ts_cores s)[i := c] ! j) = HWait)" if "\<exists>j < n. tc_irr ((ts_cores s)[i := c] ! j)"
  proof -
    from that obtain j where j: "j < n" "tc_irr ((ts_cores s)[i := c] ! j)" by blast
    then have j': "tc_irr (ts_cores s ! j)" using irr nth by (auto split: if_splits)
    then obtain k where k: "k < n" "tc_pc (ts_cores s ! k) = HWait" using I j(1) by blast
    show ?thesis
    proof (cases "k = i")
      case True
      have "irr_count (ts_cores s) \<noteq> 0" using j' j(1) n by (auto simp: irr_count_0)
      then have "tc_pc c = HWait" using w k(2) True by auto
      then show ?thesis using nth [OF i] i by auto
    next
      case False
      then show ?thesis using k nth [OF k(1)] by auto
    qed
  qed
  then show ?thesis unfolding tlb_inv_def using n cnt mut lock stl by simp
qed


lemma locked_none [simp]: "s\<lparr>ts_locked := ts_locked s, ts_pending := ts_pending s, ts_cores := cs\<rparr> = s\<lparr>ts_cores := cs\<rparr>"
  by (cases s) simp

lemma tlb_step_inv:
  assumes inv: "tlb_inv n s" and step: "tlb_step s s'" and n: "n < 256"
  shows "tlb_inv n s'"
proof -
  have len: "length (ts_cores s) = n" and pend: "unat (ts_pending s) = irr_count (ts_cores s)"
    and mut: "\<And>i j. i < n \<Longrightarrow> j < n \<Longrightarrow> in_heap (ts_cores s ! i) \<Longrightarrow> in_heap (ts_cores s ! j) \<Longrightarrow> i = j"
    and stl: "\<And>i. i < n \<Longrightarrow> tc_stale (ts_cores s ! i) \<Longrightarrow> tc_irr (ts_cores s ! i)"
    and wait: "\<And>i. i < n \<Longrightarrow> tc_irr (ts_cores s ! i) \<Longrightarrow> \<exists>i < n. tc_pc (ts_cores s ! i) = HWait"
    and lock: "ts_locked s \<longleftrightarrow> (\<exists>i < n. in_heap (ts_cores s ! i))"
    using inv unfolding tlb_inv_def by blast+
  from step show ?thesis
  proof (cases rule: tlb_step.cases)
    case (ts_enter i)
    have "tlb_inv n (s\<lparr>ts_locked := ts_locked s, ts_pending := ts_pending s,
        ts_cores := (ts_cores s)[i := (ts_cores s ! i)\<lparr>tc_pc := HSpin, tc_if := False\<rparr>]\<rparr>)"
      using ts_enter len pend stl by (intro tlb_inv_update [OF inv]) (auto simp: in_heap_def)
    then show ?thesis using ts_enter by simp
  next
    case (ts_acquire i)
    have "tlb_inv n (s\<lparr>ts_locked := True, ts_pending := ts_pending s,
        ts_cores := (ts_cores s)[i := (ts_cores s ! i)\<lparr>tc_pc := HIn\<rparr>]\<rparr>)"
      using ts_acquire len pend stl by (intro tlb_inv_update [OF inv]) (auto simp: in_heap_def)
    then show ?thesis using ts_acquire by (cases s) simp
  next
    case (ts_flush i)
    have i: "i < n" using ts_flush(2) len by simp
    have no_irr: "\<not> tc_irr (ts_cores s ! j)" if jn: "j < n" for j
    proof
      assume "tc_irr (ts_cores s ! j)"
      from wait [OF jn this] obtain k where "k < n" "tc_pc (ts_cores s ! k) = HWait" by blast
      then show False using mut [of k i] i ts_flush(3) by (auto simp: in_heap_def)
    qed
    have nth: "in_heap (send_shootdown i (ts_cores s) ! j) = in_heap (ts_cores s ! j)" if "j < n" for j
      using that len ts_flush(3) by (auto simp: send_shootdown_nth in_heap_def)
    have cnt: "irr_count (send_shootdown i (ts_cores s)) = n - 1"
      using irr_count_send [of i "ts_cores s"] ts_flush(2) no_irr [OF i] len by simp
    have "unat (word_of_nat (n - 1) :: u32) = n - 1" using n by (simp add: unat_of_nat_u32 del: unsigned_of_nat)
    moreover have "tc_pc (send_shootdown i (ts_cores s) ! i) = HWait" using ts_flush(2) by (simp add: send_shootdown_nth)
    moreover have "tc_stale (send_shootdown i (ts_cores s) ! j) \<longrightarrow> tc_irr (send_shootdown i (ts_cores s) ! j)" if "j < n" for j
      using that len stl by (simp add: send_shootdown_nth)
    ultimately show ?thesis
      unfolding tlb_inv_def ts_flush(1) using len nth cnt mut lock i by auto
  next
    case (ts_ack i)
    have i: "i < n" using ts_ack(2) len by simp
    have "irr_count (ts_cores s) \<noteq> 0" using ts_ack(2,3) by (auto simp: irr_count_0)
    then have "unat (ts_pending s - 1) = unat (ts_pending s) - 1" "0 < unat (ts_pending s)"
      using pend unat_sub_u32 [of 1 "ts_pending s"] by (auto simp: u32_le_iff)
    then have "tlb_inv n (s\<lparr>ts_locked := ts_locked s, ts_pending := ts_pending s - 1,
        ts_cores := (ts_cores s)[i := (ts_cores s ! i)\<lparr>tc_irr := False, tc_stale := False\<rparr>]\<rparr>)"
      using ts_ack i pend by (intro tlb_inv_update [OF inv]) (auto simp: in_heap_def)
    then show ?thesis using ts_ack(1) by (cases s) (simp add: fetch_sub_def)
  next
    case (ts_done i)
    have "irr_count (ts_cores s) = 0" using ts_done(4) pend by (simp add: shootdown_done_def atomic_load_def)
    then have "tlb_inv n (s\<lparr>ts_locked := ts_locked s, ts_pending := ts_pending s,
        ts_cores := (ts_cores s)[i := (ts_cores s ! i)\<lparr>tc_pc := HIn\<rparr>]\<rparr>)"
      using ts_done len pend stl by (intro tlb_inv_update [OF inv]) (auto simp: in_heap_def)
    then show ?thesis using ts_done by simp
  next
    case (ts_leave i)
    have "tlb_inv n (s\<lparr>ts_locked := False, ts_pending := ts_pending s,
        ts_cores := (ts_cores s)[i := (ts_cores s ! i)\<lparr>tc_pc := HOut, tc_if := True\<rparr>]\<rparr>)"
      using ts_leave len pend stl by (intro tlb_inv_update [OF inv]) (auto simp: in_heap_def)
    then show ?thesis using ts_leave by (cases s) simp
  qed
qed

lemma tlb_reach_inv: "tlb_reach n s \<Longrightarrow> n < 256 \<Longrightarrow> tlb_inv n s"
proof (induction n s rule: tlb_reach.induct)
  case (tr_start n)
  then show ?case by (auto simp: tlb_inv_def tlb_start_def irr_count_def in_heap_def)
next
  case (tr_step n s s')
  then show ?case by (intro tlb_step_inv [OF _ tr_step.hyps(2)]) simp_all
qed


text \<open>An example: one core maps a page and the other, outside the heap, acknowledges.\<close>

definition flushed :: tlb_sys where
  "flushed = \<lparr>ts_locked = True, ts_pending = 0,
     ts_cores = [\<lparr>tc_pc = HIn, tc_if = False, tc_irr = False, tc_stale = False\<rparr>,
       \<lparr>tc_pc = HOut, tc_if = True, tc_irr = False, tc_stale = False\<rparr>]\<rparr>"

lemma flushed_reach: "tlb_reach 2 flushed"
proof -
  let ?c = "\<lambda>pc i r. \<lparr>tc_pc = pc, tc_if = i, tc_irr = r, tc_stale = r\<rparr>"
  let ?s1 = "\<lparr>ts_locked = False, ts_pending = 0, ts_cores = [?c HSpin False False, ?c HOut True False]\<rparr>"
  let ?s3 = "\<lparr>ts_locked = True, ts_pending = 1, ts_cores = [?c HWait False False, ?c HOut True True]\<rparr>"
  let ?s4 = "\<lparr>ts_locked = True, ts_pending = 0, ts_cores = [?c HWait False False, ?c HOut True False]\<rparr>"
  have r: "tlb_reach 2 (tlb_start 2)" by (rule tr_start)
  have "tlb_step (tlb_start 2) ?s1" using ts_enter [of 0 "tlb_start 2"] by (simp add: tlb_start_def numeral_2_eq_2)
  with r have "tlb_reach 2 ?s1" by (rule tr_step)
  moreover have "tlb_step ?s1 flushed" using ts_acquire [of 0 ?s1] by (simp add: flushed_def)
  ultimately have "tlb_reach 2 flushed" by (rule tr_step)
  moreover have "tlb_step flushed ?s3" using ts_flush [of 0 flushed] by (simp add: send_shootdown_def flushed_def)
  ultimately have "tlb_reach 2 ?s3" by (rule tr_step)
  moreover have "tlb_step ?s3 ?s4" using ts_ack [of 1 ?s3] by (simp add: fetch_sub_def)
  ultimately have "tlb_reach 2 ?s4" by (rule tr_step)
  moreover have "tlb_step ?s4 flushed"
    using ts_done [of 0 ?s4] by (simp add: flushed_def shootdown_done_def atomic_load_def)
  ultimately show ?thesis by (rule tr_step)
qed


section \<open>Progress and deadlock\<close>

text \<open>While every core that has not acknowledged has its interrupts on, the wait ends.\<close>

lemma shootdown_progress:
  assumes "tlb_inv n s" "n < 256" "\<forall>j < n. tc_irr (ts_cores s ! j) \<longrightarrow> tc_if (ts_cores s ! j)"
  shows "\<exists>s'. tlb_step\<^sup>*\<^sup>* s s' \<and> shootdown_done (ts_pending s') \<and>
    map tc_pc (ts_cores s') = map tc_pc (ts_cores s)"
  using assms
proof (induction "irr_count (ts_cores s)" arbitrary: s)
  case 0
  then have "unat (ts_pending s) = 0" by (simp add: tlb_inv_def)
  then show ?case by (intro exI [of _ s]) (simp add: shootdown_done_def atomic_load_def unat_eq_zero)
next
  case (Suc k)
  have len: "length (ts_cores s) = n" using Suc.prems(1) by (simp add: tlb_inv_def)
  obtain j where j: "j < n" "tc_irr (ts_cores s ! j)" using Suc.hyps(2) irr_count_0 [of "ts_cores s"] len by auto
  define c where "c = (ts_cores s ! j)\<lparr>tc_irr := False, tc_stale := False\<rparr>"
  define t where "t = s\<lparr>ts_pending := snd (fetch_sub (ts_pending s) 1), ts_cores := (ts_cores s)[j := c]\<rparr>"
  have step: "tlb_step s t" unfolding t_def c_def using j Suc.prems(3) len by (intro ts_ack) auto
  have inv: "tlb_inv n t" by (rule tlb_step_inv [OF Suc.prems(1) step Suc.prems(2)])
  have k: "k = irr_count (ts_cores t)"
    using irr_count_update [of j "ts_cores s" c] j len Suc.hyps(2) by (simp add: t_def c_def)
  have "tc_irr (ts_cores t ! i) \<longrightarrow> tc_if (ts_cores t ! i)" if "i < n" for i
    using that Suc.prems(3) j len by (cases "i = j") (auto simp: t_def c_def)
  with Suc.hyps(1) [OF k inv Suc.prems(2)] obtain s' where
    s': "tlb_step\<^sup>*\<^sup>* t s'" "shootdown_done (ts_pending s')" "map tc_pc (ts_cores s') = map tc_pc (ts_cores t)" by blast
  have "map tc_pc (ts_cores t) = map tc_pc (ts_cores s)"
    using j(1) len by (auto simp: t_def c_def intro!: nth_equalityI simp: nth_list_update)
  then show ?case using s' step by (intro exI [of _ s']) auto
qed

text \<open>
  Property C26 (liveness): two cores that allocate at the same time can stop each other forever.
  One holds the lock of the heap and waits for the other to acknowledge; the other has turned
  its interrupts off before it spins for that lock, so it never acknowledges. The state is
  reachable and no step leaves it.
\<close>

theorem heap_shootdown_deadlock:
  "\<exists>s. tlb_reach 2 s \<and> tc_pc (ts_cores s ! 0) = HWait \<and> tc_pc (ts_cores s ! 1) = HSpin \<and> \<not> (\<exists>s'. tlb_step s s')"
proof -
  let ?c = "\<lambda>pc i r. \<lparr>tc_pc = pc, tc_if = i, tc_irr = r, tc_stale = r\<rparr>"
  let ?s1 = "\<lparr>ts_locked = False, ts_pending = 0, ts_cores = [?c HSpin False False, ?c HOut True False]\<rparr>"
  let ?s2 = "\<lparr>ts_locked = True, ts_pending = 0, ts_cores = [?c HIn False False, ?c HOut True False]\<rparr>"
  let ?s3 = "\<lparr>ts_locked = True, ts_pending = 0, ts_cores = [?c HIn False False, ?c HSpin False False]\<rparr>"
  let ?s4 = "\<lparr>ts_locked = True, ts_pending = 1, ts_cores = [?c HWait False False, ?c HSpin False True]\<rparr>"
  have r: "tlb_reach 2 (tlb_start 2)" by (rule tr_start)
  have "tlb_step (tlb_start 2) ?s1"
    using ts_enter [of 0 "tlb_start 2"] by (simp add: tlb_start_def numeral_2_eq_2)
  with r have "tlb_reach 2 ?s1" by (rule tr_step)
  moreover have "tlb_step ?s1 ?s2" using ts_acquire [of 0 ?s1] by simp
  ultimately have "tlb_reach 2 ?s2" by (rule tr_step)
  moreover have "tlb_step ?s2 ?s3" using ts_enter [of 1 ?s2] by simp
  ultimately have "tlb_reach 2 ?s3" by (rule tr_step)
  moreover have "tlb_step ?s3 ?s4" using ts_flush [of 0 ?s3] by (simp add: send_shootdown_def)
  ultimately have "tlb_reach 2 ?s4" by (rule tr_step)
  moreover have "\<not> tlb_step ?s4 s'" for s'
    by (auto elim!: tlb_stepE simp: less_Suc_eq shootdown_done_def atomic_load_def)
  ultimately show ?thesis by (intro exI [of _ ?s4]) simp
qed

end
