(* ===== verification/Spec2Isabelle.thy ===== *)
theory Spec2Isabelle
  imports Kernel_Init Scheduler_Life Memory_Tests Compile_Time Registers CList_Walks Printf Shared_Ptr Linker Shootdown
begin

text \<open>
  This library models OSPP, a kernel for the 32-bit x86 with several cores, and proves what its parts
  promise each other. File names are relative to \<^verbatim>\<open>src/kernel\<close> and \<^verbatim>\<open>src/klibcpp\<close>; \<^verbatim>\<open>mm/pmm.cpp\<close>
  is \<^verbatim>\<open>src/kernel/src/mm/pmm.cpp\<close>, \<^verbatim>\<open>bitmap.hpp\<close> is \<^verbatim>\<open>src/klibcpp/include/klibcpp/bitmap.hpp\<close>.

  \<^bold>\<open>The program.\<close> The boot loader enters \<^verbatim>\<open>cold_start\<close>, which sets up a stack and calls
  \<^verbatim>\<open>kernel_early_main\<close>; \<^verbatim>\<open>Kernel::init\<close> then brings the parts up in order. The legacy interrupt
  controllers, the timer, the segment table and the interrupt table come first. The physical memory manager reads the memory map of the
  boot loader and keeps one bit for every 4 KiB frame. The virtual memory manager takes frames from it
  for page tables, which it edits through a recursive window once paging is on. The heap grows and
  shrinks a region of mapped pages and serves \<^verbatim>\<open>new\<close> and \<^verbatim>\<open>delete\<close>. ACPI tables tell the interrupt
  controllers where interrupts go and which cores exist; the other cores are started through a
  trampoline below 1 MiB. A timer interrupt runs the handlers of the interval timer, among them
  the scheduler, which switches tasks by exchanging the saved interrupt frame. The module linker loads
  relocatable ELF objects into a part of the address space that it hands out page by page. Everything
  that several cores share is behind a spin lock, and a change of a mapping is announced to the other
  cores by an interrupt that each has to acknowledge.

  \<^bold>\<open>Shared vocabulary.\<close>
  \<^item> \<^verbatim>\<open>Kernel_Prelude\<close>: the integer types as words; the type of a run (an error or a result), where
    the error is a call of \<^verbatim>\<open>panic\<close>, a failed assertion, a page fault or a use of memory that was
    given up; \<^verbatim>\<open>krun\<close>, a run that may also never end; the lemmas on words, lists and rounding that
    the components share.
  \<^item> \<^verbatim>\<open>Machine\<close>: byte-addressed memory with little-endian loads and stores that wrap at 4 GiB.

  \<^bold>\<open>Memory.\<close>
  \<^item> \<^verbatim>\<open>Layout\<close> (\<^verbatim>\<open>mm/layout.hpp\<close>): the table of virtual regions and its compile-time check; no address
    belongs to two regions.
  \<^item> \<^verbatim>\<open>Bitmap\<close> (\<^verbatim>\<open>bitmap.hpp\<close>): the allocator of units. Its locale \<^verbatim>\<open>unit_allocator\<close> states the
    contract (first fit, exact release, a counter that is the number of free units) that \<^verbatim>\<open>PMM\<close> and
    \<^verbatim>\<open>Linker\<close> rely on; it is interpreted there for the bitmaps these two own.
  \<^item> \<^verbatim>\<open>PMM\<close> (\<^verbatim>\<open>mm/pmm.cpp\<close>, \<^verbatim>\<open>multiboot_utils.hpp\<close>): what \<^verbatim>\<open>init\<close> leaves free, exactly; that no frame
    of the kernel or of a module is ever handed out; the accounting of frames.
  \<^item> \<^verbatim>\<open>VMM\<close> (\<^verbatim>\<open>mm/vmm.cpp\<close>): page tables as words in physical memory and the two-level walk of the
    processor as a function of them. Every operation is related to that walk: a call of \<^verbatim>\<open>map_page\<close>
    changes one translation and no other, \<^verbatim>\<open>unmap_page\<close> takes it back.
  \<^item> \<^verbatim>\<open>Shootdown\<close>: the invalidation protocol between cores as a step relation, with its safety
    (nothing stale when it returns) and the deadlock that two cores can reach when both hold
    interrupts off.
  \<^item> \<^verbatim>\<open>CList\<close> and \<^verbatim>\<open>CList_Walks\<close> (\<^verbatim>\<open>cllist.hpp\<close>): intrusive lists in memory, refined to sequences; the loops
    over them.
  \<^item> \<^verbatim>\<open>Heap\<close> and \<^verbatim>\<open>Heap_Aligned\<close> (\<^verbatim>\<open>mm/heap.cpp\<close>): chunks with boundary tags in virtual memory, the
    free list sorted by size. The invariant is that the free list is a well-formed list of chunks
    that do not overlap; allocation is a best fit, release merges neighbours, the two cancel,
    aligned allocation trips no assertion. Two flaws of the boundary tags are shown by concrete runs.
  \<^item> \<^verbatim>\<open>Boot\<close> and \<^verbatim>\<open>Kernel_Main\<close> (\<^verbatim>\<open>kernel.cpp\<close>): the memory part of \<^verbatim>\<open>Kernel::init\<close> composed of the above,
    and \<^verbatim>\<open>operator new\<close> and \<^verbatim>\<open>operator delete\<close> on the state it leaves.
  \<^item> \<^verbatim>\<open>Kernel_Init\<close> (\<^verbatim>\<open>kernel.cpp\<close>): \<^verbatim>\<open>Kernel::init\<close> from its start to the construction of the heap, on the
    tables, the controllers and memory together, and the destructor of \<^verbatim>\<open>Kernel\<close>. Every gate leads
    to its wrapper, and the controllers are off the exception vectors, before memory is touched.

  \<^bold>\<open>Interrupts, time and tasks.\<close>
  \<^item> \<^verbatim>\<open>GDT\<close> (\<^verbatim>\<open>int/gdt.cpp\<close>), \<^verbatim>\<open>IDT\<close> (\<^verbatim>\<open>int/idt.cpp\<close>, \<^verbatim>\<open>driver/pic.hpp\<close>, \<^verbatim>\<open>io/ports.hpp\<close>): descriptors, gates,
    dispatch to handlers, end-of-interrupt signals, and the assembly stub that saves and restores
    the registers.
  \<^item> \<^verbatim>\<open>Static_Array\<close> (\<^verbatim>\<open>static_slot.hpp\<close>, \<^verbatim>\<open>static_array.hpp\<close>, \<^verbatim>\<open>slot_iterator.hpp\<close>): tables of slots. The locale
    \<^verbatim>\<open>slot_table\<close> is the contract that clients of such a table use.
  \<^item> \<^verbatim>\<open>PIT\<close> (\<^verbatim>\<open>driver/pit.cpp\<close>): which handlers a tick runs, and in which order.
  \<^item> \<^verbatim>\<open>Scheduler\<close> (\<^verbatim>\<open>sched/scheduler.cpp\<close>): the task table; \<^verbatim>\<open>schedule\<close> refines an abstract round robin,
    saves and restores frames, and lets every ready task run within 256 ticks. \<^verbatim>\<open>Scheduler_Life\<close>: the
    typing of the table of tasks from the constructor on, over every sequence of task creations
    and interrupts. \<^verbatim>\<open>Task_Switch\<close>: the path from the interrupt through the stub, the dispatcher and
    the scheduler back to a task, on the stack in memory; it exchanges all registers but leaves the
    processor on the interrupted stack.
  \<^item> \<^verbatim>\<open>ACPI\<close>, \<^verbatim>\<open>APIC\<close> (\<^verbatim>\<open>sys/acpi.hpp\<close>, \<^verbatim>\<open>sys/apic.hpp\<close>): finding and checking the firmware tables, the walk
    over the MADT, the redirection of the legacy interrupt lines. \<^verbatim>\<open>Registers\<close> (\<^verbatim>\<open>register.hpp\<close>): the
    operators on device registers; the locale \<^verbatim>\<open>register_cell\<close> is the contract of a register that
    keeps what is written, which those of both controllers fulfil.
  \<^item> \<^verbatim>\<open>Core_Stack\<close>, \<^verbatim>\<open>SMP\<close>, \<^verbatim>\<open>Startup\<close> (\<^verbatim>\<open>sys/smp.hpp\<close>, \<^verbatim>\<open>sys/smp.cpp\<close>, \<^verbatim>\<open>sys/smp_ll.cpp\<close>, \<^verbatim>\<open>boot.cpp\<close>): aligned
    stacks from whose pointer a core finds itself, the start of the other cores, and the code that
    takes them from real mode to paged protected mode.
  \<^item> \<^verbatim>\<open>Sync\<close> (\<^verbatim>\<open>atomic.hpp\<close>, \<^verbatim>\<open>iguard.hpp\<close>, \<^verbatim>\<open>spinlock.hpp\<close>): atomic operations, and cores that compete for a
    lock as a step relation with mutual exclusion. The other theories use it by taking the body of
    a locked operation as one step.

  \<^bold>\<open>Modules, devices and the run-time library.\<close>
  \<^item> \<^verbatim>\<open>ELF\<close> (\<^verbatim>\<open>klibcpp/elf.hpp\<close>, \<^verbatim>\<open>sys/kexp.cpp\<close>) and \<^verbatim>\<open>Linker\<close> (\<^verbatim>\<open>sys/ld.cpp\<close>, \<^verbatim>\<open>sys/module.hpp\<close>): symbols,
    placement of sections, relocation, and the accounting of module pages through loads, refused
    loads and unloads.
  \<^item> \<^verbatim>\<open>Display\<close>, \<^verbatim>\<open>Serial\<close> (\<^verbatim>\<open>driver/early_display.cpp\<close>, \<^verbatim>\<open>driver/serial.cpp\<close>): the text screen and the serial ports.
  \<^item> \<^verbatim>\<open>CString\<close>, \<^verbatim>\<open>Printf\<close>, \<^verbatim>\<open>Runtime\<close>, \<^verbatim>\<open>Shared_Ptr\<close>, \<^verbatim>\<open>Kstd\<close> (\<^verbatim>\<open>cstring.cpp\<close>, \<^verbatim>\<open>printf_impl.cpp\<close>, \<^verbatim>\<open>log.hpp\<close>,
    \<^verbatim>\<open>cstdlib.cpp\<close>, \<^verbatim>\<open>hash.hpp\<close>, \<^verbatim>\<open>crc32.hpp\<close>, \<^verbatim>\<open>icxxabi.cpp\<close>, \<^verbatim>\<open>kapi.hpp\<close>, \<^verbatim>\<open>memory.hpp\<close>, \<^verbatim>\<open>kstd.cpp\<close>): strings in memory,
    the format interpreter and its sinks, division and checksums, reference counts, the stack trace.
  \<^item> \<^verbatim>\<open>Self_Tests\<close> and \<^verbatim>\<open>Memory_Tests\<close> (\<^verbatim>\<open>ktest/engine.hpp\<close>, \<^verbatim>\<open>ktest/builtin.hpp\<close>): the tests that the kernel runs on
    itself, as programs over the models of the parts they call. Those of the containers, the locks,
    the shared pointers and the exit handlers pass, and so do those of the physical and the virtual memory
    manager, on the memory that boot sets up for any memory map with a few free frames. \<^verbatim>\<open>Compile_Time\<close>
    (\<^verbatim>\<open>ktest/compile_time.hpp\<close>): the values the code asserts at compile time are those of the models.

  \<^bold>\<open>Conventions.\<close> An object is a record and a method a function from the record to the record it
  leaves. Every panic, assertion and fault is an error value, so that a theorem that a run succeeds
  says that none of them happens. Integers keep their width wherever the code computes with them;
  an index that the code bounds by a table is a natural number. Hardware that answers (ports, the
  local interrupt controller, the serial controller) is an argument.

  \<^bold>\<open>Loops.\<close> A loop over a table is structural recursion. A loop with a bound that is not structural
  has a termination proof. A loop that may run forever (the walk over free chunks, over the entries
  of the MADT, over the memory map) is a partial function whose value is \<open>None\<close> when it does not end;
  the theorems then state that it does return, and with what. There is no fuel.

  \<^bold>\<open>Not modelled.\<close>
  \<^item> Floating point: \<^verbatim>\<open>ftoa\<close>, the functions of \<^verbatim>\<open>cmath.cpp\<close> on doubles and \<^verbatim>\<open>ByteConverter\<close>. The conversion of
    a double is an argument of the format interpreter.
  \<^item> \<^verbatim>\<open>Kernel::init\<close> after the construction of the heap as one sequence: its calls are modelled with
    their components, on memories that are abstracted differently there (chunk headers, stacks, page
    tables, module images), and from \<^verbatim>\<open>sti\<close> on other cores and interrupts run between them.
  \<^item> Log lines, and waits whose only effect is time.
  \<^item> The templates of \<^verbatim>\<open>type_traits.hpp\<close> and \<^verbatim>\<open>utility.hpp\<close>, which the compiler resolves.
  \<^item> The self tests \<^verbatim>\<open>raw-new-delete\<close>, \<^verbatim>\<open>heap-reuse-and-alignment\<close> and \<^verbatim>\<open>heap-coalesce\<close>, which fill blocks with
    data before they release them, where the theorems on the heap cover a release right after the
    allocation; \<^verbatim>\<open>task-execution\<close>, which waits for real time; \<^verbatim>\<open>byte-converter\<close>, which is floating point;
    the assertions of \<^verbatim>\<open>compile_time.hpp\<close> on types. The example module, which only prints.
  \<^item> Weak memory: memory is sequentially consistent, which the locked operations of the code ensure.
\<close>

end
